(* ===== verification/Prelude.thy ===== *)
theory Prelude
  imports Main "HOL-Library.Word"
begin

text \<open>
  Shared vocabulary of the development: the machine types of the C++ sources, the
  outcome type of code that can fail, the byte-level view of trivially copyable objects
  (what \<open>memcpy\<close> reads and writes on a machine of either byte order), and
  the list lemmas the components use.

  Conventions. An unsigned \<open>w\<close>-bit integer is a \<open>w word\<close>. A \<open>float\<close> is carried
  as its 32-bit object representation, since the programs modelled here only copy it.
  A computation that can assert, throw, trap or abort returns \<open>'a result\<close>, with
  \<open>Inl\<close> naming the way it failed.
\<close>

section \<open>Machine types and outcomes\<close>

unbundle bit_operations_syntax

type_synonym byte = "8 word"
type_synonym uint8 = "8 word"
type_synonym uint16 = "16 word"
type_synonym uint32 = "32 word"
type_synonym uint64 = "64 word"
type_synonym float32 = "32 word"

text \<open>The ways in which a piece of the program can stop without a normal result.\<close>

datatype fault =
    Assert_failed      \<comment> \<open>\<open>assert\<close> of the C library\<close>
  | Out_of_bounds      \<comment> \<open>an access outside an array, vector or span (undefined behaviour)\<close>
  | Out_of_range       \<comment> \<open>\<open>std::out_of_range\<close> thrown by \<open>at\<close>\<close>
  | Invalid_argument   \<comment> \<open>\<open>std::invalid_argument\<close>\<close>
  | Json_exception     \<comment> \<open>an exception of the JSON library\<close>
  | Trap               \<comment> \<open>\<open>raise(SIGTRAP)\<close> of \<open>LOG_ASSERT\<close>\<close>
  | Aborted            \<comment> \<open>\<open>abort()\<close>, also through \<open>ESP_ERROR_CHECK\<close>\<close>
  | Bad_optional_access \<comment> \<open>\<open>value()\<close> of an empty \<open>std::optional\<close>\<close>
  | Bad_function_call  \<comment> \<open>call of an empty \<open>std::function\<close>\<close>
  | Use_after_free     \<comment> \<open>access to an object whose owner has been destroyed\<close>

type_synonym 'a result = "fault + 'a"

text \<open>Sequencing: the first failure is the outcome, as with an exception or an abort.\<close>

definition rbind :: "'a result \<Rightarrow> ('a \<Rightarrow> 'b result) \<Rightarrow> 'b result" where
  "rbind m f = (case m of Inl e \<Rightarrow> Inl e | Inr x \<Rightarrow> f x)"

lemma rbind_Inl [simp]: "rbind (Inl e) f = Inl e"
  by (simp add: rbind_def)

lemma rbind_Inr [simp]: "rbind (Inr x) f = f x"
  by (simp add: rbind_def)

lemma rbind_eq_Inr_iff: "rbind m f = Inr y \<longleftrightarrow> (\<exists>x. m = Inr x \<and> f x = Inr y)"
  by (cases m) auto

lemma rbind_cong [fundef_cong]:
  "m = m' \<Longrightarrow> (\<And>x. m' = Inr x \<Longrightarrow> f x = f' x) \<Longrightarrow> rbind m f = rbind m' f'"
  by (cases m') auto

text \<open>Unchecked indexing, with the out-of-range case made visible.\<close>

definition nth_chk :: "'a list \<Rightarrow> nat \<Rightarrow> 'a result" where
  "nth_chk xs i = (if i < length xs then Inr (xs ! i) else Inl Out_of_bounds)"

lemma nth_chk_ok [simp]: "i < length xs \<Longrightarrow> nth_chk xs i = Inr (xs ! i)"
  by (simp add: nth_chk_def)

lemma nth_chk_bad [simp]: "\<not> i < length xs \<Longrightarrow> nth_chk xs i = Inl Out_of_bounds"
  by (simp add: nth_chk_def)

lemma nth_chk_eq_Inr_iff: "nth_chk xs i = Inr x \<longleftrightarrow> i < length xs \<and> xs ! i = x"
  by (simp add: nth_chk_def)

section \<open>Arithmetic on floats\<close>

text \<open>
  The operations on \<open>float\<close> are a parameter: conversion from and to integers, the arithmetic, the
  comparison and \<open>std::round\<close> and \<open>std::lerp\<close>. \<open>std::clamp\<close> is defined by the comparison.
\<close>

record float_ops =
  f_of_int :: "int \<Rightarrow> float32"
  f_to_int :: "float32 \<Rightarrow> int"
  f_mul :: "float32 \<Rightarrow> float32 \<Rightarrow> float32"
  f_div :: "float32 \<Rightarrow> float32 \<Rightarrow> float32"
  f_lt :: "float32 \<Rightarrow> float32 \<Rightarrow> bool"
  f_ge :: "float32 \<Rightarrow> float32 \<Rightarrow> bool"
  f_round :: "float32 \<Rightarrow> float32"
  f_lerp :: "float32 \<Rightarrow> float32 \<Rightarrow> float32 \<Rightarrow> float32"

definition std_clamp :: "float_ops \<Rightarrow> float32 \<Rightarrow> float32 \<Rightarrow> float32 \<Rightarrow> float32" where
  "std_clamp fo v lo hi = (if f_lt fo v lo then lo else if f_lt fo hi v then hi else v)"

text \<open>The literals \<open>0.0f\<close>, \<open>1.0f\<close> and \<open>100.0f\<close> as single-precision numbers.\<close>

abbreviation (input) float_0 :: float32 where "float_0 \<equiv> 0"
abbreviation (input) float_1 :: float32 where "float_1 \<equiv> 0x3F800000"
abbreviation (input) float_100 :: float32 where "float_100 \<equiv> 0x42C80000"

text \<open>Integers in the place of floats, an instance for concrete runs.\<close>

definition int_floats :: float_ops where
  "int_floats =
     \<lparr>f_of_int = word_of_int, f_to_int = sint, f_mul = (*), f_div = (\<lambda>x y. x div y), f_lt = (<), f_ge = (\<ge>),
      f_round = id, f_lerp = (\<lambda>x y t. x)\<rparr>"

text \<open>The invariants of the components are collected under this name.\<close>

named_theorems inv_intros \<open>preservation of component invariants\<close>

section \<open>Maps and sizes\<close>

text \<open>\<open>emplace\<close> and \<open>try_emplace\<close> of \<open>std::unordered_map\<close>: an existing entry is kept.\<close>

definition map_emplace :: "'k \<Rightarrow> 'v \<Rightarrow> ('k \<rightharpoonup> 'v) \<Rightarrow> ('k \<rightharpoonup> 'v)" where
  "map_emplace k v m = (case m k of None \<Rightarrow> m(k \<mapsto> v) | Some _ \<Rightarrow> m)"

lemma map_emplace_fresh [simp]: "m k = None \<Longrightarrow> map_emplace k v m = m(k \<mapsto> v)"
  by (simp add: map_emplace_def)

lemma map_emplace_present [simp]: "m k = Some w \<Longrightarrow> map_emplace k v m = m"
  by (simp add: map_emplace_def)

lemma dom_map_emplace [simp]: "dom (map_emplace k v m) = insert k (dom m)"
  by (auto simp: map_emplace_def split: option.splits)

definition map_at :: "('k \<rightharpoonup> 'v) \<Rightarrow> 'k \<Rightarrow> 'v result" where
  "map_at m k = (case m k of None \<Rightarrow> Inl Out_of_range | Some v \<Rightarrow> Inr v)"

lemma map_at_simps [simp]:
  "m k = Some v \<Longrightarrow> map_at m k = Inr v" "m k = None \<Longrightarrow> map_at m k = Inl Out_of_range"
  by (simp_all add: map_at_def)

text \<open>\<open>n - 1\<close> on \<open>size_t\<close> of 64 bits, which wraps at 0.\<close>

definition size_t_pred :: "nat \<Rightarrow> nat" where
  "size_t_pred n = (if n = 0 then 2 ^ 64 - 1 else n - 1)"

lemma size_t_pred_pos [simp]: "0 < n \<Longrightarrow> size_t_pred n = n - 1"
  by (simp add: size_t_pred_def)

section \<open>Overwriting a region of an array\<close>

definition overwrite :: "nat \<Rightarrow> 'a list \<Rightarrow> 'a list \<Rightarrow> 'a list" where
  "overwrite p bs xs = take p xs @ bs @ drop (p + length bs) xs"

lemma length_overwrite [simp]:
  "p + length bs \<le> length xs \<Longrightarrow> length (overwrite p bs xs) = length xs"
  by (simp add: overwrite_def)

lemma overwrite_overwrite:
  "p + length bs + length cs \<le> length xs \<Longrightarrow>
   overwrite (p + length bs) cs (overwrite p bs xs) = overwrite p (bs @ cs) xs"
  by (simp add: overwrite_def ac_simps)

lemma overwrite_Nil [simp]: "overwrite p [] xs = xs"
  by (simp add: overwrite_def)

lemma take_drop_overwrite:
  "p + length bs \<le> length xs \<Longrightarrow> take (length bs) (drop p (overwrite p bs xs)) = bs"
  by (simp add: overwrite_def)

lemma take_overwrite_before: "q \<le> p \<Longrightarrow> p \<le> length xs \<Longrightarrow> take q (overwrite p bs xs) = take q xs"
  by (simp add: overwrite_def)

section \<open>Object representation of unsigned integers\<close>

datatype endian = little_endian | big_endian

definition size_of :: "'a::len word \<Rightarrow> nat" where
  "size_of w = LENGTH('a) div 8"

lemma size_of_simps [simp]:
  "size_of (a :: 8 word) = 1" "size_of (b :: 16 word) = 2"
  "size_of (c :: 32 word) = 4" "size_of (d :: 64 word) = 8"
  by (simp_all add: size_of_def)

text \<open>The \<open>n\<close> low bytes of a word, least significant first, and the value they denote.\<close>

primrec le_bytes :: "nat \<Rightarrow> 'a::len word \<Rightarrow> byte list" where
  "le_bytes 0 w = []"
| "le_bytes (Suc n) w = ucast w # le_bytes n (drop_bit 8 w)"

primrec of_le_bytes :: "byte list \<Rightarrow> 'a::len word" where
  "of_le_bytes [] = 0"
| "of_le_bytes (b # bs) = ucast b OR push_bit 8 (of_le_bytes bs)"

lemma length_le_bytes [simp]: "length (le_bytes n w) = n"
  by (induction n arbitrary: w) simp_all

lemma of_le_bytes_le_bytes: "of_le_bytes (le_bytes n w) = take_bit (8 * n) w"
proof (induction n arbitrary: w)
  case 0
  then show ?case by simp
next
  case (Suc n)
  show ?case
    by (rule bit_word_eqI) (auto simp: Suc.IH bit_simps)
qed

lemma bit_of_le_bytes_bound: "bit (of_le_bytes bs :: 'a::len word) i \<Longrightarrow> i < 8 * length bs"
proof (induction bs arbitrary: i)
  case Nil
  then show ?case by simp
next
  case (Cons b bs)
  then show ?case
    by (cases "i < 8") (auto simp: bit_simps dest: bit_imp_le_length Cons.IH)
qed

lemma le_bytes_of_le_bytes:
  "8 * length bs \<le> LENGTH('a::len) \<Longrightarrow> le_bytes (length bs) (of_le_bytes bs :: 'a word) = bs"
proof (induction bs)
  case Nil
  then show ?case by simp
next
  case (Cons b bs)
  have head: "ucast (of_le_bytes (b # bs) :: 'a word) = b"
    using Cons.prems by (intro bit_word_eqI) (auto simp: bit_simps)
  have tail: "drop_bit 8 (of_le_bytes (b # bs) :: 'a word) = of_le_bytes bs"
    using Cons.prems
    by (intro bit_word_eqI)
      (auto simp: bit_simps dest: bit_imp_le_length bit_of_le_bytes_bound)
  show ?case using head tail Cons by simp
qed

end
