(* ===== verification/Serialise.thy ===== *)
theory Serialise
  imports Prelude
begin

text \<open>
  The serialiser of \<open>common/core/serialise.hpp\<close>.

  A writable \<open>std::span\<close> over a fixed array is the array with the position of the
  first byte not yet written; every \<open>subspan(n)\<close> of the source moves the position
  and keeps the end. A read-only span is the list of the bytes it still covers. The byte
  order of the machine (\<open>std::endian::native\<close>) is a parameter of every operation, so
  that a writer and a reader of different byte order can be put together.

  The main facts: whatever the machine, \<open>write\<close> puts the little-endian encoding of the
  value into the span and \<open>read\<close> recovers it, provided the type is one that
  \<open>swap_bytes\<close> handles.
\<close>

section \<open>Spans\<close>

record wspan =
  ws_array :: "byte list"
  ws_pos :: nat

definition wspan_size :: "wspan \<Rightarrow> nat" where
  "wspan_size sp = length (ws_array sp) - ws_pos sp"

definition subspan :: "nat \<Rightarrow> wspan \<Rightarrow> wspan" where
  "subspan n sp = sp\<lparr>ws_pos := ws_pos sp + n\<rparr>"

text \<open>Copying bytes to the front of a span and moving past them.\<close>

definition memcpy_to :: "byte list \<Rightarrow> wspan \<Rightarrow> wspan" where
  "memcpy_to bs sp = sp\<lparr>ws_array := overwrite (ws_pos sp) bs (ws_array sp)\<rparr>"

definition put :: "byte list \<Rightarrow> wspan \<Rightarrow> wspan" where
  "put bs sp = subspan (length bs) (memcpy_to bs sp)"

section \<open>Object representation\<close>

text \<open>What \<open>memcpy\<close> sees of a value, by the byte order of the machine.\<close>

definition object_bytes :: "endian \<Rightarrow> 'a::len word \<Rightarrow> byte list" where
  "object_bytes native w =
     (case native of
        little_endian \<Rightarrow> le_bytes (size_of w) w
      | big_endian \<Rightarrow> rev (le_bytes (size_of w) w))"

definition of_object_bytes :: "endian \<Rightarrow> byte list \<Rightarrow> 'a::len word" where
  "of_object_bytes native bs =
     (case native of
        little_endian \<Rightarrow> of_le_bytes bs
      | big_endian \<Rightarrow> of_le_bytes (rev bs))"

definition byteswap :: "'a::len word \<Rightarrow> 'a word" where
  "byteswap w = of_le_bytes (rev (le_bytes (size_of w) w))"

text \<open>The type traits \<open>swap_bytes\<close> asks about.\<close>

datatype prim_kind = Integral | Floating_point | Other_trivial

section \<open>The operations of the serialiser\<close>

definition swap_bytes :: "endian \<Rightarrow> prim_kind \<Rightarrow> 'a::len word \<Rightarrow> 'a word" where
  "swap_bytes native k value =
     (let needs_swap = (native = big_endian)
      in if \<not> needs_swap \<or> size_of value = 1 then value
         else case k of
                Integral \<Rightarrow> byteswap value
              | Floating_point \<Rightarrow>
                  \<comment> \<open>copied into an unsigned integer of the same size, swapped, copied back\<close>
                  of_object_bytes native
                    (object_bytes native (byteswap (of_object_bytes native (object_bytes native value) :: 'a word)))
              | Other_trivial \<Rightarrow> value)"

definition serialise_write :: "endian \<Rightarrow> prim_kind \<Rightarrow> 'a::len word \<Rightarrow> wspan \<Rightarrow> wspan result" where
  "serialise_write native k primitive payload =
     (if wspan_size payload < size_of primitive then Inl Assert_failed
      else Inr (subspan (size_of primitive)
                 (memcpy_to (object_bytes native (swap_bytes native k primitive)) payload)))"

primrec serialise_write_array ::
    "endian \<Rightarrow> prim_kind \<Rightarrow> 'a::len word list \<Rightarrow> wspan \<Rightarrow> wspan result" where
  "serialise_write_array native k [] payload = Inr payload"
| "serialise_write_array native k (v # vs) payload =
     rbind (serialise_write native k v payload) (serialise_write_array native k vs)"

definition serialise_read ::
    "endian \<Rightarrow> prim_kind \<Rightarrow> byte list \<Rightarrow> ('a::len word \<times> byte list) result" where
  "serialise_read native k payload =
     (let n = LENGTH('a) div 8
      in if length payload < n then Inl Assert_failed
         else let primitive = of_object_bytes native (take n payload)
              in Inr (swap_bytes native k primitive, drop n payload))"

primrec serialise_read_array ::
    "endian \<Rightarrow> prim_kind \<Rightarrow> nat \<Rightarrow> byte list \<Rightarrow> ('a::len word list \<times> byte list) result" where
  "serialise_read_array native k 0 payload = Inr ([], payload)"
| "serialise_read_array native k (Suc n) payload =
     rbind (serialise_read native k payload) (\<lambda>(v, rest).
     rbind (serialise_read_array native k n rest) (\<lambda>(vs, rest'). Inr (v # vs, rest')))"

definition message_size :: "nat list \<Rightarrow> nat" where
  "message_size sizes = foldr (+) sizes 0"

section \<open>Facts about the object representation\<close>

text \<open>The types of the protocol: a whole number of bytes, and a kind that is swapped.\<close>

definition whole_bytes :: "'a::len word itself \<Rightarrow> bool" where
  "whole_bytes _ \<longleftrightarrow> 8 dvd LENGTH('a)"

lemma whole_bytes_simps [simp]:
  "whole_bytes TYPE(8 word)" "whole_bytes TYPE(16 word)"
  "whole_bytes TYPE(32 word)" "whole_bytes TYPE(64 word)"
  by (simp_all add: whole_bytes_def)

definition swappable :: "prim_kind \<Rightarrow> 'a::len word itself \<Rightarrow> bool" where
  "swappable k _ \<longleftrightarrow> k \<noteq> Other_trivial \<or> LENGTH('a) = 8"

lemma swappable_simps [simp]:
  "swappable Integral t" "swappable Floating_point t" "swappable k TYPE(8 word)"
  by (simp_all add: swappable_def)

lemma length_object_bytes [simp]: "length (object_bytes native w) = size_of w"
  by (simp add: object_bytes_def split: endian.split)

lemma of_le_bytes_full:
  "whole_bytes TYPE('a::len word) \<Longrightarrow> of_le_bytes (le_bytes (size_of w) w) = (w :: 'a word)"
  by (simp add: of_le_bytes_le_bytes whole_bytes_def size_of_def)

lemma le_bytes_full:
  "whole_bytes TYPE('a::len word) \<Longrightarrow> length bs = LENGTH('a) div 8 \<Longrightarrow>
   le_bytes (LENGTH('a) div 8) (of_le_bytes bs :: 'a word) = bs"
  using le_bytes_of_le_bytes [of bs, where 'a = 'a] by (simp add: whole_bytes_def)

lemma of_object_bytes_object_bytes [simp]:
  "whole_bytes TYPE('a::len word) \<Longrightarrow>
   of_object_bytes native (object_bytes native w) = (w :: 'a word)"
  by (simp add: object_bytes_def of_object_bytes_def of_le_bytes_full split: endian.split)

lemma object_bytes_of_object_bytes:
  "whole_bytes TYPE('a::len word) \<Longrightarrow> length bs = LENGTH('a) div 8 \<Longrightarrow>
   object_bytes native (of_object_bytes native bs :: 'a word) = bs"
  by (simp add: object_bytes_def of_object_bytes_def size_of_def le_bytes_full split: endian.split)

lemma le_bytes_byteswap:
  "whole_bytes TYPE('a::len word) \<Longrightarrow>
   le_bytes (size_of w) (byteswap w) = rev (le_bytes (size_of w) (w :: 'a word))"
  by (simp add: byteswap_def size_of_def le_bytes_full)

lemma size_of_byteswap [simp]: "size_of (byteswap w) = size_of w"
  by (simp add: size_of_def)

lemma byteswap_byteswap:
  "whole_bytes TYPE('a::len word) \<Longrightarrow> byteswap (byteswap w) = (w :: 'a word)"
  by (subst byteswap_def) (simp add: le_bytes_byteswap of_le_bytes_full)

lemma size_one_iff:
  "whole_bytes TYPE('a::len word) \<Longrightarrow> size_of (w :: 'a word) = Suc 0 \<longleftrightarrow> LENGTH('a) = 8"
  by (auto simp: whole_bytes_def size_of_def elim!: dvdE)

text \<open>
  The swap undoes what the byte order of the machine does to the object representation:
  the bytes on the wire are little-endian everywhere.
\<close>

definition wire :: "'a::len word \<Rightarrow> byte list" where
  "wire w = le_bytes (size_of w) w"

lemma length_wire [simp]: "length (wire w) = size_of w"
  by (simp add: wire_def)

lemma rev_le_bytes_one: "size_of w = Suc 0 \<Longrightarrow> rev (le_bytes (size_of w) w) = le_bytes (size_of w) w"
  by (simp add: numeral_eq_Suc)

lemma swap_bytes_eq:
  "whole_bytes TYPE('a::len word) \<Longrightarrow>
   swap_bytes native k (w :: 'a word) =
     (if native = little_endian \<or> LENGTH('a) = 8 \<or> k = Other_trivial then w else byteswap w)"
  by (cases k; cases native) (auto simp: swap_bytes_def size_one_iff)

lemma object_bytes_swap:
  assumes "whole_bytes TYPE('a::len word)" and "swappable k TYPE('a word)"
  shows "object_bytes native (swap_bytes native k (w :: 'a word)) = wire w"
proof (cases native)
  case little_endian
  then show ?thesis by (simp add: swap_bytes_def object_bytes_def wire_def)
next
  case big_endian
  show ?thesis
  proof (cases "LENGTH('a) = 8")
    case True
    with big_endian assms show ?thesis
      by (simp add: swap_bytes_eq object_bytes_def wire_def rev_le_bytes_one size_one_iff)
  next
    case False
    with big_endian assms show ?thesis
      by (simp add: swap_bytes_eq object_bytes_def wire_def swappable_def le_bytes_byteswap)
  qed
qed

lemma swap_bytes_swap_bytes:
  "whole_bytes TYPE('a::len word) \<Longrightarrow> swap_bytes native k (swap_bytes native k w) = (w :: 'a word)"
  by (simp add: swap_bytes_eq byteswap_byteswap)

lemma swap_of_object_bytes_wire:
  assumes "whole_bytes TYPE('a::len word)" and "swappable k TYPE('a word)"
  shows "swap_bytes native k (of_object_bytes native (wire w)) = (w :: 'a word)"
proof -
  have "of_object_bytes native (wire w) = swap_bytes native k w"
    using assms by (metis object_bytes_swap of_object_bytes_object_bytes)
  then show ?thesis by (simp add: assms(1) swap_bytes_swap_bytes)
qed

section \<open>Writing and reading\<close>

lemma fits_in_rest: "length bs \<le> n - p \<Longrightarrow> bs \<noteq> [] \<Longrightarrow> p + length bs \<le> n"
  by (cases bs) auto

lemma ws_pos_put [simp]: "ws_pos (put bs sp) = ws_pos sp + length bs"
  by (simp add: put_def subspan_def memcpy_to_def)

lemma ws_array_put: "ws_array (put bs sp) = overwrite (ws_pos sp) bs (ws_array sp)"
  by (simp add: put_def subspan_def memcpy_to_def)

lemma put_Nil [simp]: "put [] sp = sp"
  by (simp add: put_def subspan_def memcpy_to_def)

lemma wspan_size_put [simp]:
  "length bs \<le> wspan_size sp \<Longrightarrow> wspan_size (put bs sp) = wspan_size sp - length bs"
  by (cases "bs = []") (auto simp: wspan_size_def ws_array_put fits_in_rest)

lemma put_put:
  "length bs + length cs \<le> wspan_size sp \<Longrightarrow> put cs (put bs sp) = put (bs @ cs) sp"
  using fits_in_rest [of "bs @ cs"]
  by (cases "cs = []"; cases "bs = []")
    (auto simp: put_def subspan_def memcpy_to_def wspan_size_def overwrite_overwrite add.assoc)

lemma serialise_write_ok:
  assumes "whole_bytes TYPE('a::len word)" and "swappable k TYPE('a word)"
    and "size_of w \<le> wspan_size sp"
  shows "serialise_write native k (w :: 'a word) sp = Inr (put (wire w) sp)"
  using assms by (simp add: serialise_write_def object_bytes_swap put_def)

lemma serialise_write_short:
  "wspan_size sp < size_of w \<Longrightarrow> serialise_write native k w sp = Inl Assert_failed"
  by (simp add: serialise_write_def)

lemma serialise_read_wire:
  assumes "whole_bytes TYPE('a::len word)" and "swappable k TYPE('a word)"
  shows "serialise_read native k (wire w @ rest) = Inr (w :: 'a word, rest)"
  using assms
  by (simp add: serialise_read_def Let_def size_of_def swap_of_object_bytes_wire)

lemma serialise_read_short:
  "length bs < LENGTH('a::len) div 8 \<Longrightarrow>
   (serialise_read native k bs :: ('a word \<times> byte list) result) = Inl Assert_failed"
  by (simp add: serialise_read_def)

text \<open>Reading consumes exactly the size of the type, or fails the assertion.\<close>

lemma serialise_read_iff:
  "(serialise_read native k bs :: ('a::len word \<times> byte list) result) = Inr (w, rest) \<longleftrightarrow>
     LENGTH('a) div 8 \<le> length bs \<and> rest = drop (LENGTH('a) div 8) bs \<and>
     w = swap_bytes native k (of_object_bytes native (take (LENGTH('a) div 8) bs))"
  by (auto simp: serialise_read_def Let_def)

text \<open>
  \<open>writes f bs\<close>: the operation \<open>f\<close> writes exactly \<open>bs\<close> when they fit and fails the
  assertion when they do not. Sequencing concatenates.
\<close>

definition writes :: "(wspan \<Rightarrow> wspan result) \<Rightarrow> byte list \<Rightarrow> bool" where
  "writes f bs \<longleftrightarrow>
     (\<forall>sp. f sp = (if length bs \<le> wspan_size sp then Inr (put bs sp) else Inl Assert_failed))"

lemma writes_serialise_write [intro]:
  "whole_bytes TYPE('a::len word) \<Longrightarrow> swappable k TYPE('a word) \<Longrightarrow>
   writes (serialise_write native k (w :: 'a word)) (wire w)"
  by (simp add: writes_def serialise_write_ok serialise_write_short)

lemma writes_rbind [intro]:
  "writes f bs \<Longrightarrow> writes g cs \<Longrightarrow> writes (\<lambda>sp. rbind (f sp) g) (bs @ cs)"
  by (auto simp: writes_def put_put)

text \<open>One equation for \<open>read\<close>, to unfold chains of reads.\<close>

lemma serialise_read_eq:
  "(serialise_read native k bs :: ('a::len word \<times> byte list) result) =
     (if length bs < LENGTH('a) div 8 then Inl Assert_failed
      else Inr (swap_bytes native k (of_object_bytes native (take (LENGTH('a) div 8) bs)),
                drop (LENGTH('a) div 8) bs))"
  by (simp add: serialise_read_def Let_def)

section \<open>Arrays\<close>

lemma drop_put:
  "length bs \<le> wspan_size sp \<Longrightarrow>
   drop (ws_pos sp) (ws_array (put bs sp)) = bs @ drop (ws_pos (put bs sp)) (ws_array (put bs sp))"
  by (cases "bs = []")
    (auto simp: wspan_size_def ws_array_put overwrite_def dest!: fits_in_rest)

lemma serialise_write_array_ok:
  assumes "whole_bytes TYPE('a::len word)" and "swappable k TYPE('a word)"
    and "length vs * (LENGTH('a) div 8) \<le> wspan_size sp"
  shows "serialise_write_array native k (vs :: 'a word list) sp = Inr (put (concat (map wire vs)) sp)"
  using assms(3)
proof (induction vs arbitrary: sp)
  case Nil
  then show ?case by simp
next
  case (Cons v vs)
  have len: "length (concat (map wire us)) = length us * (LENGTH('a) div 8)" for us :: "'a word list"
    by (induction us) (simp_all add: size_of_def)
  from Cons.prems have fit: "size_of v \<le> wspan_size sp"
    by (simp add: size_of_def)
  then have "length vs * (LENGTH('a) div 8) \<le> wspan_size (put (wire v) sp)"
    using Cons.prems by (simp add: size_of_def)
  with fit Cons show ?case
    by (simp add: serialise_write_ok assms(1,2) put_put len size_of_def)
qed

lemma serialise_write_array_short:
  assumes "wspan_size sp < length vs * (LENGTH('a::len) div 8)"
    and "whole_bytes TYPE('a word)" and "swappable k TYPE('a word)"
  shows "serialise_write_array native k (vs :: 'a word list) sp = Inl Assert_failed"
  using assms(1)
proof (induction vs arbitrary: sp)
  case Nil
  then show ?case by simp
next
  case (Cons v vs)
  show ?case
  proof (cases "size_of v \<le> wspan_size sp")
    case True
    then have "wspan_size (put (wire v) sp) < length vs * (LENGTH('a) div 8)"
      using Cons.prems by (simp add: size_of_def)
    with True Cons.IH show ?thesis by (simp add: serialise_write_ok assms(2,3))
  next
    case False
    then show ?thesis by (simp add: serialise_write_short)
  qed
qed

lemma serialise_read_array_wire:
  assumes "whole_bytes TYPE('a::len word)" and "swappable k TYPE('a word)"
  shows "serialise_read_array native k (length vs) (concat (map wire vs) @ rest) = Inr (vs :: 'a word list, rest)"
  by (induction vs) (simp_all add: serialise_read_wire assms)

text \<open>
  C6. A run of values written by a machine of one byte order is read back unchanged by a
  machine of any other byte order, and the reader stops exactly where the writer stopped:
  for every fixed-size type of the protocol the wire format does not depend on the machine.
\<close>

theorem serialise_roundtrip_any_endian:
  assumes "whole_bytes TYPE('a::len word)" and "swappable k TYPE('a word)"
    and "serialise_write_array writer k vs sp = Inr sp'"
  shows "serialise_read_array reader k (length vs) (drop (ws_pos sp) (ws_array sp')) =
         Inr (vs :: 'a word list, drop (ws_pos sp') (ws_array sp'))"
proof -
  have fit: "length vs * (LENGTH('a) div 8) \<le> wspan_size sp"
    using assms serialise_write_array_short [of sp vs k writer] by fastforce
  then have sp': "sp' = put (concat (map wire vs)) sp"
    using assms serialise_write_array_ok [of k vs sp writer] by simp
  have "length (concat (map wire vs)) = length vs * (LENGTH('a) div 8)"
    by (induction vs) (simp_all add: size_of_def)
  with fit have "drop (ws_pos sp) (ws_array sp') =
      concat (map wire vs) @ drop (ws_pos sp') (ws_array sp')"
    unfolding sp' by (intro drop_put) simp
  then show ?thesis
    by (simp add: serialise_read_array_wire assms(1,2))
qed

theorem serialise_roundtrip_any_endian_witness:
  "serialise_write_array big_endian Integral [0x1234, 0xBEEF :: 16 word] \<lparr>ws_array = replicate 5 0, ws_pos = 0\<rparr>
     = Inr \<lparr>ws_array = [0x34, 0x12, 0xEF, 0xBE, 0], ws_pos = 4\<rparr> \<and>
   serialise_read_array little_endian Integral 2 [0x34, 0x12, 0xEF, 0xBE, 0]
     = Inr ([0x1234, 0xBEEF :: 16 word], [0])"
proof -
  have w: "serialise_write_array big_endian Integral [0x1234, 0xBEEF :: 16 word] \<lparr>ws_array = replicate 5 0, ws_pos = 0\<rparr>
     = Inr \<lparr>ws_array = [0x34, 0x12, 0xEF, 0xBE, 0], ws_pos = 4\<rparr>"
    by code_simp
  show ?thesis
    using w serialise_roundtrip_any_endian [OF _ _ w, of little_endian] by (simp add: numeral_2_eq_2)
qed

end
