(* ===== verification/Messages.thy ===== *)
theory Messages
  imports Serialise
begin

text \<open>
  The identifiers of \<open>common/api/types.hpp\<close> and the eight messages of
  \<open>common/messages\<close>: one record per message struct, and its \<open>serialise\<close>,
  \<open>deserialise\<close> and \<open>payload_size\<close>. The locale \<open>packet_type\<close> is the contract
  that the registry expects of a message type (the C++ concept of the same name, with the
  laws that the concept cannot state); it is interpreted on each of the eight messages.

  \<open>rail_type_t\<close> is an enumeration with the fixed underlying type \<open>uint8_t\<close>: an object
  of it may hold any of the 256 values, and the values read from the network or from a
  tag are not checked. It is therefore an 8-bit word with named constants, not a datatype
  with six values.
\<close>

section \<open>Identifiers\<close>

type_synonym esp_id_t = uint16
type_synonym rail_id_t = uint64
type_synonym rail_type_t = uint8

definition rail_none :: rail_type_t where "rail_none = 0"
definition straight :: rail_type_t where "straight = 1"
definition left_curve :: rail_type_t where "left_curve = 2"
definition right_curve :: rail_type_t where "right_curve = 3"
definition left_junction :: rail_type_t where "left_junction = 4"
definition right_junction :: rail_type_t where "right_junction = 5"

lemmas rail_type_defs =
  rail_none_def straight_def left_curve_def right_curve_def left_junction_def right_junction_def

section \<open>Message structs\<close>

text \<open>\<open>heartbeat_t\<close> has no members; the macro \<open>EMPTY_MESSAGE\<close> gives it its operations.\<close>

datatype heartbeat_t = Heartbeat

record esp_init_request_t =
  req_id :: esp_id_t

record esp_init_response_t =
  res_id :: esp_id_t

record motor_control_t =
  starting_duty :: uint32
  target_duty :: uint32
  ramp_time_ms :: uint16
  is_active :: uint8

record motor_status_t =
  ms_id :: esp_id_t
  ms_current_duty :: uint32
  ms_is_active :: uint8

record rail_location_t =
  rl_id :: esp_id_t
  rl_rail_id :: rail_id_t
  rl_type :: rail_type_t

record rail_destination_t =
  rd_id :: rail_id_t

record battery_status_t =
  bs_id :: esp_id_t
  bs_percentage_level :: float32

section \<open>Operations of the messages\<close>

definition heartbeat_serialise :: "endian \<Rightarrow> heartbeat_t \<Rightarrow> wspan \<Rightarrow> wspan result" where
  "heartbeat_serialise native data payload = Inr payload"

definition heartbeat_deserialise :: "endian \<Rightarrow> byte list \<Rightarrow> heartbeat_t result" where
  "heartbeat_deserialise native payload = Inr Heartbeat"

definition heartbeat_payload_size :: nat where
  "heartbeat_payload_size = 0"

definition esp_init_request_serialise :: "endian \<Rightarrow> esp_init_request_t \<Rightarrow> wspan \<Rightarrow> wspan result" where
  "esp_init_request_serialise native data payload =
     serialise_write native Integral (req_id data) payload"

definition esp_init_request_deserialise :: "endian \<Rightarrow> byte list \<Rightarrow> esp_init_request_t result" where
  "esp_init_request_deserialise native payload =
     rbind (serialise_read native Integral payload) (\<lambda>(req_id_v, payload).
     Inr \<lparr>req_id = req_id_v\<rparr>)"

definition esp_init_request_payload_size :: nat where
  "esp_init_request_payload_size = message_size [LENGTH(16) div 8]"

definition esp_init_response_serialise :: "endian \<Rightarrow> esp_init_response_t \<Rightarrow> wspan \<Rightarrow> wspan result" where
  "esp_init_response_serialise native data payload =
     serialise_write native Integral (res_id data) payload"

definition esp_init_response_deserialise :: "endian \<Rightarrow> byte list \<Rightarrow> esp_init_response_t result" where
  "esp_init_response_deserialise native payload =
     rbind (serialise_read native Integral payload) (\<lambda>(res_id_v, payload).
     Inr \<lparr>res_id = res_id_v\<rparr>)"

definition esp_init_response_payload_size :: nat where
  "esp_init_response_payload_size = message_size [LENGTH(16) div 8]"

definition motor_control_serialise :: "endian \<Rightarrow> motor_control_t \<Rightarrow> wspan \<Rightarrow> wspan result" where
  "motor_control_serialise native data payload =
     rbind (serialise_write native Integral (starting_duty data) payload) (\<lambda>payload.
     rbind (serialise_write native Integral (target_duty data) payload) (\<lambda>payload.
     rbind (serialise_write native Integral (ramp_time_ms data) payload) (\<lambda>payload.
     serialise_write native Integral (is_active data) payload)))"

definition motor_control_deserialise :: "endian \<Rightarrow> byte list \<Rightarrow> motor_control_t result" where
  "motor_control_deserialise native payload =
     rbind (serialise_read native Integral payload) (\<lambda>(starting_duty_v, payload).
     rbind (serialise_read native Integral payload) (\<lambda>(target_duty_v, payload).
     rbind (serialise_read native Integral payload) (\<lambda>(ramp_time_ms_v, payload).
     rbind (serialise_read native Integral payload) (\<lambda>(is_active_v, payload).
     Inr \<lparr>starting_duty = starting_duty_v, target_duty = target_duty_v, ramp_time_ms = ramp_time_ms_v, is_active = is_active_v\<rparr>))))"

definition motor_control_payload_size :: nat where
  "motor_control_payload_size = message_size [LENGTH(32) div 8, LENGTH(32) div 8, LENGTH(16) div 8, LENGTH(8) div 8]"

definition motor_status_serialise :: "endian \<Rightarrow> motor_status_t \<Rightarrow> wspan \<Rightarrow> wspan result" where
  "motor_status_serialise native data payload =
     rbind (serialise_write native Integral (ms_id data) payload) (\<lambda>payload.
     rbind (serialise_write native Integral (ms_current_duty data) payload) (\<lambda>payload.
     serialise_write native Integral (ms_is_active data) payload))"

definition motor_status_deserialise :: "endian \<Rightarrow> byte list \<Rightarrow> motor_status_t result" where
  "motor_status_deserialise native payload =
     rbind (serialise_read native Integral payload) (\<lambda>(ms_id_v, payload).
     rbind (serialise_read native Integral payload) (\<lambda>(ms_current_duty_v, payload).
     rbind (serialise_read native Integral payload) (\<lambda>(ms_is_active_v, payload).
     Inr \<lparr>ms_id = ms_id_v, ms_current_duty = ms_current_duty_v, ms_is_active = ms_is_active_v\<rparr>)))"

definition motor_status_payload_size :: nat where
  "motor_status_payload_size = message_size [LENGTH(16) div 8, LENGTH(32) div 8, LENGTH(8) div 8]"

definition rail_location_serialise :: "endian \<Rightarrow> rail_location_t \<Rightarrow> wspan \<Rightarrow> wspan result" where
  "rail_location_serialise native data payload =
     rbind (serialise_write native Integral (rl_id data) payload) (\<lambda>payload.
     rbind (serialise_write native Integral (rl_rail_id data) payload) (\<lambda>payload.
     serialise_write native Other_trivial (rl_type data) payload))"

definition rail_location_deserialise :: "endian \<Rightarrow> byte list \<Rightarrow> rail_location_t result" where
  "rail_location_deserialise native payload =
     rbind (serialise_read native Integral payload) (\<lambda>(rl_id_v, payload).
     rbind (serialise_read native Integral payload) (\<lambda>(rl_rail_id_v, payload).
     rbind (serialise_read native Other_trivial payload) (\<lambda>(rl_type_v, payload).
     Inr \<lparr>rl_id = rl_id_v, rl_rail_id = rl_rail_id_v, rl_type = rl_type_v\<rparr>)))"

definition rail_location_payload_size :: nat where
  "rail_location_payload_size = message_size [LENGTH(16) div 8, LENGTH(64) div 8, LENGTH(8) div 8]"

definition rail_destination_serialise :: "endian \<Rightarrow> rail_destination_t \<Rightarrow> wspan \<Rightarrow> wspan result" where
  "rail_destination_serialise native data payload =
     serialise_write native Integral (rd_id data) payload"

definition rail_destination_deserialise :: "endian \<Rightarrow> byte list \<Rightarrow> rail_destination_t result" where
  "rail_destination_deserialise native payload =
     rbind (serialise_read native Integral payload) (\<lambda>(rd_id_v, payload).
     Inr \<lparr>rd_id = rd_id_v\<rparr>)"

definition rail_destination_payload_size :: nat where
  "rail_destination_payload_size = message_size [LENGTH(64) div 8]"

definition battery_status_serialise :: "endian \<Rightarrow> battery_status_t \<Rightarrow> wspan \<Rightarrow> wspan result" where
  "battery_status_serialise native data payload =
     rbind (serialise_write native Integral (bs_id data) payload) (\<lambda>payload.
     serialise_write native Floating_point (bs_percentage_level data) payload)"

definition battery_status_deserialise :: "endian \<Rightarrow> byte list \<Rightarrow> battery_status_t result" where
  "battery_status_deserialise native payload =
     rbind (serialise_read native Integral payload) (\<lambda>(bs_id_v, payload).
     rbind (serialise_read native Floating_point payload) (\<lambda>(bs_percentage_level_v, payload).
     Inr \<lparr>bs_id = bs_id_v, bs_percentage_level = bs_percentage_level_v\<rparr>))"

definition battery_status_payload_size :: nat where
  "battery_status_payload_size = message_size [LENGTH(16) div 8, LENGTH(32) div 8]"

definition motor_control_stop :: motor_control_t where
  "motor_control_stop =
     \<lparr>starting_duty = 0, target_duty = 0, ramp_time_ms = 0, is_active = 0\<rparr>"

lemmas payload_size_defs = heartbeat_payload_size_def
  esp_init_request_payload_size_def
  esp_init_response_payload_size_def
  motor_control_payload_size_def
  motor_status_payload_size_def
  rail_location_payload_size_def
  rail_destination_payload_size_def
  battery_status_payload_size_def

lemma payload_size_simps [simp]:
  "heartbeat_payload_size = 0"
  "esp_init_request_payload_size = 2"
  "esp_init_response_payload_size = 2"
  "motor_control_payload_size = 11"
  "motor_status_payload_size = 7"
  "rail_location_payload_size = 11"
  "rail_destination_payload_size = 8"
  "battery_status_payload_size = 6"
  by (simp_all add: payload_size_defs message_size_def)

section \<open>The contract of a message type\<close>

text \<open>
  \<open>enc\<close> is the specification: the bytes of a message on the wire. Serialising writes
  exactly these bytes into a span that is large enough and fails the assertion otherwise;
  deserialising recovers the message whatever follows it, and looks only at the first
  \<open>psize\<close> bytes. Both hold for every byte order.
\<close>

locale packet_type =
  fixes ser :: "endian \<Rightarrow> 'm \<Rightarrow> wspan \<Rightarrow> wspan result"
    and des :: "endian \<Rightarrow> byte list \<Rightarrow> 'm result"
    and psize :: nat
    and enc :: "'m \<Rightarrow> byte list"
  assumes length_enc: "length (enc m) = psize"
    and ser_writes: "writes (ser native m) (enc m)"
    and des_enc: "des native (enc m @ rest) = Inr m"
    and des_total: "psize \<le> length bs \<Longrightarrow> \<exists>m. des native bs = Inr m"
    and des_short: "length bs < psize \<Longrightarrow> des native bs = Inl Assert_failed"
begin

lemma ser_ok: "psize \<le> wspan_size sp \<Longrightarrow> ser native m sp = Inr (put (enc m) sp)"
  using ser_writes [of native m] by (simp add: writes_def length_enc)

lemma ser_short: "wspan_size sp < psize \<Longrightarrow> ser native m sp = Inl Assert_failed"
  using ser_writes [of native m] by (simp add: writes_def length_enc)

lemma enc_inj: "enc m = enc m' \<Longrightarrow> m = m'"
  using des_enc [of little_endian m "[]"] des_enc [of little_endian m' "[]"] by simp

lemma ser_iff: "(\<exists>sp'. ser native m sp = Inr sp') \<longleftrightarrow> psize \<le> wspan_size sp"
  using ser_ok ser_short by (metis Inl_Inr_False linorder_not_less)

lemma ser_des:
  assumes "ser writer m sp = Inr sp'"
  shows "des reader (drop (ws_pos sp) (ws_array sp')) = Inr m"
proof -
  have fit: "psize \<le> wspan_size sp" using assms ser_iff by blast
  then have "sp' = put (enc m) sp" using assms ser_ok by simp
  with fit show ?thesis
    using drop_put [of "enc m" sp] des_enc by (simp add: length_enc)
qed

end

definition esp_init_request_enc :: "esp_init_request_t \<Rightarrow> byte list" where
  "esp_init_request_enc m = wire (req_id m)"

definition esp_init_response_enc :: "esp_init_response_t \<Rightarrow> byte list" where
  "esp_init_response_enc m = wire (res_id m)"

definition motor_control_enc :: "motor_control_t \<Rightarrow> byte list" where
  "motor_control_enc m = wire (starting_duty m) @ wire (target_duty m) @ wire (ramp_time_ms m) @ wire (is_active m)"

definition motor_status_enc :: "motor_status_t \<Rightarrow> byte list" where
  "motor_status_enc m = wire (ms_id m) @ wire (ms_current_duty m) @ wire (ms_is_active m)"

definition rail_location_enc :: "rail_location_t \<Rightarrow> byte list" where
  "rail_location_enc m = wire (rl_id m) @ wire (rl_rail_id m) @ wire (rl_type m)"

definition rail_destination_enc :: "rail_destination_t \<Rightarrow> byte list" where
  "rail_destination_enc m = wire (rd_id m)"

definition battery_status_enc :: "battery_status_t \<Rightarrow> byte list" where
  "battery_status_enc m = wire (bs_id m) @ wire (bs_percentage_level m)"

interpretation heartbeat: packet_type heartbeat_serialise heartbeat_deserialise
    heartbeat_payload_size "\<lambda>_. []"
proof (unfold_locales, goal_cases)
  case (3 native m rest)
  show ?case by (cases m) (simp add: heartbeat_deserialise_def)
qed (simp_all add: heartbeat_serialise_def heartbeat_deserialise_def writes_def)

interpretation esp_init_request: packet_type esp_init_request_serialise esp_init_request_deserialise
    esp_init_request_payload_size esp_init_request_enc
proof (unfold_locales, goal_cases)
  case (2 native m)
  show ?case unfolding esp_init_request_serialise_def esp_init_request_enc_def by (intro writes_rbind writes_serialise_write) simp_all
next
  case (3 native m rest)
  show ?case by (simp add: esp_init_request_deserialise_def esp_init_request_enc_def serialise_read_wire)
qed (auto simp: esp_init_request_deserialise_def esp_init_request_enc_def serialise_read_eq)

interpretation esp_init_response: packet_type esp_init_response_serialise esp_init_response_deserialise
    esp_init_response_payload_size esp_init_response_enc
proof (unfold_locales, goal_cases)
  case (2 native m)
  show ?case unfolding esp_init_response_serialise_def esp_init_response_enc_def by (intro writes_rbind writes_serialise_write) simp_all
next
  case (3 native m rest)
  show ?case by (simp add: esp_init_response_deserialise_def esp_init_response_enc_def serialise_read_wire)
qed (auto simp: esp_init_response_deserialise_def esp_init_response_enc_def serialise_read_eq)

interpretation motor_control: packet_type motor_control_serialise motor_control_deserialise
    motor_control_payload_size motor_control_enc
proof (unfold_locales, goal_cases)
  case (2 native m)
  show ?case unfolding motor_control_serialise_def motor_control_enc_def by (intro writes_rbind writes_serialise_write) simp_all
next
  case (3 native m rest)
  show ?case by (simp add: motor_control_deserialise_def motor_control_enc_def serialise_read_wire)
qed (auto simp: motor_control_deserialise_def motor_control_enc_def serialise_read_eq)

interpretation motor_status: packet_type motor_status_serialise motor_status_deserialise
    motor_status_payload_size motor_status_enc
proof (unfold_locales, goal_cases)
  case (2 native m)
  show ?case unfolding motor_status_serialise_def motor_status_enc_def by (intro writes_rbind writes_serialise_write) simp_all
next
  case (3 native m rest)
  show ?case by (simp add: motor_status_deserialise_def motor_status_enc_def serialise_read_wire)
qed (auto simp: motor_status_deserialise_def motor_status_enc_def serialise_read_eq)

interpretation rail_location: packet_type rail_location_serialise rail_location_deserialise
    rail_location_payload_size rail_location_enc
proof (unfold_locales, goal_cases)
  case (2 native m)
  show ?case unfolding rail_location_serialise_def rail_location_enc_def by (intro writes_rbind writes_serialise_write) simp_all
next
  case (3 native m rest)
  show ?case by (simp add: rail_location_deserialise_def rail_location_enc_def serialise_read_wire)
qed (auto simp: rail_location_deserialise_def rail_location_enc_def serialise_read_eq)

interpretation rail_destination: packet_type rail_destination_serialise rail_destination_deserialise
    rail_destination_payload_size rail_destination_enc
proof (unfold_locales, goal_cases)
  case (2 native m)
  show ?case unfolding rail_destination_serialise_def rail_destination_enc_def by (intro writes_rbind writes_serialise_write) simp_all
next
  case (3 native m rest)
  show ?case by (simp add: rail_destination_deserialise_def rail_destination_enc_def serialise_read_wire)
qed (auto simp: rail_destination_deserialise_def rail_destination_enc_def serialise_read_eq)

interpretation battery_status: packet_type battery_status_serialise battery_status_deserialise
    battery_status_payload_size battery_status_enc
proof (unfold_locales, goal_cases)
  case (2 native m)
  show ?case unfolding battery_status_serialise_def battery_status_enc_def by (intro writes_rbind writes_serialise_write) simp_all
next
  case (3 native m rest)
  show ?case by (simp add: battery_status_deserialise_def battery_status_enc_def serialise_read_wire)
qed (auto simp: battery_status_deserialise_def battery_status_enc_def serialise_read_eq)

end
