(* ===== verification/Packet_Registry.thy ===== *)
theory Packet_Registry
  imports Messages
begin

text \<open>
  The message registry of \<open>common/core/packet_registry.hpp\<close> at the type list of
  \<open>common/api/registry.hpp\<close>.

  The template parameter pack is a list of message kinds; a message of one of the types
  is a value of \<open>packet\<close>. A callback entry stores, in place of the function pointer that
  deserialises a \<open>T\<close> and calls the registered function, the kind \<open>T\<close>; \<open>dispatch\<close>
  returns the message with which that function is called, or \<open>None\<close> where the source
  returns \<open>false\<close>. What the function does with the message is modelled with the owner of
  the registry.

  The packet id is copied into the payload with \<open>memcpy\<close>, in the byte order of the
  machine, unlike the fields of the message.
\<close>

section \<open>Kinds and messages\<close>

datatype packet_kind =
    K_esp_init_request
  | K_esp_init_response
  | K_heartbeat
  | K_motor_control
  | K_motor_status
  | K_rail_location
  | K_rail_destination
  | K_battery_status

text \<open>The type list of \<open>registry_t\<close>; the position of a kind is its packet id.\<close>

definition registry_types :: "packet_kind list" where
  "registry_types =
     [K_esp_init_request,
      K_esp_init_response,
      K_heartbeat,
      K_motor_control,
      K_motor_status,
      K_rail_location,
      K_rail_destination,
      K_battery_status]"

datatype packet =
    P_esp_init_request esp_init_request_t
  | P_esp_init_response esp_init_response_t
  | P_heartbeat heartbeat_t
  | P_motor_control motor_control_t
  | P_motor_status motor_status_t
  | P_rail_location rail_location_t
  | P_rail_destination rail_destination_t
  | P_battery_status battery_status_t

fun kind_of :: "packet \<Rightarrow> packet_kind" where
  "kind_of (P_esp_init_request m) = K_esp_init_request"
| "kind_of (P_esp_init_response m) = K_esp_init_response"
| "kind_of (P_heartbeat m) = K_heartbeat"
| "kind_of (P_motor_control m) = K_motor_control"
| "kind_of (P_motor_status m) = K_motor_status"
| "kind_of (P_rail_location m) = K_rail_location"
| "kind_of (P_rail_destination m) = K_rail_destination"
| "kind_of (P_battery_status m) = K_battery_status"

fun payload_size :: "packet_kind \<Rightarrow> nat" where
  "payload_size K_esp_init_request = esp_init_request_payload_size"
| "payload_size K_esp_init_response = esp_init_response_payload_size"
| "payload_size K_heartbeat = heartbeat_payload_size"
| "payload_size K_motor_control = motor_control_payload_size"
| "payload_size K_motor_status = motor_status_payload_size"
| "payload_size K_rail_location = rail_location_payload_size"
| "payload_size K_rail_destination = rail_destination_payload_size"
| "payload_size K_battery_status = battery_status_payload_size"

fun packet_serialise :: "endian \<Rightarrow> packet \<Rightarrow> wspan \<Rightarrow> wspan result" where
  "packet_serialise native (P_esp_init_request m) sp = esp_init_request_serialise native m sp"
| "packet_serialise native (P_esp_init_response m) sp = esp_init_response_serialise native m sp"
| "packet_serialise native (P_heartbeat m) sp = heartbeat_serialise native m sp"
| "packet_serialise native (P_motor_control m) sp = motor_control_serialise native m sp"
| "packet_serialise native (P_motor_status m) sp = motor_status_serialise native m sp"
| "packet_serialise native (P_rail_location m) sp = rail_location_serialise native m sp"
| "packet_serialise native (P_rail_destination m) sp = rail_destination_serialise native m sp"
| "packet_serialise native (P_battery_status m) sp = battery_status_serialise native m sp"

fun packet_deserialise :: "endian \<Rightarrow> packet_kind \<Rightarrow> byte list \<Rightarrow> packet result" where
  "packet_deserialise native K_esp_init_request bs = map_sum id P_esp_init_request (esp_init_request_deserialise native bs)"
| "packet_deserialise native K_esp_init_response bs = map_sum id P_esp_init_response (esp_init_response_deserialise native bs)"
| "packet_deserialise native K_heartbeat bs = map_sum id P_heartbeat (heartbeat_deserialise native bs)"
| "packet_deserialise native K_motor_control bs = map_sum id P_motor_control (motor_control_deserialise native bs)"
| "packet_deserialise native K_motor_status bs = map_sum id P_motor_status (motor_status_deserialise native bs)"
| "packet_deserialise native K_rail_location bs = map_sum id P_rail_location (rail_location_deserialise native bs)"
| "packet_deserialise native K_rail_destination bs = map_sum id P_rail_destination (rail_destination_deserialise native bs)"
| "packet_deserialise native K_battery_status bs = map_sum id P_battery_status (battery_status_deserialise native bs)"

fun packet_enc :: "packet \<Rightarrow> byte list" where
  "packet_enc (P_esp_init_request m) = esp_init_request_enc m"
| "packet_enc (P_esp_init_response m) = esp_init_response_enc m"
| "packet_enc (P_heartbeat m) = []"
| "packet_enc (P_motor_control m) = motor_control_enc m"
| "packet_enc (P_motor_status m) = motor_status_enc m"
| "packet_enc (P_rail_location m) = rail_location_enc m"
| "packet_enc (P_rail_destination m) = rail_destination_enc m"
| "packet_enc (P_battery_status m) = battery_status_enc m"

section \<open>Compile-time functions\<close>

type_synonym packet_id_t = uint16

definition packet_id_size :: nat where
  "packet_id_size = LENGTH(16) div 8"

lemma packet_id_size [simp]: "packet_id_size = 2"
  by (simp add: packet_id_size_def)

definition max_payload :: "packet_kind list \<Rightarrow> nat" where
  "max_payload ts = foldl (\<lambda>m t. max m (payload_size t)) 0 ts + packet_id_size"

definition contains :: "packet_kind list \<Rightarrow> packet_kind \<Rightarrow> bool" where
  "contains ts t \<longleftrightarrow> list_ex (\<lambda>u. t = u) ts"

text \<open>\<open>None\<close> is the failed \<open>static_assert\<close>: the program does not compile.\<close>

fun type_index_impl :: "packet_kind \<Rightarrow> packet_kind list \<Rightarrow> nat \<Rightarrow> nat option" where
  "type_index_impl t [] idx = None"
| "type_index_impl t (u # us) idx = (if t = u then Some idx else type_index_impl t us (idx + 1))"

definition get_type_of :: "packet_kind \<Rightarrow> nat option" where
  "get_type_of t = type_index_impl t registry_types 0"

text \<open>The index of a registered type, which the compiler has established to exist.\<close>

definition type_index :: "packet_kind \<Rightarrow> nat" where
  "type_index t = (case get_type_of t of Some i \<Rightarrow> i | None \<Rightarrow> length registry_types)"

definition packet_size :: "packet_kind \<Rightarrow> nat" where
  "packet_size t = packet_id_size + payload_size t"

definition payload_length :: nat where
  "payload_length = max_payload registry_types"

section \<open>The registry object\<close>

record callback_info_t =
  invoke :: "packet_kind option"
  cb_size :: nat

type_synonym registry_t = "callback_info_t list"

definition no_callback :: callback_info_t where
  "no_callback = \<lparr>invoke = None, cb_size = 0\<rparr>"

definition registry_init :: registry_t where
  "registry_init = replicate (length registry_types) no_callback"

definition create :: "endian \<Rightarrow> packet \<Rightarrow> byte list result" where
  "create native data =
     (let payload = replicate payload_length 0;
          view = \<lparr>ws_array = payload, ws_pos = 0\<rparr>;
          pid = (of_nat (type_index (kind_of data)) :: packet_id_t);
          view = memcpy_to (object_bytes native pid) view;
          payload_view = subspan (size_of pid) view
      in rbind (packet_serialise native data payload_view) (\<lambda>sp. Inr (ws_array sp)))"

definition dispatch :: "endian \<Rightarrow> registry_t \<Rightarrow> packet_id_t \<Rightarrow> byte list \<Rightarrow> nat \<Rightarrow> packet option result" where
  "dispatch native m_callback pid payload bytes =
     (if unat pid \<ge> length m_callback then Inr None
      else let callback = m_callback ! unat pid
           in case invoke callback of
                None \<Rightarrow> Inr None
              | Some t \<Rightarrow>
                  if bytes < packet_id_size then Inr None
                  else if bytes - packet_id_size \<noteq> cb_size callback then Inr None
                  else if length payload < packet_id_size + cb_size callback then Inl Out_of_bounds
                  else rbind (packet_deserialise native t (take (cb_size callback) (drop packet_id_size payload)))
                         (\<lambda>obj. Inr (Some obj)))"

definition register_callback :: "packet_kind \<Rightarrow> registry_t \<Rightarrow> registry_t" where
  "register_callback t m_callback =
     m_callback[type_index t := \<lparr>invoke = Some t, cb_size = payload_size t\<rparr>]"

definition expected_payload_size :: "registry_t \<Rightarrow> packet_id_t \<Rightarrow> nat option" where
  "expected_payload_size m_callback pid =
     (if unat pid \<ge> length m_callback then None else Some (cb_size (m_callback ! unat pid)))"

section \<open>Facts about the type list\<close>

lemma type_index_simps [simp]:
  "type_index K_esp_init_request = 0"
  "type_index K_esp_init_response = 1"
  "type_index K_heartbeat = 2"
  "type_index K_motor_control = 3"
  "type_index K_motor_status = 4"
  "type_index K_rail_location = 5"
  "type_index K_rail_destination = 6"
  "type_index K_battery_status = 7"
  by (simp_all add: type_index_def get_type_of_def registry_types_def)

lemma length_registry_types [simp]: "length registry_types = 8"
  by (simp add: registry_types_def)

lemma type_index_less [simp]: "type_index t < 8"
  by (cases t) simp_all

lemma not_le_type_index [simp]: "\<not> 8 \<le> type_index t"
  by (cases t) simp_all

lemma nth_type_index [simp]: "registry_types ! type_index t = t"
  by (cases t) (simp_all add: registry_types_def)

lemma type_index_inject [simp]: "type_index t = type_index u \<longleftrightarrow> t = u"
  by (metis nth_type_index)

lemma payload_length [simp]: "payload_length = 13"
  by (simp add: payload_length_def max_payload_def registry_types_def)

lemma payload_size_le: "payload_size t \<le> 11"
  by (cases t) simp_all

lemma unat_type_index [simp]: "unat (of_nat (type_index t) :: packet_id_t) = type_index t"
  by (cases t) simp_all

section \<open>Facts about messages\<close>

lemma length_packet_enc [simp]: "length (packet_enc p) = payload_size (kind_of p)"
  by (cases p)
    (simp_all add: esp_init_request_enc_def esp_init_response_enc_def motor_control_enc_def motor_status_enc_def rail_location_enc_def rail_destination_enc_def battery_status_enc_def)

lemma writes_packet_serialise: "writes (packet_serialise native p) (packet_enc p)"
  using esp_init_request.ser_writes esp_init_response.ser_writes heartbeat.ser_writes motor_control.ser_writes motor_status.ser_writes rail_location.ser_writes rail_destination.ser_writes battery_status.ser_writes
  by (cases p) (simp_all add: writes_def)

lemma heartbeat_eq: "Heartbeat = m"
  by (cases m) simp

lemma packet_deserialise_enc [simp]:
  "packet_deserialise native (kind_of p) (packet_enc p @ rest) = Inr p"
  by (cases p)
    (simp_all add: heartbeat_deserialise_def heartbeat_eq esp_init_request.des_enc esp_init_response.des_enc motor_control.des_enc motor_status.des_enc rail_location.des_enc rail_destination.des_enc battery_status.des_enc)

lemma packet_deserialise_total:
  "payload_size t \<le> length bs \<Longrightarrow> \<exists>p. packet_deserialise native t bs = Inr p"
  using esp_init_request.des_total [of bs native]
    esp_init_response.des_total [of bs native]
    heartbeat.des_total [of bs native]
    motor_control.des_total [of bs native]
    motor_status.des_total [of bs native]
    rail_location.des_total [of bs native]
    rail_destination.des_total [of bs native]
    battery_status.des_total [of bs native]
  by (cases t) auto

lemma kind_of_packet_deserialise: "packet_deserialise native t bs = Inr p \<Longrightarrow> kind_of p = t"
  by (cases t) (auto simp: map_sum_def split: sum.splits)

section \<open>Creating a payload\<close>

text \<open>The bytes of the message proper: what the sender puts on the connection.\<close>

definition frame :: "endian \<Rightarrow> packet \<Rightarrow> byte list" where
  "frame native p = object_bytes native (of_nat (type_index (kind_of p)) :: packet_id_t) @ packet_enc p"

lemma length_frame [simp]: "length (frame native p) = packet_size (kind_of p)"
  by (simp add: frame_def packet_size_def)

lemma packet_size_le: "packet_size t \<le> payload_length"
  using payload_size_le [of t] by (simp add: packet_size_def)

lemma create_eq:
  "create native p = Inr (frame native p @ replicate (payload_length - packet_size (kind_of p)) 0)"
proof -
  let ?pid = "of_nat (type_index (kind_of p)) :: packet_id_t"
  let ?view = "\<lparr>ws_array = replicate payload_length 0, ws_pos = 0\<rparr>"
  have start: "subspan (size_of ?pid) (memcpy_to (object_bytes native ?pid) ?view)
      = put (object_bytes native ?pid) ?view"
    by (simp add: put_def)
  have fits: "length (object_bytes native ?pid @ packet_enc p) \<le> wspan_size ?view"
    using payload_size_le [of "kind_of p"] by (simp add: wspan_size_def)
  then have "packet_serialise native p (put (object_bytes native ?pid) ?view)
      = Inr (put (frame native p) ?view)"
    using writes_packet_serialise [of native p]
    by (simp add: writes_def put_put frame_def)
  then show ?thesis
    unfolding create_def Let_def start
    by (simp add: ws_array_put overwrite_def packet_size_def)
qed

text \<open>A sequence of messages on the connection.\<close>

definition frames :: "endian \<Rightarrow> packet list \<Rightarrow> byte list" where
  "frames native ps = concat (map (frame native) ps)"

lemma frames_simps [simp]:
  "frames native [] = []"
  "frames native (p # ps) = frame native p @ frames native ps"
  "frames native (ps @ qs) = frames native ps @ frames native qs"
  by (simp_all add: frames_def)

section \<open>Callbacks\<close>

text \<open>Every entry is either unused or the one of the type at its position.\<close>

definition registry_ok :: "registry_t \<Rightarrow> bool" where
  "registry_ok reg \<longleftrightarrow> length reg = 8 \<and>
     (\<forall>i < 8. reg ! i = no_callback \<or>
        reg ! i = \<lparr>invoke = Some (registry_types ! i), cb_size = payload_size (registry_types ! i)\<rparr>)"

definition registered :: "registry_t \<Rightarrow> packet_kind \<Rightarrow> bool" where
  "registered reg t \<longleftrightarrow> invoke (reg ! type_index t) = Some t"

lemma registry_length: "registry_ok reg \<Longrightarrow> length reg = 8"
  by (simp add: registry_ok_def)

lemma registry_ok_init [inv_intros]: "registry_ok registry_init"
  by (simp add: registry_ok_def registry_init_def)

lemma registry_ok_register [inv_intros]:
  "registry_ok reg \<Longrightarrow> registry_ok (register_callback t reg)"
  by (simp add: registry_ok_def register_callback_def nth_list_update)

lemma registered_init [simp]: "\<not> registered registry_init t"
  by (simp add: registered_def registry_init_def no_callback_def)

lemma registered_register [simp]:
  "registry_ok reg \<Longrightarrow> registered (register_callback t reg) u \<longleftrightarrow> u = t \<or> registered reg u"
  by (auto simp: registered_def register_callback_def registry_ok_def nth_list_update)

lemma registry_entry:
  assumes "registry_ok reg"
  shows "reg ! type_index t =
    (if registered reg t then \<lparr>invoke = Some t, cb_size = payload_size t\<rparr> else no_callback)"
  using assms [unfolded registry_ok_def, THEN conjunct2, rule_format, of "type_index t"]
  by (auto simp: registered_def no_callback_def)

lemma expected_payload_size_eq:
  "registry_ok reg \<Longrightarrow> expected_payload_size reg (of_nat (type_index t)) =
     Some (if registered reg t then payload_size t else 0)"
  by (simp add: expected_payload_size_def registry_entry registry_length no_callback_def)

lemma dispatch_unknown: "registry_ok reg \<Longrightarrow> 8 \<le> unat pid \<Longrightarrow> dispatch native reg pid bs n = Inr None"
  by (simp add: dispatch_def registry_ok_def)

lemma dispatch_registered:
  assumes "registry_ok reg"
  shows "dispatch native reg (of_nat (type_index t)) bs n =
    (if registered reg t \<and> n = packet_size t
     then if length bs < packet_size t then Inl Out_of_bounds
          else rbind (packet_deserialise native t (take (payload_size t) (drop 2 bs))) (\<lambda>obj. Inr (Some obj))
     else Inr None)"
  using assms
  by (auto simp: dispatch_def Let_def registry_entry registry_length packet_size_def no_callback_def)

text \<open>Every id below the number of types is the id of a type.\<close>

lemma packet_id_cases:
  fixes pid :: packet_id_t
  obtains (known) t where "pid = of_nat (type_index t)" | (unknown) "8 \<le> unat pid"
proof (cases "unat pid < 8")
  case True
  then have "type_index (registry_types ! unat pid) = unat pid"
    by (auto simp: registry_types_def less_Suc_eq numeral_eq_Suc)
  then show ?thesis by (intro known [of "registry_types ! unat pid"]) simp
qed (use unknown in simp)

section \<open>Properties of the registry\<close>

lemma packet_size_minus [simp]: "2 - packet_size t = 0" "packet_size t - 2 = payload_size t"
  by (simp_all add: packet_size_def)

lemma take_frame [simp]:
  "take 2 (frame native p) = object_bytes native (of_nat (type_index (kind_of p)) :: packet_id_t)"
  by (simp add: frame_def)

lemma drop_frame [simp]: "drop 2 (frame native p) = packet_enc p"
  by (simp add: frame_def)

lemma dispatch_frame:
  assumes "registry_ok reg" and "registered reg (kind_of p)"
  shows "dispatch native reg (of_nat (type_index (kind_of p))) (frame writer p @ rest) (packet_size (kind_of p)) =
    Inr (Some p)"
  using assms packet_deserialise_enc [of native p "[]"]
  by (simp add: dispatch_registered)

text \<open>
  The contract the two readers of a connection (host and client) rely on: what the registry
  promises about the frames of the messages it accepts.
\<close>

locale message_framing =
  fixes ok :: "'r \<Rightarrow> bool" and accepts :: "'r \<Rightarrow> 'm \<Rightarrow> bool"
    and frame_of :: "'m \<Rightarrow> byte list" and id_of :: "byte list \<Rightarrow> 'i"
    and expected :: "'r \<Rightarrow> 'i \<Rightarrow> nat option"
    and deliver :: "'r \<Rightarrow> 'i \<Rightarrow> byte list \<Rightarrow> nat \<Rightarrow> 'm option result"
  assumes header: "2 \<le> length (frame_of m)"
    and fits: "length (frame_of m) \<le> 13"
    and expected_frame: "ok r \<Longrightarrow> accepts r m \<Longrightarrow>
      expected r (id_of (take 2 (frame_of m))) = Some (length (frame_of m) - 2)"
    and deliver_frame: "ok r \<Longrightarrow> accepts r m \<Longrightarrow> length h = 2 \<Longrightarrow>
      deliver r (id_of (take 2 (frame_of m))) (h @ drop 2 (frame_of m) @ rest) (length (frame_of m)) = Inr (Some m)"
begin

lemma deliver_overwritten:
  assumes "ok r" and "accepts r m" and "length buf = 13"
  shows "deliver r (id_of (take 2 (frame_of m))) (overwrite 2 (drop 2 (frame_of m)) buf)
    (2 + (length (frame_of m) - 2)) = Inr (Some m)"
proof -
  have "overwrite 2 (drop 2 (frame_of m)) buf = take 2 buf @ drop 2 (frame_of m) @ drop (length (frame_of m)) buf"
    using header [of m] by (simp only: overwrite_def length_drop le_add_diff_inverse)
  moreover have "2 + (length (frame_of m) - 2) = length (frame_of m)"
    using header [of m] by (rule le_add_diff_inverse)
  ultimately show ?thesis
    using deliver_frame [OF assms(1,2), of "take 2 buf"] assms(3) by (simp only:) simp
qed

lemma length_overwritten:
  "length buf = 13 \<Longrightarrow> length (overwrite 2 (drop 2 (frame_of m)) buf) = 13"
  using fits [of m] by simp

lemma header_of_stream: "take 2 (frame_of m @ rest) = take 2 (frame_of m)"
  using header [of m] by simp

lemma body_of_stream:
  "drop 2 (frame_of m @ rest) = drop 2 (frame_of m) @ rest"
  "take (length (frame_of m) - 2) (drop 2 (frame_of m) @ rest) = drop 2 (frame_of m)"
  "drop (length (frame_of m) - 2) (drop 2 (frame_of m) @ rest) = rest"
  using header [of m] by simp_all

end

interpretation framing: message_framing registry_ok "\<lambda>r p. registered r (kind_of p)" "frame native"
    "of_object_bytes native :: byte list \<Rightarrow> packet_id_t" expected_payload_size "dispatch native"
  for native
proof
  show "2 \<le> length (frame native p)" for p by (simp add: packet_size_def)
  show "length (frame native p) \<le> 13" for p using packet_size_le [of "kind_of p"] by simp
  show "expected_payload_size r (of_object_bytes native (take 2 (frame native p))) = Some (length (frame native p) - 2)"
    if "registry_ok r" "registered r (kind_of p)" for r p
    using that by (simp add: expected_payload_size_eq)
  show "dispatch native r (of_object_bytes native (take 2 (frame native p)))
      (h @ drop 2 (frame native p) @ rest) (length (frame native p)) = Inr (Some p)"
    if "registry_ok r" "registered r (kind_of p)" "length h = 2" for r p h rest
    using that packet_deserialise_enc [of native p "[]"] by (simp add: dispatch_registered packet_size_def)
qed

text \<open>
  C4. Round trip through the registry: the payload built by \<open>create\<close> for a message, handed
  to \<open>dispatch\<close> of a registry of the same byte order under the id found in its first two
  bytes and with the size \<open>packet_size\<close> announces, calls the callback of the message's type with
  exactly the message that was sent.
\<close>

theorem create_dispatch_roundtrip:
  assumes "registry_ok reg" and "registered reg (kind_of p)" and "create native p = Inr payload"
  shows "dispatch native reg (of_object_bytes native (take 2 payload)) payload (packet_size (kind_of p)) =
    Inr (Some p)"
  using assms by (auto simp: create_eq dispatch_frame)

theorem create_dispatch_roundtrip_witness:
  "dispatch big_endian (register_callback K_rail_destination registry_init)
     (of_object_bytes big_endian (take 2 [0, 6, 7, 0, 0, 0, 0, 0, 0, 0, 0, 0, 0]))
     [0, 6, 7, 0, 0, 0, 0, 0, 0, 0, 0, 0, 0] (packet_size K_rail_destination)
   = Inr (Some (P_rail_destination \<lparr>rd_id = 7\<rparr>))"
proof -
  have "create big_endian (P_rail_destination \<lparr>rd_id = 7\<rparr>) = Inr [0, 6, 7, 0, 0, 0, 0, 0, 0, 0, 0, 0, 0]"
    by code_simp
  from create_dispatch_roundtrip [OF registry_ok_register [OF registry_ok_init] _ this]
  show ?thesis by (simp add: registry_ok_init)
qed

text \<open>
  C5. \<open>dispatch\<close> is safe on every input: with a full-size payload array it never reads
  outside the array or fails an assertion, and when it calls a callback, the id, the size and
  the message are those of one registered type.
\<close>

theorem dispatch_safe:
  assumes "registry_ok reg" and "length payload = payload_length"
  shows "\<exists>r. dispatch native reg pid payload bytes = Inr r \<and>
    (case r of
       None \<Rightarrow> True
     | Some p \<Rightarrow> registered reg (kind_of p) \<and> unat pid = type_index (kind_of p) \<and>
                 bytes = packet_size (kind_of p))"
proof (cases rule: packet_id_cases [of pid])
  case (known t)
  have "payload_size t \<le> length (take (payload_size t) (drop 2 payload))"
    using assms(2) payload_size_le [of t] by simp
  then obtain p where "packet_deserialise native t (take (payload_size t) (drop 2 payload)) = Inr p"
    using packet_deserialise_total by blast
  moreover from this have "kind_of p = t" by (rule kind_of_packet_deserialise)
  moreover have "\<not> length payload < packet_size t"
    using assms(2) packet_size_le [of t] by simp
  ultimately show ?thesis
    using assms(1) known by (auto simp: dispatch_registered)
next
  case unknown
  with assms show ?thesis by (simp add: dispatch_unknown)
qed

theorem dispatch_safe_witness:
  "\<exists>r. dispatch little_endian (register_callback K_motor_status registry_init) 4 (replicate 13 1) 9 = Inr r \<and>
    (case r of
       None \<Rightarrow> True
     | Some p \<Rightarrow> registered (register_callback K_motor_status registry_init) (kind_of p) \<and>
                 unat (4 :: packet_id_t) = type_index (kind_of p) \<and> (9::nat) = packet_size (kind_of p))"
  by (rule dispatch_safe [OF registry_ok_register [OF registry_ok_init]]) simp

lemma swapped_id:
  "of_object_bytes little_endian (object_bytes big_endian (of_nat (type_index t) :: packet_id_t)) =
     (of_nat (256 * type_index t) :: packet_id_t)"
  "of_object_bytes big_endian (object_bytes little_endian (of_nat (type_index t) :: packet_id_t)) =
     (of_nat (256 * type_index t) :: packet_id_t)"
  by (cases t, (hypsubst, code_simp)+)+

lemma swapped_type_index:
  assumes "writer \<noteq> reader" and "t \<noteq> K_esp_init_request"
  shows "8 \<le> unat (of_object_bytes reader (object_bytes writer (of_nat (type_index t) :: packet_id_t)) :: packet_id_t)"
proof -
  have "8 \<le> unat (of_nat (256 * type_index t) :: packet_id_t)"
    using assms(2) by (cases t) simp_all
  then show ?thesis
    using assms(1) by (cases writer; cases reader) (simp_all only: swapped_id, simp_all)
qed

text \<open>
  The id is the one part of a packet that depends on the machine: between machines of
  different byte order every message other than \<open>esp_init_request_t\<close> (whose id is 0) is taken
  for an unknown packet, whatever is registered, although its fields would have been understood.
\<close>

theorem mixed_endian_packet_unknown:
  assumes "registry_ok reg" and "writer \<noteq> reader" and "kind_of p \<noteq> K_esp_init_request"
    and "create writer p = Inr payload"
  shows "dispatch reader reg (of_object_bytes reader (take 2 payload)) payload bytes = Inr None \<and>
    packet_deserialise reader (kind_of p) (drop 2 payload) = Inr p"
proof -
  from assms(4) have payload:
    "payload = frame writer p @ replicate (payload_length - packet_size (kind_of p)) 0"
    by (simp add: create_eq)
  have "dispatch reader reg (of_object_bytes reader (take 2 payload)) payload bytes = Inr None"
    using assms(1-3) swapped_type_index by (simp add: dispatch_unknown payload)
  then show ?thesis by (simp add: payload)
qed

theorem mixed_endian_packet_unknown_witness:
  "dispatch little_endian (register_callback K_heartbeat registry_init)
     (of_object_bytes little_endian (take 2 (0 # 2 # replicate 11 0))) (0 # 2 # replicate 11 0) 2 = Inr None \<and>
   packet_deserialise little_endian K_heartbeat (drop 2 (0 # 2 # replicate 11 0)) = Inr (P_heartbeat Heartbeat)"
proof -
  have "create big_endian (P_heartbeat Heartbeat) = Inr (0 # 2 # replicate 11 0)"
    by code_simp
  from mixed_endian_packet_unknown [OF registry_ok_register [OF registry_ok_init], OF _ _ this,
      of little_endian K_heartbeat 2]
  show ?thesis by simp
qed

end
