(* ===== verification/Host_Io_State.thy ===== *)
theory Host_Io_State
  imports Packet_Registry
begin

text \<open>
  Reading from and writing to one client of the TCP server:
  \<open>host/networking/tcp/tcp_io_state.hpp\<close>, \<open>tcp_io_state.cpp\<close>.

  The asynchronous operations belong to the asio library. Starting one adds it to the list
  \<open>sock_ops\<close> of operations outstanding on the socket; its completion handler is a function of
  this theory and runs when the operation completes, with the error code and, for a successful
  read, with the bytes read (as many as the buffer holds, which is what \<open>async_read\<close>
  promises). Which outstanding operation completes, and when, is left open.

  The handlers call two callbacks of the owner: the message callback, through
  \<open>dispatch\<close>, and the disconnect callback. A handler returns the calls it makes as a list of
  events. A failing \<open>LOG_ASSERT\<close> raises \<open>SIGTRAP\<close>, which ends the process.
\<close>

section \<open>State\<close>

datatype io_state_t = io_idle | reading_payload | writing_payload

record write_state_t =
  wr_payload :: "byte list"
  wr_bytes :: nat

record read_state_t =
  rs_id :: packet_id_t
  rs_payload :: "byte list"

text \<open>The operations outstanding on a socket: a write of the given bytes, a read into the id, and
  a read of the given number of bytes into the payload (with the size of the id read before).\<close>

datatype async_op = Async_write "byte list" | Async_read_id | Async_read_payload nat nat

record socket_t =
  sock_open :: bool
  sock_ops :: "async_op list"

record tcp_io_state_t =
  m_id :: esp_id_t
  m_socket :: socket_t
  has_registry :: bool
  m_can_receive :: bool
  m_read_state :: read_state_t
  m_write_state_queue :: "write_state_t list"
  m_io_read_state :: io_state_t
  m_io_write_state :: io_state_t
  has_disconnect_callback :: bool

datatype io_event = Dispatched packet | Disconnected esp_id_t

definition tcp_io_state_init :: "socket_t \<Rightarrow> tcp_io_state_t" where
  "tcp_io_state_init socket =
     \<lparr>m_id = 0, m_socket = socket, has_registry = False, m_can_receive = False,
      m_read_state = \<lparr>rs_id = 0, rs_payload = replicate payload_length 0\<rparr>,
      m_write_state_queue = [], m_io_read_state = io_idle, m_io_write_state = io_idle,
      has_disconnect_callback = False\<rparr>"

definition set_spec :: "esp_id_t \<Rightarrow> tcp_io_state_t \<Rightarrow> tcp_io_state_t" where
  "set_spec i io = io\<lparr>m_id := i, has_registry := True, has_disconnect_callback := True\<rparr>"

definition start_op :: "async_op \<Rightarrow> tcp_io_state_t \<Rightarrow> tcp_io_state_t" where
  "start_op op io = io\<lparr>m_socket := (m_socket io)\<lparr>sock_ops := sock_ops (m_socket io) @ [op]\<rparr>\<rparr>"

definition finish_op :: "async_op \<Rightarrow> tcp_io_state_t \<Rightarrow> tcp_io_state_t" where
  "finish_op op io = io\<lparr>m_socket := (m_socket io)\<lparr>sock_ops := remove1 op (sock_ops (m_socket io))\<rparr>\<rparr>"

section \<open>Operations\<close>

text \<open>\<open>asio::buffer(payload.data(), bytes)\<close> of an array of fixed size.\<close>

definition asio_buffer :: "byte list \<Rightarrow> nat \<Rightarrow> byte list result" where
  "asio_buffer payload bytes = (if bytes \<le> length payload then Inr (take bytes payload) else Inl Out_of_bounds)"

definition io_write :: "tcp_io_state_t \<Rightarrow> tcp_io_state_t result" where
  "io_write io =
     (case m_write_state_queue io of
        [] \<Rightarrow> Inr io
      | buffer # _ \<Rightarrow>
          if m_io_write_state io = writing_payload then Inr io
          else rbind (asio_buffer (wr_payload buffer) (wr_bytes buffer)) (\<lambda>bs.
               Inr (start_op (Async_write bs) (io\<lparr>m_io_write_state := writing_payload\<rparr>))))"

definition io_send :: "byte list \<Rightarrow> nat \<Rightarrow> tcp_io_state_t \<Rightarrow> (bool \<times> tcp_io_state_t) result" where
  "io_send payload bytes io =
     (if \<not> sock_open (m_socket io) then Inr (False, io)
      else let io = io\<lparr>m_write_state_queue := m_write_state_queue io @ [\<lparr>wr_payload = payload, wr_bytes = bytes\<rparr>]\<rparr>
           in if m_io_write_state io = io_idle
              then rbind (io_write io) (\<lambda>io. Inr (True, io))
              else Inr (True, io))"

definition read_id :: "tcp_io_state_t \<Rightarrow> tcp_io_state_t" where
  "read_id io =
     (if \<not> m_can_receive io then io
      else if m_io_read_state io = reading_payload then io
      else start_op Async_read_id (io\<lparr>m_io_read_state := reading_payload\<rparr>))"

definition start_receiving :: "tcp_io_state_t \<Rightarrow> tcp_io_state_t" where
  "start_receiving io = read_id (io\<lparr>m_can_receive := True\<rparr>)"

text \<open>The second statement of \<open>stop_receiving\<close>, \<open>m_io_read_state == io_state_t::idle;\<close>, is a
  comparison whose value is dropped; so is the one in \<open>stop_io\<close>.\<close>

definition stop_receiving :: "tcp_io_state_t \<Rightarrow> tcp_io_state_t" where
  "stop_receiving io = io\<lparr>m_can_receive := False\<rparr>"

definition stop_io :: "tcp_io_state_t \<Rightarrow> tcp_io_state_t" where
  "stop_io io = io\<lparr>m_can_receive := False, m_io_write_state := io_idle, m_write_state_queue := []\<rparr>"

text \<open>\<open>ec\<close> says whether the operation failed; the first component of the result is the returned value.\<close>

definition has_or_handle_io_error :: "bool \<Rightarrow> tcp_io_state_t \<Rightarrow> bool \<times> io_event list \<times> tcp_io_state_t" where
  "has_or_handle_io_error ec io =
     (if ec then let io = stop_io io
                 in (True, if has_disconnect_callback io then [Disconnected (m_id io)] else [], io)
      else (False, [], io))"

text \<open>The completion handler of \<open>async_write\<close>; \<open>pop_front\<close> of an empty deque is undefined.\<close>

definition on_write :: "bool \<Rightarrow> tcp_io_state_t \<Rightarrow> (io_event list \<times> tcp_io_state_t) result" where
  "on_write ec io =
     (let io = io\<lparr>m_io_write_state := io_idle\<rparr>;
          (failed, evs, io) = has_or_handle_io_error ec io
      in if failed then Inr (evs, io)
         else case m_write_state_queue io of
                [] \<Rightarrow> Inl Out_of_bounds
              | _ # queue \<Rightarrow> rbind (io_write (io\<lparr>m_write_state_queue := queue\<rparr>)) (\<lambda>io. Inr (evs, io)))"

text \<open>The completion handler of the read into \<open>m_read_state.id\<close>.\<close>

definition read_payload ::
    "registry_t \<Rightarrow> bool \<Rightarrow> nat \<Rightarrow> tcp_io_state_t \<Rightarrow> (io_event list \<times> tcp_io_state_t) result" where
  "read_payload reg id_ec id_bytes io =
     (let (failed, evs, io) = has_or_handle_io_error id_ec io
      in if failed then Inr (evs, io)
         else if \<not> has_registry io then Inl Trap
         else case expected_payload_size reg (rs_id (m_read_state io)) of
                None \<Rightarrow> Inl Trap
              | Some n \<Rightarrow>
                  if packet_id_size + n \<le> length (rs_payload (m_read_state io))
                  then Inr (evs, start_op (Async_read_payload n id_bytes) io)
                  else Inl Out_of_bounds)"

text \<open>The completion handler of the read into the payload, with the bytes transferred.\<close>

definition on_payload ::
    "endian \<Rightarrow> registry_t \<Rightarrow> bool \<Rightarrow> nat \<Rightarrow> nat \<Rightarrow> tcp_io_state_t \<Rightarrow> (io_event list \<times> tcp_io_state_t) result" where
  "on_payload native reg ec bytes_transferred id_bytes io =
     (let (failed, evs, io) = has_or_handle_io_error ec io
      in if failed then Inr (evs, io)
         else if \<not> has_registry io then Inl Trap
         else rbind (dispatch native reg (rs_id (m_read_state io)) (rs_payload (m_read_state io))
                       (bytes_transferred + id_bytes)) (\<lambda>dispatched.
              case dispatched of
                None \<Rightarrow> Inl Trap
              | Some p \<Rightarrow> Inr (evs @ [Dispatched p], read_id (io\<lparr>m_io_read_state := io_idle\<rparr>))))"

text \<open>What a successful read stores before its handler runs.\<close>

definition store_id :: "endian \<Rightarrow> byte list \<Rightarrow> tcp_io_state_t \<Rightarrow> tcp_io_state_t" where
  "store_id native bs io = io\<lparr>m_read_state := (m_read_state io)\<lparr>rs_id := of_object_bytes native bs\<rparr>\<rparr>"

definition store_payload :: "byte list \<Rightarrow> tcp_io_state_t \<Rightarrow> tcp_io_state_t" where
  "store_payload bs io = io\<lparr>m_read_state := (m_read_state io)\<lparr>
     rs_payload := overwrite packet_id_size bs (rs_payload (m_read_state io))\<rparr>\<rparr>"

text \<open>The completion of an outstanding operation, with \<open>None\<close> for an error and otherwise the bytes read.\<close>

fun complete ::
    "endian \<Rightarrow> registry_t \<Rightarrow> async_op \<Rightarrow> byte list option \<Rightarrow> tcp_io_state_t \<Rightarrow> (io_event list \<times> tcp_io_state_t) result" where
  "complete native reg (Async_write bs) r io = on_write (r = None) (finish_op (Async_write bs) io)"
| "complete native reg Async_read_id None io = read_payload reg True 0 (finish_op Async_read_id io)"
| "complete native reg Async_read_id (Some bs) io =
     read_payload reg False (length bs) (store_id native bs (finish_op Async_read_id io))"
| "complete native reg (Async_read_payload n k) None io =
     on_payload native reg True 0 k (finish_op (Async_read_payload n k) io)"
| "complete native reg (Async_read_payload n k) (Some bs) io =
     on_payload native reg False (length bs) k (store_payload bs (finish_op (Async_read_payload n k) io))"

lemmas io_defs = start_op_def finish_op_def io_write_def io_send_def read_id_def start_receiving_def
  stop_receiving_def stop_io_def has_or_handle_io_error_def on_write_def read_payload_def on_payload_def
  store_id_def store_payload_def asio_buffer_def

section \<open>A connection in operation\<close>

text \<open>
  A connection together with its two byte streams: \<open>rx\<close>, what the client sends and the host has not
  yet read, and \<open>tx\<close>, what the host has handed to the network.
\<close>

record link =
  link_io :: tcp_io_state_t
  rx :: "byte list"
  tx :: "byte list"

fun op_bytes :: "async_op \<Rightarrow> nat" where
  "op_bytes (Async_write bs) = 0"
| "op_bytes Async_read_id = packet_id_size"
| "op_bytes (Async_read_payload n k) = n"

fun op_output :: "async_op \<Rightarrow> byte list" where
  "op_output (Async_write bs) = bs"
| "op_output Async_read_id = []"
| "op_output (Async_read_payload n k) = []"

fun dispatched :: "io_event list \<Rightarrow> packet list" where
  "dispatched [] = []"
| "dispatched (Dispatched p # evs) = p # dispatched evs"
| "dispatched (Disconnected i # evs) = dispatched evs"

text \<open>An outstanding operation can complete when enough bytes have arrived.\<close>

definition enabled :: "link \<Rightarrow> async_op \<Rightarrow> bool" where
  "enabled l op \<longleftrightarrow> op \<in> set (sock_ops (m_socket (link_io l))) \<and> op_bytes op \<le> length (rx l)"

definition complete_ok :: "endian \<Rightarrow> registry_t \<Rightarrow> async_op \<Rightarrow> link \<Rightarrow> (io_event list \<times> link) result" where
  "complete_ok native reg op l =
     rbind (complete native reg op (Some (take (op_bytes op) (rx l))) (link_io l)) (\<lambda>(evs, io).
       Inr (evs, l\<lparr>link_io := io, rx := drop (op_bytes op) (rx l), tx := tx l @ op_output op\<rparr>))"

text \<open>
  The runs of a connection on which no operation has failed: messages handed to
  \<open>send\<close>, receiving switched on and off, and completions in any order. The two lists are the messages
  sent and the messages dispatched so far.
\<close>

inductive link_run :: "endian \<Rightarrow> registry_t \<Rightarrow> link \<Rightarrow> packet list \<Rightarrow> packet list \<Rightarrow> link \<Rightarrow> bool"
  for native reg l0 where
  run_init: "link_run native reg l0 [] [] l0"
| run_send: "link_run native reg l0 ss ds l \<Longrightarrow> create native p = Inr payload \<Longrightarrow>
    io_send payload (packet_size (kind_of p)) (link_io l) = Inr (True, io) \<Longrightarrow>
    link_run native reg l0 (ss @ [p]) ds (l\<lparr>link_io := io\<rparr>)"
| run_start_receiving: "link_run native reg l0 ss ds l \<Longrightarrow>
    link_run native reg l0 ss ds (l\<lparr>link_io := start_receiving (link_io l)\<rparr>)"
| run_stop_receiving: "link_run native reg l0 ss ds l \<Longrightarrow>
    link_run native reg l0 ss ds (l\<lparr>link_io := stop_receiving (link_io l)\<rparr>)"
| run_complete: "link_run native reg l0 ss ds l \<Longrightarrow> enabled l op \<Longrightarrow>
    complete_ok native reg op l = Inr (evs, l') \<Longrightarrow>
    link_run native reg l0 ss (ds @ dispatched evs) l'"

text \<open>A freshly accepted connection, with the bytes its client is going to send.\<close>

definition new_link :: "esp_id_t \<Rightarrow> byte list \<Rightarrow> link" where
  "new_link i input =
     \<lparr>link_io = set_spec i (tcp_io_state_init \<lparr>sock_open = True, sock_ops = []\<rparr>), rx = input, tx = []\<rparr>"

subsection \<open>Invariants\<close>

fun is_write :: "async_op \<Rightarrow> bool" where
  "is_write (Async_write bs) = True"
| "is_write Async_read_id = False"
| "is_write (Async_read_payload n k) = False"

definition write_ops :: "tcp_io_state_t \<Rightarrow> async_op list" where
  "write_ops io = filter is_write (sock_ops (m_socket io))"

definition read_ops :: "tcp_io_state_t \<Rightarrow> async_op list" where
  "read_ops io = filter (\<lambda>op. \<not> is_write op) (sock_ops (m_socket io))"

definition wr_frame :: "write_state_t \<Rightarrow> byte list" where
  "wr_frame w = take (wr_bytes w) (wr_payload w)"

text \<open>Writing: the frames transmitted and the frames queued are the frames sent, in order, and
  exactly the first frame of a nonempty queue is being written.\<close>

definition write_inv :: "endian \<Rightarrow> packet list \<Rightarrow> byte list \<Rightarrow> tcp_io_state_t \<Rightarrow> bool" where
  "write_inv native ss out io \<longleftrightarrow>
     sock_open (m_socket io) \<and>
     (\<forall>w \<in> set (m_write_state_queue io). wr_bytes w \<le> length (wr_payload w)) \<and>
     out @ concat (map wr_frame (m_write_state_queue io)) = frames native ss \<and>
     (case m_write_state_queue io of
        [] \<Rightarrow> m_io_write_state io = io_idle \<and> write_ops io = []
      | w # _ \<Rightarrow> m_io_write_state io = writing_payload \<and> write_ops io = [Async_write (wr_frame w)])"

text \<open>Reading: the frames of the messages not yet dispatched are what is left of the input, less
  the id of the message whose payload is being read.\<close>

definition read_phase :: "endian \<Rightarrow> packet list \<Rightarrow> byte list \<Rightarrow> tcp_io_state_t \<Rightarrow> bool" where
  "read_phase native todo input io \<longleftrightarrow>
     m_io_read_state io = io_idle \<and> read_ops io = [] \<and> input = frames native todo \<or>
     m_io_read_state io = reading_payload \<and> read_ops io = [Async_read_id] \<and> input = frames native todo \<or>
     m_io_read_state io = reading_payload \<and>
       (\<exists>p ps. todo = p # ps \<and> read_ops io = [Async_read_payload (length (frame native p) - 2) 2] \<and>
          rs_id (m_read_state io) = of_object_bytes native (take 2 (frame native p)) \<and>
          input = drop 2 (frame native p) @ frames native ps)"

definition read_inv :: "endian \<Rightarrow> packet list \<Rightarrow> packet list \<Rightarrow> byte list \<Rightarrow> tcp_io_state_t \<Rightarrow> bool" where
  "read_inv native ps ds input io \<longleftrightarrow>
     has_registry io \<and> length (rs_payload (m_read_state io)) = 13 \<and>
     (\<exists>todo. ps = ds @ todo \<and> read_phase native todo input io)"

lemmas inv_defs = write_inv_def read_inv_def read_phase_def write_ops_def read_ops_def

lemma new_link_inv:
  "write_inv native [] (tx (new_link i input)) (link_io (new_link i input))"
  "read_inv native ps [] (frames native ps) (link_io (new_link i input))"
  by (simp_all add: inv_defs new_link_def set_spec_def tcp_io_state_init_def)

text \<open>The reading half of the state does not see the writing half.\<close>

lemma read_inv_cong:
  assumes "has_registry io' = has_registry io" and "m_read_state io' = m_read_state io"
    and "m_io_read_state io' = m_io_read_state io" and "read_ops io' = read_ops io"
  shows "read_inv native ps ds input io' = read_inv native ps ds input io"
  using assms by (simp add: read_inv_def read_phase_def)

lemma write_inv_cong:
  assumes "sock_open (m_socket io') = sock_open (m_socket io)"
    and "m_write_state_queue io' = m_write_state_queue io"
    and "m_io_write_state io' = m_io_write_state io" and "write_ops io' = write_ops io"
  shows "write_inv native ss out io' = write_inv native ss out io"
  using assms by (simp add: write_inv_def cong: list.case_cong)

lemma write_ops_simps [simp]:
  "write_ops (start_op op io) = (if is_write op then write_ops io @ [op] else write_ops io)"
  "read_ops (start_op op io) = (if is_write op then read_ops io else read_ops io @ [op])"
  by (simp_all add: write_ops_def read_ops_def start_op_def)

lemma filter_remove1: "filter P (remove1 x xs) = (if P x then remove1 x (filter P xs) else filter P xs)"
  by (induction xs) auto

lemma finish_ops_simps [simp]:
  "write_ops (finish_op op io) = (if is_write op then remove1 op (write_ops io) else write_ops io)"
  "read_ops (finish_op op io) = (if is_write op then read_ops io else remove1 op (read_ops io))"
  by (simp_all add: write_ops_def read_ops_def finish_op_def filter_remove1)

lemma ops_update [simp]:
  "write_ops (m_write_state_queue_update f io) = write_ops io"
  "read_ops (m_write_state_queue_update f io) = read_ops io"
  "write_ops (m_io_write_state_update g io) = write_ops io"
  "read_ops (m_io_write_state_update g io) = read_ops io"
  "write_ops (m_io_read_state_update h io) = write_ops io"
  "read_ops (m_io_read_state_update h io) = read_ops io"
  "write_ops (m_can_receive_update k io) = write_ops io"
  "read_ops (m_can_receive_update k io) = read_ops io"
  "write_ops (m_read_state_update r io) = write_ops io"
  "read_ops (m_read_state_update r io) = read_ops io"
  by (simp_all add: write_ops_def read_ops_def)

lemma op_simps [simp]:
  "m_id (start_op op io) = m_id io" "m_id (finish_op op io) = m_id io"
  "sock_open (m_socket (start_op op io)) = sock_open (m_socket io)"
  "sock_open (m_socket (finish_op op io)) = sock_open (m_socket io)"
  "has_registry (start_op op io) = has_registry io" "has_registry (finish_op op io) = has_registry io"
  "m_can_receive (start_op op io) = m_can_receive io" "m_can_receive (finish_op op io) = m_can_receive io"
  "m_read_state (start_op op io) = m_read_state io" "m_read_state (finish_op op io) = m_read_state io"
  "m_write_state_queue (start_op op io) = m_write_state_queue io"
  "m_write_state_queue (finish_op op io) = m_write_state_queue io"
  "m_io_read_state (start_op op io) = m_io_read_state io" "m_io_read_state (finish_op op io) = m_io_read_state io"
  "m_io_write_state (start_op op io) = m_io_write_state io" "m_io_write_state (finish_op op io) = m_io_write_state io"
  by (simp_all add: start_op_def finish_op_def)

text \<open>Starting the next write on an idle writer establishes the invariant of the writer.\<close>

lemma io_write_idle:
  assumes "m_io_write_state io = io_idle" and "write_ops io = []" and "sock_open (m_socket io)"
    and "\<forall>w \<in> set (m_write_state_queue io). wr_bytes w \<le> length (wr_payload w)"
    and "out @ concat (map wr_frame (m_write_state_queue io)) = frames native ss"
  obtains io' where "io_write io = Inr io'" and "write_inv native ss out io'"
    and "\<And>ps ds input. read_inv native ps ds input io' = read_inv native ps ds input io"
proof (cases "m_write_state_queue io")
  case Nil
  with assms have "io_write io = Inr io" and "write_inv native ss out io"
    by (simp_all add: io_write_def write_inv_def)
  then show ?thesis using that by blast
next
  case (Cons w q)
  let ?io = "start_op (Async_write (wr_frame w)) (io\<lparr>m_io_write_state := writing_payload\<rparr>)"
  have "io_write io = Inr ?io" and "write_inv native ss out ?io"
    using Cons assms by (simp_all add: io_write_def write_inv_def asio_buffer_def wr_frame_def)
  moreover have "read_inv native ps ds input ?io = read_inv native ps ds input io" for ps ds input
    by (rule read_inv_cong) simp_all
  ultimately show ?thesis using that by blast
qed

lemma send_inv:
  assumes "write_inv native ss out io" and "create native p = Inr payload"
  obtains io' where "io_send payload (packet_size (kind_of p)) io = Inr (True, io')"
    and "write_inv native (ss @ [p]) out io'"
    and "\<And>ps ds input. read_inv native ps ds input io' = read_inv native ps ds input io"
proof -
  let ?w = "\<lparr>wr_payload = payload, wr_bytes = packet_size (kind_of p)\<rparr>"
  let ?io = "io\<lparr>m_write_state_queue := m_write_state_queue io @ [?w]\<rparr>"
  have w: "wr_frame ?w = frame native p" "wr_bytes ?w \<le> length (wr_payload ?w)"
    using assms(2) packet_size_le [of "kind_of p"] by (auto simp: wr_frame_def create_eq)
  have "out @ concat (map wr_frame (m_write_state_queue io)) = frames native ss"
    using assms(1) by (simp add: write_inv_def)
  with w(1) have queued: "\<forall>w \<in> set (m_write_state_queue ?io). wr_bytes w \<le> length (wr_payload w)"
    "out @ concat (map wr_frame (m_write_state_queue ?io)) = frames native (ss @ [p])"
    using assms(1) w(2) by (auto simp: write_inv_def)
  have open_sock: "sock_open (m_socket ?io)" using assms(1) by (simp add: write_inv_def)
  show ?thesis
  proof (cases "m_write_state_queue io")
    case Nil
    then have idle: "m_io_write_state ?io = io_idle" "write_ops ?io = []"
      using assms(1) by (simp_all add: write_inv_def)
    obtain io' where io': "io_write ?io = Inr io'" "write_inv native (ss @ [p]) out io'"
      "\<And>ps ds input. read_inv native ps ds input io' = read_inv native ps ds input ?io"
      using io_write_idle [OF idle open_sock queued] by blast
    have "read_inv native ps ds input ?io = read_inv native ps ds input io" for ps ds input
      by (rule read_inv_cong) simp_all
    with io' show ?thesis
      using that [of io'] idle open_sock by (simp add: io_send_def Let_def)
  next
    case (Cons v q)
    have "write_inv native (ss @ [p]) out ?io"
      using assms(1) queued Cons by (simp add: write_inv_def)
    moreover have "io_send payload (packet_size (kind_of p)) io = Inr (True, ?io)"
      using Cons assms(1) by (simp add: io_send_def write_inv_def)
    moreover have "read_inv native ps ds input ?io = read_inv native ps ds input io" for ps ds input
      by (rule read_inv_cong) simp_all
    ultimately show ?thesis using that by blast
  qed
qed

lemma write_done_inv:
  assumes "write_inv native ss out io" and "Async_write bs \<in> set (write_ops io)"
  obtains io' where "on_write False (finish_op (Async_write bs) io) = Inr ([], io')"
    and "write_inv native ss (out @ bs) io'"
    and "\<And>ps ds input. read_inv native ps ds input io' = read_inv native ps ds input io"
proof -
  from assms obtain w q where q: "m_write_state_queue io = w # q" "bs = wr_frame w"
    "write_ops io = [Async_write bs]"
    by (auto simp: write_inv_def split: list.splits)
  let ?io = "(finish_op (Async_write bs) io)\<lparr>m_io_write_state := io_idle, m_write_state_queue := q\<rparr>"
  have "m_io_write_state ?io = io_idle" "write_ops ?io = []" "sock_open (m_socket ?io)"
    "\<forall>w \<in> set (m_write_state_queue ?io). wr_bytes w \<le> length (wr_payload w)"
    "(out @ bs) @ concat (map wr_frame (m_write_state_queue ?io)) = frames native ss"
    using assms(1) q by (simp_all add: write_inv_def)
  then obtain io' where "io_write ?io = Inr io'" "write_inv native ss (out @ bs) io'"
    "\<And>ps ds input. read_inv native ps ds input io' = read_inv native ps ds input ?io"
    using io_write_idle by blast
  moreover have "read_inv native ps ds input ?io = read_inv native ps ds input io" for ps ds input
    by (rule read_inv_cong) simp_all
  moreover have "on_write False (finish_op (Async_write bs) io) = rbind (io_write ?io) (\<lambda>io. Inr ([], io))"
    using q by (simp add: on_write_def has_or_handle_io_error_def Let_def)
  ultimately show ?thesis using that by simp
qed

lemma read_id_inv:
  assumes "read_inv native ps ds input io"
  shows "read_inv native ps ds input (read_id io)"
    and "write_inv native ss out (read_id io) = write_inv native ss out io"
proof -
  show "read_inv native ps ds input (read_id io)"
    using assms by (auto simp: read_id_def read_inv_def read_phase_def)
  show "write_inv native ss out (read_id io) = write_inv native ss out io"
    by (rule write_inv_cong) (simp_all add: read_id_def)
qed

lemma can_receive_inv [simp]:
  "read_inv native ps ds input (io\<lparr>m_can_receive := b\<rparr>) = read_inv native ps ds input io"
  "write_inv native ss out (io\<lparr>m_can_receive := b\<rparr>) = write_inv native ss out io"
  by (rule read_inv_cong; simp) (rule write_inv_cong; simp)

lemma receiving_inv:
  assumes "read_inv native ps ds input io"
  shows "read_inv native ps ds input (start_receiving io)"
    and "write_inv native ss out (start_receiving io) = write_inv native ss out io"
    and "read_inv native ps ds input (stop_receiving io)"
    and "write_inv native ss out (stop_receiving io) = write_inv native ss out io"
  using assms read_id_inv [of native ps ds input "io\<lparr>m_can_receive := True\<rparr>"]
  by (simp_all add: start_receiving_def stop_receiving_def)

text \<open>An id has arrived: the payload of its message is read next.\<close>

lemma read_id_done_inv:
  assumes "registry_ok reg" and "\<forall>p \<in> set ps. registered reg (kind_of p)"
    and "read_inv native ps ds input io" and "Async_read_id \<in> set (read_ops io)" and "2 \<le> length input"
  obtains io' where "complete native reg Async_read_id (Some (take 2 input)) io = Inr ([], io')"
    and "read_inv native ps ds (drop 2 input) io'"
    and "\<And>ss out. write_inv native ss out io' = write_inv native ss out io"
proof -
  from assms(3,4) obtain todo where todo: "ps = ds @ todo" "m_io_read_state io = reading_payload"
    "read_ops io = [Async_read_id]" "input = frames native todo" "has_registry io"
    "length (rs_payload (m_read_state io)) = 13"
    by (auto simp: read_inv_def read_phase_def)
  with assms(5) obtain p rest where p: "todo = p # rest" by (cases todo) auto
  let ?h = "take 2 (frame native p)" and ?n = "length (frame native p) - 2"
  let ?io = "start_op (Async_read_payload ?n 2) (store_id native ?h (finish_op Async_read_id io))"
  have head: "take 2 input = ?h" "drop 2 input = drop 2 (frame native p) @ frames native rest" "length ?h = 2"
    using todo(4) p framing.header [of native p]
    by (simp_all add: framing.header_of_stream framing.body_of_stream)
  have "expected_payload_size reg (of_object_bytes native ?h) = Some ?n"
    using framing.expected_frame [OF assms(1), of p native] assms(2) todo(1) p by simp
  then have "complete native reg Async_read_id (Some (take 2 input)) io = Inr ([], ?io)"
    using todo head payload_size_le [of "kind_of p"] framing.header [of native p]
    by (simp add: read_payload_def has_or_handle_io_error_def store_id_def)
  moreover have "read_inv native ps ds (drop 2 input) ?io"
    using todo p head by (simp add: read_inv_def read_phase_def store_id_def)
  moreover have "write_inv native ss out ?io = write_inv native ss out io" for ss out
    by (rule write_inv_cong) (simp_all add: store_id_def)
  ultimately show ?thesis using that by blast
qed

text \<open>A payload has arrived: the message is dispatched and the next id is awaited.\<close>

lemma payload_done_inv:
  assumes "registry_ok reg" and "\<forall>p \<in> set ps. registered reg (kind_of p)"
    and "read_inv native ps ds input io" and "Async_read_payload n k \<in> set (read_ops io)" and "n \<le> length input"
  obtains p io' where "complete native reg (Async_read_payload n k) (Some (take n input)) io = Inr ([Dispatched p], io')"
    and "read_inv native ps (ds @ [p]) (drop n input) io'"
    and "\<And>ss out. write_inv native ss out io' = write_inv native ss out io"
proof -
  from assms(3,4) obtain p rest where p: "ps = ds @ p # rest" "m_io_read_state io = reading_payload"
    "read_ops io = [Async_read_payload n k]" "n = length (frame native p) - 2" "k = 2"
    "rs_id (m_read_state io) = of_object_bytes native (take 2 (frame native p))"
    "input = drop 2 (frame native p) @ frames native rest" "has_registry io"
    "length (rs_payload (m_read_state io)) = 13"
    by (auto simp: read_inv_def read_phase_def)
  let ?b = "drop 2 (frame native p)" and ?op = "Async_read_payload n k"
  have input: "take n input = ?b" "drop n input = frames native rest" "length ?b = n"
    using p(4,7) by (simp_all add: framing.body_of_stream)
  let ?st = "store_payload ?b (finish_op ?op io)"
  let ?io = "read_id (?st\<lparr>m_io_read_state := io_idle\<rparr>)"
  have reg: "registered reg (kind_of p)" using assms(2) p(1) by simp
  have "dispatch native reg (rs_id (m_read_state ?st)) (rs_payload (m_read_state ?st)) (length ?b + k) = Inr (Some p)"
    using framing.deliver_overwritten [OF assms(1) reg p(9), of native] p(4,5,6) input(3)
    by (simp add: store_payload_def add.commute)
  moreover have "has_registry ?st" using p(8) by (simp add: store_payload_def)
  ultimately have "complete native reg ?op (Some (take n input)) io = Inr ([Dispatched p], ?io)"
    by (simp add: on_payload_def has_or_handle_io_error_def input(1))
  moreover have "read_inv native ps (ds @ [p]) (drop n input) (?st\<lparr>m_io_read_state := io_idle\<rparr>)"
    using p input(2) framing.length_overwritten [OF p(9), of native p]
    by (simp add: read_inv_def read_phase_def store_payload_def)
  then have "read_inv native ps (ds @ [p]) (drop n input) ?io" by (rule read_id_inv)
  moreover have "write_inv native ss out ?io = write_inv native ss out io" for ss out
    by (rule write_inv_cong) (simp_all add: store_payload_def read_id_def)
  ultimately show ?thesis using that by blast
qed

definition link_inv :: "endian \<Rightarrow> packet list \<Rightarrow> packet list \<Rightarrow> packet list \<Rightarrow> link \<Rightarrow> bool" where
  "link_inv native ps ss ds l \<longleftrightarrow>
     write_inv native ss (tx l) (link_io l) \<and> read_inv native ps ds (rx l) (link_io l)"

lemma enabled_cases:
  assumes "enabled l op"
  obtains (written) bs where "op = Async_write bs" and "Async_write bs \<in> set (write_ops (link_io l))"
  | (read_id) "op = Async_read_id" and "Async_read_id \<in> set (read_ops (link_io l))" and "2 \<le> length (rx l)"
  | (payload) n k where "op = Async_read_payload n k"
      and "Async_read_payload n k \<in> set (read_ops (link_io l))" and "n \<le> length (rx l)"
  using assms by (cases op) (auto simp: enabled_def write_ops_def read_ops_def)

text \<open>Every operation that can complete does so without a fault, and keeps the invariant.\<close>

lemma complete_inv:
  assumes "registry_ok reg" and "\<forall>p \<in> set ps. registered reg (kind_of p)"
    and "link_inv native ps ss ds l" and "enabled l op"
  obtains evs l' where "complete_ok native reg op l = Inr (evs, l')"
    and "link_inv native ps ss (ds @ dispatched evs) l'"
proof -
  have inv: "write_inv native ss (tx l) (link_io l)" "read_inv native ps ds (rx l) (link_io l)"
    using assms(3) by (simp_all add: link_inv_def)
  from assms(4) show ?thesis
  proof (cases rule: enabled_cases)
    case (written bs)
    obtain io' where "on_write False (finish_op (Async_write bs) (link_io l)) = Inr ([], io')"
      and "write_inv native ss (tx l @ bs) io'"
      and "\<And>ps ds input. read_inv native ps ds input io' = read_inv native ps ds input (link_io l)"
      by (rule write_done_inv [OF inv(1) written(2)]) (rule that)
    with inv(2) show ?thesis
      using that [of "[]" "l\<lparr>link_io := io', tx := tx l @ bs\<rparr>"] written
      by (simp add: complete_ok_def link_inv_def)
  next
    case read_id
    obtain io' where "complete native reg Async_read_id (Some (take 2 (rx l))) (link_io l) = Inr ([], io')"
      and "read_inv native ps ds (drop 2 (rx l)) io'"
      and "\<And>ss out. write_inv native ss out io' = write_inv native ss out (link_io l)"
      by (rule read_id_done_inv [OF assms(1,2) inv(2) read_id(2,3)]) (rule that)
    with inv(1) show ?thesis
      using that [of "[]" "l\<lparr>link_io := io', rx := drop 2 (rx l)\<rparr>"] read_id
      by (simp add: complete_ok_def link_inv_def)
  next
    case (payload n k)
    obtain p io' where "complete native reg (Async_read_payload n k) (Some (take n (rx l))) (link_io l) = Inr ([Dispatched p], io')"
      and "read_inv native ps (ds @ [p]) (drop n (rx l)) io'"
      and "\<And>ss out. write_inv native ss out io' = write_inv native ss out (link_io l)"
      by (rule payload_done_inv [OF assms(1,2) inv(2) payload(2,3)]) (rule that)
    with inv(1) show ?thesis
      using that [of "[Dispatched p]" "l\<lparr>link_io := io', rx := drop n (rx l)\<rparr>"] payload(1)
      by (simp add: complete_ok_def link_inv_def del: complete.simps)
  qed
qed

lemma link_run_inv:
  assumes "link_run native reg (new_link i (frames native ps)) ss ds l"
    and "registry_ok reg" and "\<forall>p \<in> set ps. registered reg (kind_of p)"
  shows "link_inv native ps ss ds l"
  using assms(1)
proof induction
  case run_init
  show ?case using new_link_inv [where i = i] by (simp add: link_inv_def new_link_def)
next
  case (run_send ss ds l p payload io)
  then show ?case
    using send_inv [of native ss "tx l" "link_io l" p payload] by (auto simp: link_inv_def)
next
  case (run_start_receiving ss ds l)
  then show ?case using receiving_inv(1,2) by (auto simp: link_inv_def)
next
  case (run_stop_receiving ss ds l)
  then show ?case using receiving_inv(3,4) by (auto simp: link_inv_def)
next
  case (run_complete ss ds l op evs l')
  then show ?case using complete_inv [OF assms(2,3) run_complete.IH run_complete.hyps(2)] by auto
qed

section \<open>Properties\<close>

text \<open>A connection whose client sends one heartbeat, to which the host sends one.\<close>

definition sample_registry :: registry_t where
  "sample_registry = register_callback K_heartbeat registry_init"

lemma sample_registry_ok: "registry_ok sample_registry" "registered sample_registry K_heartbeat"
  by (simp_all add: sample_registry_def registry_ok_init registry_ok_register)

lemma sample_run:
  obtains l where "link_run little_endian sample_registry (new_link 7 (frames little_endian [P_heartbeat Heartbeat]))
    [P_heartbeat Heartbeat] [] l"
proof -
  let ?l0 = "new_link 7 (frames little_endian [P_heartbeat Heartbeat])"
  obtain payload where payload: "create little_endian (P_heartbeat Heartbeat) = Inr payload"
    by (simp add: create_eq)
  obtain io where "io_send payload (packet_size (kind_of (P_heartbeat Heartbeat))) (link_io ?l0) = Inr (True, io)"
    by (rule send_inv [OF new_link_inv(1) payload]) (rule that)
  with link_run.run_send [OF link_run.run_init payload]
  have "link_run little_endian sample_registry ?l0 ([] @ [P_heartbeat Heartbeat]) [] (?l0\<lparr>link_io := io\<rparr>)"
    by blast
  then show ?thesis by (intro that) simp
qed

text \<open>
  C7. Messages pass a connection in order, whole and exactly once, in both directions. Take any
  run of a connection (sends, switching receiving on and off, completions of reads and writes in
  any interleaving) whose client sends the frames of registered messages \<open>ps\<close>. Then the messages
  dispatched so far are a prefix of \<open>ps\<close>, the bytes transmitted so far followed by those of the
  queued messages are the frames of the messages sent, in the order of sending, and every
  outstanding operation that can complete completes without a fault.
\<close>

theorem link_run_fifo:
  assumes "registry_ok reg" and "\<forall>p \<in> set ps. registered reg (kind_of p)"
    and "link_run native reg (new_link i (frames native ps)) ss ds l"
  shows "(\<exists>todo. ps = ds @ todo) \<and>
    tx l @ concat (map wr_frame (m_write_state_queue (link_io l))) = frames native ss \<and>
    (\<forall>op. enabled l op \<longrightarrow> (\<exists>evs l'. complete_ok native reg op l = Inr (evs, l')))"
proof -
  have inv: "link_inv native ps ss ds l" by (rule link_run_inv [OF assms(3,1,2)])
  have "\<exists>evs l'. complete_ok native reg op l = Inr (evs, l')" if "enabled l op" for op
    using complete_inv [OF assms(1,2) inv that] by blast
  with inv show ?thesis by (auto simp: link_inv_def write_inv_def read_inv_def)
qed

theorem link_run_fifo_witness:
  "\<exists>l. link_run little_endian sample_registry (new_link 7 (frames little_endian [P_heartbeat Heartbeat]))
       [P_heartbeat Heartbeat] [] l \<and>
     tx l @ concat (map wr_frame (m_write_state_queue (link_io l))) = [2, 0]"
proof -
  obtain l where run: "link_run little_endian sample_registry
      (new_link 7 (frames little_endian [P_heartbeat Heartbeat])) [P_heartbeat Heartbeat] [] l"
    by (rule sample_run)
  have "frames little_endian [P_heartbeat Heartbeat] = [2, 0]" by code_simp
  moreover have "tx l @ concat (map wr_frame (m_write_state_queue (link_io l))) = frames little_endian [P_heartbeat Heartbeat]"
    using link_run_fifo [OF sample_registry_ok(1) _ run] sample_registry_ok(2) by simp
  ultimately show ?thesis using run by metis
qed

text \<open>
  C13. A message the host has not registered ends the process: when the id of the message being
  read is not the id of a registered type, either the handler of the id raises the trap at once
  (an id outside the list of types), or the read of its empty payload is started and its
  handler raises the trap.
\<close>

theorem unregistered_packet_traps:
  assumes "registry_ok reg" and "length bs = 2" and "length (rs_payload (m_read_state io)) = 13"
    and "\<nexists>t. registered reg t \<and> of_object_bytes native bs = (of_nat (type_index t) :: packet_id_t)"
  shows "complete native reg Async_read_id (Some bs) io = Inl Trap \<or>
    (\<exists>io'. complete native reg Async_read_id (Some bs) io = Inr ([], io') \<and>
       Async_read_payload 0 2 \<in> set (sock_ops (m_socket io')) \<and>
       complete native reg (Async_read_payload 0 2) (Some []) io' = Inl Trap)"
proof (cases "has_registry io")
  case False
  then show ?thesis by (simp add: read_payload_def has_or_handle_io_error_def store_id_def)
next
  case True
  let ?id = "of_object_bytes native bs :: packet_id_t"
  let ?io = "store_id native bs (finish_op Async_read_id io)"
  show ?thesis
  proof (cases rule: packet_id_cases [of ?id])
    case unknown
    then show ?thesis
      using assms(1) True by (simp add: read_payload_def has_or_handle_io_error_def store_id_def
        expected_payload_size_def registry_length)
  next
    case (known t)
    with assms(4) have unreg: "\<not> registered reg t" by blast
    then have size: "expected_payload_size reg ?id = Some 0"
      unfolding known using assms(1) by (simp add: expected_payload_size_eq)
    then have "complete native reg Async_read_id (Some bs) io = Inr ([], start_op (Async_read_payload 0 2) ?io)"
      using True assms(2,3) by (simp add: read_payload_def has_or_handle_io_error_def store_id_def)
    moreover have "Async_read_payload 0 2 \<in> set (sock_ops (m_socket (start_op (Async_read_payload 0 2) ?io)))"
      by (simp add: start_op_def)
    moreover have "dispatch native reg ?id bs' (Suc (Suc 0)) = Inr None" for bs'
      unfolding known using assms(1) unreg by (simp add: dispatch_registered)
    then have "complete native reg (Async_read_payload 0 2) (Some []) (start_op (Async_read_payload 0 2) ?io) = Inl Trap"
      using True by (simp add: on_payload_def has_or_handle_io_error_def store_id_def store_payload_def)
    ultimately show ?thesis by blast
  qed
qed

theorem unregistered_packet_traps_witness:
  "complete little_endian sample_registry Async_read_id (Some [255, 255]) (link_io (new_link 7 [])) = Inl Trap \<or>
    (\<exists>io'. complete little_endian sample_registry Async_read_id (Some [255, 255]) (link_io (new_link 7 [])) = Inr ([], io') \<and>
       Async_read_payload 0 2 \<in> set (sock_ops (m_socket io')) \<and>
       complete little_endian sample_registry (Async_read_payload 0 2) (Some []) io' = Inl Trap)"
proof (rule unregistered_packet_traps [OF sample_registry_ok(1)])
  have "of_object_bytes little_endian [255, 255] = (65535 :: packet_id_t)" by code_simp
  moreover have "(65535 :: packet_id_t) \<noteq> of_nat (type_index t)" for t
    by (cases t) simp_all
  ultimately show "\<nexists>t. registered sample_registry t \<and>
      of_object_bytes little_endian [255, 255] = (of_nat (type_index t) :: packet_id_t)" by metis
qed (simp_all add: new_link_def set_spec_def tcp_io_state_init_def)

text \<open>
  Stopping a connection while the completion of a write is due is unsafe. In every run that has
  a message left to send, a write is outstanding, and \<open>stop_io\<close> clears the queue whose first
  element the handler of a write that succeeded is going to remove: \<open>pop_front\<close> is then called on an
  empty deque.
\<close>

theorem stop_io_then_write_done_pops_empty:
  assumes "link_run native reg (new_link i (frames native ps)) ss ds l"
    and "registry_ok reg" and "\<forall>p \<in> set ps. registered reg (kind_of p)"
    and "m_write_state_queue (link_io l) \<noteq> []"
  shows "\<exists>bs. Async_write bs \<in> set (sock_ops (m_socket (link_io l))) \<and>
    complete native reg (Async_write bs) (Some []) (stop_io (link_io l)) = Inl Out_of_bounds"
proof -
  have "write_inv native ss (tx l) (link_io l)"
    using link_run_inv [OF assms(1-3)] by (simp add: link_inv_def)
  then obtain bs where "write_ops (link_io l) = [Async_write bs]"
    using assms(4) by (auto simp: write_inv_def split: list.splits)
  then have "Async_write bs \<in> set (sock_ops (m_socket (link_io l)))"
    by (metis filter_eq_Cons_iff in_set_conv_decomp write_ops_def)
  moreover have "complete native reg (Async_write bs) (Some []) (stop_io (link_io l)) = Inl Out_of_bounds"
    by (simp add: on_write_def has_or_handle_io_error_def stop_io_def finish_op_def)
  ultimately show ?thesis by blast
qed

theorem stop_io_then_write_done_pops_empty_witness:
  "\<exists>(l :: link) bs. Async_write bs \<in> set (sock_ops (m_socket (link_io l))) \<and>
    complete little_endian sample_registry (Async_write bs) (Some []) (stop_io (link_io l)) = Inl Out_of_bounds"
proof -
  obtain io where c: "io_send (2 # replicate 12 0) 2 (link_io (new_link 7 [])) = Inr (True, io)"
    and q: "m_write_state_queue io \<noteq> []"
    by (simp add: io_send_def io_write_def asio_buffer_def new_link_def set_spec_def tcp_io_state_init_def)
  have "create little_endian (P_heartbeat Heartbeat) = Inr (2 # replicate 12 0)" by code_simp
  then have "link_run little_endian sample_registry (new_link 7 (frames little_endian []))
      [P_heartbeat Heartbeat] [] ((new_link 7 [])\<lparr>link_io := io\<rparr>)"
    using link_run.run_send [OF link_run.run_init, of little_endian "P_heartbeat Heartbeat"] c
    by (simp add: packet_size_def)
  from stop_io_then_write_done_pops_empty [OF this sample_registry_ok(1)] q
  have "\<exists>bs. Async_write bs \<in> set (sock_ops (m_socket (link_io ((new_link 7 [])\<lparr>link_io := io\<rparr>)))) \<and>
      complete little_endian sample_registry (Async_write bs) (Some [])
        (stop_io (link_io ((new_link 7 [])\<lparr>link_io := io\<rparr>))) = Inl Out_of_bounds"
    by simp
  then show ?thesis by (rule exI)
qed

lemma read_ops_not_write: "op \<in> set (read_ops io) \<Longrightarrow> \<not> is_write op"
  by (simp add: read_ops_def)

text \<open>
  Receiving cannot be resumed after a failed read: the error handling leaves the reader in the
  state \<open>reading_payload\<close> (the assignment meant to reset it is a comparison), so that
  \<open>start_receiving\<close> starts no read, and none is outstanding any more.
\<close>

theorem failed_read_ends_receiving:
  assumes "link_inv native ps ss ds l" and "op \<in> set (read_ops (link_io l))"
    and "complete native reg op None (link_io l) = Inr (evs, io)"
  shows "read_ops (start_receiving io) = []"
proof -
  have ops: "m_io_read_state (link_io l) = reading_payload" "read_ops (link_io l) = [op]"
    and "\<not> is_write op"
    using assms(1,2) read_ops_not_write [OF assms(2)] by (auto simp: link_inv_def read_inv_def read_phase_def)
  then have "m_io_read_state io = reading_payload" "read_ops io = []"
    using assms(3) by (cases op; force simp: read_payload_def on_payload_def has_or_handle_io_error_def
      stop_io_def Let_def split: if_splits)+
  then show ?thesis by (simp add: start_receiving_def read_id_def)
qed

theorem failed_read_ends_receiving_witness:
  "\<exists>evs io. complete little_endian registry_init Async_read_id None
       (start_receiving (link_io (new_link 7 []))) = Inr (evs, io) \<and>
     read_ops (start_receiving io) = []"
proof -
  let ?l = "(new_link 7 [])\<lparr>link_io := start_receiving (link_io (new_link 7 []))\<rparr>"
  have "link_run little_endian registry_init (new_link 7 (frames little_endian [])) [] [] ?l"
    using link_run.run_start_receiving [OF link_run.run_init] by simp
  then have inv: "link_inv little_endian [] [] [] ?l"
    by (rule link_run_inv) (simp_all add: registry_ok_init)
  have op: "Async_read_id \<in> set (read_ops (link_io ?l))"
    by (simp add: new_link_def start_receiving_def read_id_def set_spec_def tcp_io_state_init_def)
  obtain evs io where c: "complete little_endian registry_init Async_read_id None (link_io ?l) = Inr (evs, io)"
    by (simp add: read_payload_def has_or_handle_io_error_def Let_def)
  from failed_read_ends_receiving [OF inv op c] c show ?thesis by auto
qed

end
