(* ===== verification/Host_Server.thy ===== *)
theory Host_Server
  imports Host_Io_State
begin

text \<open>
  The TCP server of the host: \<open>host/networking/tcp/tcp_connection.{hpp,cpp}\<close> and
  \<open>tcp_server.{hpp,cpp}\<close>.

  A connection object lives in \<open>heap\<close> under its address for as long as a \<open>shared_ptr\<close> owns it:
  the entry of \<open>m_connections\<close>, or the handler of the accept it was created for. Destroying
  it closes its socket; asio then runs the handlers of the operations outstanding on the
  socket with an error. Those handlers hold a plain pointer to the object, so the
  operations of a destroyed object are kept in \<open>orphans\<close> and their completion is a use after
  free.

  The callbacks of the application run inside the server's functions and may call back into the
  server, so they are parameters \<open>on_conn\<close>, \<open>on_disc\<close>, \<open>on_packet\<close> that act on the server
  and on the application's own state \<open>'w\<close>.

  Iteration over \<open>m_connections\<close> takes the (unspecified) order of the keys as an argument. What the
  operating system answers to opening, binding and listening is an argument too. The mutex
  makes each of the public operations atomic; the handlers do not take it, and data races
  between threads are not modelled: the steps here are executed one after the other.
\<close>

section \<open>State\<close>

datatype tcp_status_t =
    tcp_success
  | already_accepting
  | fail_to_accept
  | unknown_client
  | no_client_connection

type_synonym conn_ptr = nat

record tcp_server_t =
  acceptor_open :: bool
  pending_accepts :: "conn_ptr list"
  heap :: "conn_ptr \<rightharpoonup> tcp_io_state_t"
  next_ptr :: conn_ptr
  orphans :: "(conn_ptr \<times> async_op) list"
  m_connections :: "esp_id_t \<rightharpoonup> conn_ptr"
  m_connection_count :: esp_id_t
  m_receiving :: bool
  m_registry :: registry_t
  io_running :: bool

definition tcp_server_init :: tcp_server_t where
  "tcp_server_init =
     \<lparr>acceptor_open = False, pending_accepts = [], heap = Map.empty, next_ptr = 0, orphans = [],
      m_connections = Map.empty, m_connection_count = 0, m_receiving = True,
      m_registry = registry_init, io_running = False\<rparr>"

section \<open>One connection\<close>

definition tcp_connection_create :: tcp_io_state_t where
  "tcp_connection_create = tcp_io_state_init \<lparr>sock_open = False, sock_ops = []\<rparr>"

definition set_receiving_state :: "bool \<Rightarrow> tcp_io_state_t \<Rightarrow> tcp_io_state_t" where
  "set_receiving_state enable c = (if enable then start_receiving c else stop_receiving c)"

definition close_socket :: "tcp_io_state_t \<Rightarrow> tcp_io_state_t" where
  "close_socket c = c\<lparr>m_socket := (m_socket c)\<lparr>sock_open := False\<rparr>\<rparr>"

definition connection_disconnect :: "tcp_io_state_t \<Rightarrow> bool \<times> tcp_io_state_t" where
  "connection_disconnect c =
     (if \<not> sock_open (m_socket c) then (False, c)
      else (True, close_socket (stop_io c)))"

section \<open>The server\<close>

text \<open>Access through a \<open>shared_ptr\<close> of the map: its object is alive.\<close>

definition deref :: "tcp_server_t \<Rightarrow> conn_ptr \<Rightarrow> tcp_io_state_t result" where
  "deref s a = (case heap s a of None \<Rightarrow> Inl Use_after_free | Some c \<Rightarrow> Inr c)"

definition put_conn :: "conn_ptr \<Rightarrow> tcp_io_state_t \<Rightarrow> tcp_server_t \<Rightarrow> tcp_server_t" where
  "put_conn a c s = s\<lparr>heap := (heap s)(a \<mapsto> c)\<rparr>"

text \<open>An owner of the object lets go of it: without another owner it is destroyed.\<close>

definition release :: "conn_ptr \<Rightarrow> tcp_server_t \<Rightarrow> tcp_server_t" where
  "release a s =
     (if a \<in> ran (m_connections s) \<or> a \<in> set (pending_accepts s) then s
      else case heap s a of
             None \<Rightarrow> s
           | Some c \<Rightarrow> s\<lparr>heap := (heap s)(a := None),
                         orphans := orphans s @ map (Pair a) (sock_ops (m_socket c))\<rparr>)"

definition erase_connection :: "esp_id_t \<Rightarrow> tcp_server_t \<Rightarrow> tcp_server_t" where
  "erase_connection i s =
     (case m_connections s i of
        None \<Rightarrow> s
      | Some a \<Rightarrow> release a (s\<lparr>m_connections := (m_connections s)(i := None)\<rparr>))"

definition wait_for_connection :: "tcp_server_t \<Rightarrow> tcp_server_t" where
  "wait_for_connection s =
     (if \<not> acceptor_open s then s
      else s\<lparr>heap := (heap s)(next_ptr s \<mapsto> tcp_connection_create),
             pending_accepts := pending_accepts s @ [next_ptr s],
             next_ptr := next_ptr s + 1\<rparr>)"

text \<open>
  Which of the calls that set up the acceptor fails. Closing it is taken to succeed here; that an error of
  \<open>close\<close> is thrown is modelled with asio below, in \<open>Asio_Acceptor\<close>.
\<close>

datatype acceptor_setup = Setup_ok | Open_fails | Bind_or_listen_fails

definition toggle_accepting :: "bool \<Rightarrow> acceptor_setup \<Rightarrow> tcp_server_t \<Rightarrow> tcp_status_t \<times> tcp_server_t" where
  "toggle_accepting enable setup s =
     (if enable
      then if acceptor_open s then (already_accepting, s)
           else case setup of
                  Open_fails \<Rightarrow> (fail_to_accept, s)
                | Bind_or_listen_fails \<Rightarrow> (fail_to_accept, s\<lparr>acceptor_open := True\<rparr>)
                | Setup_ok \<Rightarrow> (tcp_success, wait_for_connection (s\<lparr>acceptor_open := True\<rparr>))
      else (tcp_success, s\<lparr>acceptor_open := False\<rparr>))"

definition send_to_client ::
    "endian \<Rightarrow> esp_id_t \<Rightarrow> packet \<Rightarrow> tcp_server_t \<Rightarrow> (tcp_status_t \<times> tcp_server_t) result" where
  "send_to_client native client_id data s =
     (case m_connections s client_id of
        None \<Rightarrow> Inr (unknown_client, s)
      | Some a \<Rightarrow>
          rbind (deref s a) (\<lambda>c.
          rbind (create native data) (\<lambda>payload.
          rbind (io_send payload (packet_size (kind_of data)) c) (\<lambda>(sent, c).
            Inr (if sent then tcp_success else no_client_connection, put_conn a c s)))))"

fun send_to_all_clients ::
    "endian \<Rightarrow> packet \<Rightarrow> esp_id_t list \<Rightarrow> tcp_server_t \<Rightarrow> tcp_server_t result" where
  "send_to_all_clients native data [] s = Inr s"
| "send_to_all_clients native data (i # order) s =
     rbind (send_to_client native i data s) (\<lambda>(_, s). send_to_all_clients native data order s)"

fun receive_loop :: "bool \<Rightarrow> esp_id_t list \<Rightarrow> tcp_server_t \<Rightarrow> tcp_server_t result" where
  "receive_loop enable [] s = Inr s"
| "receive_loop enable (i # order) s =
     rbind (map_at (m_connections s) i) (\<lambda>a.
     rbind (deref s a) (\<lambda>c. receive_loop enable order (put_conn a (set_receiving_state enable c) s)))"

definition receive_from_client :: "bool \<Rightarrow> esp_id_t list \<Rightarrow> tcp_server_t \<Rightarrow> tcp_server_t result" where
  "receive_from_client enable order s =
     rbind (receive_loop enable order s) (\<lambda>s. Inr (s\<lparr>m_receiving := enable\<rparr>))"

definition disconnect_client :: "esp_id_t \<Rightarrow> tcp_server_t \<Rightarrow> (tcp_status_t \<times> tcp_server_t) result" where
  "disconnect_client client_id s =
     (case m_connections s client_id of
        None \<Rightarrow> Inr (unknown_client, s)
      | Some a \<Rightarrow>
          rbind (deref s a) (\<lambda>c.
          case connection_disconnect c of
            (True, c) \<Rightarrow> Inr (tcp_success, erase_connection client_id (put_conn a c s))
          | (False, c) \<Rightarrow> Inr (no_client_connection, s)))"

definition server_register_callback :: "packet_kind \<Rightarrow> tcp_server_t \<Rightarrow> tcp_server_t" where
  "server_register_callback t s = s\<lparr>m_registry := register_callback t (m_registry s)\<rparr>"

text \<open>The two callbacks for connections; without one, nothing is called.\<close>

record 'f connection_callbacks =
  m_on_connect_callback :: "'f option"
  m_on_disconnect_callback :: "'f option"

definition no_callbacks :: "'f connection_callbacks" where
  "no_callbacks = \<lparr>m_on_connect_callback = None, m_on_disconnect_callback = None\<rparr>"

definition register_on_connect :: "'f \<Rightarrow> 'f connection_callbacks \<Rightarrow> 'f connection_callbacks" where
  "register_on_connect callback cbs = cbs\<lparr>m_on_connect_callback := Some callback\<rparr>"

definition register_on_disconnect :: "'f \<Rightarrow> 'f connection_callbacks \<Rightarrow> 'f connection_callbacks" where
  "register_on_disconnect callback cbs = cbs\<lparr>m_on_disconnect_callback := Some callback\<rparr>"

definition server_on_connect ::
    "(esp_id_t \<Rightarrow> 's \<Rightarrow> 's result) connection_callbacks \<Rightarrow> esp_id_t \<Rightarrow> 's \<Rightarrow> 's result" where
  "server_on_connect cbs i sw = (case m_on_connect_callback cbs of None \<Rightarrow> Inr sw | Some f \<Rightarrow> f i sw)"

definition call_on_disconnect ::
    "(esp_id_t \<Rightarrow> 's \<Rightarrow> 's result) connection_callbacks \<Rightarrow> esp_id_t \<Rightarrow> 's \<Rightarrow> 's result" where
  "call_on_disconnect cbs i sw = (case m_on_disconnect_callback cbs of None \<Rightarrow> Inr sw | Some f \<Rightarrow> f i sw)"

text \<open>
  The disconnect callback each connection is given by \<open>create_new_connection\<close>; here and below, the function called
  for a connection is \<open>server_on_connect\<close>, or \<open>call_on_disconnect\<close>, of the callbacks registered.
\<close>

definition on_disconnect ::
    "(esp_id_t \<Rightarrow> tcp_server_t \<times> 'w \<Rightarrow> (tcp_server_t \<times> 'w) result) \<Rightarrow> esp_id_t \<Rightarrow>
     tcp_server_t \<times> 'w \<Rightarrow> (tcp_server_t \<times> 'w) result" where
  "on_disconnect on_disc i sw =
     rbind (on_disc i sw) (\<lambda>(s, w). Inr (erase_connection i s, w))"

text \<open>The handler of an accept; its captured pointer is released when it returns.\<close>

definition create_new_connection ::
    "(esp_id_t \<Rightarrow> tcp_server_t \<times> 'w \<Rightarrow> (tcp_server_t \<times> 'w) result) \<Rightarrow> conn_ptr \<Rightarrow> bool \<Rightarrow>
     tcp_server_t \<times> 'w \<Rightarrow> (tcp_server_t \<times> 'w) result" where
  "create_new_connection on_conn a ec = (\<lambda>(s, w).
     if \<not> acceptor_open s then Inr (s, w)
     else if ec then Inr (wait_for_connection s, w)
     else rbind (deref s a) (\<lambda>c.
          let c = set_receiving_state (m_receiving s) (set_spec (m_connection_count s) c);
              s = put_conn a c s;
              s = s\<lparr>m_connections := map_emplace (m_connection_count s) a (m_connections s)\<rparr>
          in rbind (on_conn (m_connection_count s) (s, w)) (\<lambda>(s, w).
             Inr (wait_for_connection (s\<lparr>m_connection_count := m_connection_count s + 1\<rparr>), w))))"

definition open_socket :: "tcp_io_state_t \<Rightarrow> tcp_io_state_t" where
  "open_socket c = c\<lparr>m_socket := (m_socket c)\<lparr>sock_open := True\<rparr>\<rparr>"

text \<open>asio completes the accept of the object at \<open>a\<close>: on success its socket is open.\<close>

definition accept_done ::
    "(esp_id_t \<Rightarrow> tcp_server_t \<times> 'w \<Rightarrow> (tcp_server_t \<times> 'w) result) \<Rightarrow> conn_ptr \<Rightarrow> bool \<Rightarrow>
     tcp_server_t \<times> 'w \<Rightarrow> (tcp_server_t \<times> 'w) result" where
  "accept_done on_conn a ec = (\<lambda>(s, w).
     rbind (deref s a) (\<lambda>c.
     rbind (create_new_connection on_conn a ec (if ec then s else put_conn a (open_socket c) s, w)) (\<lambda>(s, w).
       Inr (release a (s\<lparr>pending_accepts := remove1 a (pending_accepts s)\<rparr>), w))))"

text \<open>asio completes an operation of the connection at \<open>a\<close>; the events are the callbacks it makes.\<close>

fun handle_events ::
    "(packet \<Rightarrow> tcp_server_t \<times> 'w \<Rightarrow> (tcp_server_t \<times> 'w) result) \<Rightarrow>
     (esp_id_t \<Rightarrow> tcp_server_t \<times> 'w \<Rightarrow> (tcp_server_t \<times> 'w) result) \<Rightarrow>
     io_event list \<Rightarrow> tcp_server_t \<times> 'w \<Rightarrow> (tcp_server_t \<times> 'w) result" where
  "handle_events on_packet on_disc [] sw = Inr sw"
| "handle_events on_packet on_disc (Dispatched p # evs) sw =
     rbind (on_packet p sw) (handle_events on_packet on_disc evs)"
| "handle_events on_packet on_disc (Disconnected i # evs) sw =
     rbind (on_disconnect on_disc i sw) (handle_events on_packet on_disc evs)"

definition op_done ::
    "endian \<Rightarrow> (packet \<Rightarrow> tcp_server_t \<times> 'w \<Rightarrow> (tcp_server_t \<times> 'w) result) \<Rightarrow>
     (esp_id_t \<Rightarrow> tcp_server_t \<times> 'w \<Rightarrow> (tcp_server_t \<times> 'w) result) \<Rightarrow>
     conn_ptr \<Rightarrow> async_op \<Rightarrow> byte list option \<Rightarrow> tcp_server_t \<times> 'w \<Rightarrow> (tcp_server_t \<times> 'w) result" where
  "op_done native on_packet on_disc a op r = (\<lambda>(s, w).
     rbind (deref s a) (\<lambda>c.
     rbind (complete native (m_registry s) op r c) (\<lambda>(evs, c).
       handle_events on_packet on_disc evs (put_conn a c s, w))))"

fun disconnect_all :: "esp_id_t list \<Rightarrow> tcp_server_t \<Rightarrow> tcp_server_t result" where
  "disconnect_all [] s = Inr s"
| "disconnect_all (i # order) s =
     rbind (map_at (m_connections s) i) (\<lambda>a.
     rbind (deref s a) (\<lambda>c. disconnect_all order (put_conn a (snd (connection_disconnect c)) s)))"

definition server_start :: "tcp_server_t \<Rightarrow> tcp_server_t" where
  "server_start s = s\<lparr>io_running := True\<rparr>"

definition is_running :: "tcp_server_t \<Rightarrow> bool" where
  "is_running s \<longleftrightarrow> io_running s"

definition shutdown :: "esp_id_t list \<Rightarrow> tcp_server_t \<Rightarrow> tcp_server_t result" where
  "shutdown order s =
     rbind (disconnect_all order (snd (toggle_accepting False Setup_ok s))) (\<lambda>s.
       Inr (s\<lparr>io_running := False\<rparr>))"

section \<open>The invariant\<close>

text \<open>What the reader and the writer of every connection can rely on.\<close>

definition conn_wf :: "tcp_io_state_t \<Rightarrow> bool" where
  "conn_wf c \<longleftrightarrow> length (rs_payload (m_read_state c)) = 13 \<and>
     (\<forall>w \<in> set (m_write_state_queue c). wr_bytes w \<le> length (wr_payload w)) \<and>
     (\<forall>n k. Async_read_payload n k \<in> set (sock_ops (m_socket c)) \<longrightarrow> n \<le> 11)"

text \<open>Every entry of the map owns a live object that knows its id.\<close>

definition conns_ok :: "tcp_server_t \<Rightarrow> bool" where
  "conns_ok s \<longleftrightarrow> registry_ok (m_registry s) \<and>
     (\<forall>a c. heap s a = Some c \<longrightarrow> conn_wf c \<and> a < next_ptr s) \<and>
     (\<forall>i a. m_connections s i = Some a \<longrightarrow> map_option m_id (heap s a) = Some i)"

text \<open>Between two steps, the objects of outstanding accepts are owned by their handlers alone.\<close>

definition server_ok :: "tcp_server_t \<Rightarrow> bool" where
  "server_ok s \<longleftrightarrow> conns_ok s \<and> distinct (pending_accepts s) \<and>
     (\<forall>a \<in> set (pending_accepts s). heap s a \<noteq> None \<and> a \<notin> ran (m_connections s))"

lemma server_init_ok [inv_intros]: "server_ok tcp_server_init"
  by (simp add: server_ok_def conns_ok_def tcp_server_init_def registry_ok_init)

lemma server_okD: "server_ok s \<Longrightarrow> conns_ok s"
  by (simp add: server_ok_def)

lemma conns_ok_connection:
  assumes "conns_ok s" and "m_connections s i = Some a"
  obtains c where "heap s a = Some c" and "m_id c = i" and "conn_wf c" and "deref s a = Inr c"
  using assms by (fastforce simp: conns_ok_def deref_def)

lemma conns_ok_inject:
  "conns_ok s \<Longrightarrow> m_connections s i = Some a \<Longrightarrow> m_connections s j = Some a \<Longrightarrow> i = j"
  unfolding conns_ok_def by (metis option.inject)

lemma put_conn_simps [simp]:
  "m_connections (put_conn a c s) = m_connections s" "m_registry (put_conn a c s) = m_registry s"
  "pending_accepts (put_conn a c s) = pending_accepts s" "next_ptr (put_conn a c s) = next_ptr s"
  "acceptor_open (put_conn a c s) = acceptor_open s" "m_connection_count (put_conn a c s) = m_connection_count s"
  "m_receiving (put_conn a c s) = m_receiving s" "orphans (put_conn a c s) = orphans s"
  "io_running (put_conn a c s) = io_running s" "heap (put_conn a c s) = (heap s)(a \<mapsto> c)"
  by (simp_all add: put_conn_def)

lemma put_conn_put [simp]: "put_conn a c (put_conn a d s) = put_conn a c s"
  by (simp add: put_conn_def)

lemma put_conn_keep [simp]: "(put_conn a c s)\<lparr>m_connections := m_connections s\<rparr> = put_conn a c s"
  by (simp add: put_conn_def)

lemma put_conn_ok [inv_intros]:
  assumes "conns_ok s" and "heap s a = Some c" and "m_id c' = m_id c" and "conn_wf c'"
  shows "conns_ok (put_conn a c' s)"
proof -
  have "map_option m_id (heap s b) = map_option m_id (heap (put_conn a c' s) b)" for b
    using assms(2,3) by simp
  with assms show ?thesis by (auto simp: conns_ok_def)
qed

lemma put_conn_server_ok [inv_intros]:
  assumes "server_ok s" and "heap s a = Some c" and "m_id c' = m_id c" and "conn_wf c'"
  shows "server_ok (put_conn a c' s)"
  using assms put_conn_ok [of s a c c'] by (auto simp: server_ok_def)

subsection \<open>The operations on one connection keep it well formed\<close>

lemma conn_wf_start_op [simp]:
  "conn_wf (start_op op c) \<longleftrightarrow> conn_wf c \<and> (\<forall>n k. op = Async_read_payload n k \<longrightarrow> n \<le> 11)"
  by (auto simp: conn_wf_def start_op_def)

lemma conn_wf_finish_op [simp]: "conn_wf c \<Longrightarrow> conn_wf (finish_op op c)"
  using set_remove1_subset [of op "sock_ops (m_socket c)"] by (auto simp: conn_wf_def finish_op_def)

lemma conn_wf_update [simp]:
  "conn_wf (c\<lparr>m_io_write_state := ws\<rparr>) = conn_wf c" "conn_wf (c\<lparr>m_io_read_state := ws\<rparr>) = conn_wf c"
  "conn_wf (c\<lparr>m_can_receive := b\<rparr>) = conn_wf c" "conn_wf (set_spec i c) = conn_wf c"
  "conn_wf (open_socket c) = conn_wf c" "conn_wf (close_socket c) = conn_wf c"
  by (simp_all add: conn_wf_def set_spec_def open_socket_def close_socket_def)

lemma conn_wf_create [simp]: "conn_wf tcp_connection_create"
  by (simp add: conn_wf_def tcp_connection_create_def tcp_io_state_init_def)

lemma conn_wf_stop_io [simp]: "conn_wf c \<Longrightarrow> conn_wf (stop_io c)"
  by (simp add: conn_wf_def stop_io_def)

lemma read_id_wf [simp]: "conn_wf (read_id c) = conn_wf c" "m_id (read_id c) = m_id c"
  by (simp_all add: read_id_def)

lemma m_id_simps [simp]:
  "m_id (set_spec i c) = i" "m_id (open_socket c) = m_id c" "m_id (close_socket c) = m_id c"
  "m_id (stop_io c) = m_id c"
  by (simp_all add: set_spec_def open_socket_def close_socket_def stop_io_def)

lemma set_receiving_state_wf [simp]:
  "conn_wf (set_receiving_state b c) = conn_wf c" "m_id (set_receiving_state b c) = m_id c"
  by (simp_all add: set_receiving_state_def start_receiving_def stop_receiving_def)

lemma connection_disconnect_wf [simp]:
  "conn_wf c \<Longrightarrow> conn_wf (snd (connection_disconnect c))" "m_id (snd (connection_disconnect c)) = m_id c"
  by (simp_all add: connection_disconnect_def)

lemma io_write_wf:
  assumes "conn_wf c"
  obtains c' where "io_write c = Inr c'" and "conn_wf c'" and "m_id c' = m_id c"
    and "m_write_state_queue c' = m_write_state_queue c"
proof (cases "m_write_state_queue c = [] \<or> m_io_write_state c = writing_payload")
  case True
  then have "io_write c = Inr c" by (auto simp: io_write_def split: list.splits)
  then show ?thesis by (rule that) (use assms in simp_all)
next
  case False
  then obtain w q where q: "m_write_state_queue c = w # q" by (cases "m_write_state_queue c") auto
  with assms have "wr_bytes w \<le> length (wr_payload w)" by (simp add: conn_wf_def)
  with False q have "io_write c = Inr (start_op (Async_write (wr_frame w)) (c\<lparr>m_io_write_state := writing_payload\<rparr>))"
    by (simp add: io_write_def asio_buffer_def wr_frame_def)
  then show ?thesis by (rule that) (use assms in simp_all)
qed

text \<open>What one connection is after a message has been handed to it.\<close>

definition push_message :: "endian \<Rightarrow> packet \<Rightarrow> tcp_io_state_t \<Rightarrow> bool \<times> tcp_io_state_t" where
  "push_message native p c =
     (case rbind (create native p) (\<lambda>payload. io_send payload (packet_size (kind_of p)) c) of
        Inl e \<Rightarrow> (False, c) | Inr r \<Rightarrow> r)"

lemma push_message_wf:
  assumes "conn_wf c"
  shows "rbind (create native p) (\<lambda>payload. io_send payload (packet_size (kind_of p)) c) = Inr (push_message native p c)"
    and "conn_wf (snd (push_message native p c))" and "m_id (snd (push_message native p c)) = m_id c"
    and "fst (push_message native p c) = sock_open (m_socket c)"
    and "m_write_state_queue (snd (push_message native p c)) = m_write_state_queue c @
      (if sock_open (m_socket c)
       then [\<lparr>wr_payload = frame native p @ replicate (13 - packet_size (kind_of p)) 0, wr_bytes = packet_size (kind_of p)\<rparr>]
       else [])"
proof -
  let ?w = "\<lparr>wr_payload = frame native p @ replicate (13 - packet_size (kind_of p)) 0, wr_bytes = packet_size (kind_of p)\<rparr>"
  let ?c = "c\<lparr>m_write_state_queue := m_write_state_queue c @ [?w]\<rparr>"
  have wf: "conn_wf ?c" using assms by (auto simp: conn_wf_def)
  obtain c' where c': "io_write ?c = Inr c'" "conn_wf c'" "m_id c' = m_id c"
    "m_write_state_queue c' = m_write_state_queue c @ [?w]"
    by (rule io_write_wf [OF wf]) (simp add: that)
  let ?r = "if sock_open (m_socket c)
    then (True, if m_io_write_state c = io_idle then c' else ?c) else (False, c)"
  have send: "rbind (create native p) (\<lambda>payload. io_send payload (packet_size (kind_of p)) c) = Inr ?r"
    using c'(1) by (simp add: io_send_def create_eq Let_def)
  then have push: "push_message native p c = ?r" by (simp add: push_message_def)
  show "rbind (create native p) (\<lambda>payload. io_send payload (packet_size (kind_of p)) c) = Inr (push_message native p c)"
    by (simp only: send push)
  show "conn_wf (snd (push_message native p c))" "m_id (snd (push_message native p c)) = m_id c"
    "fst (push_message native p c) = sock_open (m_socket c)"
    "m_write_state_queue (snd (push_message native p c)) = m_write_state_queue c @
      (if sock_open (m_socket c) then [?w] else [])"
    using assms wf c' by (simp_all add: push)
qed

lemma push_message_open:
  assumes "conn_wf c" and "sock_open (m_socket c)"
  shows "sock_open (m_socket (snd (push_message native p c)))"
proof -
  have "sock_open (m_socket c'') = sock_open (m_socket c')" if "io_write c' = Inr c''" for c' c''
    using that by (auto simp: io_write_def rbind_eq_Inr_iff split: list.splits if_splits)
  then show ?thesis
    using push_message_wf(1) [OF assms(1), of native p] assms(2)
    by (cases "push_message native p c") (auto simp: create_eq io_send_def rbind_eq_Inr_iff Let_def split: if_splits)
qed

lemma push_message_idle:
  assumes "conn_wf c" and "sock_open (m_socket c)" and "m_io_write_state c = io_idle" and "m_write_state_queue c = []"
  shows "sock_ops (m_socket (snd (push_message native p c))) = sock_ops (m_socket c) @ [Async_write (frame native p)]"
    and "m_can_receive (snd (push_message native p c)) = m_can_receive c"
    and "m_io_read_state (snd (push_message native p c)) = m_io_read_state c"
proof -
  obtain c'' where push: "push_message native p c = (True, c'')"
    using push_message_wf(4) [OF assms(1), of native p] assms(2) by (cases "push_message native p c") simp
  from push_message_wf(1) [OF assms(1), of native p] assms(2-4)
  have "sock_ops (m_socket c'') = sock_ops (m_socket c) @ [Async_write (frame native p)] \<and> m_can_receive c'' = m_can_receive c
    \<and> m_io_read_state c'' = m_io_read_state c"
    unfolding push by (auto simp: create_eq io_send_def io_write_def rbind_eq_Inr_iff asio_buffer_def start_op_def split: if_splits)
  then show "sock_ops (m_socket (snd (push_message native p c))) = sock_ops (m_socket c) @ [Async_write (frame native p)]"
    "m_can_receive (snd (push_message native p c)) = m_can_receive c"
    "m_io_read_state (snd (push_message native p c)) = m_io_read_state c"
    by (simp_all add: push)
qed

lemma send_to_client_eq:
  assumes "conns_ok s" and "m_connections s i = Some a" and "heap s a = Some c"
  shows "send_to_client native i p s =
    Inr (if sock_open (m_socket c) then tcp_success else no_client_connection,
         put_conn a (snd (push_message native p c)) s)"
proof -
  have "conn_wf c" using assms by (simp add: conns_ok_def)
  note push = push_message_wf [OF this, of native p]
  obtain payload where payload: "create native p = Inr payload" by (simp add: create_eq)
  have "io_send payload (packet_size (kind_of p)) c = Inr (push_message native p c)"
    using push(1) payload by simp
  then show ?thesis
    using assms(2,3) push(4) payload
    by (cases "push_message native p c") (simp add: send_to_client_def deref_def)
qed

subsection \<open>Loops over all connections\<close>

text \<open>The effect of a loop over the connections: \<open>f\<close> on the objects of the ids visited.\<close>

definition map_conns :: "(tcp_io_state_t \<Rightarrow> tcp_io_state_t) \<Rightarrow> esp_id_t set \<Rightarrow> tcp_server_t \<Rightarrow> tcp_server_t" where
  "map_conns f ids s = s\<lparr>heap := (\<lambda>a. if Some a \<in> m_connections s ` ids then map_option f (heap s a) else heap s a)\<rparr>"

lemma map_conns_empty [simp]: "map_conns f {} s = s"
  by (simp add: map_conns_def)

lemma map_conns_fields [simp]:
  "m_connections (map_conns f ids s) = m_connections s" "pending_accepts (map_conns f ids s) = pending_accepts s"
  "next_ptr (map_conns f ids s) = next_ptr s" "m_registry (map_conns f ids s) = m_registry s"
  by (simp_all add: map_conns_def)

text \<open>A loop that visits the connections one after the other, each step changing one object.\<close>

locale connection_loop =
  fixes loop :: "esp_id_t list \<Rightarrow> tcp_server_t \<Rightarrow> tcp_server_t result"
    and f :: "tcp_io_state_t \<Rightarrow> tcp_io_state_t"
  assumes loop_Nil: "loop [] s = Inr s"
    and loop_Cons: "conns_ok s \<Longrightarrow> m_connections s i = Some a \<Longrightarrow> heap s a = Some c \<Longrightarrow>
      loop (i # order) s = loop order (put_conn a (f c) s)"
    and f_wf: "conn_wf c \<Longrightarrow> conn_wf (f c)"
    and f_id: "m_id (f c) = m_id c"
begin

lemma loop_eq:
  assumes "conns_ok s" and "distinct order" and "set order \<subseteq> dom (m_connections s)"
  shows "loop order s = Inr (map_conns f (set order) s)"
  using assms
proof (induction order arbitrary: s)
  case Nil
  then show ?case by (simp add: loop_Nil)
next
  case (Cons i order)
  then obtain a where a: "m_connections s i = Some a" by auto
  with Cons.prems(1) obtain c where c: "heap s a = Some c" "m_id c = i" "conn_wf c"
    by (rule conns_ok_connection)
  let ?s = "put_conn a (f c) s"
  have fresh: "Some a \<notin> m_connections s ` set order"
    using Cons.prems(1,2) a conns_ok_inject by (metis distinct.simps(2) imageE)
  have "conns_ok ?s"
    using put_conn_ok [OF Cons.prems(1) c(1) f_id f_wf [OF c(3)]] .
  then have "loop order ?s = Inr (map_conns f (set order) ?s)"
    using Cons by simp
  moreover have "map_conns f (set order) ?s = map_conns f (set (i # order)) s"
    using a c fresh by (simp add: map_conns_def put_conn_def fun_eq_iff)
  ultimately show ?case
    using loop_Cons [OF Cons.prems(1) a c(1)] by simp
qed

lemma loop_all_eq:
  assumes "conns_ok s" and "distinct order" and "set order = dom (m_connections s)"
  shows "loop order s = Inr (map_conns f (dom (m_connections s)) s)"
  using loop_eq [OF assms(1,2)] assms(3) by simp

lemma map_conns_ok:
  assumes "server_ok s" shows "server_ok (map_conns f ids s)"
proof -
  have ids: "map_option m_id (heap (map_conns f ids s) a) = map_option m_id (heap s a)" for a
    by (simp add: map_conns_def option.map_comp comp_def f_id)
  have alive: "heap (map_conns f ids s) a = None \<longleftrightarrow> heap s a = None" for a
    by (simp add: map_conns_def)
  have "conn_wf c \<and> a < next_ptr s" if "heap (map_conns f ids s) a = Some c" for a c
    using that assms by (auto simp: map_conns_def server_ok_def conns_ok_def intro: f_wf split: if_splits)
  with assms ids alive show ?thesis by (simp add: server_ok_def conns_ok_def)
qed

end

interpretation send_all: connection_loop "send_to_all_clients native p" "\<lambda>c. snd (push_message native p c)"
  for native p
  by unfold_locales (simp_all add: send_to_client_eq push_message_wf, simp add: push_message_def io_send_def
    io_write_def Let_def asio_buffer_def create_eq split: list.splits)

interpretation receive_all: connection_loop "receive_loop b" "set_receiving_state b" for b
  by unfold_locales (simp_all add: deref_def)

interpretation disconnect_every: connection_loop disconnect_all "\<lambda>c. snd (connection_disconnect c)"
  by unfold_locales (simp_all add: deref_def)

lemma map_conns_all:
  "map_conns f (dom (m_connections s)) s =
     s\<lparr>heap := (\<lambda>a. if a \<in> ran (m_connections s) then map_option f (heap s a) else heap s a)\<rparr>"
proof -
  have "Some a \<in> m_connections s ` dom (m_connections s) \<longleftrightarrow> a \<in> ran (m_connections s)" for a
    by (force simp: ran_def dom_def image_iff)
  then show ?thesis by (simp add: map_conns_def)
qed

subsection \<open>Creating and destroying connections\<close>

lemma release_cases:
  obtains (kept) "release a s = s"
  | (freed) c where "a \<notin> ran (m_connections s)" and "a \<notin> set (pending_accepts s)" and "heap s a = Some c"
      and "release a s = s\<lparr>heap := (heap s)(a := None), orphans := orphans s @ map (Pair a) (sock_ops (m_socket c))\<rparr>"
proof (cases "a \<in> ran (m_connections s) \<or> a \<in> set (pending_accepts s) \<or> heap s a = None")
  case True
  then show ?thesis by (intro kept) (auto simp: release_def)
next
  case False
  then show ?thesis using freed by (auto simp: release_def)
qed

lemma release_ok [inv_intros]:
  assumes "server_ok s" shows "server_ok (release a s)"
proof (cases rule: release_cases [of a s])
  case kept
  with assms show ?thesis by simp
next
  case (freed c)
  with assms show ?thesis by (auto simp: server_ok_def conns_ok_def ran_def)
qed

lemma release_fields [simp]:
  "m_connections (release a s) = m_connections s" "pending_accepts (release a s) = pending_accepts s"
  "acceptor_open (release a s) = acceptor_open s" "m_registry (release a s) = m_registry s"
  "m_connection_count (release a s) = m_connection_count s"
  by (simp_all add: release_def split: option.split)

lemma unmap_ok:
  "server_ok s \<Longrightarrow> server_ok (s\<lparr>m_connections := (m_connections s)(i := None)\<rparr>)"
  by (auto simp: server_ok_def conns_ok_def ran_def)

lemma erase_connection_ok [inv_intros]: "server_ok s \<Longrightarrow> server_ok (erase_connection i s)"
  by (auto simp: erase_connection_def intro: release_ok unmap_ok split: option.split)

lemma erase_connection_connections [simp]:
  "m_connections (erase_connection i s) = (m_connections s)(i := None)"
  by (auto simp: erase_connection_def fun_eq_iff split: option.split)

lemma heap_fresh:
  assumes "conns_ok s"
  shows "heap s (next_ptr s) = None" and "next_ptr s \<notin> ran (m_connections s)"
proof -
  show 1: "heap s (next_ptr s) = None"
  proof (rule ccontr)
    assume "heap s (next_ptr s) \<noteq> None"
    with assms show False unfolding conns_ok_def by (metis less_irrefl not_Some_eq)
  qed
  show "next_ptr s \<notin> ran (m_connections s)"
  proof
    assume "next_ptr s \<in> ran (m_connections s)"
    then obtain i where "m_connections s i = Some (next_ptr s)" by (auto simp: ran_def)
    with assms show False by (rule conns_ok_connection) (simp add: 1)
  qed
qed

lemma wait_for_connection_ok [inv_intros]:
  assumes "server_ok s" shows "server_ok (wait_for_connection s)"
proof -
  have fresh: "heap s (next_ptr s) = None" "next_ptr s \<notin> ran (m_connections s)" "next_ptr s \<notin> set (pending_accepts s)"
    using heap_fresh [OF server_okD [OF assms]] assms by (auto simp: server_ok_def)
  then show ?thesis
    using assms by (auto simp: wait_for_connection_def server_ok_def conns_ok_def less_Suc_eq dest: ranI)
qed

lemma pending_wait_for_connection:
  "pending_accepts (wait_for_connection s) = pending_accepts s @ (if acceptor_open s then [next_ptr s] else [])"
  by (simp add: wait_for_connection_def)

lemma connections_wait_for_connection [simp]:
  "m_connections (wait_for_connection s) = m_connections s"
  by (simp add: wait_for_connection_def)

lemma toggle_accepting_connections [simp]:
  "m_connections (snd (toggle_accepting enable setup s)) = m_connections s"
  by (simp add: toggle_accepting_def split: acceptor_setup.split)

lemma toggle_accepting_ok [inv_intros]:
  assumes "server_ok s" shows "server_ok (snd (toggle_accepting enable setup s))"
proof -
  have "server_ok (s\<lparr>acceptor_open := b\<rparr>)" for b
    using assms by (simp add: server_ok_def conns_ok_def)
  then show ?thesis
    using assms by (auto simp: toggle_accepting_def intro: wait_for_connection_ok split: acceptor_setup.split)
qed

lemma disconnect_client_ok [inv_intros]:
  assumes "server_ok s"
  obtains st s' where "disconnect_client i s = Inr (st, s')" and "server_ok s'"
proof (cases "m_connections s i")
  case None
  then show ?thesis using assms that by (simp add: disconnect_client_def)
next
  case (Some a)
  with server_okD [OF assms] obtain c where c: "heap s a = Some c" "m_id c = i" "conn_wf c" "deref s a = Inr c"
    by (rule conns_ok_connection)
  let ?s = "erase_connection i (put_conn a (snd (connection_disconnect c)) s)"
  have "server_ok ?s"
    using assms c by (intro erase_connection_ok put_conn_server_ok [of s a c]) simp_all
  then show ?thesis
    using assms Some c that
    by (cases "sock_open (m_socket c)") (auto simp: disconnect_client_def connection_disconnect_def)
qed

lemma send_to_client_ok [inv_intros]:
  assumes "server_ok s"
  obtains st s' where "send_to_client native i p s = Inr (st, s')" and "server_ok s'"
proof (cases "m_connections s i")
  case None
  then show ?thesis using assms that by (simp add: send_to_client_def)
next
  case (Some a)
  with server_okD [OF assms] obtain c where c: "heap s a = Some c" "m_id c = i" "conn_wf c"
    by (rule conns_ok_connection)
  have "server_ok (put_conn a (snd (push_message native p c)) s)"
    using assms c push_message_wf [OF c(3)] by (intro put_conn_server_ok [of s a c]) simp_all
  then show ?thesis
    using that send_to_client_eq [OF server_okD [OF assms] Some c(1)] by blast
qed

text \<open>The completion of an operation keeps the connection well formed, whatever its outcome.\<close>

lemma complete_wf:
  assumes "conn_wf c" and "op \<in> set (sock_ops (m_socket c))" and "complete native reg op r c = Inr (evs, c')"
    and "\<And>bs. r = Some bs \<Longrightarrow> length bs = op_bytes op"
  shows "conn_wf c' \<and> m_id c' = m_id c"
proof -
  have io: "conn_wf c'' \<and> m_id c'' = m_id c0" if "io_write c0 = Inr c''" "conn_wf c0" for c0 c''
    using that io_write_wf by (metis Inr_inject)
  have pop: "conn_wf (c0\<lparr>m_write_state_queue := q\<rparr>)" if "conn_wf c0" "m_write_state_queue c0 = w # q" for c0 w q
    using that by (simp add: conn_wf_def)
  have tail: "conn_wf (c0\<lparr>m_io_write_state := ws, m_write_state_queue := q\<rparr>)"
    if "conn_wf c0" "m_write_state_queue c0 = w # q" for c0 w q ws
    using that by (simp add: conn_wf_def)
  have len: "length (rs_payload (m_read_state c)) = 13" using assms(1) by (simp add: conn_wf_def)
  have store: "conn_wf (store_id native bs c0) = conn_wf c0" "m_id (store_id native bs c0) = m_id c0"
    "rs_payload (m_read_state (store_id native bs c0)) = rs_payload (m_read_state c0)" for bs c0
    by (simp_all add: store_id_def conn_wf_def)
  have stored: "conn_wf (store_payload bs c0)" "m_id (store_payload bs c0) = m_id c0"
    if "conn_wf c0" "length bs \<le> 11" for bs c0
    using that by (simp_all add: store_payload_def conn_wf_def)
  have payload: "length bs \<le> 11" if "op = Async_read_payload n k" "r = Some bs" for n k bs
    using assms(1,2,4) that by (auto simp: conn_wf_def)
  show ?thesis
  proof (cases op)
    case (Async_write bs)
    then show ?thesis
      using assms(1,3) io tail [OF conn_wf_finish_op [OF assms(1)]]
      by (fastforce simp: on_write_def has_or_handle_io_error_def rbind_eq_Inr_iff Let_def
        split: if_splits list.splits)
  next
    case Async_read_id
    then show ?thesis
      using assms(1,3) by (cases r) (auto simp: read_payload_def has_or_handle_io_error_def Let_def store len
        split: if_splits option.splits)
  next
    case (Async_read_payload n k)
    then show ?thesis
      using assms(1,3) payload [OF Async_read_payload]
      by (cases r) (auto simp: on_payload_def has_or_handle_io_error_def Let_def rbind_eq_Inr_iff stored
        split: if_splits option.splits)
  qed
qed

lemma conns_ok_accept:
  assumes "conns_ok s" and "heap s a = Some c0" and "a \<notin> ran (m_connections s)"
    and "conn_wf c" and "m_id c = n"
  shows "conns_ok ((put_conn a c s)\<lparr>m_connections := map_emplace n a (m_connections s)\<rparr>)" (is "conns_ok ?s")
proof -
  have "map_option m_id (heap ?s b) = Some i" if "m_connections ?s i = Some b" for i b
  proof (cases "b = a")
    case True
    then have "i = n" using that assms(3) by (auto simp: map_emplace_def ran_def split: option.splits if_splits)
    with True assms(5) show ?thesis by simp
  next
    case False
    then have "m_connections s i = Some b"
      using that by (auto simp: map_emplace_def split: option.splits if_splits)
    with False assms(1) show ?thesis by (simp add: conns_ok_def)
  qed
  then show ?thesis using assms by (auto simp: conns_ok_def)
qed

section \<open>The contract of the callbacks\<close>

text \<open>
  What a callback may do to the server while it runs: send to clients, that is, change the
  connection objects, but neither create nor destroy them nor touch the rest of the server.
\<close>

definition callback_frame :: "tcp_server_t \<Rightarrow> tcp_server_t \<Rightarrow> bool" where
  "callback_frame s s' \<longleftrightarrow> conns_ok s' \<and> dom (heap s') = dom (heap s) \<and> (\<exists>h. s' = s\<lparr>heap := h\<rparr>)"

lemma callback_frame_refl: "conns_ok s \<Longrightarrow> callback_frame s s"
  by (auto simp: callback_frame_def intro: exI [of _ "heap s"])

lemma callback_frame_server_ok:
  assumes "callback_frame s s'" and "server_ok s" shows "server_ok s'"
  using assms by (auto simp: callback_frame_def server_ok_def dom_def set_eq_iff)

lemma callback_frame_send:
  assumes "conns_ok s" and "send_to_client native i p s = Inr (st, s')"
  shows "callback_frame s s'"
proof (cases "m_connections s i")
  case None
  with assms show ?thesis by (auto simp: send_to_client_def intro: callback_frame_refl)
next
  case (Some a)
  with assms(1) obtain c where c: "heap s a = Some c" "m_id c = i" "conn_wf c" by (rule conns_ok_connection)
  have "conns_ok (put_conn a (snd (push_message native p c)) s)"
    using push_message_wf [OF c(3)] by (intro put_conn_ok [OF assms(1) c(1)]) simp_all
  then show ?thesis
    using assms(2) c send_to_client_eq [OF assms(1) Some c(1), of native p]
    by (auto simp: callback_frame_def put_conn_def split: if_splits)
qed

text \<open>
  The application keeps data about the connected clients: \<open>world_ok ids w\<close> says that \<open>w\<close> is fit for
  the clients \<open>ids\<close>. The callbacks succeed and follow the set of clients.
\<close>

locale server_callbacks =
  fixes on_conn :: "esp_id_t \<Rightarrow> tcp_server_t \<times> 'w \<Rightarrow> (tcp_server_t \<times> 'w) result"
    and on_disc :: "esp_id_t \<Rightarrow> tcp_server_t \<times> 'w \<Rightarrow> (tcp_server_t \<times> 'w) result"
    and on_packet :: "packet \<Rightarrow> tcp_server_t \<times> 'w \<Rightarrow> (tcp_server_t \<times> 'w) result"
    and world_ok :: "esp_id_t set \<Rightarrow> 'w \<Rightarrow> bool"
  assumes on_conn_ok: "conns_ok s \<Longrightarrow> world_ok ids w \<Longrightarrow>
      \<exists>s' w'. on_conn i (s, w) = Inr (s', w') \<and> callback_frame s s' \<and> world_ok (insert i ids) w'"
    and on_disc_ok: "conns_ok s \<Longrightarrow> world_ok ids w \<Longrightarrow>
      \<exists>s' w'. on_disc i (s, w) = Inr (s', w') \<and> callback_frame s s' \<and> world_ok (ids - {i}) w'"
    and on_packet_ok: "conns_ok s \<Longrightarrow> world_ok ids w \<Longrightarrow>
      \<exists>s' w'. on_packet p (s, w) = Inr (s', w') \<and> callback_frame s s' \<and> world_ok ids w'"
begin

abbreviation good :: "tcp_server_t \<times> 'w \<Rightarrow> bool" where
  "good sw \<equiv> server_ok (fst sw) \<and> world_ok (dom (m_connections (fst sw))) (snd sw)"

lemma on_disconnect_ok:
  assumes "good (s, w)"
  shows "\<exists>sw'. on_disconnect on_disc i (s, w) = Inr sw' \<and> good sw'"
proof -
  have ok: "server_ok s" "world_ok (dom (m_connections s)) w" using assms by simp_all
  obtain s' w' where "on_disc i (s, w) = Inr (s', w')" "callback_frame s s'"
    "world_ok (dom (m_connections s) - {i}) w'"
    using on_disc_ok [OF server_okD [OF ok(1)] ok(2)] by blast
  then show ?thesis
    using erase_connection_ok [OF callback_frame_server_ok [OF _ ok(1)]]
    by (auto simp: on_disconnect_def callback_frame_def)
qed

lemma handle_events_ok:
  "good sw \<Longrightarrow> \<exists>sw'. handle_events on_packet on_disc evs sw = Inr sw' \<and> good sw'"
proof (induction evs arbitrary: sw)
  case Nil
  then show ?case by simp
next
  case (Cons e evs)
  obtain s w where sw: "sw = (s, w)" by (cases sw)
  have ok: "server_ok s" "world_ok (dom (m_connections s)) w" using Cons.prems by (simp_all add: sw)
  obtain sw1 where "good sw1"
    "handle_events on_packet on_disc (e # evs) sw = handle_events on_packet on_disc evs sw1"
  proof (cases e)
    case (Dispatched p)
    obtain s' w' where "on_packet p (s, w) = Inr (s', w')" "callback_frame s s'"
      "world_ok (dom (m_connections s)) w'"
      using on_packet_ok [OF server_okD [OF ok(1)] ok(2)] by blast
    then show ?thesis
      using that [of "(s', w')"] callback_frame_server_ok [OF _ ok(1)] Dispatched
      by (auto simp: sw callback_frame_def)
  next
    case (Disconnected i)
    then show ?thesis
      using that on_disconnect_ok [of s w i] ok by (auto simp: sw)
  qed
  with Cons.IH show ?case by metis
qed

lemma op_done_ok:
  assumes "good (s, w)" and "heap s a = Some c" and "op \<in> set (sock_ops (m_socket c))"
    and "\<And>bs. r = Some bs \<Longrightarrow> length bs = op_bytes op"
    and "complete native (m_registry s) op r c = Inr (evs, c')"
  shows "\<exists>sw'. op_done native on_packet on_disc a op r (s, w) = Inr sw' \<and> good sw'"
proof -
  have "conn_wf c" using assms(1,2) by (simp add: server_ok_def conns_ok_def)
  from complete_wf [OF this assms(3,5,4)] have "good (put_conn a c' s, w)"
    using put_conn_server_ok [OF _ assms(2)] assms(1) by simp
  from handle_events_ok [OF this] show ?thesis
    using assms(2,5) by (simp add: op_done_def deref_def)
qed

lemma accept_done_ok:
  assumes "good (s, w)" and "a \<in> set (pending_accepts s)"
  shows "\<exists>sw'. accept_done on_conn a ec (s, w) = Inr sw' \<and> good sw'"
proof -
  have ok: "server_ok s" "world_ok (dom (m_connections s)) w" using assms(1) by simp_all
  from ok(1) assms(2) obtain c where c: "heap s a = Some c" "a \<notin> ran (m_connections s)"
    by (auto simp: server_ok_def)
  have wf: "conn_wf c" using ok(1) c(1) by (simp add: server_ok_def conns_ok_def)
  have drop_pending: "server_ok (t\<lparr>pending_accepts := remove1 b (pending_accepts t)\<rparr>)" if "server_ok t" for t b
    using that set_remove1_subset [of b "pending_accepts t"]
    by (auto simp: server_ok_def conns_ok_def)
  consider (closed) "\<not> acceptor_open s" | (failed) "acceptor_open s" "ec" | (accepted) "acceptor_open s" "\<not> ec"
    by blast
  then show ?thesis
  proof cases
    case closed
    have "server_ok (put_conn a (open_socket c) s)"
      using ok(1) c wf by (intro put_conn_server_ok [of s a c]) simp_all
    with closed ok c show ?thesis
      by (auto simp: accept_done_def create_new_connection_def deref_def
        intro!: release_ok drop_pending [of s, simplified] drop_pending [of "put_conn a (open_socket c) s", simplified])
  next
    case failed
    with ok c show ?thesis
      by (simp add: accept_done_def create_new_connection_def deref_def
        release_ok drop_pending wait_for_connection_ok)
  next
    case accepted
    let ?n = "m_connection_count s"
    let ?c = "set_receiving_state (m_receiving s) (set_spec ?n (open_socket c))"
    let ?s = "(put_conn a ?c s)\<lparr>m_connections := map_emplace ?n a (m_connections s)\<rparr>"
    have "conns_ok ?s" by (rule conns_ok_accept [OF server_okD [OF ok(1)] c]) (simp_all add: wf)
    then obtain s2 w2 where cb: "on_conn ?n (?s, w) = Inr (s2, w2)" "callback_frame ?s s2"
      "world_ok (insert ?n (dom (m_connections s))) w2"
      using on_conn_ok ok(2) by blast
    then obtain h where s2: "s2 = ?s\<lparr>heap := h\<rparr>" "dom h = dom (heap ?s)" "conns_ok s2"
      by (auto simp: callback_frame_def)
    let ?t = "s2\<lparr>m_connection_count := ?n + 1, pending_accepts := remove1 a (pending_accepts s)\<rparr>"
    have ran: "b \<notin> ran (m_connections s2)" if "b \<in> set (pending_accepts s)" "b \<noteq> a" for b
      using ok(1) that s2(1)
      by (auto simp: server_ok_def map_emplace_def ran_def split: option.splits if_splits)
    have "server_ok ?t"
      using s2 ran ok(1) by (auto simp: server_ok_def conns_ok_def dom_def set_eq_iff)
    then have fin: "server_ok (release a (wait_for_connection ?t))"
      by (intro release_ok wait_for_connection_ok)
    have "wait_for_connection ?t = (wait_for_connection (s2\<lparr>m_connection_count := ?n + 1\<rparr>))
        \<lparr>pending_accepts := remove1 a (pending_accepts s @ [next_ptr s])\<rparr>"
      using assms(2) s2(1) accepted by (simp add: wait_for_connection_def remove1_append)
    with fin cb accepted c s2(1) show ?thesis
      by (simp add: accept_done_def create_new_connection_def deref_def Let_def pending_wait_for_connection)
  qed
qed

end

section \<open>Properties\<close>

text \<open>A server with one client, of id 5, from which it is receiving.\<close>

definition sample_conn :: tcp_io_state_t where
  "sample_conn = start_receiving (set_spec 5 (open_socket tcp_connection_create))"

definition sample_server :: tcp_server_t where
  "sample_server = tcp_server_init
     \<lparr>heap := [0 \<mapsto> sample_conn],
      next_ptr := 1, m_connections := [5 \<mapsto> 0]\<rparr>"

lemma sample_server_ok: "server_ok sample_server"
  by (simp add: sample_server_def server_ok_def conns_ok_def tcp_server_init_def registry_ok_init
    sample_conn_def start_receiving_def)

lemma sample_server_simps:
  "m_connections sample_server = [5 \<mapsto> 0]"
  "heap sample_server = [0 \<mapsto> sample_conn]"
  "pending_accepts sample_server = []"
  "sock_open (m_socket sample_conn)"
  "sock_ops (m_socket sample_conn) = [Async_read_id]"
  "m_id sample_conn = 5" "conn_wf sample_conn"
  by (simp_all add: sample_server_def sample_conn_def tcp_server_init_def start_receiving_def read_id_def set_spec_def
    open_socket_def tcp_connection_create_def tcp_io_state_init_def start_op_def conn_wf_def)

text \<open>
  \<open>send_to_client\<close> never faults and reports what it did: an id without a connection is
  \<open>unknown_client\<close>, a connection whose socket is closed is \<open>no_client_connection\<close>, and both leave
  the server as it was; otherwise the frame of the message is appended to the queue of that client
  and to no other.
\<close>

theorem send_to_client_spec:
  assumes "server_ok s"
  shows "\<exists>st s'. send_to_client native i p s = Inr (st, s') \<and> server_ok s' \<and>
    (case m_connections s i of
       None \<Rightarrow> st = unknown_client \<and> s' = s
     | Some a \<Rightarrow> \<exists>c c'. heap s a = Some c \<and> s' = s\<lparr>heap := (heap s)(a \<mapsto> c')\<rparr> \<and>
         (if sock_open (m_socket c)
          then st = tcp_success \<and> map wr_frame (m_write_state_queue c') = map wr_frame (m_write_state_queue c) @ [frame native p]
          else st = no_client_connection \<and> c' = c))"
proof -
  obtain st s' where sent: "send_to_client native i p s = Inr (st, s')" "server_ok s'"
    by (rule send_to_client_ok [OF assms])
  show ?thesis
  proof (cases "m_connections s i")
    case None
    then show ?thesis using assms by (simp add: send_to_client_def)
  next
    case (Some a)
    with server_okD [OF assms] obtain c where c: "heap s a = Some c" "m_id c = i" "conn_wf c"
      by (rule conns_ok_connection)
    let ?c = "snd (push_message native p c)"
    have "\<not> sock_open (m_socket c) \<Longrightarrow> ?c = c"
      by (simp add: push_message_def io_send_def create_eq)
    moreover have "sock_open (m_socket c) \<Longrightarrow>
        map wr_frame (m_write_state_queue ?c) = map wr_frame (m_write_state_queue c) @ [frame native p]"
      using push_message_wf(5) [OF c(3)] by (simp add: wr_frame_def)
    ultimately show ?thesis
      using sent Some c(1) send_to_client_eq [OF server_okD [OF assms] Some c(1), of native p]
      by (auto simp: put_conn_def)
  qed
qed

theorem send_to_client_spec_witness:
  "\<exists>s'. send_to_client little_endian 5 (P_heartbeat Heartbeat) sample_server = Inr (tcp_success, s') \<and> server_ok s'"
  using send_to_client_spec [OF sample_server_ok, of little_endian 5 "P_heartbeat Heartbeat"]
  by (auto simp: sample_server_simps)

text \<open>
  A broadcast reaches every connected client exactly once, whatever the iteration order of
  the connection map: each object in the map is changed as \<open>send\<close> changes it, and nothing
  else of the server is.
\<close>

theorem send_to_all_clients_each:
  assumes "server_ok s" and "distinct order" and "set order = dom (m_connections s)"
  shows "\<exists>h. send_to_all_clients native p order s = Inr (s\<lparr>heap := h\<rparr>) \<and>
    (\<forall>i a c. m_connections s i = Some a \<longrightarrow> heap s a = Some c \<longrightarrow> sock_open (m_socket c) \<longrightarrow>
       (\<exists>c'. h a = Some c' \<and>
          map wr_frame (m_write_state_queue c') = map wr_frame (m_write_state_queue c) @ [frame native p])) \<and>
    (\<forall>a. a \<notin> ran (m_connections s) \<longrightarrow> h a = heap s a)"
proof -
  let ?f = "\<lambda>c. snd (push_message native p c)"
  let ?h = "\<lambda>a. if a \<in> ran (m_connections s) then map_option ?f (heap s a) else heap s a"
  have "send_to_all_clients native p order s = Inr (s\<lparr>heap := ?h\<rparr>)"
    using send_all.loop_all_eq [OF server_okD [OF assms(1)] assms(2,3)] by (simp add: map_conns_all)
  moreover have "\<exists>c'. ?h a = Some c' \<and>
      map wr_frame (m_write_state_queue c') = map wr_frame (m_write_state_queue c) @ [frame native p]"
    if "m_connections s i = Some a" "heap s a = Some c" "sock_open (m_socket c)" for i a c
  proof -
    have "conn_wf c" using assms(1) that(2) by (simp add: server_ok_def conns_ok_def)
    from push_message_wf(5) [OF this] that ranI [of "m_connections s" i a] show ?thesis
      by (simp add: wr_frame_def)
  qed
  moreover have "\<forall>a. a \<notin> ran (m_connections s) \<longrightarrow> ?h a = heap s a" by simp
  ultimately show ?thesis by blast
qed

theorem send_to_all_clients_each_witness:
  "\<exists>h c'. send_to_all_clients little_endian (P_heartbeat Heartbeat) [5] sample_server = Inr (sample_server\<lparr>heap := h\<rparr>) \<and>
     h 0 = Some c' \<and> map wr_frame (m_write_state_queue c') =
       map wr_frame (m_write_state_queue sample_conn) @
       [frame little_endian (P_heartbeat Heartbeat)]"
proof -
  have "distinct [5 :: esp_id_t]" "set [5] = dom (m_connections sample_server)"
    by (simp_all add: sample_server_simps)
  from send_to_all_clients_each [OF sample_server_ok this, of little_endian "P_heartbeat Heartbeat"]
  obtain h where h: "send_to_all_clients little_endian (P_heartbeat Heartbeat) [5] sample_server = Inr (sample_server\<lparr>heap := h\<rparr>)"
    and q: "\<And>i a c. m_connections sample_server i = Some a \<Longrightarrow> heap sample_server a = Some c \<Longrightarrow>
      sock_open (m_socket c) \<Longrightarrow> \<exists>c'. h a = Some c' \<and>
      map wr_frame (m_write_state_queue c') = map wr_frame (m_write_state_queue c) @ [frame little_endian (P_heartbeat Heartbeat)]"
    by blast
  from h q [of 5 0 sample_conn] show ?thesis by (auto simp: sample_server_simps)
qed

text \<open>
  C14. Disconnecting a client from which the server is receiving leads to a use after free: the
  call succeeds and destroys the connection, while the read of the next packet is still
  outstanding on its socket; when that read completes with an error, its handler runs on the
  destroyed object.
\<close>

theorem disconnect_client_use_after_free:
  assumes "server_ok s" and "m_connections s i = Some a" and "heap s a = Some c"
    and "sock_open (m_socket c)" and "op \<in> set (sock_ops (m_socket c))"
  shows "\<exists>s'. disconnect_client i s = Inr (tcp_success, s') \<and> m_connections s' i = None \<and>
    (a, op) \<in> set (orphans s') \<and> op_done native on_packet on_disc a op None (s', w) = Inl Use_after_free"
proof -
  let ?c = "close_socket (stop_io c)"
  let ?s = "(put_conn a ?c s)\<lparr>m_connections := (m_connections s)(i := None)\<rparr>"
  have "a \<notin> ran ((m_connections s)(i := None))"
    using conns_ok_inject [OF server_okD [OF assms(1)] _ assms(2)] by (auto simp: ran_def split: if_splits)
  moreover have "a \<notin> set (pending_accepts s)"
    using assms(1,2) by (auto simp: server_ok_def ran_def)
  ultimately have "release a ?s = ?s\<lparr>heap := (heap s)(a := None),
      orphans := orphans s @ map (Pair a) (sock_ops (m_socket ?c))\<rparr>"
    by (simp add: release_def)
  moreover have "disconnect_client i s = Inr (tcp_success, release a ?s)"
    using assms(2-4) by (simp add: disconnect_client_def deref_def connection_disconnect_def erase_connection_def)
  moreover have "(a, op) \<in> set (map (Pair a) (sock_ops (m_socket ?c)))"
    using assms(5) by (simp add: close_socket_def stop_io_def)
  ultimately show ?thesis by (simp add: op_done_def deref_def)
qed

theorem disconnect_client_use_after_free_witness:
  "\<exists>s'. disconnect_client 5 sample_server = Inr (tcp_success, s') \<and> m_connections s' 5 = None \<and>
    (0, Async_read_id) \<in> set (orphans s') \<and>
    op_done little_endian (\<lambda>p. Inr) (\<lambda>i. Inr) 0 Async_read_id None (s', ()) = Inl Use_after_free"
  by (rule disconnect_client_use_after_free [OF sample_server_ok, where c = sample_conn])
    (simp_all add: sample_server_simps)

text \<open>
  A failed attempt to accept cannot be repeated: when the acceptor was opened but binding or
  listening failed, the server waits for no connection, and every further request to accept is
  answered with \<open>already_accepting\<close> and changes nothing.
\<close>

theorem failed_bind_blocks_accepting:
  assumes "\<not> acceptor_open s" and "toggle_accepting True Bind_or_listen_fails s = (st, s')"
  shows "st = fail_to_accept \<and> pending_accepts s' = pending_accepts s \<and>
    (\<forall>setup. toggle_accepting True setup s' = (already_accepting, s'))"
  using assms by (auto simp: toggle_accepting_def)

theorem failed_bind_blocks_accepting_witness:
  "\<exists>s'. toggle_accepting True Bind_or_listen_fails sample_server = (fail_to_accept, s') \<and>
     toggle_accepting True Setup_ok s' = (already_accepting, s')"
proof -
  obtain st s' where t: "toggle_accepting True Bind_or_listen_fails sample_server = (st, s')"
    by (cases "toggle_accepting True Bind_or_listen_fails sample_server")
  have "\<not> acceptor_open sample_server" by (simp add: sample_server_def tcp_server_init_def)
  from failed_bind_blocks_accepting [OF this t] t show ?thesis by auto
qed

text \<open>
  The 16-bit id counter wraps: when the next id is still in use, the accepted client is
  announced to the application under the id of the other client, its object does not enter the
  map and is destroyed with its read outstanding.
\<close>

theorem reused_id_drops_connection:
  assumes "server_ok s" and "acceptor_open s" and "a \<in> set (pending_accepts s)"
    and "m_receiving s" and "heap s a = Some tcp_connection_create"
    and "m_connections s (m_connection_count s) = Some b"
    and "\<And>s w. on_conn (m_connection_count s) (s, w) = Inr (s, m_connection_count s # w)"
  shows "\<exists>s'. accept_done on_conn a False (s, []) = Inr (s', [m_connection_count s]) \<and>
    m_connections s' = m_connections s \<and> heap s' a = None \<and> (a, Async_read_id) \<in> set (orphans s')"
proof -
  let ?n = "m_connection_count s"
  let ?c = "set_receiving_state (m_receiving s) (set_spec ?n (open_socket tcp_connection_create))"
  let ?s = "wait_for_connection ((put_conn a ?c s)\<lparr>m_connection_count := ?n + 1\<rparr>)"
  let ?t = "?s\<lparr>pending_accepts := remove1 a (pending_accepts ?s)\<rparr>"
  have a: "a \<notin> ran (m_connections s)" "distinct (pending_accepts s)" "a \<noteq> next_ptr s"
    using assms(1,3) heap_fresh(1) [OF server_okD [OF assms(1)]] by (auto simp: server_ok_def)
  have "accept_done on_conn a False (s, []) = Inr (release a ?t, [?n])"
    using assms(2,5,6) assms(7) [of "put_conn a ?c s" "[]"]
    by (simp add: accept_done_def create_new_connection_def deref_def Let_def)
  moreover have fields: "m_connections ?t = m_connections s" "heap ?t a = Some ?c"
    using a assms(2) by (simp_all add: wait_for_connection_def)
  moreover have "a \<notin> set (pending_accepts ?t)"
    using a assms(2,3) by (simp add: pending_wait_for_connection remove1_append)
  moreover have "Async_read_id \<in> set (sock_ops (m_socket ?c))"
    using assms(4) by (simp add: set_receiving_state_def start_receiving_def read_id_def set_spec_def
      open_socket_def tcp_connection_create_def tcp_io_state_init_def start_op_def)
  ultimately show ?thesis using a(1) by (simp add: release_def)
qed

definition full_server :: tcp_server_t where
  "full_server = sample_server\<lparr>acceptor_open := True, pending_accepts := [1], next_ptr := 2,
     heap := (heap sample_server)(1 \<mapsto> tcp_connection_create), m_connection_count := 5\<rparr>"

theorem reused_id_drops_connection_witness:
  "\<exists>s'. accept_done (\<lambda>i (s, w). Inr (s, i # w)) 1 False (full_server, []) = Inr (s', [5]) \<and>
    m_connections s' = m_connections full_server \<and> heap s' 1 = None \<and> (1, Async_read_id) \<in> set (orphans s')"
proof -
  have "server_ok full_server"
    using sample_server_ok by (auto simp: full_server_def server_ok_def conns_ok_def sample_server_simps)
  from reused_id_drops_connection [OF this, of 1 0 "\<lambda>i (s, w). Inr (s, i # w)"]
  show ?thesis by (simp add: full_server_def sample_server_def tcp_server_init_def)
qed

end
