(* ===== verification/Host_Protocol.thy ===== *)
theory Host_Protocol
  imports Host_Server
begin

text \<open>
  The protocols on top of the TCP server: the handshake with a new client
  (\<open>host/protocol/handshake_manager.{hpp,cpp}\<close>), the heartbeat (\<open>connection_monitor.hpp\<close>), and the
  process that announces the services (\<open>mdns_service.hpp\<close>, with the table of
  \<open>common/api/service_config.hpp\<close>).

  Timers belong to asio. A wait on a timer is \<open>armed\<close> until the timer expires, which queues its
  handler (\<open>expired\<close>), or is cancelled, also by destroying the timer, whereupon its handler runs
  with an error and returns at once. A wait whose handler is already queued can no longer be cancelled.
  Processes belong to the operating system: the results of \<open>fork\<close> and \<open>waitpid\<close> are arguments.
\<close>

section \<open>Handshake\<close>

text \<open>A session is a timer, known by the id of its client; a wait carries the id it captured.\<close>

record handshake_manager_t =
  m_session :: "esp_id_t set"
  armed :: "esp_id_t list"
  expired :: "esp_id_t list"

definition handshake_init :: handshake_manager_t where
  "handshake_init = \<lparr>m_session = {}, armed = [], expired = []\<rparr>"

definition handshake_on_connect ::
    "endian \<Rightarrow> esp_id_t \<Rightarrow> tcp_server_t \<times> handshake_manager_t \<Rightarrow> (tcp_server_t \<times> handshake_manager_t) result" where
  "handshake_on_connect native i = (\<lambda>(s, h).
     let h = h\<lparr>m_session := insert i (m_session h)\<rparr>
     in rbind (send_to_client native i (P_esp_init_request \<lparr>req_id = i\<rparr>) s) (\<lambda>(_, s).
        Inr (s, h\<lparr>armed := armed h @ [i]\<rparr>)))"

text \<open>Erasing a session destroys its timer.\<close>

definition erase_session :: "esp_id_t \<Rightarrow> handshake_manager_t \<Rightarrow> handshake_manager_t" where
  "erase_session i h = h\<lparr>m_session := m_session h - {i}, armed := filter (\<lambda>j. j \<noteq> i) (armed h)\<rparr>"

text \<open>The timer of a client expires: the handlers of its waits are queued.\<close>

definition timer_expires :: "esp_id_t \<Rightarrow> handshake_manager_t \<Rightarrow> handshake_manager_t" where
  "timer_expires i h =
     h\<lparr>armed := filter (\<lambda>j. j \<noteq> i) (armed h), expired := expired h @ filter (\<lambda>j. j = i) (armed h)\<rparr>"

text \<open>The handler of a wait, without an error.\<close>

definition on_timeout ::
    "esp_id_t \<Rightarrow> tcp_server_t \<times> handshake_manager_t \<Rightarrow> (tcp_server_t \<times> handshake_manager_t) result" where
  "on_timeout i = (\<lambda>(s, h).
     rbind (disconnect_client i s) (\<lambda>(_, s). Inr (s, erase_session i h)))"

definition on_response_received ::
    "esp_init_response_t \<Rightarrow> handshake_manager_t \<Rightarrow> handshake_manager_t" where
  "on_response_received res h =
     (if res_id res \<notin> m_session h then h else erase_session (res_id res) h)"

section \<open>Heartbeat\<close>

text \<open>The state of the monitor is whether its wait is armed.\<close>

definition monitor_check :: "bool \<Rightarrow> bool" where
  "monitor_check timer = True"

definition monitor_stop :: "bool \<Rightarrow> bool" where
  "monitor_stop timer = False"

definition monitor_on_timer ::
    "endian \<Rightarrow> bool \<Rightarrow> esp_id_t list \<Rightarrow> tcp_server_t \<times> bool \<Rightarrow> (tcp_server_t \<times> bool) result" where
  "monitor_on_timer native ec order = (\<lambda>(s, timer).
     if ec then Inr (s, timer)
     else rbind (send_to_all_clients native (P_heartbeat Heartbeat) order s) (\<lambda>s.
          Inr (s, monitor_check timer)))"

section \<open>Announcing the services\<close>

record service_entry_t =
  service_type :: string
  hostname :: string
  port :: string

definition services :: "service_entry_t list" where
  "services =
     [\<lparr>service_type = ''esp-tcp'', hostname = ''esp_server.local'', port = ''8080''\<rparr>,
      \<lparr>service_type = ''http'', hostname = ''esp-api.local'', port = ''8000''\<rparr>]"

definition tcp_hostname :: string where
  "tcp_hostname = hostname (services ! 0)"

definition tcp_port :: string where
  "tcp_port = port (services ! 0)"

text \<open>What happens outside the process: a child runs a program, or a signal is sent.\<close>

datatype process_event = Exec "string list" | Terminate int

fun service_args :: "service_entry_t list \<Rightarrow> string list" where
  "service_args [] = []"
| "service_args (e # es) = [service_type e, hostname e, port e] @ service_args es"

text \<open>
  \<open>fork\<close> returns in the parent and, when it succeeds, also in the child; \<open>fork_result\<close> is what the
  parent gets and the event is what the child does.
\<close>

definition mdns_start :: "service_entry_t list \<Rightarrow> int \<Rightarrow> int \<Rightarrow> int \<times> process_event list" where
  "mdns_start config fork_result m_pid =
     (if m_pid > 0 then (m_pid, [])
      else if fork_result < 0 then (- 1, [])
      else (fork_result, [Exec ([''python3'', ''scripts/dns_broadcaster.py''] @ service_args config)]))"

text \<open>The loop around the blocking \<open>waitpid\<close>: it is repeated while it is interrupted.\<close>

datatype wait_result = Reaped | Interrupted | Wait_error

fun wait_loop :: "wait_result list \<Rightarrow> nat option" where
  "wait_loop [] = None"
| "wait_loop (Interrupted # rs) = map_option Suc (wait_loop rs)"
| "wait_loop (Reaped # rs) = Some 1"
| "wait_loop (Wait_error # rs) = Some 1"

text \<open>\<open>None\<close> stands for a child that never exits although it was told to.\<close>

definition mdns_stop :: "int \<Rightarrow> wait_result list \<Rightarrow> int \<Rightarrow> (int \<times> process_event list) option" where
  "mdns_stop poll_result waits m_pid =
     (if m_pid \<le> 0 then Some (m_pid, [])
      else if poll_result = 0
      then map_option (\<lambda>_. (- 1, [Terminate m_pid])) (wait_loop waits)
      else Some (- 1, []))"

text \<open>
  At most one announcer runs: a second \<open>start\<close> while a child is known does nothing; \<open>stop\<close> returns
  as soon as the child has been reaped, however often the wait is interrupted before, having
  sent it one termination signal if it was still running; and after that a new \<open>start\<close> forks again.
\<close>

theorem mdns_start_stop:
  assumes "fork_result > 0"
  shows "mdns_start config fork_result m_pid = (if m_pid > 0 then (m_pid, []) else
      (fork_result, [Exec (''python3'' # ''scripts/dns_broadcaster.py'' # service_args config)])) \<and>
    mdns_start config other (fst (mdns_start config fork_result m_pid)) = (fst (mdns_start config fork_result m_pid), []) \<and>
    mdns_stop poll (replicate n Interrupted @ Reaped # rest) (fst (mdns_start config fork_result m_pid)) =
      Some (- 1, if poll = 0 then [Terminate (fst (mdns_start config fork_result m_pid))] else []) \<and>
    length (service_args config) = 3 * length config"
proof -
  have "wait_loop (replicate n Interrupted @ Reaped # rest) = Some (Suc n)"
    by (induction n) simp_all
  moreover have "length (service_args config) = 3 * length config"
    by (induction config rule: service_args.induct) simp_all
  ultimately show ?thesis using assms by (simp add: mdns_start_def mdns_stop_def)
qed

theorem mdns_start_stop_witness:
  "mdns_start services 4711 (- 1) =
     (4711, [Exec [''python3'', ''scripts/dns_broadcaster.py'', ''esp-tcp'', ''esp_server.local'', ''8080'',
                   ''http'', ''esp-api.local'', ''8000'']]) \<and>
   mdns_stop 0 [Interrupted, Reaped] 4711 = Some (- 1, [Terminate 4711])"
proof -
  have "0 < (4711 :: int)" by simp
  note p = mdns_start_stop [OF this, of services "- 1" 0 0 1 "[]"]
  have a: "mdns_start services 4711 (- 1) =
      (4711, [Exec (''python3'' # ''scripts/dns_broadcaster.py'' # service_args services)])"
    using p by simp
  moreover have "mdns_stop 0 [Interrupted, Reaped] 4711 = Some (- 1, [Terminate 4711])"
    using p unfolding a by simp
  ultimately show ?thesis by (simp add: services_def)
qed

section \<open>The handshake as a state machine\<close>

text \<open>Every armed or expired wait belongs to a client that connected; an armed one has a session.\<close>

definition handshake_ok :: "handshake_manager_t \<Rightarrow> bool" where
  "handshake_ok h \<longleftrightarrow> set (armed h) \<subseteq> m_session h"

lemma handshake_init_ok [inv_intros]: "handshake_ok handshake_init"
  by (simp add: handshake_ok_def handshake_init_def)

lemma handshake_ok_steps [inv_intros]:
  "handshake_ok h \<Longrightarrow> handshake_ok (erase_session i h)"
  "handshake_ok h \<Longrightarrow> handshake_ok (timer_expires i h)"
  "handshake_ok h \<Longrightarrow> handshake_ok (on_response_received res h)"
  by (auto simp: handshake_ok_def erase_session_def timer_expires_def on_response_received_def)

lemma handshake_on_connect_ok:
  assumes "conns_ok s"
  obtains s' where "handshake_on_connect native i (s, h) =
      Inr (s', h\<lparr>m_session := insert i (m_session h), armed := armed h @ [i]\<rparr>)"
    and "callback_frame s s'"
proof -
  obtain st s' where "send_to_client native i (P_esp_init_request \<lparr>req_id = i\<rparr>) s = Inr (st, s')"
  proof (cases "m_connections s i")
    case None
    then show ?thesis using that by (simp add: send_to_client_def)
  next
    case (Some a)
    with assms obtain c where "heap s a = Some c" by (rule conns_ok_connection)
    with send_to_client_eq [OF assms Some this] that show ?thesis by blast
  qed
  then show ?thesis
    using that callback_frame_send [OF assms] by (simp add: handshake_on_connect_def Let_def)
qed

text \<open>What can happen to the handshakes, seen without the server.\<close>

datatype handshake_event = Connect esp_id_t | Respond esp_id_t | Expire esp_id_t | Timeout esp_id_t

inductive handshake_run :: "handshake_manager_t \<Rightarrow> handshake_event list \<Rightarrow> handshake_manager_t \<Rightarrow> bool" where
  hs_refl: "handshake_run h [] h"
| hs_connect: "handshake_run h evs h' \<Longrightarrow> handshake_on_connect native i (s, h') = Inr (s', h'') \<Longrightarrow>
    handshake_run h (evs @ [Connect i]) h''"
| hs_respond: "handshake_run h evs h' \<Longrightarrow>
    handshake_run h (evs @ [Respond i]) (on_response_received \<lparr>res_id = i\<rparr> h')"
| hs_expire: "handshake_run h evs h' \<Longrightarrow> handshake_run h (evs @ [Expire i]) (timer_expires i h')"
| hs_timeout: "handshake_run h evs h' \<Longrightarrow> i \<in> set (expired h') \<Longrightarrow>
    on_timeout i (s, h'\<lparr>expired := remove1 i (expired h')\<rparr>) = Inr (s', h'') \<Longrightarrow>
    handshake_run h (evs @ [Timeout i]) h''"

lemma handshake_no_timeout:
  assumes "handshake_run h evs h'" and "i \<notin> set (armed h)" and "i \<notin> set (expired h)" and "Connect i \<notin> set evs"
  shows "Timeout i \<notin> set evs \<and> i \<notin> set (armed h') \<and> i \<notin> set (expired h')"
  using assms
proof induction
  case (hs_connect h evs h' native j s s' h'')
  then show ?case
    by (auto simp: handshake_on_connect_def Let_def rbind_eq_Inr_iff)
next
  case (hs_timeout h evs h' j s s' h'')
  then have "h'' = erase_session j (h'\<lparr>expired := remove1 j (expired h')\<rparr>)"
    by (auto simp: on_timeout_def rbind_eq_Inr_iff)
  with hs_timeout show ?case
    by (auto simp: erase_session_def dest: notin_set_remove1)
qed (auto simp: on_response_received_def erase_session_def timer_expires_def)

text \<open>
  C12. A client that answers before its timer expires is not disconnected by the handshake: from
  the moment its response is received, and until a client connects under the same id again, no timeout handler
  for it runs, whatever the other clients and timers do.
\<close>

theorem handshake_response_in_time:
  assumes "handshake_ok h" and "i \<notin> set (expired h)"
    and "handshake_run (on_response_received \<lparr>res_id = i\<rparr> h) evs h'" and "Connect i \<notin> set evs"
  shows "Timeout i \<notin> set evs"
proof -
  let ?h = "on_response_received \<lparr>res_id = i\<rparr> h"
  have "i \<notin> set (armed ?h)" "i \<notin> set (expired ?h)"
    using assms(1,2) by (auto simp: on_response_received_def erase_session_def handshake_ok_def)
  with handshake_no_timeout [OF assms(3)] assms(4) show ?thesis by blast
qed

theorem handshake_response_in_time_witness:
  "handshake_run (on_response_received \<lparr>res_id = 1\<rparr> \<lparr>m_session = {1, 2}, armed = [1, 2], expired = []\<rparr>)
     [Expire 1, Expire 2] \<lparr>m_session = {2}, armed = [], expired = [2]\<rparr> \<and> Timeout 1 \<notin> set [Expire 1, Expire 2]"
proof -
  let ?h = "\<lparr>m_session = {1, 2}, armed = [1, 2], expired = []\<rparr> :: handshake_manager_t"
  have step: "on_response_received \<lparr>res_id = 1\<rparr> ?h = \<lparr>m_session = {2}, armed = [2], expired = []\<rparr>"
    by (auto simp: on_response_received_def erase_session_def)
  have run: "handshake_run (on_response_received \<lparr>res_id = 1\<rparr> ?h) [Expire 1, Expire 2] \<lparr>m_session = {2}, armed = [], expired = [2]\<rparr>"
    using hs_expire [OF hs_expire [OF hs_refl], of "\<lparr>m_session = {2}, armed = [2], expired = []\<rparr>" 1 2]
    unfolding step by (simp add: timer_expires_def)
  from handshake_response_in_time [OF _ _ run] run show ?thesis
    by (simp add: handshake_ok_def)
qed

end
