(* ===== verification/Train_Storage.thy ===== *)
theory Train_Storage
  imports Messages
begin

text \<open>
  The status of the trains, \<open>host/trains/train_storage.hpp\<close>: one entry per connected train, updated
  by the reports the trains send and rendered as JSON for the HTTP interface.

  A JSON document is a value of \<open>json\<close>; its text is produced by the JSON library, which is not
  part of the sources, so it is a parameter of the HTTP model. The iteration order
  of \<open>std::unordered_map\<close> is unspecified: \<open>get_all_train_json\<close> takes the order as an argument.
\<close>

section \<open>JSON documents\<close>

datatype json =
    J_null
  | J_bool bool
  | J_unsigned nat
  | J_float float32
  | J_string string
  | J_array "json list"
  | J_object "(string \<times> json) list"

text \<open>\<open>std::optional\<close> is written as its value, or as \<open>null\<close>.\<close>

definition json_option :: "('a \<Rightarrow> json) \<Rightarrow> 'a option \<Rightarrow> json" where
  "json_option f v = (case v of None \<Rightarrow> J_null | Some x \<Rightarrow> f x)"

fun json_field :: "string \<Rightarrow> json \<Rightarrow> json option" where
  "json_field k (J_object fs) = map_of fs k"
| "json_field k _ = None"

section \<open>The storage\<close>

record storage_t =
  battery_level :: float32
  current_motor_duty :: uint32
  is_motor_active :: bool
  last_track :: "rail_id_t option"
  last_track_type :: "rail_type_t option"
  current_path :: "rail_id_t list"

definition storage_init :: storage_t where
  "storage_init = \<lparr>battery_level = 0, current_motor_duty = 0, is_motor_active = False,
     last_track = None, last_track_type = None, current_path = []\<rparr>"

type_synonym train_storage_t = "esp_id_t \<rightharpoonup> storage_t"

definition storage_to_json :: "storage_t \<Rightarrow> json" where
  "storage_to_json e =
     J_object [(''battery_level'', J_float (battery_level e)),
               (''current_motor_duty'', J_unsigned (unat (current_motor_duty e))),
               (''is_motor_active'', J_bool (is_motor_active e)),
               (''last_track'', json_option (\<lambda>r. J_unsigned (unat r)) (last_track e)),
               (''last_track_type'', json_option (\<lambda>t. J_unsigned (unat t)) (last_track_type e)),
               (''current_path'', J_array (map (\<lambda>r. J_unsigned (unat r)) (current_path e)))]"

definition add_train :: "esp_id_t \<Rightarrow> train_storage_t \<Rightarrow> train_storage_t" where
  "add_train i m_data = map_emplace i storage_init m_data"

definition has_train :: "train_storage_t \<Rightarrow> esp_id_t \<Rightarrow> bool" where
  "has_train m_data i \<longleftrightarrow> m_data i \<noteq> None"

definition remove_train :: "esp_id_t \<Rightarrow> train_storage_t \<Rightarrow> train_storage_t" where
  "remove_train i m_data = m_data(i := None)"

definition update_battery_level :: "esp_id_t \<Rightarrow> float32 \<Rightarrow> train_storage_t \<Rightarrow> bool \<times> train_storage_t" where
  "update_battery_level i level m_data =
     (case m_data i of
        None \<Rightarrow> (False, m_data)
      | Some e \<Rightarrow> (True, m_data(i \<mapsto> e\<lparr>battery_level := level\<rparr>)))"

definition update_track_position ::
    "esp_id_t \<Rightarrow> rail_id_t \<Rightarrow> rail_type_t \<Rightarrow> train_storage_t \<Rightarrow> bool \<times> train_storage_t" where
  "update_track_position i rail type m_data =
     (case m_data i of
        None \<Rightarrow> (False, m_data)
      | Some e \<Rightarrow> (True, m_data(i \<mapsto> e\<lparr>last_track := Some rail, last_track_type := Some type\<rparr>)))"

definition update_motor_status ::
    "esp_id_t \<Rightarrow> uint32 \<Rightarrow> bool \<Rightarrow> train_storage_t \<Rightarrow> bool \<times> train_storage_t" where
  "update_motor_status i duty active m_data =
     (case m_data i of
        None \<Rightarrow> (False, m_data)
      | Some e \<Rightarrow> (True, m_data(i \<mapsto> e\<lparr>current_motor_duty := duty, is_motor_active := active\<rparr>)))"

definition create_storage_json :: "esp_id_t \<Rightarrow> storage_t \<Rightarrow> json" where
  "create_storage_json i storage =
     J_object [(''train_id'', J_unsigned (unat i)), (''train_status'', storage_to_json storage)]"

definition get_train_json :: "train_storage_t \<Rightarrow> esp_id_t \<Rightarrow> json" where
  "get_train_json m_data i =
     (case m_data i of None \<Rightarrow> J_object [] | Some e \<Rightarrow> create_storage_json i e)"

text \<open>\<open>order\<close> lists the keys of the map in the order of the iteration.\<close>

fun all_trains :: "train_storage_t \<Rightarrow> esp_id_t list \<Rightarrow> json list" where
  "all_trains m_data [] = []"
| "all_trains m_data (i # order) =
     (case m_data i of None \<Rightarrow> [] | Some e \<Rightarrow> [create_storage_json i e]) @ all_trains m_data order"

definition get_all_train_json :: "train_storage_t \<Rightarrow> esp_id_t list \<Rightarrow> json" where
  "get_all_train_json m_data order = J_object [(''trains'', J_array (all_trains m_data order))]"

definition iteration_order :: "train_storage_t \<Rightarrow> esp_id_t list \<Rightarrow> bool" where
  "iteration_order m_data order \<longleftrightarrow> distinct order \<and> set order = dom m_data"

lemmas train_defs = add_train_def has_train_def remove_train_def update_battery_level_def
  update_track_position_def update_motor_status_def

section \<open>The status of one train\<close>

text \<open>The calls that change the storage, in the order in which the application makes them.\<close>

datatype train_op =
    Add esp_id_t
  | Remove esp_id_t
  | Battery esp_id_t float32
  | Position esp_id_t rail_id_t rail_type_t
  | Motor esp_id_t uint32 bool

fun apply_op :: "train_op \<Rightarrow> train_storage_t \<Rightarrow> train_storage_t" where
  "apply_op (Add i) m = add_train i m"
| "apply_op (Remove i) m = remove_train i m"
| "apply_op (Battery i l) m = snd (update_battery_level i l m)"
| "apply_op (Position i r t) m = snd (update_track_position i r t m)"
| "apply_op (Motor i d a) m = snd (update_motor_status i d a m)"

fun op_train :: "train_op \<Rightarrow> esp_id_t" where
  "op_train (Add i) = i"
| "op_train (Remove i) = i"
| "op_train (Battery i l) = i"
| "op_train (Position i r t) = i"
| "op_train (Motor i d a) = i"

text \<open>The specification: one train sees the calls about itself, and nothing before it is added.\<close>

fun train_step :: "train_op \<Rightarrow> storage_t option \<Rightarrow> storage_t option" where
  "train_step (Add i) e = Some (case e of None \<Rightarrow> storage_init | Some s \<Rightarrow> s)"
| "train_step (Remove i) e = None"
| "train_step (Battery i l) e = map_option (\<lambda>s. s\<lparr>battery_level := l\<rparr>) e"
| "train_step (Position i r t) e = map_option (\<lambda>s. s\<lparr>last_track := Some r, last_track_type := Some t\<rparr>) e"
| "train_step (Motor i d a) e = map_option (\<lambda>s. s\<lparr>current_motor_duty := d, is_motor_active := a\<rparr>) e"

lemma apply_op_local:
  "apply_op c m i = (if op_train c = i then train_step c (m i) else m i)"
  by (cases c) (auto simp: train_defs map_emplace_def split: option.splits)

text \<open>
  Trains do not interfere: after any sequence of calls the entry of a train is what its own
  calls, taken alone and in order, make of its initial entry.
\<close>

theorem train_status_local:
  "fold apply_op cs m i = fold train_step (filter (\<lambda>c. op_train c = i) cs) (m i)"
  by (induction cs arbitrary: m) (simp_all add: apply_op_local)

text \<open>
  The list of all trains shows every stored train once and nothing else, whatever the
  iteration order of the map: as a multiset (here, as the images under the order) it is the
  collection of the entries of \<open>get_train_json\<close>.
\<close>

theorem get_all_train_json_complete:
  assumes "iteration_order m order"
  shows "json_field ''trains'' (get_all_train_json m order) = Some (J_array (map (get_train_json m) order)) \<and>
    inj_on (get_train_json m) (set order) \<and> (\<forall>i. i \<in> set order \<longleftrightarrow> has_train m i)"
proof -
  have "all_trains m order' = map (get_train_json m) order'" if "set order' \<subseteq> dom m" for order'
    using that by (induction order') (auto simp: get_train_json_def)
  moreover have "inj_on (get_train_json m) (dom m)"
    by (rule inj_onI) (auto simp: get_train_json_def create_storage_json_def dom_def dest: unsigned_word_eqI)
  ultimately show ?thesis
    using assms by (auto simp: get_all_train_json_def iteration_order_def has_train_def)
qed

theorem get_all_train_json_complete_witness:
  "json_field ''trains'' (get_all_train_json (add_train 3 (add_train 9 Map.empty)) [9, 3]) =
     Some (J_array [create_storage_json 9 storage_init, create_storage_json 3 storage_init])"
proof -
  have "iteration_order (add_train 3 (add_train 9 Map.empty)) [9, 3]"
    by (simp add: iteration_order_def add_train_def insert_commute)
  from get_all_train_json_complete [OF this] show ?thesis
    by (simp add: get_train_json_def add_train_def map_emplace_def)
qed

end
