(* ===== verification/Host_Http.thy ===== *)
theory Host_Http
  imports Host_Server Train_Storage
begin

text \<open>
  The HTTP interface of the host: \<open>host/networking/http/http_utils.hpp\<close>, the endpoints
  \<open>ping_endpoint.hpp\<close>, \<open>train_endpoint.hpp\<close>, \<open>motor_endpoint.hpp\<close>, and the station request of
  \<open>host/application.cpp\<close>.

  The JSON library is not part of the sources: its functions are the fields of a \<open>json_lib\<close>,
  an argument of the endpoints. A failure of one of them is an exception, which the
  \<open>catch (...)\<close> of the endpoint turns into a 400; a trap or undefined behaviour further down is not
  an exception and passes through. A response without a status is sent by the
  HTTP library as 200.
\<close>

section \<open>Responses\<close>

record http_response =
  status :: "nat option"
  content :: string
  content_type :: string

definition empty_response :: http_response where
  "empty_response = \<lparr>status = None, content = [], content_type = []\<rparr>"

definition set_content :: "string \<Rightarrow> string \<Rightarrow> http_response \<Rightarrow> http_response" where
  "set_content text type res = res\<lparr>content := text, content_type := type\<rparr>"

definition application_json :: string where
  "application_json = ''application/json''"

record json_lib =
  json_parse :: "string \<Rightarrow> json result"
  json_dump :: "json \<Rightarrow> string"
  json_at :: "json \<Rightarrow> string \<Rightarrow> json result"
  get_u16 :: "json \<Rightarrow> uint16 result"
  get_u32 :: "json \<Rightarrow> uint32 result"
  get_u64 :: "json \<Rightarrow> uint64 result"
  get_bool :: "json \<Rightarrow> bool result"

fun http_send :: "http_response \<Rightarrow> tcp_status_t \<Rightarrow> http_response" where
  "http_send res tcp_success =
     set_content ''{\"status\":\"applied\"}'' application_json (res\<lparr>status := Some 200\<rparr>)"
| "http_send res already_accepting =
     set_content ''{\"status\":\"already accepting\"}'' application_json (res\<lparr>status := Some 304\<rparr>)"
| "http_send res fail_to_accept =
     set_content ''{\"status\":\"fail to accept\"}'' application_json (res\<lparr>status := Some 500\<rparr>)"
| "http_send res unknown_client =
     set_content ''{\"status\":\"unknown client\"}'' application_json (res\<lparr>status := Some 404\<rparr>)"
| "http_send res no_client_connection =
     set_content ''{\"status\":\"client not connect\"}'' application_json (res\<lparr>status := Some 410\<rparr>)"

definition bad_request :: "json_lib \<Rightarrow> http_response \<Rightarrow> string \<Rightarrow> http_response" where
  "bad_request lib res error =
     set_content (json_dump lib (J_object [(''error'', J_string error)])) application_json (res\<lparr>status := Some 400\<rparr>)"

section \<open>Path parameters\<close>

definition is_digit :: "char \<Rightarrow> bool" where
  "is_digit c \<longleftrightarrow> of_char c \<ge> (48 :: nat) \<and> of_char c \<le> (57 :: nat)"

definition digit_value :: "char \<Rightarrow> nat" where
  "digit_value c = of_char c - 48"

definition decimal_value :: "string \<Rightarrow> nat" where
  "decimal_value s = foldl (\<lambda>n c. 10 * n + digit_value c) 0 s"

datatype errc = Ok | Invalid_number | Number_out_of_range

text \<open>
  \<open>std::from_chars\<close> for a 16-bit unsigned integer: the longest prefix of digits, the number of characters
  consumed, and the error; on an error the value is left as it was.
\<close>

definition from_chars_u16 :: "string \<Rightarrow> uint16 \<Rightarrow> uint16 \<times> nat \<times> errc" where
  "from_chars_u16 s v0 =
     (let ds = takeWhile is_digit s
      in if ds = [] then (v0, 0, Invalid_number)
         else if decimal_value ds \<ge> 2 ^ 16 then (v0, length ds, Number_out_of_range)
         else (of_nat (decimal_value ds), length ds, Ok))"

definition to_integer :: "string \<Rightarrow> uint16 result" where
  "to_integer s =
     (let (v, ptr, ec) = from_chars_u16 s 0
      in if ec \<noteq> Ok \<or> ptr \<noteq> length s then Inl Invalid_argument else Inr v)"

definition get_path_param :: "(string \<rightharpoonup> string) \<Rightarrow> string \<Rightarrow> uint16 result" where
  "get_path_param path_params name = rbind (map_at path_params name) to_integer"

section \<open>Endpoints\<close>

definition ping_endpoint :: "http_response \<Rightarrow> http_response" where
  "ping_endpoint res = set_content ''{\"status\":\"ok\"}'' application_json (res\<lparr>status := Some 200\<rparr>)"

definition get_status ::
    "json_lib \<Rightarrow> train_storage_t \<Rightarrow> (string \<rightharpoonup> string) \<Rightarrow> http_response \<Rightarrow> http_response" where
  "get_status lib storage path_params res =
     (case get_path_param path_params ''train_id'' of
        Inl _ \<Rightarrow> bad_request lib res ''invalid train id''
      | Inr train_id \<Rightarrow>
          if \<not> has_train storage train_id then http_send res unknown_client
          else set_content (json_dump lib (get_train_json storage train_id)) application_json res)"

definition get_all_status ::
    "json_lib \<Rightarrow> train_storage_t \<Rightarrow> esp_id_t list \<Rightarrow> http_response \<Rightarrow> http_response" where
  "get_all_status lib storage order res =
     set_content (json_dump lib (get_all_train_json storage order)) application_json res"

definition start_polling ::
    "acceptor_setup \<Rightarrow> tcp_server_t \<Rightarrow> http_response \<Rightarrow> http_response \<times> tcp_server_t" where
  "start_polling setup s res =
     (let (st, s) = toggle_accepting True setup s in (http_send res st, s))"

definition stop_polling :: "tcp_server_t \<Rightarrow> http_response \<Rightarrow> http_response \<times> tcp_server_t" where
  "stop_polling s res =
     (let (st, s) = toggle_accepting False Setup_ok s in (http_send res st, s))"

definition disconnect_endpoint ::
    "json_lib \<Rightarrow> (string \<rightharpoonup> string) \<Rightarrow> tcp_server_t \<Rightarrow> http_response \<Rightarrow> (http_response \<times> tcp_server_t) result" where
  "disconnect_endpoint lib path_params s res =
     (case get_path_param path_params ''train_id'' of
        Inl _ \<Rightarrow> Inr (bad_request lib res ''invalid train id'', s)
      | Inr train_id \<Rightarrow>
          rbind (disconnect_client train_id s) (\<lambda>(st, s). Inr (http_send res st, s)))"

text \<open>The fields of a motor request, read in the order of the source.\<close>

definition motor_request :: "json_lib \<Rightarrow> string \<Rightarrow> (esp_id_t \<times> motor_control_t) result" where
  "motor_request lib text =
     rbind (json_parse lib text) (\<lambda>body.
     rbind (rbind (json_at lib body ''train_id'') (get_u16 lib)) (\<lambda>train_id.
     rbind (rbind (json_at lib body ''is_active'') (get_bool lib)) (\<lambda>active.
     rbind (rbind (json_at lib body ''starting_duty'') (get_u32 lib)) (\<lambda>start.
     rbind (rbind (json_at lib body ''target_duty'') (get_u32 lib)) (\<lambda>target.
     rbind (rbind (json_at lib body ''ramp_time_ms'') (get_u16 lib)) (\<lambda>ramp.
       Inr (train_id, \<lparr>starting_duty = start, target_duty = target, ramp_time_ms = ramp,
         is_active = (if active then 1 else 0)\<rparr>)))))))"

definition control_motor ::
    "json_lib \<Rightarrow> endian \<Rightarrow> string \<Rightarrow> tcp_server_t \<Rightarrow> http_response \<Rightarrow> (http_response \<times> tcp_server_t) result" where
  "control_motor lib native text s res =
     (case motor_request lib text of
        Inl _ \<Rightarrow> Inr (bad_request lib res ''invalid json payload'', s)
      | Inr (train_id, m) \<Rightarrow>
          rbind (send_to_client native train_id (P_motor_control m) s) (\<lambda>(st, s). Inr (http_send res st, s)))"

definition station_body :: "json_lib \<Rightarrow> string \<Rightarrow> (esp_id_t \<times> rail_destination_t) result" where
  "station_body lib text =
     rbind (json_parse lib text) (\<lambda>body.
     rbind (rbind (json_at lib body ''train_id'') (get_u16 lib)) (\<lambda>train_id.
     rbind (rbind (json_at lib body ''rail_id'') (get_u64 lib)) (\<lambda>rail_id.
       Inr (train_id, \<lparr>rd_id = rail_id\<rparr>))))"

definition station_request ::
    "json_lib \<Rightarrow> endian \<Rightarrow> string \<Rightarrow> tcp_server_t \<Rightarrow> http_response \<Rightarrow> (http_response \<times> tcp_server_t) result" where
  "station_request lib native text s res =
     (case station_body lib text of
        Inl _ \<Rightarrow> Inr (bad_request lib res ''invalid json payload'', s)
      | Inr (train_id, d) \<Rightarrow>
          rbind (send_to_client native train_id (P_rail_destination d) s) (\<lambda>(st, s). Inr (http_send res st, s)))"

section \<open>Routes\<close>

text \<open>The routes each endpoint registers with the HTTP server; matching a request is the server's.\<close>

datatype http_method = GET | POST

datatype endpoint_handler =
    H_ping | H_get_all_status | H_get_status | H_start_polling | H_stop_polling | H_disconnect
  | H_control_motor | H_station_request

type_synonym route = "http_method \<times> string \<times> endpoint_handler"

definition ping_routes :: "string \<Rightarrow> route list" where
  "ping_routes uri = [(GET, uri, H_ping)]"

definition train_routes :: "string \<Rightarrow> route list" where
  "train_routes uri =
     [(GET, uri @ ''/status'', H_get_all_status),
      (GET, uri @ ''/status/:train_id'', H_get_status),
      (POST, uri @ ''/start_polling'', H_start_polling),
      (POST, uri @ ''/stop_polling'', H_stop_polling),
      (POST, uri @ ''/disconnect/:train_id'', H_disconnect)]"

definition motor_routes :: "string \<Rightarrow> route list" where
  "motor_routes uri = [(POST, uri, H_control_motor)]"

section \<open>Properties\<close>

text \<open>The decimal notation of a number.\<close>

fun decimal :: "nat \<Rightarrow> string" where
  "decimal n = (if n < 10 then [char_of (48 + n)] else decimal (n div 10) @ [char_of (48 + n mod 10)])"

declare decimal.simps [simp del]

lemma digit_char: "n < 10 \<Longrightarrow> is_digit (char_of (48 + n)) \<and> digit_value (char_of (48 + n)) = n"
  by (simp add: is_digit_def digit_value_def)

lemma decimal_digits: "decimal n \<noteq> [] \<and> list_all is_digit (decimal n) \<and> decimal_value (decimal n) = n"
proof (induction n rule: decimal.induct)
  case (1 n)
  show ?case
  proof (cases "n < 10")
    case True
    then show ?thesis
      using digit_char [of n] by (simp add: decimal.simps [of n] decimal_value_def)
  next
    case False
    with 1 digit_char [of "n mod 10"] show ?thesis
      by (simp add: decimal.simps [of n] decimal_value_def)
  qed
qed

lemma to_integer_eq:
  "to_integer s =
     (if s \<noteq> [] \<and> list_all is_digit s \<and> decimal_value s < 2 ^ 16
      then Inr (of_nat (decimal_value s)) else Inl Invalid_argument)"
proof (cases "list_all is_digit s")
  case True
  then have all: "takeWhile is_digit s = s" by (simp add: list_all_iff takeWhile_eq_all_conv)
  show ?thesis
    unfolding to_integer_def from_chars_u16_def Let_def all using True by (simp add: not_le)
next
  case False
  then have "takeWhile is_digit s \<noteq> s" by (auto simp: list_all_iff takeWhile_eq_all_conv)
  then have "length (takeWhile is_digit s) \<noteq> length s"
    by (metis append_eq_append_conv append_Nil2 takeWhile_dropWhile_id)
  with False show ?thesis by (simp add: to_integer_def from_chars_u16_def Let_def split: if_splits)
qed

lemma to_integer_decimal: "to_integer (decimal (unat i)) = Inr i"
  using decimal_digits [of "unat i"] unsigned_less [of i] by (simp add: to_integer_eq)

text \<open>
  C11. The train id in a path is read exactly when it is a nonempty string of decimal digits
  whose value fits 16 bits; anything else (a sign, a space, trailing text, a larger number) is an
  \<open>invalid_argument\<close>. In particular the decimal notation of every id is read as that id.
\<close>

theorem to_integer_spec:
  "to_integer s =
     (if s \<noteq> [] \<and> list_all is_digit s \<and> decimal_value s < 2 ^ 16
      then Inr (of_nat (decimal_value s)) else Inl Invalid_argument) \<and>
   to_integer (decimal (unat i)) = Inr i"
  by (simp add: to_integer_decimal) (simp add: to_integer_eq)

text \<open>
  C10. A motor request does what its answer says. An invalid body is answered with 400 and
  nothing is sent; an id without a connection with 404, a closed connection with 410, again
  without a change of the queues; and 200 means that a motor message with the values of the body
  was appended to the queue of the addressed train and of no other.
\<close>

theorem control_motor_spec:
  assumes "server_ok s"
  shows "\<exists>res' s'. control_motor lib native text s res = Inr (res', s') \<and> server_ok s' \<and>
    (case motor_request lib text of
       Inl e \<Rightarrow> status res' = Some 400 \<and> s' = s
     | Inr (i, m) \<Rightarrow>
         (case m_connections s i of
            None \<Rightarrow> status res' = Some 404 \<and> s' = s
          | Some a \<Rightarrow> \<exists>c c'. heap s a = Some c \<and> s' = s\<lparr>heap := (heap s)(a \<mapsto> c')\<rparr> \<and>
              (if sock_open (m_socket c)
               then status res' = Some 200 \<and> map wr_frame (m_write_state_queue c') =
                 map wr_frame (m_write_state_queue c) @ [frame native (P_motor_control m)]
               else status res' = Some 410 \<and> m_write_state_queue c' = m_write_state_queue c)))"
proof (cases "motor_request lib text")
  case (Inl e)
  then show ?thesis using assms by (simp add: control_motor_def bad_request_def set_content_def)
next
  case (Inr r)
  then obtain i m where r: "motor_request lib text = Inr (i, m)" by (cases r) auto
  obtain st s' where sent: "send_to_client native i (P_motor_control m) s = Inr (st, s')" "server_ok s'"
    by (rule send_to_client_ok [OF assms])
  have out: "control_motor lib native text s res = Inr (http_send res st, s')"
    using r sent(1) by (simp add: control_motor_def)
  show ?thesis
  proof (cases "m_connections s i")
    case None
    then have "st = unknown_client" "s' = s" using sent(1) by (auto simp: send_to_client_def)
    with out sent r None show ?thesis by (simp add: set_content_def)
  next
    case (Some a)
    with server_okD [OF assms] obtain c where c: "heap s a = Some c" "m_id c = i" "conn_wf c"
      by (rule conns_ok_connection)
    let ?c = "snd (push_message native (P_motor_control m) c)"
    have "st = (if sock_open (m_socket c) then tcp_success else no_client_connection)"
      "s' = s\<lparr>heap := (heap s)(a \<mapsto> ?c)\<rparr>"
      using sent(1) send_to_client_eq [OF server_okD [OF assms] Some c(1), of native "P_motor_control m"]
      by (simp_all add: put_conn_def)
    with out sent(2) r Some c(1) push_message_wf(5) [OF c(3), of native "P_motor_control m"]
    show ?thesis
      by (cases "sock_open (m_socket c)") (auto simp: set_content_def wr_frame_def intro!: exI [of _ ?c])
  qed
qed

text \<open>A JSON library that reads one motor request for train 5.\<close>

definition sample_lib :: json_lib where
  "sample_lib =
     \<lparr>json_parse = (\<lambda>text. if text = ''request'' then Inr (J_object
        [(''train_id'', J_unsigned 5), (''is_active'', J_bool True), (''starting_duty'', J_unsigned 750),
         (''target_duty'', J_unsigned 1023), (''ramp_time_ms'', J_unsigned 7500)]) else Inl Json_exception),
      json_dump = (\<lambda>_. []),
      json_at = (\<lambda>j k. case json_field k j of None \<Rightarrow> Inl Json_exception | Some v \<Rightarrow> Inr v),
      get_u16 = (\<lambda>j. case j of J_unsigned n \<Rightarrow> Inr (of_nat n) | _ \<Rightarrow> Inl Json_exception),
      get_u32 = (\<lambda>j. case j of J_unsigned n \<Rightarrow> Inr (of_nat n) | _ \<Rightarrow> Inl Json_exception),
      get_u64 = (\<lambda>j. case j of J_unsigned n \<Rightarrow> Inr (of_nat n) | _ \<Rightarrow> Inl Json_exception),
      get_bool = (\<lambda>j. case j of J_bool b \<Rightarrow> Inr b | _ \<Rightarrow> Inl Json_exception)\<rparr>"

theorem control_motor_spec_witness:
  "\<exists>res' s'. control_motor sample_lib little_endian ''request'' sample_server empty_response = Inr (res', s') \<and>
     status res' = Some 200"
proof -
  have "motor_request sample_lib ''request'' =
      Inr (5, \<lparr>starting_duty = 750, target_duty = 1023, ramp_time_ms = 7500, is_active = 1\<rparr>)"
    by (simp add: motor_request_def sample_lib_def)
  with control_motor_spec [OF sample_server_ok, of sample_lib little_endian "''request''" empty_response]
  show ?thesis by (auto simp: sample_server_simps)
qed

end
