(* ===== verification/Host_Application.thy ===== *)
theory Host_Application
  imports Host_Protocol Host_Http
begin

text \<open>
  The host program, \<open>host/application.{hpp,cpp}\<close>: the TCP server with the callbacks the application
  registers, the train storage, the handshakes and the heartbeat, driven by asio and by
  HTTP requests. (The application object also holds a rail network, which it never uses.)
\<close>

section \<open>State and callbacks\<close>

record host_app =
  trains :: train_storage_t
  handshake :: handshake_manager_t
  monitor_timer :: bool

type_synonym host_state = "tcp_server_t \<times> host_app"

definition app_on_connect :: "endian \<Rightarrow> esp_id_t \<Rightarrow> host_state \<Rightarrow> host_state result" where
  "app_on_connect native i = (\<lambda>(s, w).
     rbind (handshake_on_connect native i (s, handshake w)) (\<lambda>(s, h).
       Inr (s, w\<lparr>handshake := h, trains := add_train i (trains w)\<rparr>)))"

definition app_on_disconnect :: "esp_id_t \<Rightarrow> host_state \<Rightarrow> host_state result" where
  "app_on_disconnect i = (\<lambda>(s, w). Inr (s, w\<lparr>trains := remove_train i (trains w)\<rparr>))"

definition app_callbacks :: "endian \<Rightarrow> (esp_id_t \<Rightarrow> host_state \<Rightarrow> host_state result) connection_callbacks" where
  "app_callbacks native = register_on_disconnect app_on_disconnect (register_on_connect (app_on_connect native) no_callbacks)"

lemma app_callbacks_called:
  "server_on_connect (app_callbacks native) = app_on_connect native"
  "call_on_disconnect (app_callbacks native) = app_on_disconnect"
  by (simp_all add: fun_eq_iff server_on_connect_def call_on_disconnect_def app_callbacks_def register_on_connect_def
    register_on_disconnect_def)

text \<open>The registered message callbacks; a kind without one is never dispatched.\<close>

fun app_on_packet :: "packet \<Rightarrow> host_state \<Rightarrow> host_state result" where
  "app_on_packet (P_esp_init_response res) (s, w) =
     Inr (s, w\<lparr>handshake := on_response_received res (handshake w)\<rparr>)"
| "app_on_packet (P_motor_status m) (s, w) =
     Inr (s, w\<lparr>trains := snd (update_motor_status (ms_id m) (ms_current_duty m) (ms_is_active m \<noteq> 0) (trains w))\<rparr>)"
| "app_on_packet (P_rail_location l) (s, w) =
     Inr (s, w\<lparr>trains := snd (update_track_position (rl_id l) (rl_rail_id l) (rl_type l) (trains w))\<rparr>)"
| "app_on_packet (P_battery_status b) (s, w) =
     Inr (s, w\<lparr>trains := snd (update_battery_level (bs_id b) (bs_percentage_level b) (trains w))\<rparr>)"
| "app_on_packet _ (s, w) = Inr (s, w)"

definition register_callbacks :: "tcp_server_t \<Rightarrow> tcp_server_t" where
  "register_callbacks s =
     server_register_callback K_battery_status
       (server_register_callback K_rail_location
         (server_register_callback K_motor_status
           (server_register_callback K_esp_init_response s)))"

definition register_endpoints :: "route list" where
  "register_endpoints =
     ping_routes ''/api/ping'' @ train_routes ''/api/train'' @ motor_routes ''/api/motor_control'' @
     [(POST, ''/api/station_request'', H_station_request)]"

definition application_init :: host_state where
  "application_init =
     (register_callbacks tcp_server_init,
      \<lparr>trains = Map.empty, handshake = handshake_init, monitor_timer = monitor_check False\<rparr>)"

definition application_start :: "acceptor_setup \<Rightarrow> host_state \<Rightarrow> host_state" where
  "application_start setup = (\<lambda>(s, w). (snd (toggle_accepting True setup (server_start s)), w))"

section \<open>The running program\<close>

text \<open>
  The states the program reaches: asio completes accepts and operations, timers expire and their handlers run,
  heartbeats are sent, and HTTP requests are served, in any order, for as
  long as no step faults.
\<close>

inductive host_reachable :: "endian \<Rightarrow> host_state \<Rightarrow> bool" for native where
  host_start: "host_reachable native (application_start setup application_init)"
| host_accept: "host_reachable native (s, w) \<Longrightarrow> a \<in> set (pending_accepts s) \<Longrightarrow>
    accept_done (app_on_connect native) a ec (s, w) = Inr sw \<Longrightarrow> host_reachable native sw"
| host_io: "host_reachable native (s, w) \<Longrightarrow> heap s a = Some c \<Longrightarrow> op \<in> set (sock_ops (m_socket c)) \<Longrightarrow>
    (\<And>bs. r = Some bs \<Longrightarrow> length bs = op_bytes op) \<Longrightarrow>
    op_done native app_on_packet app_on_disconnect a op r (s, w) = Inr sw \<Longrightarrow> host_reachable native sw"
| host_expire: "host_reachable native (s, w) \<Longrightarrow>
    host_reachable native (s, w\<lparr>handshake := timer_expires i (handshake w)\<rparr>)"
| host_timeout: "host_reachable native (s, w) \<Longrightarrow> i \<in> set (expired (handshake w)) \<Longrightarrow>
    on_timeout i (s, (handshake w)\<lparr>expired := remove1 i (expired (handshake w))\<rparr>) = Inr (s', h) \<Longrightarrow>
    host_reachable native (s', w\<lparr>handshake := h\<rparr>)"
| host_heartbeat: "host_reachable native (s, w) \<Longrightarrow> distinct order \<Longrightarrow> set order = dom (m_connections s) \<Longrightarrow>
    monitor_on_timer native ec order (s, monitor_timer w) = Inr (s', timer) \<Longrightarrow>
    host_reachable native (s', w\<lparr>monitor_timer := timer\<rparr>)"
| host_start_polling: "host_reachable native (s, w) \<Longrightarrow>
    host_reachable native (snd (start_polling setup s res), w)"
| host_stop_polling: "host_reachable native (s, w) \<Longrightarrow> host_reachable native (snd (stop_polling s res), w)"
| host_disconnect: "host_reachable native (s, w) \<Longrightarrow>
    disconnect_endpoint lib path_params s res = Inr (res', s') \<Longrightarrow> host_reachable native (s', w)"
| host_motor: "host_reachable native (s, w) \<Longrightarrow>
    control_motor lib native body s res = Inr (res', s') \<Longrightarrow> host_reachable native (s', w)"
| host_station: "host_reachable native (s, w) \<Longrightarrow>
    station_request lib native body s res = Inr (res', s') \<Longrightarrow> host_reachable native (s', w)"

text \<open>The data about the trains covers the connected clients, and armed waits have sessions.\<close>

definition world_ok :: "esp_id_t set \<Rightarrow> host_app \<Rightarrow> bool" where
  "world_ok ids w \<longleftrightarrow> ids \<subseteq> dom (trains w) \<and> handshake_ok (handshake w)"

definition app_ok :: "host_state \<Rightarrow> bool" where
  "app_ok sw \<longleftrightarrow> server_ok (fst sw) \<and> world_ok (dom (m_connections (fst sw))) (snd sw)"

lemma update_dom [simp]:
  "dom (snd (update_battery_level i l m)) = dom m"
  "dom (snd (update_track_position i r t m)) = dom m"
  "dom (snd (update_motor_status i d b m)) = dom m"
  by (auto simp: train_defs split: option.split)

interpretation app: server_callbacks "app_on_connect native" app_on_disconnect app_on_packet world_ok
  for native
proof
  show "\<exists>s' w'. app_on_connect native i (s, w) = Inr (s', w') \<and> callback_frame s s' \<and> world_ok (insert i ids) w'"
    if ok: "conns_ok s" "world_ok ids w" for s ids w i
  proof -
    obtain s' where "handshake_on_connect native i (s, handshake w) =
        Inr (s', (handshake w)\<lparr>m_session := insert i (m_session (handshake w)), armed := armed (handshake w) @ [i]\<rparr>)"
      and "callback_frame s s'"
      using handshake_on_connect_ok [OF ok(1)] by metis
    with ok(2) show ?thesis
      by (auto simp: app_on_connect_def world_ok_def add_train_def handshake_ok_def)
  qed
  show "\<exists>s' w'. app_on_disconnect i (s, w) = Inr (s', w') \<and> callback_frame s s' \<and> world_ok (ids - {i}) w'"
    if "conns_ok s" "world_ok ids w" for s ids w i
    using that callback_frame_refl by (auto simp: app_on_disconnect_def world_ok_def remove_train_def)
  show "\<exists>s' w'. app_on_packet p (s, w) = Inr (s', w') \<and> callback_frame s s' \<and> world_ok ids w'"
    if "conns_ok s" "world_ok ids w" for s ids w p
    using that callback_frame_refl
    by (cases p) (auto simp: world_ok_def intro: handshake_ok_steps)
qed

lemma server_register_callback_ok [inv_intros]: "server_ok s \<Longrightarrow> server_ok (server_register_callback t s)"
  by (simp add: server_register_callback_def server_ok_def conns_ok_def registry_ok_register)

lemma app_ok_start: "app_ok (application_start setup application_init)"
proof -
  have "server_ok (server_start s)" if "server_ok s" for s
    using that by (simp add: server_start_def server_ok_def conns_ok_def)
  then show ?thesis
    by (simp add: app_ok_def application_start_def application_init_def register_callbacks_def
      toggle_accepting_ok server_register_callback_ok server_init_ok world_ok_def handshake_init_ok)
      (simp add: server_start_def server_register_callback_def tcp_server_init_def)
qed

lemma disconnect_client_connections:
  "disconnect_client i s = Inr (st, s') \<Longrightarrow> dom (m_connections s') \<subseteq> dom (m_connections s)"
  by (auto simp: disconnect_client_def connection_disconnect_def rbind_eq_Inr_iff split: option.splits if_splits)

lemma send_to_client_connections:
  "send_to_client native i p s = Inr (st, s') \<Longrightarrow> m_connections s' = m_connections s"
  by (auto simp: send_to_client_def rbind_eq_Inr_iff split: option.splits)

lemma app_ok_server:
  assumes "app_ok (s, w)" and "server_ok s'" and "dom (m_connections s') \<subseteq> dom (m_connections s)"
  shows "app_ok (s', w)"
  using assms by (auto simp: app_ok_def world_ok_def)

lemma app_ok_disconnect:
  assumes "app_ok (s, w)" and "disconnect_client i s = Inr (st, s')" shows "app_ok (s', w)"
proof -
  have "server_ok s" using assms(1) by (simp add: app_ok_def)
  then have "server_ok s'" using disconnect_client_ok assms(2) by (metis Inr_inject Pair_inject)
  with app_ok_server [OF assms(1)] disconnect_client_connections [OF assms(2)] show ?thesis by blast
qed

lemma app_ok_send:
  assumes "app_ok (s, w)" and "send_to_client native i p s = Inr (st, s')" shows "app_ok (s', w)"
proof -
  have "server_ok s" using assms(1) by (simp add: app_ok_def)
  then have "server_ok s'" using send_to_client_ok assms(2) by (metis Inr_inject Pair_inject)
  with app_ok_server [OF assms(1)] send_to_client_connections [OF assms(2)] show ?thesis by simp
qed

lemma app_ok_handshake:
  "app_ok (s, w) \<Longrightarrow> handshake_ok h \<Longrightarrow> app_ok (s, w\<lparr>handshake := h\<rparr>)"
  by (simp add: app_ok_def world_ok_def)

lemma app_ok_toggle: "app_ok (s, w) \<Longrightarrow> app_ok (snd (toggle_accepting enable setup s), w)"
  by (simp add: app_ok_def toggle_accepting_ok)

lemma app_ok_heartbeat:
  assumes "app_ok (s, w)" and "distinct order" and "set order = dom (m_connections s)"
  obtains s' where "send_to_all_clients native p order s = Inr s'" and "app_ok (s', w)"
proof -
  have ok: "server_ok s" using assms(1) by (simp add: app_ok_def)
  note eq = send_all.loop_all_eq [OF server_okD [OF ok] assms(2,3), of native p]
  have "server_ok (map_conns (\<lambda>c. snd (push_message native p c)) (dom (m_connections s)) s)"
    by (rule send_all.map_conns_ok [OF ok])
  then have "app_ok (map_conns (\<lambda>c. snd (push_message native p c)) (dom (m_connections s)) s, w)"
    by (rule app_ok_server [OF assms(1)]) simp
  with eq show ?thesis by (rule that)
qed

lemma host_reachable_app_ok: "host_reachable native sw \<Longrightarrow> app_ok sw"
proof (induction rule: host_reachable.induct)
  case (host_start su)
  show ?case by (rule app_ok_start)
next
  case (host_accept s w a ec sw)
  then show ?case
    using app.accept_done_ok [of s w a native ec] by (auto simp: app_ok_def)
next
  case (host_io s w a c op r sw)
  then obtain evs c' where "complete native (m_registry s) op r c = Inr (evs, c')"
    by (auto simp: op_done_def deref_def rbind_eq_Inr_iff)
  with host_io show ?case
    using app.op_done_ok [of s w a c op r native evs c'] by (auto simp: app_ok_def)
next
  case (host_expire s w i)
  then show ?case by (auto simp: app_ok_def world_ok_def intro: handshake_ok_steps)
next
  case (host_timeout s w i s' h)
  let ?h = "(handshake w)\<lparr>expired := remove1 i (expired (handshake w))\<rparr>"
  from host_timeout(3) obtain st where d: "disconnect_client i s = Inr (st, s')" "h = erase_session i ?h"
    by (auto simp: on_timeout_def rbind_eq_Inr_iff)
  have "handshake_ok ?h" using host_timeout(4) by (simp add: app_ok_def world_ok_def handshake_ok_def)
  then show ?case
    using app_ok_handshake [OF app_ok_disconnect [OF host_timeout(4) d(1)]] d(2) handshake_ok_steps(1) by simp
next
  case (host_heartbeat s w order ec s' timer)
  obtain s'' where "send_to_all_clients native (P_heartbeat Heartbeat) order s = Inr s''" "app_ok (s'', w)"
    by (rule app_ok_heartbeat [OF host_heartbeat(5,2,3)])
  with host_heartbeat(4,5) have "app_ok (s', w)"
    by (auto simp: monitor_on_timer_def split: if_splits)
  then show ?case by (simp add: app_ok_def world_ok_def)
next
  case (host_start_polling s w su res)
  then show ?case
    by (simp add: start_polling_def Let_def app_ok_toggle case_prod_unfold)
next
  case (host_stop_polling s w res)
  then show ?case
    by (simp add: stop_polling_def Let_def app_ok_toggle case_prod_unfold)
next
  case (host_disconnect s w lib path_params res res' s')
  then show ?case
    by (auto simp: disconnect_endpoint_def rbind_eq_Inr_iff intro: app_ok_disconnect split: sum.splits)
next
  case (host_motor s w lib body res res' s')
  then show ?case
    by (auto simp: control_motor_def rbind_eq_Inr_iff intro: app_ok_send split: sum.splits)
next
  case (host_station s w lib body res res' s')
  then show ?case
    by (auto simp: station_request_def rbind_eq_Inr_iff intro: app_ok_send split: sum.splits)
qed

section \<open>Properties\<close>

text \<open>
  C8. The host program keeps its bookkeeping consistent, and only the traffic of a client can
  stop it. In every state it reaches, the server is well formed and every connected client has
  an entry in the train storage; and each of the other steps, the completion of an accept, the timeout of a
  handshake, the heartbeat, and the motor, station and disconnect requests, returns
  without a fault.
\<close>

theorem host_reachable_safe:
  assumes "host_reachable native (s, w)"
  shows "server_ok s \<and> (\<forall>i. m_connections s i \<noteq> None \<longrightarrow> has_train (trains w) i) \<and>
    (\<forall>a \<in> set (pending_accepts s). \<forall>ec. \<exists>sw. accept_done (app_on_connect native) a ec (s, w) = Inr sw) \<and>
    (\<forall>i h. \<exists>sh. on_timeout i (s, h) = Inr sh) \<and>
    (\<forall>order ec timer. distinct order \<longrightarrow> set order = dom (m_connections s) \<longrightarrow>
       (\<exists>st. monitor_on_timer native ec order (s, timer) = Inr st)) \<and>
    (\<forall>lib body res. (\<exists>r. control_motor lib native body s res = Inr r) \<and>
       (\<exists>r. station_request lib native body s res = Inr r)) \<and>
    (\<forall>lib path_params res. \<exists>r. disconnect_endpoint lib path_params s res = Inr r)"
proof -
  have ok: "app_ok (s, w)" using assms by (rule host_reachable_app_ok)
  then have server: "server_ok s" by (simp add: app_ok_def)
  have send: "\<exists>r. send_to_client native i p s = Inr r" for i p
    by (rule send_to_client_ok [OF server]) blast
  have disconnect: "\<exists>r. disconnect_client i s = Inr r" for i
    by (rule disconnect_client_ok [OF server]) blast
  have "\<exists>sw. accept_done (app_on_connect native) a ec (s, w) = Inr sw" if "a \<in> set (pending_accepts s)" for a ec
    using app.accept_done_ok [of s w a native ec] ok that by (auto simp: app_ok_def)
  moreover have "\<exists>st. monitor_on_timer native ec order (s, timer) = Inr st"
    if "distinct order" "set order = dom (m_connections s)" for ec order timer
    by (rule app_ok_heartbeat [OF ok that, of native "P_heartbeat Heartbeat"]) (simp add: monitor_on_timer_def)
  moreover have answer: "\<exists>r. rbind x (\<lambda>(st, s). Inr (http_send res st, s)) = Inr r"
    if "\<exists>r. x = Inr r" for x :: "(tcp_status_t \<times> tcp_server_t) result" and res
    using that by (auto simp: split_beta)
  then have "\<exists>r. control_motor lib native body s res = Inr r" for lib body res
    by (simp add: control_motor_def answer [OF send] split: sum.split prod.split del: split_paired_Ex)
  moreover have "\<exists>r. station_request lib native body s res = Inr r" for lib body res
    by (simp add: station_request_def answer [OF send] split: sum.split prod.split del: split_paired_Ex)
  moreover have "\<exists>r. disconnect_endpoint lib path_params s res = Inr r" for lib path_params res
    by (simp add: disconnect_endpoint_def answer [OF disconnect] split: sum.split del: split_paired_Ex)
  moreover have "\<exists>sh. on_timeout i (s, h) = Inr sh" for i h
    using disconnect [of i] by (auto simp: on_timeout_def)
  moreover have "has_train (trains w) i" if "m_connections s i \<noteq> None" for i
    using ok that by (auto simp: app_ok_def world_ok_def has_train_def)
  ultimately show ?thesis using server by blast
qed

theorem host_reachable_safe_witness:
  "\<exists>s w sw. host_reachable little_endian (s, w) \<and> pending_accepts s = [0] \<and>
     accept_done (app_on_connect little_endian) 0 False (s, w) = Inr sw"
proof -
  obtain s w where sw: "application_start Setup_ok application_init = (s, w)"
    by (cases "application_start Setup_ok application_init")
  have run: "host_reachable little_endian (s, w)"
    using host_start [of little_endian Setup_ok] by (simp add: sw)
  have "pending_accepts s = [0]"
    using sw by (auto simp: application_start_def application_init_def register_callbacks_def
      server_register_callback_def tcp_server_init_def server_start_def toggle_accepting_def wait_for_connection_def)
  moreover from this have "\<exists>sw. accept_done (app_on_connect little_endian) 0 False (s, w) = Inr sw"
    using host_reachable_safe [OF run] by simp
  ultimately show ?thesis using run by blast
qed

lemma accept_greets:
  assumes "server_ok s" and "acceptor_open s" and "a \<in> set (pending_accepts s)"
    and "heap s a = Some tcp_connection_create" and "m_connection_count s = n" and "m_connections s n = None"
  shows "\<exists>s' w' c. accept_done (app_on_connect native) a False (s, w) = Inr (s', w') \<and>
    m_connections s' = (m_connections s)(n \<mapsto> a) \<and> m_connection_count s' = n + 1 \<and>
    heap s' a = Some c \<and> m_id c = n \<and> sock_open (m_socket c) \<and>
    map wr_frame (m_write_state_queue c) = [frame native (P_esp_init_request \<lparr>req_id = n\<rparr>)] \<and>
    sock_ops (m_socket c) = (if m_receiving s then [Async_read_id] else []) @
      [Async_write (frame native (P_esp_init_request \<lparr>req_id = n\<rparr>))] \<and>
    m_can_receive c = m_receiving s \<and>
    has_train (trains w') n \<and> n \<in> m_session (handshake w') \<and> n \<in> set (armed (handshake w'))"
proof -
  let ?c0 = "set_spec n (open_socket tcp_connection_create)"
  let ?c = "set_receiving_state (m_receiving s) ?c0" and ?p = "P_esp_init_request \<lparr>req_id = n\<rparr>"
  let ?s = "(put_conn a ?c s)\<lparr>m_connections := (m_connections s)(n \<mapsto> a)\<rparr>"
  let ?c' = "snd (push_message native ?p ?c)"
  have c: "conn_wf ?c" "m_id ?c = n" "sock_open (m_socket ?c)" "m_write_state_queue ?c = []"
    and reading: "m_io_write_state ?c = io_idle" "m_can_receive ?c = m_receiving s"
      "sock_ops (m_socket ?c) = (if m_receiving s then [Async_read_id] else [])"
    by (simp_all add: conn_wf_def set_receiving_state_def start_receiving_def stop_receiving_def read_id_def start_op_def
      set_spec_def open_socket_def tcp_connection_create_def tcp_io_state_init_def)
  have a: "a \<notin> ran (m_connections s)" "a \<noteq> next_ptr s"
    using assms(1,3) heap_fresh(1) [OF server_okD [OF assms(1)]] by (auto simp: server_ok_def)
  have "conns_ok ?s"
    using conns_ok_accept [OF server_okD [OF assms(1)] assms(4) a(1) c(1,2)] assms(6) by simp
  from send_to_client_eq [OF this, of n a ?c native ?p]
  have sent: "send_to_client native n ?p ?s = Inr (tcp_success, put_conn a ?c' ?s)"
    using c(3) by simp
  note push = push_message_wf [OF c(1), of native ?p]
  have "map wr_frame (m_write_state_queue ?c') = [frame native ?p]"
    using push(5) c(3,4) by (simp add: wr_frame_def)
  moreover have "sock_open (m_socket ?c')"
    using c(1,3) by (rule push_message_open)
  moreover note push_message_idle(1,2) [OF c(1,3) reading(1) c(4), of native ?p, unfolded reading(2,3)]
  moreover let ?w = "w\<lparr>handshake := (handshake w)\<lparr>m_session := insert n (m_session (handshake w)),
      armed := armed (handshake w) @ [n]\<rparr>, trains := add_train n (trains w)\<rparr>"
  let ?t = "wait_for_connection ((put_conn a ?c' ?s)\<lparr>m_connection_count := n + 1\<rparr>)"
  have "accept_done (app_on_connect native) a False (s, w) =
      Inr (release a (?t\<lparr>pending_accepts := remove1 a (pending_accepts ?t)\<rparr>), ?w)"
    using assms sent by (simp add: accept_done_def create_new_connection_def deref_def Let_def
      app_on_connect_def handshake_on_connect_def)
  moreover have "a \<in> ran ((m_connections s)(n \<mapsto> a))" by (simp add: ran_def) blast
  ultimately show ?thesis
    using a(2) assms(2) push(3) c(2)
    by (simp add: release_def wait_for_connection_def has_train_def add_train_def map_emplace_def split: option.split)
qed

text \<open>
  C9. A client that connects under a free id is set up completely: it is entered into the
  connection map under the counter's value, the first message queued for it tells it that
  id and is being written, its id is being read when the server is receiving, as it does from its start
  (and only then), its train is added to the storage, and its handshake timer is armed.
\<close>

theorem accepted_client_greeted:
  assumes "server_ok s" and "acceptor_open s" and "a \<in> set (pending_accepts s)"
    and "heap s a = Some tcp_connection_create" and "m_connection_count s = n" and "m_connections s n = None"
  shows "\<exists>s' w' c. accept_done (app_on_connect native) a False (s, w) = Inr (s', w') \<and>
    m_connections s' = (m_connections s)(n \<mapsto> a) \<and> m_connection_count s' = n + 1 \<and>
    heap s' a = Some c \<and> m_id c = n \<and> sock_open (m_socket c) \<and>
    map wr_frame (m_write_state_queue c) = [frame native (P_esp_init_request \<lparr>req_id = n\<rparr>)] \<and>
    sock_ops (m_socket c) = (if m_receiving s then [Async_read_id] else []) @
      [Async_write (frame native (P_esp_init_request \<lparr>req_id = n\<rparr>))] \<and>
    m_can_receive c = m_receiving s \<and>
    has_train (trains w') n \<and> n \<in> m_session (handshake w') \<and> n \<in> set (armed (handshake w'))"
  using assms by (rule accept_greets)

lemma started_host:
  obtains s w where "host_reachable native (s, w)" and "server_ok s" and "acceptor_open s" and "m_receiving s"
    and "pending_accepts s = [0]" and "heap s 0 = Some tcp_connection_create" and "m_connection_count s = 0"
    and "m_connections s = Map.empty"
proof -
  obtain s w where sw: "application_start Setup_ok application_init = (s, w)"
    by (cases "application_start Setup_ok application_init")
  have run: "host_reachable native (s, w)"
    using host_start [of native Setup_ok] by (simp add: sw)
  moreover have "server_ok s" using host_reachable_app_ok [OF run] by (simp add: app_ok_def)
  moreover from sw have "s = \<lparr>acceptor_open = True, pending_accepts = [0], heap = [0 \<mapsto> tcp_connection_create],
      next_ptr = 1, orphans = [], m_connections = Map.empty, m_connection_count = 0, m_receiving = True,
      m_registry = m_registry s, io_running = True\<rparr>"
    by (auto simp: application_start_def application_init_def register_callbacks_def
      server_register_callback_def tcp_server_init_def server_start_def toggle_accepting_def wait_for_connection_def)
  then have "acceptor_open s" "m_receiving s" "pending_accepts s = [0]" "heap s 0 = Some tcp_connection_create"
    "m_connection_count s = 0" "m_connections s = Map.empty"
    by (metis tcp_server_t.select_convs fun_upd_same)+
  ultimately show ?thesis by (rule that)
qed

theorem accepted_client_greeted_witness:
  "\<exists>s w s' w' c. host_reachable little_endian (s, w) \<and>
     accept_done (app_on_connect little_endian) 0 False (s, w) = Inr (s', w') \<and>
     m_connections s' = [0 \<mapsto> 0] \<and> heap s' 0 = Some c \<and> sock_open (m_socket c) \<and>
     Async_read_id \<in> set (sock_ops (m_socket c))"
proof -
  obtain s w where s: "host_reachable little_endian (s, w)" "server_ok s" "acceptor_open s" "m_receiving s"
    "pending_accepts s = [0]" "heap s 0 = Some tcp_connection_create" "m_connection_count s = 0"
    "m_connections s = Map.empty"
    by (rule started_host)
  have "0 \<in> set (pending_accepts s)" "m_connections s 0 = None" using s by simp_all
  from accepted_client_greeted [OF s(2,3) this(1) s(6,7) this(2), of little_endian w]
  obtain s' w' c where "accept_done (app_on_connect little_endian) 0 False (s, w) = Inr (s', w')"
    "m_connections s' = [0 \<mapsto> 0]" "heap s' 0 = Some c" "sock_open (m_socket c)"
    "Async_read_id \<in> set (sock_ops (m_socket c))"
    using s(4,8) by auto
  with s(1) show ?thesis by blast
qed

text \<open>
  A train disconnected over HTTP stays listed: the request is answered with 200 and the connection
  is gone, but the application is not told, and the status of the train is still served.
\<close>

theorem disconnected_train_still_listed:
  assumes "host_reachable native (s, w)" and "m_connections s i = Some a" and "heap s a = Some c"
    and "sock_open (m_socket c)" and "path_params ''train_id'' = Some (decimal (unat i))"
  shows "\<exists>res' s'. disconnect_endpoint lib path_params s res = Inr (res', s') \<and> status res' = Some 200 \<and>
    m_connections s' i = None \<and> host_reachable native (s', w) \<and>
    get_status lib (trains w) path_params res =
      set_content (json_dump lib (get_train_json (trains w) i)) application_json res"
proof -
  have ok: "app_ok (s, w)" using assms(1) by (rule host_reachable_app_ok)
  have param: "get_path_param path_params ''train_id'' = Inr i"
    using assms(5) to_integer_decimal by (simp add: get_path_param_def)
  obtain s' where d: "disconnect_client i s = Inr (tcp_success, s')" "m_connections s' i = None"
    using assms(2-4) by (simp add: disconnect_client_def connection_disconnect_def deref_def)
  then have "disconnect_endpoint lib path_params s res = Inr (http_send res tcp_success, s')"
    by (simp add: disconnect_endpoint_def param)
  moreover from host_disconnect [OF assms(1) this] have "host_reachable native (s', w)" .
  moreover have "has_train (trains w) i"
    using ok assms(2) by (auto simp: app_ok_def world_ok_def has_train_def)
  ultimately show ?thesis using d(2) by (simp add: get_status_def param set_content_def)
qed

theorem disconnected_train_still_listed_witness:
  "\<exists>s w s' res'. host_reachable little_endian (s, w) \<and>
     disconnect_endpoint sample_lib [''train_id'' \<mapsto> decimal 0] s empty_response = Inr (res', s') \<and>
     status res' = Some 200 \<and> m_connections s' 0 = None \<and>
     status (get_status sample_lib (trains w) [''train_id'' \<mapsto> decimal 0] empty_response) = None"
proof -
  obtain s w where s: "host_reachable little_endian (s, w)" "server_ok s" "acceptor_open s" "m_receiving s"
    "pending_accepts s = [0]" "heap s 0 = Some tcp_connection_create" "m_connection_count s = 0"
    "m_connections s = Map.empty"
    by (rule started_host)
  have pending: "0 \<in> set (pending_accepts s)" "m_connections s 0 = None" using s by simp_all
  obtain s1 w1 c where s1: "accept_done (app_on_connect little_endian) 0 False (s, w) = Inr (s1, w1)"
    "m_connections s1 0 = Some 0" "heap s1 0 = Some c" "sock_open (m_socket c)"
    using accept_greets [OF s(2,3) pending(1) s(6,7) pending(2)] s(8) by (metis fun_upd_same)
  have run: "host_reachable little_endian (s1, w1)"
    by (rule host_accept [OF s(1) pending(1) s1(1)])
  have "[''train_id'' \<mapsto> decimal 0] ''train_id'' = Some (decimal (unat (0 :: esp_id_t)))" by simp
  from disconnected_train_still_listed [where path_params = "[''train_id'' \<mapsto> decimal 0]", OF run s1(2-4) this,
      of sample_lib empty_response]
  obtain res' s' where "disconnect_endpoint sample_lib [''train_id'' \<mapsto> decimal 0] s1 empty_response = Inr (res', s')"
    "status res' = Some 200" "m_connections s' 0 = None"
    "status (get_status sample_lib (trains w1) [''train_id'' \<mapsto> decimal 0] empty_response) = None"
    by (auto simp: set_content_def empty_response_def)
  with run show ?thesis by blast
qed

end
