(* ===== verification/Rail_Storage.thy ===== *)
theory Rail_Storage
  imports Messages
begin

text \<open>
  The directed rail graph of \<open>host/rail_network\<close>: \<open>rail_connection.hpp\<close>,
  \<open>storage/rail.hpp\<close>, \<open>storage/track.hpp\<close> and \<open>storage/rail_storage.hpp\<close>.

  A storage is a vector of tracks, each a vector of rails, and a map from rail ids to
  positions. Indexing with \<open>operator[]\<close> is unchecked in the source and shows up as
  \<open>Out_of_bounds\<close> here; \<open>at\<close> of the map throws \<open>Out_of_range\<close>. The invariant
  \<open>storage_ok\<close> (map and tracks describe the same positions, tracks are never empty, every
  stored link points at an existing rail) holds initially and is kept by every operation,
  and under it no operation fails.
\<close>

section \<open>Connections between rails\<close>

record rail_endpoint_t =
  ep_id :: rail_id_t
  ep_type :: rail_type_t

definition is_junction :: "rail_endpoint_t \<Rightarrow> bool" where
  "is_junction e \<longleftrightarrow> ep_type e = left_junction \<or> ep_type e = right_junction"

record rail_connection_t =
  current :: rail_endpoint_t
  previous :: rail_endpoint_t
  branch :: "rail_endpoint_t option"

definition has_rail_pivot :: "rail_connection_t \<Rightarrow> bool" where
  "has_rail_pivot c \<longleftrightarrow> ep_type (previous c) \<noteq> rail_none"

definition connection_has_branch :: "rail_connection_t \<Rightarrow> bool" where
  "connection_has_branch c \<longleftrightarrow> branch c \<noteq> None"

section \<open>Rails and tracks\<close>

record rail_branch_t =
  br_track :: nat
  br_position :: nat

record rail_t =
  rail_id :: rail_id_t
  rail_type :: rail_type_t
  rail_branch :: rail_branch_t

definition rail_has_branch :: "rail_t \<Rightarrow> bool" where
  "rail_has_branch r \<longleftrightarrow> rail_type r = left_junction \<or> rail_type r = right_junction"

record track_t =
  m_rails :: "rail_t list"
  m_track_connection :: "nat option"

text \<open>The aggregate initialisation of \<open>track_t::add\<close> leaves the branch at its default, (0, 0).\<close>

definition new_rail :: "rail_endpoint_t \<Rightarrow> rail_t" where
  "new_rail e = \<lparr>rail_id = ep_id e, rail_type = ep_type e,
     rail_branch = \<lparr>br_track = 0, br_position = 0\<rparr>\<rparr>"

definition track_add :: "rail_endpoint_t \<Rightarrow> track_t \<Rightarrow> track_t" where
  "track_add e t = t\<lparr>m_rails := m_rails t @ [new_rail e]\<rparr>"

definition track_of_endpoint :: "rail_endpoint_t \<Rightarrow> track_t" where
  "track_of_endpoint e = track_add e \<lparr>m_rails = [], m_track_connection = None\<rparr>"

definition track_size :: "track_t \<Rightarrow> nat" where
  "track_size t = length (m_rails t)"

definition track_has :: "track_t \<Rightarrow> nat \<Rightarrow> bool" where
  "track_has t position \<longleftrightarrow> track_size t > position"

definition track_get :: "track_t \<Rightarrow> nat \<Rightarrow> rail_t result" where
  "track_get t position = nth_chk (m_rails t) position"

definition add_branch :: "nat \<Rightarrow> rail_branch_t \<Rightarrow> track_t \<Rightarrow> bool \<times> track_t" where
  "add_branch position b t =
     (if position \<ge> track_size t then (False, t)
      else (True, t\<lparr>m_rails := (m_rails t)[position := (m_rails t ! position)\<lparr>rail_branch := b\<rparr>]\<rparr>))"

definition set_track_connection :: "nat \<Rightarrow> track_t \<Rightarrow> track_t" where
  "set_track_connection i t = t\<lparr>m_track_connection := Some i\<rparr>"

definition get_track_connections :: "track_t \<Rightarrow> nat option" where
  "get_track_connections t = m_track_connection t"

section \<open>The storage\<close>

datatype rail_status_t =
    rail_success
  | rail_already_exists
  | no_previous_rail
  | invalid_connection
  | invalid_loop

record location_t =
  loc_track :: nat
  loc_position :: nat

record rail_storage_t =
  m_tracks :: "track_t list"
  m_rail_lookup :: "rail_id_t \<rightharpoonup> location_t"

definition storage_init :: rail_storage_t where
  "storage_init = \<lparr>m_tracks = [], m_rail_lookup = Map.empty\<rparr>"

definition exists :: "rail_storage_t \<Rightarrow> rail_id_t \<Rightarrow> bool" where
  "exists s i \<longleftrightarrow> m_rail_lookup s i \<noteq> None"

definition get_from_id :: "rail_storage_t \<Rightarrow> rail_id_t \<Rightarrow> rail_t result" where
  "get_from_id s i =
     rbind (map_at (m_rail_lookup s) i) (\<lambda>location.
     rbind (nth_chk (m_tracks s) (loc_track location)) (\<lambda>track.
     track_get track (loc_position location)))"

definition get_from_branch :: "rail_storage_t \<Rightarrow> rail_branch_t \<Rightarrow> rail_t result" where
  "get_from_branch s b =
     rbind (nth_chk (m_tracks s) (br_track b)) (\<lambda>track. track_get track (br_position b))"

definition create_track :: "rail_endpoint_t \<Rightarrow> rail_storage_t \<Rightarrow> rail_status_t \<times> rail_storage_t" where
  "create_track endpoint s =
     (if m_rail_lookup s (ep_id endpoint) \<noteq> None then (rail_already_exists, s)
      else let tracks = m_tracks s @ [track_of_endpoint endpoint];
               lookup = map_emplace (ep_id endpoint)
                          \<lparr>loc_track = size_t_pred (length tracks), loc_position = 0\<rparr> (m_rail_lookup s)
           in (rail_success, s\<lparr>m_tracks := tracks, m_rail_lookup := lookup\<rparr>))"

definition create_branch ::
    "location_t \<Rightarrow> rail_connection_t \<Rightarrow> rail_storage_t \<Rightarrow> (rail_status_t \<times> rail_storage_t) result" where
  "create_branch location connection s =
     (if \<not> is_junction (current connection) then Inr (invalid_connection, s)
      else case branch connection of
        None \<Rightarrow> Inl Bad_optional_access
      | Some b \<Rightarrow>
          let (ret, s) = create_track b s
          in if ret \<noteq> rail_success then Inr (ret, s)
             else rbind (nth_chk (m_tracks s) (loc_track location)) (\<lambda>track.
                  let (success, track') =
                        add_branch (loc_position location)
                          \<lparr>br_track = size_t_pred (length (m_tracks s)), br_position = 0\<rparr> track;
                      s = s\<lparr>m_tracks := (m_tracks s)[loc_track location := track']\<rparr>
                  in if \<not> success then Inr (invalid_connection, s) else Inr (rail_success, s)))"

definition append_to_track ::
    "rail_connection_t \<Rightarrow> rail_storage_t \<Rightarrow> (rail_status_t \<times> rail_storage_t) result" where
  "append_to_track connection s =
     (if exists s (ep_id (current connection)) then Inr (rail_already_exists, s)
      else rbind (map_at (m_rail_lookup s) (ep_id (previous connection))) (\<lambda>location.
           rbind (nth_chk (m_tracks s) (loc_track location)) (\<lambda>track.
           let track = track_add (current connection) track;
               new_location = \<lparr>loc_track = loc_track location, loc_position = size_t_pred (track_size track)\<rparr>;
               s = s\<lparr>m_tracks := (m_tracks s)[loc_track location := track],
                     m_rail_lookup := map_emplace (ep_id (current connection)) new_location (m_rail_lookup s)\<rparr>
           in if connection_has_branch connection
              then create_branch new_location connection s
              else Inr (rail_success, s))))"

definition connect_tracks ::
    "rail_connection_t \<Rightarrow> rail_storage_t \<Rightarrow> (rail_status_t \<times> rail_storage_t) result" where
  "connect_tracks connection s =
     rbind (map_at (m_rail_lookup s) (ep_id (current connection))) (\<lambda>cur.
     rbind (map_at (m_rail_lookup s) (ep_id (previous connection))) (\<lambda>prev.
     if loc_track cur = loc_track prev
     then rbind (nth_chk (m_tracks s) (loc_track cur)) (\<lambda>track.
          let first = min (loc_position cur) (loc_position prev);
              last = max (loc_position cur) (loc_position prev)
          in if first \<noteq> 0 \<and> last \<noteq> size_t_pred (track_size track) then Inr (invalid_loop, s)
             else Inr (rail_success,
                    s\<lparr>m_tracks := (m_tracks s)[loc_track cur := set_track_connection (loc_track cur) track]\<rparr>))
     else rbind (nth_chk (m_tracks s) (loc_track prev)) (\<lambda>track.
          let track = set_track_connection (loc_track cur) track;
              (_, track) = add_branch (loc_position prev)
                             \<lparr>br_track = loc_track cur, br_position = loc_position cur\<rparr> track
          in Inr (rail_success, s\<lparr>m_tracks := (m_tracks s)[loc_track prev := track]\<rparr>))))"

definition get_next_rail :: "rail_storage_t \<Rightarrow> rail_id_t \<Rightarrow> rail_id_t option result" where
  "get_next_rail s current_rail =
     (case m_rail_lookup s current_rail of
        None \<Rightarrow> Inr None
      | Some location \<Rightarrow>
          rbind (nth_chk (m_tracks s) (loc_track location)) (\<lambda>track.
          if track_has track (loc_position location + 1)
          then rbind (track_get track (loc_position location + 1)) (\<lambda>r. Inr (Some (rail_id r)))
          else case get_track_connections track of
                 None \<Rightarrow> Inr None
               | Some connected_track_index \<Rightarrow>
                   rbind (nth_chk (m_tracks s) connected_track_index) (\<lambda>connected_track.
                   if connected_track_index = loc_track location
                   then if track_has connected_track 0
                        then rbind (track_get connected_track 0) (\<lambda>r. Inr (Some (rail_id r)))
                        else Inr None
                   else if track_has track (loc_position location)
                   then rbind (track_get track (loc_position location)) (\<lambda>rail.
                        if track_has connected_track (br_position (rail_branch rail))
                        then rbind (track_get connected_track (br_position (rail_branch rail)))
                               (\<lambda>r. Inr (Some (rail_id r)))
                        else Inr None)
                   else Inr None)))"

lemmas track_defs = track_add_def track_of_endpoint_def track_size_def track_has_def track_get_def
  add_branch_def set_track_connection_def get_track_connections_def

section \<open>The rail at a position\<close>

definition rail_at :: "track_t list \<Rightarrow> nat \<Rightarrow> nat \<Rightarrow> rail_t option" where
  "rail_at ts t p =
     (if t < length ts \<and> p < length (m_rails (ts ! t)) then Some (m_rails (ts ! t) ! p) else None)"

lemma rail_at_Nil [simp]: "rail_at [] t p = None"
  by (simp add: rail_at_def)

lemma rail_at_new_track:
  "rail_at (ts @ [track_of_endpoint e]) t p =
     (if t = length ts \<and> p = 0 then Some (new_rail e) else rail_at ts t p)"
  by (auto simp: rail_at_def track_defs nth_append)

lemma rail_at_add_rail:
  "t0 < length ts \<Longrightarrow> rail_at (ts[t0 := track_add e (ts ! t0)]) t p =
     (if t = t0 \<and> p = length (m_rails (ts ! t0)) then Some (new_rail e) else rail_at ts t p)"
  by (auto simp: rail_at_def track_defs nth_list_update nth_append)

lemma rail_at_set_connection:
  "t0 < length ts \<Longrightarrow> rail_at (ts[t0 := set_track_connection c (ts ! t0)]) t p = rail_at ts t p"
  by (auto simp: rail_at_def track_defs nth_list_update)

lemma rail_at_add_branch:
  "t0 < length ts \<Longrightarrow> p0 < length (m_rails (ts ! t0)) \<Longrightarrow>
   rail_at (ts[t0 := snd (add_branch p0 b (ts ! t0))]) t p =
     (if t = t0 \<and> p = p0 then map_option (\<lambda>r. r\<lparr>rail_branch := b\<rparr>) (rail_at ts t p) else rail_at ts t p)"
  by (auto simp: rail_at_def track_defs nth_list_update)

lemma rail_atD:
  assumes "rail_at ts t p = Some r"
  shows "t < length ts" and "p < length (m_rails (ts ! t))" and "m_rails (ts ! t) ! p = r"
  using assms by (simp_all add: rail_at_def split: if_splits)

section \<open>The invariant\<close>

definition lookup_ok :: "rail_storage_t \<Rightarrow> bool" where
  "lookup_ok s \<longleftrightarrow> (\<forall>i loc. m_rail_lookup s i = Some loc \<longleftrightarrow>
     (\<exists>r. rail_at (m_tracks s) (loc_track loc) (loc_position loc) = Some r \<and> rail_id r = i))"

definition tracks_ok :: "track_t list \<Rightarrow> bool" where
  "tracks_ok ts \<longleftrightarrow> (\<forall>t < length ts. m_rails (ts ! t) \<noteq> [] \<and>
     (\<forall>c. m_track_connection (ts ! t) = Some c \<longrightarrow> c < length ts))"

definition branches_ok :: "track_t list \<Rightarrow> bool" where
  "branches_ok ts \<longleftrightarrow> (\<forall>t p r. rail_at ts t p = Some r \<longrightarrow>
     rail_at ts (br_track (rail_branch r)) (br_position (rail_branch r)) \<noteq> None)"

definition storage_ok :: "rail_storage_t \<Rightarrow> bool" where
  "storage_ok s \<longleftrightarrow> lookup_ok s \<and> tracks_ok (m_tracks s) \<and> branches_ok (m_tracks s)"

lemma storage_okD:
  assumes "storage_ok s"
  shows "lookup_ok s" and "tracks_ok (m_tracks s)" and "branches_ok (m_tracks s)"
  using assms by (simp_all add: storage_ok_def)

lemma lookup_okD:
  assumes "lookup_ok s" and "m_rail_lookup s i = Some loc"
  obtains r where "rail_at (m_tracks s) (loc_track loc) (loc_position loc) = Some r" and "rail_id r = i"
  using assms unfolding lookup_ok_def by blast

lemma lookup_of_rail_at:
  assumes "lookup_ok s" and "rail_at (m_tracks s) t p = Some r"
  shows "m_rail_lookup s (rail_id r) = Some \<lparr>loc_track = t, loc_position = p\<rparr>"
  using assms unfolding lookup_ok_def by simp

lemma tracks_okD:
  assumes "tracks_ok ts" and "t < length ts"
  shows "m_rails (ts ! t) \<noteq> []"
    and "m_track_connection (ts ! t) = Some c \<Longrightarrow> c < length ts"
  using assms by (auto simp: tracks_ok_def)

lemma rail_at_0: "tracks_ok ts \<Longrightarrow> t < length ts \<Longrightarrow> rail_at ts t 0 \<noteq> None"
  by (simp add: rail_at_def tracks_okD)

subsection \<open>The four updates the operations are made of\<close>

definition put_track :: "rail_endpoint_t \<Rightarrow> rail_storage_t \<Rightarrow> rail_storage_t" where
  "put_track e s = s\<lparr>m_tracks := m_tracks s @ [track_of_endpoint e],
     m_rail_lookup := (m_rail_lookup s)(ep_id e \<mapsto> \<lparr>loc_track = length (m_tracks s), loc_position = 0\<rparr>)\<rparr>"

definition put_rail :: "nat \<Rightarrow> rail_endpoint_t \<Rightarrow> rail_storage_t \<Rightarrow> rail_storage_t" where
  "put_rail t e s = s\<lparr>m_tracks := (m_tracks s)[t := track_add e (m_tracks s ! t)],
     m_rail_lookup := (m_rail_lookup s)(ep_id e \<mapsto>
       \<lparr>loc_track = t, loc_position = length (m_rails (m_tracks s ! t))\<rparr>)\<rparr>"

definition put_branch :: "nat \<Rightarrow> nat \<Rightarrow> rail_branch_t \<Rightarrow> rail_storage_t \<Rightarrow> rail_storage_t" where
  "put_branch t p b s = s\<lparr>m_tracks := (m_tracks s)[t := snd (add_branch p b (m_tracks s ! t))]\<rparr>"

definition put_connection :: "nat \<Rightarrow> nat \<Rightarrow> rail_storage_t \<Rightarrow> rail_storage_t" where
  "put_connection t c s = s\<lparr>m_tracks := (m_tracks s)[t := set_track_connection c (m_tracks s ! t)]\<rparr>"

lemmas put_defs = put_track_def put_rail_def put_branch_def put_connection_def

lemma lookup_ok_fresh:
  assumes "lookup_ok s" and "m_rail_lookup s i = None" and "rail_at (m_tracks s) t p = Some r"
  shows "rail_id r \<noteq> i"
  using lookup_of_rail_at [OF assms(1,3)] assms(2) by auto

lemma lookup_ok_insert:
  assumes "lookup_ok s" and "m_rail_lookup s (rail_id r0) = None"
    and "rail_at (m_tracks s) t0 p0 = None"
    and "\<And>t p. rail_at ts t p = (if t = t0 \<and> p = p0 then Some r0 else rail_at (m_tracks s) t p)"
  shows "lookup_ok (s\<lparr>m_tracks := ts,
    m_rail_lookup := (m_rail_lookup s)(rail_id r0 \<mapsto> \<lparr>loc_track = t0, loc_position = p0\<rparr>)\<rparr>)"
  unfolding lookup_ok_def
proof (intro allI)
  fix i and loc :: location_t
  have old: "m_rail_lookup s i = Some loc \<longleftrightarrow>
      (\<exists>r. rail_at (m_tracks s) (loc_track loc) (loc_position loc) = Some r \<and> rail_id r = i)"
    using assms(1) by (simp add: lookup_ok_def)
  show "m_rail_lookup (s\<lparr>m_tracks := ts, m_rail_lookup := (m_rail_lookup s)(rail_id r0 \<mapsto> \<lparr>loc_track = t0, loc_position = p0\<rparr>)\<rparr>) i = Some loc \<longleftrightarrow>
      (\<exists>r. rail_at (m_tracks (s\<lparr>m_tracks := ts, m_rail_lookup := (m_rail_lookup s)(rail_id r0 \<mapsto> \<lparr>loc_track = t0, loc_position = p0\<rparr>)\<rparr>)) (loc_track loc) (loc_position loc) = Some r \<and> rail_id r = i)"
    using old assms(2-4) lookup_ok_fresh [OF assms(1,2)] by (cases loc) auto
qed

lemma storage_ok_put_track [inv_intros]:
  assumes "storage_ok s" and "m_rail_lookup s (ep_id e) = None"
  shows "storage_ok (put_track e s)"
proof -
  note ok = storage_okD [OF assms(1)]
  have out: "rail_at (m_tracks s) (length (m_tracks s)) 0 = None"
    by (simp add: rail_at_def)
  have "lookup_ok (put_track e s)"
    using lookup_ok_insert [OF ok(1), of "new_rail e", OF _ out] assms(2)
    by (simp add: put_track_def new_rail_def rail_at_new_track [unfolded new_rail_def])
  moreover have "tracks_ok (m_tracks (put_track e s))"
    using ok(2) by (auto simp: tracks_ok_def put_track_def track_defs nth_append less_Suc_eq)
  moreover have "branches_ok (m_tracks (put_track e s))"
    using ok(2,3) rail_at_0 [OF ok(2), of 0]
    by (auto simp: branches_ok_def put_track_def rail_at_new_track new_rail_def
        dest: rail_atD(1) split: if_splits)
  ultimately show ?thesis by (simp add: storage_ok_def)
qed

lemma storage_ok_put_rail [inv_intros]:
  assumes "storage_ok s" and "m_rail_lookup s (ep_id e) = None" and "t < length (m_tracks s)"
  shows "storage_ok (put_rail t e s)"
proof -
  note ok = storage_okD [OF assms(1)]
  have out: "rail_at (m_tracks s) t (length (m_rails (m_tracks s ! t))) = None"
    by (simp add: rail_at_def)
  have "lookup_ok (put_rail t e s)"
    using lookup_ok_insert [OF ok(1), of "new_rail e", OF _ out] assms(2,3)
    by (simp add: put_rail_def new_rail_def rail_at_add_rail [unfolded new_rail_def])
  moreover have "tracks_ok (m_tracks (put_rail t e s))"
    using ok(2) assms(3)
    by (auto simp: tracks_ok_def put_rail_def track_defs nth_list_update)
  moreover have "branches_ok (m_tracks (put_rail t e s))"
    using ok(3) rail_at_0 [OF ok(2), of 0, OF order_le_less_trans [OF le0 assms(3)]] assms(3)
    by (auto simp: branches_ok_def put_rail_def rail_at_add_rail new_rail_def split: if_splits)
  ultimately show ?thesis by (simp add: storage_ok_def)
qed

lemma lookup_ok_same_ids:
  assumes "lookup_ok s"
    and "\<And>t p. map_option rail_id (rail_at ts t p) = map_option rail_id (rail_at (m_tracks s) t p)"
  shows "lookup_ok (s\<lparr>m_tracks := ts\<rparr>)"
proof -
  have "(\<exists>r. rail_at ts t p = Some r \<and> rail_id r = i) \<longleftrightarrow>
      (\<exists>r. rail_at (m_tracks s) t p = Some r \<and> rail_id r = i)" for t p i
    using assms(2) [of t p] by (cases "rail_at ts t p"; cases "rail_at (m_tracks s) t p") auto
  with assms(1) show ?thesis by (simp add: lookup_ok_def)
qed

lemma storage_ok_put_branch [inv_intros]:
  assumes "storage_ok s" and "rail_at (m_tracks s) t p \<noteq> None"
    and "rail_at (m_tracks s) (br_track b) (br_position b) \<noteq> None"
  shows "storage_ok (put_branch t p b s)"
proof -
  note ok = storage_okD [OF assms(1)]
  from assms(2) have pos: "t < length (m_tracks s)" "p < length (m_rails (m_tracks s ! t))"
    by (auto simp: rail_at_def split: if_splits)
  note upd = rail_at_add_branch [OF pos]
  have "lookup_ok (put_branch t p b s)"
    unfolding put_branch_def
    by (rule lookup_ok_same_ids [OF ok(1)]) (simp add: upd option.map_comp o_def)
  moreover have "tracks_ok (m_tracks (put_branch t p b s))"
    using ok(2) pos(1) by (auto simp: tracks_ok_def put_branch_def track_defs nth_list_update)
  moreover have "branches_ok (m_tracks (put_branch t p b s))"
    using ok(3) assms(3) by (auto simp: branches_ok_def put_branch_def upd split: if_splits)
  ultimately show ?thesis by (simp add: storage_ok_def)
qed

lemma storage_ok_put_connection [inv_intros]:
  assumes "storage_ok s" and "t < length (m_tracks s)" and "c < length (m_tracks s)"
  shows "storage_ok (put_connection t c s)"
proof -
  note ok = storage_okD [OF assms(1)]
  note upd = rail_at_set_connection [OF assms(2)]
  have "lookup_ok (put_connection t c s)"
    unfolding put_connection_def by (rule lookup_ok_same_ids [OF ok(1)]) (simp add: upd)
  moreover have "tracks_ok (m_tracks (put_connection t c s))"
    using ok(2) assms(2,3)
    by (auto simp: tracks_ok_def put_connection_def track_defs nth_list_update)
  moreover have "branches_ok (m_tracks (put_connection t c s))"
    using ok(3) by (simp add: branches_ok_def put_connection_def upd)
  ultimately show ?thesis by (simp add: storage_ok_def)
qed

lemma storage_ok_init [inv_intros]: "storage_ok storage_init"
  by (simp add: storage_ok_def storage_init_def lookup_ok_def tracks_ok_def branches_ok_def)

subsection \<open>The operations under the invariant\<close>

lemma create_track_eq:
  "create_track e s =
     (if exists s (ep_id e) then (rail_already_exists, s) else (rail_success, put_track e s))"
  by (auto simp: create_track_def exists_def put_track_def Let_def)

lemma lookup_position:
  assumes "storage_ok s" and "m_rail_lookup s i = Some loc"
  shows "loc_track loc < length (m_tracks s)"
    and "loc_position loc < length (m_rails (m_tracks s ! loc_track loc))"
    and "rail_id (m_rails (m_tracks s ! loc_track loc) ! loc_position loc) = i"
  using lookup_okD [OF storage_okD(1) [OF assms(1)] assms(2)] rail_atD by metis+

lemma new_location_in_put_rail:
  assumes "t < length (m_tracks s)"
  shows "rail_at (m_tracks (put_rail t e s)) t (length (m_rails (m_tracks s ! t))) = Some (new_rail e)"
  using assms by (simp add: put_rail_def rail_at_add_rail)

text \<open>The rail is appended first; the branch is looked at afterwards.\<close>

definition append_with_branch :: "nat \<Rightarrow> rail_connection_t \<Rightarrow> rail_storage_t \<Rightarrow> rail_status_t \<times> rail_storage_t" where
  "append_with_branch t c s =
     (let s' = put_rail t (current c) s
      in case branch c of
           None \<Rightarrow> (rail_success, s')
         | Some b \<Rightarrow>
             if \<not> is_junction (current c) then (invalid_connection, s')
             else if exists s' (ep_id b) then (rail_already_exists, s')
             else (rail_success,
               put_branch t (length (m_rails (m_tracks s ! t)))
                 \<lparr>br_track = length (m_tracks s), br_position = 0\<rparr> (put_track b s')))"

lemma append_to_track_eq:
  assumes "storage_ok s" and "m_rail_lookup s (ep_id (previous c)) = Some loc"
  shows "append_to_track c s =
    Inr (if exists s (ep_id (current c)) then (rail_already_exists, s)
         else append_with_branch (loc_track loc) c s)"
proof (cases "exists s (ep_id (current c))")
  case False
  note pos = lookup_position [OF assms]
  from False have "m_rail_lookup s (ep_id (current c)) = None" by (simp add: exists_def)
  then have step: "s\<lparr>m_tracks := (m_tracks s)[loc_track loc := track_add (current c) (m_tracks s ! loc_track loc)],
      m_rail_lookup := map_emplace (ep_id (current c))
        \<lparr>loc_track = loc_track loc,
         loc_position = size_t_pred (track_size (track_add (current c) (m_tracks s ! loc_track loc)))\<rparr>
        (m_rail_lookup s)\<rparr> = put_rail (loc_track loc) (current c) s"
    by (simp add: put_rail_def track_defs)
  show ?thesis
    using False assms(2) pos(1) step
    by (auto simp: append_to_track_def append_with_branch_def connection_has_branch_def create_branch_def
        create_track_eq Let_def track_defs put_defs nth_append split: option.split)
qed (simp add: append_to_track_def)

lemma connect_tracks_eq:
  assumes "storage_ok s" and "m_rail_lookup s (ep_id (current c)) = Some cur"
    and "m_rail_lookup s (ep_id (previous c)) = Some prev"
  shows "connect_tracks c s = Inr
    (if loc_track cur = loc_track prev
     then if min (loc_position cur) (loc_position prev) \<noteq> 0 \<and>
             max (loc_position cur) (loc_position prev) \<noteq> length (m_rails (m_tracks s ! loc_track cur)) - 1
          then (invalid_loop, s)
          else (rail_success, put_connection (loc_track cur) (loc_track cur) s)
     else (rail_success,
       put_branch (loc_track prev) (loc_position prev)
         \<lparr>br_track = loc_track cur, br_position = loc_position cur\<rparr>
         (put_connection (loc_track prev) (loc_track cur) s)))"
proof -
  note cur = lookup_position [OF assms(1,2)] and prev = lookup_position [OF assms(1,3)]
  have "size_t_pred (length (m_rails (m_tracks s ! loc_track cur))) = length (m_rails (m_tracks s ! loc_track cur)) - 1"
    using cur(2) by (intro size_t_pred_pos) linarith
  with assms(2,3) cur(1,2) prev(1,2) show ?thesis
    by (auto simp: connect_tracks_def put_defs Let_def track_defs)
qed

lemma storage_ok_create_track [inv_intros]: "storage_ok s \<Longrightarrow> storage_ok (snd (create_track e s))"
  by (simp add: create_track_eq exists_def storage_ok_put_track)

lemma storage_ok_append_with_branch [inv_intros]:
  assumes "storage_ok s" and "t < length (m_tracks s)" and "m_rail_lookup s (ep_id (current c)) = None"
  shows "storage_ok (snd (append_with_branch t c s))"
proof -
  let ?s = "put_rail t (current c) s"
  have ok: "storage_ok ?s" using assms by (intro storage_ok_put_rail)
  have "storage_ok (put_branch t (length (m_rails (m_tracks s ! t)))
      \<lparr>br_track = length (m_tracks s), br_position = 0\<rparr> (put_track b ?s))"
    if "m_rail_lookup ?s (ep_id b) = None" for b
  proof (rule storage_ok_put_branch)
    show "storage_ok (put_track b ?s)" using ok that by (rule storage_ok_put_track)
    show "rail_at (m_tracks (put_track b ?s)) t (length (m_rails (m_tracks s ! t))) \<noteq> None"
      using new_location_in_put_rail [OF assms(2), of "current c"]
      by (simp add: put_track_def rail_at_new_track)
    have "length (m_tracks ?s) = length (m_tracks s)" by (simp add: put_rail_def)
    then show "rail_at (m_tracks (put_track b ?s)) (br_track \<lparr>br_track = length (m_tracks s), br_position = 0\<rparr>)
        (br_position \<lparr>br_track = length (m_tracks s), br_position = 0\<rparr>) \<noteq> None"
      by (simp add: put_track_def rail_at_new_track)
  qed
  with ok show ?thesis
    by (auto simp: append_with_branch_def Let_def exists_def split: option.split)
qed

lemma storage_ok_connect [inv_intros]:
  assumes "storage_ok s" and "m_rail_lookup s (ep_id (current c)) = Some cur"
    and "m_rail_lookup s (ep_id (previous c)) = Some prev"
    and "connect_tracks c s = Inr (st, s')"
  shows "storage_ok s'"
proof -
  note cur = lookup_position [OF assms(1,2)] and prev = lookup_position [OF assms(1,3)]
  have conn: "storage_ok (put_connection t (loc_track cur) s)" if "t < length (m_tracks s)" for t
    using assms(1) that cur(1) by (rule storage_ok_put_connection)
  have same: "rail_at (m_tracks (put_connection t (loc_track cur) s)) t' p = rail_at (m_tracks s) t' p"
    if "t < length (m_tracks s)" for t t' p
    using that by (simp add: put_connection_def rail_at_set_connection)
  have "storage_ok (put_branch (loc_track prev) (loc_position prev)
      \<lparr>br_track = loc_track cur, br_position = loc_position cur\<rparr>
      (put_connection (loc_track prev) (loc_track cur) s))"
    using prev cur by (intro storage_ok_put_branch conn) (simp_all add: same, simp_all add: rail_at_def)
  with assms conn [OF cur(1)] show ?thesis
    by (auto simp: connect_tracks_eq split: if_splits)
qed

section \<open>Lookups under the invariant\<close>

text \<open>Successor of the rail at a position, as a function of the tracks alone.\<close>

definition next_at :: "track_t list \<Rightarrow> nat \<Rightarrow> nat \<Rightarrow> rail_id_t option" where
  "next_at ts t p = map_option rail_id
     (if p + 1 < length (m_rails (ts ! t)) then rail_at ts t (p + 1)
      else case m_track_connection (ts ! t) of
             None \<Rightarrow> None
           | Some c \<Rightarrow> if c = t then rail_at ts t 0
                        else rail_at ts c (br_position (rail_branch (m_rails (ts ! t) ! p))))"

lemma get_next_rail_eq:
  assumes "storage_ok s" and "m_rail_lookup s i = Some loc"
  shows "get_next_rail s i = Inr (next_at (m_tracks s) (loc_track loc) (loc_position loc))"
proof -
  note pos = lookup_position [OF assms]
  have conn: "c < length (m_tracks s)" if "m_track_connection (m_tracks s ! loc_track loc) = Some c" for c
    using tracks_okD(2) [OF storage_okD(2) [OF assms(1)] pos(1) that] .
  show ?thesis
    using assms(2) pos(1,2) conn
    by (auto simp: get_next_rail_def next_at_def track_defs rail_at_def split: option.split)
qed

lemma get_next_rail_unknown: "m_rail_lookup s i = None \<Longrightarrow> get_next_rail s i = Inr None"
  by (simp add: get_next_rail_def)

lemma next_at_exists:
  assumes "storage_ok s" and "next_at (m_tracks s) t p = Some j"
  shows "exists s j"
proof -
  from assms(2) obtain t' p' r where "rail_at (m_tracks s) t' p' = Some r" and "rail_id r = j"
    by (auto simp: next_at_def split: if_splits option.splits)
  then show ?thesis
    using lookup_of_rail_at [OF storage_okD(1) [OF assms(1)]] by (auto simp: exists_def)
qed

lemma get_next_rail_total:
  assumes "storage_ok s"
  obtains r where "get_next_rail s i = Inr r" and "\<And>j. r = Some j \<Longrightarrow> exists s j"
  using get_next_rail_eq [OF assms] next_at_exists [OF assms] get_next_rail_unknown
  by (metis not_None_eq option.discI)

lemma get_from_id_eq:
  assumes "storage_ok s" and "exists s i"
  obtains r t p where "get_from_id s i = Inr r" and "rail_at (m_tracks s) t p = Some r" and "rail_id r = i"
proof -
  from assms(2) obtain loc where loc: "m_rail_lookup s i = Some loc" by (auto simp: exists_def)
  note pos = lookup_position [OF assms(1) loc]
  show ?thesis
    by (rule that [of "m_rails (m_tracks s ! loc_track loc) ! loc_position loc" "loc_track loc" "loc_position loc"])
      (use loc pos in \<open>simp_all add: get_from_id_def track_defs rail_at_def\<close>)
qed

lemma get_from_branch_eq:
  assumes "storage_ok s" and "rail_at (m_tracks s) t p = Some r"
  obtains r' where "get_from_branch s (rail_branch r) = Inr r'" and "exists s (rail_id r')"
proof -
  from storage_okD(3) [OF assms(1)] assms(2) obtain r' where
    r': "rail_at (m_tracks s) (br_track (rail_branch r)) (br_position (rail_branch r)) = Some r'"
    unfolding branches_ok_def by blast
  then have "get_from_branch s (rail_branch r) = Inr r'"
    using rail_atD [OF r'] by (simp add: get_from_branch_def track_defs)
  moreover have "exists s (rail_id r')"
    using lookup_of_rail_at [OF storage_okD(1) [OF assms(1)] r'] by (simp add: exists_def)
  ultimately show ?thesis by (rule that)
qed

end
