(* ===== verification/Rail_Pathing.thy ===== *)
theory Rail_Pathing
  imports Rail_Storage
begin

text \<open>
  The path finder of \<open>host/rail_network/rail_pathing.hpp\<close>: a breadth-first search over the
  connections of the rail storage. The three containers of the search are the fields of
  \<open>search\<close>; the \<open>while\<close> loop is \<open>search_loop\<close>, whose termination is proved from the finite
  number of rails not yet visited; the loop of \<open>reconstruct\<close> follows the parents and has
  no bound of its own, so it is a partial function with \<open>None\<close> for divergence.

  The result is a vector of ids from the end back to the start. The locale \<open>successor_graph\<close>
  states what the search relies on: that in a well-formed store the connections of a vertex
  can be computed and are vertices.
\<close>

section \<open>The search\<close>

definition get_connections :: "rail_storage_t \<Rightarrow> rail_id_t \<Rightarrow> rail_id_t option list result" where
  "get_connections s cur =
     rbind (get_next_rail s cur) (\<lambda>next_rail_opt.
     case next_rail_opt of
       None \<Rightarrow> Inr [None, None]
     | Some next_rail \<Rightarrow>
         rbind (get_from_id s next_rail) (\<lambda>rail_obj.
         if rail_has_branch rail_obj
         then rbind (get_from_branch s (rail_branch rail_obj)) (\<lambda>branch_rail_obj.
              Inr [Some next_rail, Some (rail_id branch_rail_obj)])
         else Inr [Some next_rail, None]))"

partial_function (option) reconstruct_loop ::
    "rail_id_t \<Rightarrow> (rail_id_t \<rightharpoonup> rail_id_t) \<Rightarrow> rail_id_t \<Rightarrow> rail_id_t list \<Rightarrow> rail_id_t list result option" where
  "reconstruct_loop start parent cur path =
     (if cur \<noteq> start
      then case parent cur of
             None \<Rightarrow> Some (Inl Out_of_range)
           | Some next \<Rightarrow> reconstruct_loop start parent next (path @ [cur])
      else Some (Inr (path @ [start])))"

definition reconstruct ::
    "rail_id_t \<Rightarrow> rail_id_t \<Rightarrow> (rail_id_t \<rightharpoonup> rail_id_t) \<Rightarrow> rail_id_t list result option" where
  "reconstruct start end_rail parent = reconstruct_loop start parent end_rail []"

record search =
  open_queue :: "rail_id_t list"
  visited :: "rail_id_t set"
  parents :: "rail_id_t \<rightharpoonup> rail_id_t"

text \<open>The inner loop over the connections of the current rail.\<close>

fun evaluate :: "rail_id_t \<Rightarrow> rail_id_t option list \<Rightarrow> search \<Rightarrow> search" where
  "evaluate cur [] st = st"
| "evaluate cur (None # cs) st = evaluate cur cs st"
| "evaluate cur (Some rail # cs) st =
     (if rail \<in> visited st then evaluate cur cs st
      else evaluate cur cs
             (st\<lparr>visited := insert rail (visited st),
                parents := map_emplace rail cur (parents st),
                open_queue := open_queue st @ [rail]\<rparr>))"

lemma evaluate_visited_mono: "visited st \<subseteq> visited (evaluate cur cs st)"
  by (induction cur cs st rule: evaluate.induct) (auto split: if_splits)

lemma evaluate_queue:
  "visited (evaluate cur cs st) = visited st \<Longrightarrow> open_queue (evaluate cur cs st) = open_queue st"
proof (induction cur cs st rule: evaluate.induct)
  case (3 cur rail cs st)
  show ?case
  proof (cases "rail \<in> visited st")
    case False
    have "rail \<in> visited (evaluate cur (Some rail # cs) st)"
      using False evaluate_visited_mono by fastforce
    with False 3 show ?thesis by simp
  qed (use 3 in simp)
qed simp_all

lemma evaluate_queue_mono: "set (open_queue st) \<subseteq> set (open_queue (evaluate cur cs st))"
  by (induction cur cs st rule: evaluate.induct) (auto split: if_splits)

lemma evaluate_new_in_queue:
  "v \<in> visited (evaluate cur cs st) \<Longrightarrow> v \<in> visited st \<or> v \<in> set (open_queue (evaluate cur cs st))"
proof (induction cur cs st rule: evaluate.induct)
  case (3 cur rail cs st)
  then show ?case
    using evaluate_queue_mono [of "st\<lparr>visited := insert rail (visited st),
      parents := map_emplace rail cur (parents st), open_queue := open_queue st @ [rail]\<rparr>" cur cs]
    by (auto split: if_splits)
qed simp_all

function search_loop ::
    "rail_storage_t \<Rightarrow> rail_id_t \<Rightarrow> rail_id_t \<Rightarrow> search \<Rightarrow> rail_id_t list result option" where
  "search_loop s start end_rail st =
     (case open_queue st of
        [] \<Rightarrow> Some (Inr [])
      | cur # rest \<Rightarrow>
          if cur = end_rail then reconstruct start end_rail (parents st)
          else case get_connections s cur of
                 Inl e \<Rightarrow> Some (Inl e)
               | Inr cs \<Rightarrow> search_loop s start end_rail (evaluate cur cs (st\<lparr>open_queue := rest\<rparr>)))"
  by pat_completeness auto
termination
proof (relation "measures [\<lambda>(s, start, end_rail, st). card (- visited st),
    \<lambda>(s, start, end_rail, st). length (open_queue st)]", goal_cases)
  case 1
  then show ?case by simp
next
  case (2 s start end_rail st cur rest cs)
  let ?st = "st\<lparr>open_queue := rest\<rparr>"
  have mono: "visited st \<subseteq> visited (evaluate cur cs ?st)"
    using evaluate_visited_mono [of ?st] by simp
  show ?case
  proof (cases "visited (evaluate cur cs ?st) = visited st")
    case True
    then have "open_queue (evaluate cur cs ?st) = rest"
      using evaluate_queue [of cur cs ?st] by simp
    with True 2 show ?thesis by simp
  next
    case False
    with mono have "- visited (evaluate cur cs ?st) \<subset> - visited st" by blast
    then have "card (- visited (evaluate cur cs ?st)) < card (- visited st)"
      by (intro psubset_card_mono) simp_all
    then show ?thesis by simp
  qed
qed

declare search_loop.simps [simp del]

definition generate_path ::
    "rail_storage_t \<Rightarrow> rail_id_t \<Rightarrow> rail_id_t \<Rightarrow> rail_id_t list result option" where
  "generate_path s start end_rail =
     (if \<not> exists s start \<or> \<not> exists s end_rail then Some (Inr [])
      else search_loop s start end_rail
             \<lparr>open_queue = [start], visited = {start}, parents = Map.empty\<rparr>)"

section \<open>Paths\<close>

text \<open>
  A path in the order of the result: the first element is the end, the last one the
  start, and each element is a connection of the element after it.
\<close>

definition path_back :: "('v \<Rightarrow> 'v \<Rightarrow> bool) \<Rightarrow> 'v \<Rightarrow> 'v \<Rightarrow> 'v list \<Rightarrow> bool" where
  "path_back E a b p \<longleftrightarrow> p \<noteq> [] \<and> hd p = b \<and> last p = a \<and> successively (\<lambda>x y. E y x) p"

lemma path_back_single [simp]: "path_back E a b [x] \<longleftrightarrow> x = a \<and> x = b"
  by (auto simp: path_back_def)

lemma path_back_Cons:
  "p \<noteq> [] \<Longrightarrow> path_back E a b (x # p) \<longleftrightarrow> x = b \<and> E (hd p) b \<and> path_back E a (hd p) p"
  by (cases p) (auto simp: path_back_def)

definition rail_edge :: "rail_storage_t \<Rightarrow> rail_id_t \<Rightarrow> rail_id_t \<Rightarrow> bool" where
  "rail_edge s u v \<longleftrightarrow> (case get_connections s u of Inl e \<Rightarrow> False | Inr cs \<Rightarrow> Some v \<in> set cs)"

section \<open>The invariant of the search\<close>

text \<open>
  \<open>d\<close> is the depth at which a rail was visited. \<open>tree_inv\<close> is about the parents: every
  visited rail but the start has a visited parent one level up. \<open>queue_inv\<close> is about the queue:
  it is sorted by depth, and no visited rail is more than one level below a rail in the queue.
  \<open>closed_inv\<close> says that the connections of the rails in a set \<open>C\<close> have been visited.
\<close>

definition tree_inv :: "(rail_id_t \<Rightarrow> rail_id_t \<Rightarrow> bool) \<Rightarrow> rail_id_t \<Rightarrow> (rail_id_t \<Rightarrow> nat) \<Rightarrow> search \<Rightarrow> bool" where
  "tree_inv E start d st \<longleftrightarrow>
     start \<in> visited st \<and> d start = 0 \<and> set (open_queue st) \<subseteq> visited st \<and>
     (\<forall>v. v \<notin> visited st \<longrightarrow> parents st v = None) \<and>
     (\<forall>v \<in> visited st. v \<noteq> start \<longrightarrow>
        (\<exists>u. parents st v = Some u \<and> u \<in> visited st \<and> E u v \<and> d v = Suc (d u)))"

definition queue_inv :: "(rail_id_t \<Rightarrow> nat) \<Rightarrow> search \<Rightarrow> bool" where
  "queue_inv d st \<longleftrightarrow> sorted (map d (open_queue st)) \<and>
     (\<forall>q \<in> set (open_queue st). \<forall>v \<in> visited st. d v \<le> Suc (d q))"

definition closed_inv :: "(rail_id_t \<Rightarrow> rail_id_t \<Rightarrow> bool) \<Rightarrow> (rail_id_t \<Rightarrow> nat) \<Rightarrow> rail_id_t set \<Rightarrow> search \<Rightarrow> bool" where
  "closed_inv E d C st \<longleftrightarrow> (\<forall>u \<in> C. \<forall>w. E u w \<longrightarrow> w \<in> visited st \<and> d w \<le> Suc (d u))"

text \<open>While the connections of \<open>cur\<close> are evaluated.\<close>

definition at_level :: "rail_id_t \<Rightarrow> (rail_id_t \<Rightarrow> nat) \<Rightarrow> search \<Rightarrow> bool" where
  "at_level cur d st \<longleftrightarrow> cur \<in> visited st \<and> (\<forall>q \<in> set (open_queue st). d cur \<le> d q) \<and>
     (\<forall>v \<in> visited st. d v \<le> Suc (d cur))"

definition visit :: "rail_id_t \<Rightarrow> rail_id_t \<Rightarrow> search \<Rightarrow> search" where
  "visit cur rail st = st\<lparr>visited := insert rail (visited st), parents := map_emplace rail cur (parents st),
     open_queue := open_queue st @ [rail]\<rparr>"

lemma visit_simps [simp]:
  "visited (visit cur rail st) = insert rail (visited st)"
  "open_queue (visit cur rail st) = open_queue st @ [rail]"
  by (simp_all add: visit_def)

lemma tree_inv_visit:
  assumes "tree_inv E start d st" and "cur \<in> visited st" and "E cur rail" and "rail \<notin> visited st"
  shows "tree_inv E start (d(rail := Suc (d cur))) (visit cur rail st)"
proof -
  have par: "parents (visit cur rail st) = (parents st)(rail \<mapsto> cur)"
    using assms(1,4) by (simp add: visit_def tree_inv_def)
  have "\<exists>u. parents (visit cur rail st) v = Some u \<and> u \<in> visited (visit cur rail st) \<and> E u v \<and>
      (d(rail := Suc (d cur))) v = Suc ((d(rail := Suc (d cur))) u)"
    if "v \<in> visited (visit cur rail st)" and "v \<noteq> start" for v
  proof (cases "v = rail")
    case True
    with assms(2-4) show ?thesis by (auto simp: par)
  next
    case False
    with that assms(1) obtain u where "parents st v = Some u" "u \<in> visited st" "E u v" "d v = Suc (d u)"
      by (auto simp: tree_inv_def)
    with False assms(4) show ?thesis by (auto simp: par)
  qed
  with assms(1,4) show ?thesis
    unfolding tree_inv_def [of _ _ "d(rail := Suc (d cur))"] by (auto simp: tree_inv_def par)
qed

lemma queue_inv_visit:
  assumes "queue_inv d st" and "at_level cur d st" and "rail \<notin> visited st" and "set (open_queue st) \<subseteq> visited st"
  shows "queue_inv (d(rail := Suc (d cur))) (visit cur rail st)"
proof -
  let ?d = "d(rail := Suc (d cur))"
  have "map ?d (open_queue st) = map d (open_queue st)"
    using assms(3,4) by auto
  then have "sorted (map ?d (open_queue (visit cur rail st)))"
    using assms(1,2,4)
    by (auto simp: queue_inv_def at_level_def sorted_append simp del: map_eq_conv fun_upd_apply)
      (use assms(3) in \<open>auto simp: subset_iff\<close>)?
  moreover have "?d v \<le> Suc (?d q)"
    if "q \<in> set (open_queue (visit cur rail st))" and "v \<in> visited (visit cur rail st)" for q v
  proof (cases "q = rail")
    case True
    with that(2) assms(2) show ?thesis by (auto simp: at_level_def le_SucI)
  next
    case False
    with that(1) have "q \<in> set (open_queue st)" by simp
    with False that(2) assms(1,2) show ?thesis by (auto simp: queue_inv_def at_level_def)
  qed
  ultimately show ?thesis by (simp add: queue_inv_def)
qed

lemma at_level_visit:
  "at_level cur d st \<Longrightarrow> rail \<notin> visited st \<Longrightarrow> at_level cur (d(rail := Suc (d cur))) (visit cur rail st)"
  by (auto simp: at_level_def)

lemma evaluate_inv:
  assumes "tree_inv E start d st" and "queue_inv d st" and "at_level cur d st"
    and "\<And>w. Some w \<in> set cs \<Longrightarrow> E cur w"
  shows "\<exists>d'. tree_inv E start d' (evaluate cur cs st) \<and> queue_inv d' (evaluate cur cs st) \<and>
    at_level cur d' (evaluate cur cs st) \<and> (\<forall>v \<in> visited st. d' v = d v) \<and>
    (\<forall>w. Some w \<in> set cs \<longrightarrow> w \<in> visited (evaluate cur cs st))"
  using assms
proof (induction cur cs st arbitrary: d rule: evaluate.induct)
  case (3 cur rail cs st)
  show ?case
  proof (cases "rail \<in> visited st")
    case True
    have "\<exists>d'. tree_inv E start d' (evaluate cur cs st) \<and> queue_inv d' (evaluate cur cs st) \<and>
      at_level cur d' (evaluate cur cs st) \<and> (\<forall>v \<in> visited st. d' v = d v) \<and>
      (\<forall>w. Some w \<in> set cs \<longrightarrow> w \<in> visited (evaluate cur cs st))"
      using 3(3-6) by (intro 3(1) [OF True]) auto
    with True evaluate_visited_mono [of st cur cs] show ?thesis by auto
  next
    case False
    let ?d = "d(rail := Suc (d cur))"
    have "cur \<in> visited st" using 3(5) by (simp add: at_level_def)
    moreover have "set (open_queue st) \<subseteq> visited st" using 3(3) by (simp add: tree_inv_def)
    ultimately have "\<exists>d'. tree_inv E start d' (evaluate cur cs (visit cur rail st)) \<and>
      queue_inv d' (evaluate cur cs (visit cur rail st)) \<and> at_level cur d' (evaluate cur cs (visit cur rail st)) \<and>
      (\<forall>v \<in> visited (visit cur rail st). d' v = ?d v) \<and>
      (\<forall>w. Some w \<in> set cs \<longrightarrow> w \<in> visited (evaluate cur cs (visit cur rail st)))"
      using 3(3-6) False unfolding visit_def
      by (intro 3(2) [OF False] tree_inv_visit [unfolded visit_def] queue_inv_visit [unfolded visit_def]
          at_level_visit [unfolded visit_def]) auto
    moreover have "evaluate cur (Some rail # cs) st = evaluate cur cs (visit cur rail st)"
      using False by (simp add: visit_def)
    moreover have "rail \<in> visited (evaluate cur cs (visit cur rail st))"
      using evaluate_visited_mono [of "visit cur rail st" cur cs] by auto
    ultimately show ?thesis using False by (auto simp del: evaluate.simps)
  qed
qed auto

section \<open>Reconstruction of the path\<close>

lemma reconstruct_loop_ok:
  assumes "tree_inv E start d st" and "v \<in> visited st"
  shows "\<exists>p. reconstruct_loop start (parents st) v acc = Some (Inr (acc @ p)) \<and>
    path_back E start v p \<and> length p = Suc (d v)"
  using assms(2)
proof (induction "d v" arbitrary: v acc rule: less_induct)
  case less
  show ?case
  proof (cases "v = start")
    case True
    with assms(1) show ?thesis
      by (intro exI [of _ "[start]"]) (simp add: reconstruct_loop.simps tree_inv_def)
  next
    case False
    with less.prems assms(1) obtain u where
      u: "parents st v = Some u" "u \<in> visited st" "E u v" "d v = Suc (d u)"
      by (auto simp: tree_inv_def)
    then obtain p where p: "reconstruct_loop start (parents st) u (acc @ [v]) = Some (Inr ((acc @ [v]) @ p))"
      "path_back E start u p" "length p = Suc (d u)"
      using less.hyps [of u "acc @ [v]"] by auto
    have "path_back E start v (v # p)"
      using p(2) u(3) by (subst path_back_Cons) (auto simp: path_back_def)
    with False u p show ?thesis
      by (intro exI [of _ "v # p"]) (simp add: reconstruct_loop.simps [of start "parents st" v])
  qed
qed

section \<open>Every path is covered by the closed rails and the queue\<close>

lemma queue_min: "queue_inv d st \<Longrightarrow> open_queue st = cur # rest \<Longrightarrow> q \<in> set (open_queue st) \<Longrightarrow> d cur \<le> d q"
  by (auto simp: queue_inv_def)

lemma short_path_closed:
  assumes "tree_inv E start d st" and "queue_inv d st"
    and "closed_inv E d (visited st - set (open_queue st)) st"
    and "path_back E start v p"
    and "\<And>q. q \<in> set (open_queue st) \<Longrightarrow> length p \<le> d q"
  shows "v \<in> visited st - set (open_queue st) \<and> Suc (d v) \<le> length p"
  using assms(4,5)
proof (induction p arbitrary: v)
  case Nil
  then show ?case by (simp add: path_back_def)
next
  case (Cons x p)
  show ?case
  proof (cases "p = []")
    case True
    with Cons.prems assms(1) show ?thesis by (fastforce simp: tree_inv_def)
  next
    case False
    with Cons.prems have v: "E (hd p) v" "path_back E start (hd p) p"
      by (simp_all add: path_back_Cons)
    have "hd p \<in> visited st - set (open_queue st) \<and> Suc (d (hd p)) \<le> length p"
      using Cons.prems(2) by (intro Cons.IH v(2)) fastforce
    with v(1) assms(3) have "v \<in> visited st" "d v \<le> length p"
      by (fastforce simp: closed_inv_def)+
    with Cons.prems(2) show ?thesis by fastforce
  qed
qed

section \<open>The search loop\<close>

text \<open>What the search needs from the store it runs on.\<close>

locale successor_graph =
  fixes ok :: "'s \<Rightarrow> bool"
    and vertex :: "'s \<Rightarrow> rail_id_t \<Rightarrow> bool"
    and connections :: "'s \<Rightarrow> rail_id_t \<Rightarrow> rail_id_t option list result"
  assumes connections_total: "ok s \<Longrightarrow> vertex s v \<Longrightarrow> \<exists>cs. connections s v = Inr cs"
    and connections_vertex: "ok s \<Longrightarrow> connections s v = Inr cs \<Longrightarrow> Some w \<in> set cs \<Longrightarrow> vertex s w"
begin

definition edge :: "'s \<Rightarrow> rail_id_t \<Rightarrow> rail_id_t \<Rightarrow> bool" where
  "edge s u v \<longleftrightarrow> (case connections s u of Inl e \<Rightarrow> False | Inr cs \<Rightarrow> Some v \<in> set cs)"

definition loop_inv :: "'s \<Rightarrow> rail_id_t \<Rightarrow> rail_id_t \<Rightarrow> (rail_id_t \<Rightarrow> nat) \<Rightarrow> search \<Rightarrow> bool" where
  "loop_inv s start end_rail d st \<longleftrightarrow>
     tree_inv (edge s) start d st \<and> queue_inv d st \<and>
     closed_inv (edge s) d (visited st - set (open_queue st)) st \<and>
     end_rail \<notin> visited st - set (open_queue st) \<and> (\<forall>v \<in> visited st. vertex s v)"

lemma evaluate_vertices:
  "(\<forall>v \<in> visited st. vertex s v) \<Longrightarrow> (\<And>w. Some w \<in> set cs \<Longrightarrow> vertex s w) \<Longrightarrow>
   \<forall>v \<in> visited (evaluate cur cs st). vertex s v"
  by (induction cur cs st rule: evaluate.induct) auto

lemma loop_inv_init:
  "vertex s start \<Longrightarrow> loop_inv s start end_rail (\<lambda>_. 0)
     \<lparr>open_queue = [start], visited = {start}, parents = Map.empty\<rparr>"
  by (auto simp: loop_inv_def tree_inv_def queue_inv_def closed_inv_def)

text \<open>One iteration of the loop.\<close>

lemma loop_inv_step:
  assumes "ok s" and "loop_inv s start end_rail d st" and "open_queue st = cur # rest"
    and "cur \<noteq> end_rail" and "connections s cur = Inr cs"
  shows "\<exists>d'. loop_inv s start end_rail d' (evaluate cur cs (st\<lparr>open_queue := rest\<rparr>))"
proof -
  let ?st = "st\<lparr>open_queue := rest\<rparr>"
  let ?new = "evaluate cur cs ?st"
  have inv: "tree_inv (edge s) start d st" "queue_inv d st"
    "closed_inv (edge s) d (visited st - set (open_queue st)) st"
    "end_rail \<notin> visited st - set (open_queue st)" "\<forall>v \<in> visited st. vertex s v"
    using assms(2) by (simp_all add: loop_inv_def)
  have edges: "edge s cur w \<longleftrightarrow> Some w \<in> set cs" for w
    by (simp add: edge_def assms(5))
  have tree: "tree_inv (edge s) start d ?st"
    using inv(1) assms(3) by (auto simp: tree_inv_def)
  have queue: "queue_inv d ?st" and level: "at_level cur d ?st"
    using inv(1,2) assms(3) by (auto simp: queue_inv_def at_level_def tree_inv_def)
  from evaluate_inv [OF tree queue level, of cs] edges obtain d' where
    d': "tree_inv (edge s) start d' ?new" "queue_inv d' ?new" "at_level cur d' ?new"
      "\<forall>v \<in> visited st. d' v = d v" "\<forall>w. Some w \<in> set cs \<longrightarrow> w \<in> visited ?new"
    by auto
  have queue_set: "visited ?new - set (open_queue ?new) \<subseteq> insert cur (visited st - set (open_queue st))"
    using assms(3) evaluate_new_in_queue [of _ cur cs ?st] evaluate_queue_mono [of ?st cur cs] by auto
  have "closed_inv (edge s) d' (visited ?new - set (open_queue ?new)) ?new"
    unfolding closed_inv_def
  proof (intro ballI allI impI)
    fix u w assume u: "u \<in> visited ?new - set (open_queue ?new)" and e: "edge s u w"
    show "w \<in> visited ?new \<and> d' w \<le> Suc (d' u)"
    proof (cases "u = cur")
      case True
      with e d'(3,5) show ?thesis by (auto simp: edges at_level_def)
    next
      case False
      with u queue_set have old: "u \<in> visited st - set (open_queue st)" by blast
      with e inv(3) have "w \<in> visited st" "d w \<le> Suc (d u)" by (auto simp: closed_inv_def)
      with old d'(4) evaluate_visited_mono [of ?st cur cs] show ?thesis by auto
    qed
  qed
  moreover have "end_rail \<notin> visited ?new - set (open_queue ?new)"
    using queue_set inv(4) assms(4) by blast
  moreover have "\<forall>v \<in> visited ?new. vertex s v"
    using inv(5) connections_vertex [OF assms(1,5)] by (intro evaluate_vertices) auto
  ultimately show ?thesis using d'(1,2) unfolding loop_inv_def by blast
qed

text \<open>At the end of the queue no path exists; at the end rail the tree gives a shortest one.\<close>

lemma loop_inv_exhausted:
  assumes "loop_inv s start end_rail d st" and "open_queue st = []"
  shows "\<not> path_back (edge s) start end_rail p"
  using assms short_path_closed [of "edge s" start d st end_rail p] by (auto simp: loop_inv_def)

lemma loop_inv_found:
  assumes "loop_inv s start end_rail d st" and "open_queue st = end_rail # rest"
  shows "\<exists>p. reconstruct start end_rail (parents st) = Some (Inr p) \<and> path_back (edge s) start end_rail p \<and>
    (\<forall>q. path_back (edge s) start end_rail q \<longrightarrow> length p \<le> length q)"
proof -
  have inv: "tree_inv (edge s) start d st" "queue_inv d st"
    "closed_inv (edge s) d (visited st - set (open_queue st)) st"
    using assms(1) by (simp_all add: loop_inv_def)
  have "end_rail \<in> visited st" using inv(1) assms(2) by (auto simp: tree_inv_def)
  with reconstruct_loop_ok [OF inv(1), of end_rail "[]"] obtain p where
    p: "reconstruct start end_rail (parents st) = Some (Inr p)" "path_back (edge s) start end_rail p"
      "length p = Suc (d end_rail)"
    by (auto simp: reconstruct_def)
  have "length p \<le> length q" if q: "path_back (edge s) start end_rail q" for q
  proof (rule ccontr)
    assume "\<not> length p \<le> length q"
    then have "length q \<le> d end_rail" using p(3) by simp
    then have "\<And>u. u \<in> set (open_queue st) \<Longrightarrow> length q \<le> d u"
      using queue_min [OF inv(2) assms(2)] by fastforce
    from short_path_closed [OF inv q this] assms(2) show False by auto
  qed
  with p show ?thesis by blast
qed

end

section \<open>The storage is such a graph\<close>

lemma get_connections_ok:
  assumes "storage_ok s"
  shows "\<exists>cs. get_connections s v = Inr cs \<and> (\<forall>w. Some w \<in> set cs \<longrightarrow> exists s w)"
proof -
  obtain r where r: "get_next_rail s v = Inr r" "\<And>j. r = Some j \<Longrightarrow> exists s j"
    using get_next_rail_total [OF assms] by blast
  show ?thesis
  proof (cases r)
    case None
    with r(1) show ?thesis by (simp add: get_connections_def)
  next
    case (Some j)
    with r(2) have j: "exists s j" by simp
    obtain x t p where x: "get_from_id s j = Inr x" "rail_at (m_tracks s) t p = Some x" "rail_id x = j"
      using get_from_id_eq [OF assms j] .
    obtain y where "get_from_branch s (rail_branch x) = Inr y" "exists s (rail_id y)"
      using get_from_branch_eq [OF assms x(2)] .
    with r(1) Some x(1) j show ?thesis by (auto simp: get_connections_def)
  qed
qed

interpretation rails: successor_graph storage_ok exists get_connections
  rewrites "rails.edge = rail_edge"
proof -
  show graph: "successor_graph storage_ok exists get_connections"
  proof
    show "\<exists>cs. get_connections s v = Inr cs" if "storage_ok s" for s v
      using get_connections_ok [OF that] by blast
    show "exists s w" if "storage_ok s" "get_connections s v = Inr cs" "Some w \<in> set cs" for s v cs w
      using get_connections_ok [OF that(1), of v] that(2,3) by auto
  qed
  show "successor_graph.edge get_connections = rail_edge"
    by (simp add: fun_eq_iff rail_edge_def successor_graph.edge_def [OF graph])
qed

lemma search_loop_correct:
  assumes "storage_ok s" and "rails.loop_inv s start end_rail d st"
  shows "\<exists>p. search_loop s start end_rail st = Some (Inr p) \<and>
    (if p = [] then \<forall>q. \<not> path_back (rail_edge s) start end_rail q
     else path_back (rail_edge s) start end_rail p \<and>
          (\<forall>q. path_back (rail_edge s) start end_rail q \<longrightarrow> length p \<le> length q))"
  using assms
proof (induction s start end_rail st arbitrary: d rule: search_loop.induct)
  case (1 s start end_rail st)
  show ?case
  proof (cases "open_queue st")
    case Nil
    with 1(3) rails.loop_inv_exhausted show ?thesis by (subst search_loop.simps) auto
  next
    case (Cons cur rest)
    show ?thesis
    proof (cases "cur = end_rail")
      case True
      with Cons rails.loop_inv_found [OF 1(3)] obtain p where
        p: "reconstruct start end_rail (parents st) = Some (Inr p)" "path_back (rail_edge s) start end_rail p"
          "\<forall>q. path_back (rail_edge s) start end_rail q \<longrightarrow> length p \<le> length q"
        by auto
      then have "p \<noteq> []" by (auto simp: path_back_def)
      with p True Cons show ?thesis by (subst search_loop.simps) simp
    next
      case False
      have "exists s cur"
        using 1(3) Cons by (auto simp: rails.loop_inv_def tree_inv_def)
      with rails.connections_total [OF 1(2)] obtain cs where cs: "get_connections s cur = Inr cs"
        by blast
      from rails.loop_inv_step [OF 1(2,3) Cons False cs] obtain d' where
        "rails.loop_inv s start end_rail d' (evaluate cur cs (st\<lparr>open_queue := rest\<rparr>))" by blast
      from 1(1) [OF Cons False cs 1(2) this] show ?thesis
        unfolding search_loop.simps [of s start end_rail st] by (simp add: Cons False cs)
    qed
  qed
qed

text \<open>
  C2. Path finding is total and correct: on a well-formed storage \<open>generate_path\<close> always returns
  (no failed lookup, no endless loop). Between two stored rails it returns the empty vector exactly
  when the connections lead from the start to the end by no path, and otherwise a path from the end
  back to the start than which no path is shorter. For an unknown rail it returns the empty vector.
\<close>

theorem generate_path_shortest:
  assumes "storage_ok s"
  shows "\<exists>p. generate_path s start end_rail = Some (Inr p) \<and>
    (if exists s start \<and> exists s end_rail \<and> (\<exists>q. path_back (rail_edge s) start end_rail q)
     then path_back (rail_edge s) start end_rail p \<and>
          (\<forall>q. path_back (rail_edge s) start end_rail q \<longrightarrow> length p \<le> length q)
     else p = [])"
proof (cases "exists s start \<and> exists s end_rail")
  case True
  then show ?thesis
    using search_loop_correct [OF assms rails.loop_inv_init [of s start end_rail]]
    by (fastforce simp: generate_path_def path_back_def split: if_splits)
next
  case False
  then show ?thesis by (auto simp: generate_path_def)
qed

theorem generate_path_shortest_witness:
  "\<exists>s p. generate_path s 1 2 = Some (Inr p) \<and> path_back (rail_edge s) 1 2 p \<and> length p \<le> 2"
proof -
  let ?a = "\<lparr>ep_id = 1, ep_type = straight\<rparr>" and ?b = "\<lparr>ep_id = 2, ep_type = straight\<rparr>"
  let ?s = "put_rail 0 ?b (put_track ?a storage_init)"
  have ok: "storage_ok ?s"
    by (intro inv_intros) (simp_all add: put_track_def storage_init_def)
  have ex: "exists ?s 1" "exists ?s 2"
    by (simp_all add: exists_def put_defs)
  have "rail_edge ?s 1 2" by code_simp
  then have q: "path_back (rail_edge ?s) 1 2 [2, 1]"
    by (simp add: path_back_def)
  from generate_path_shortest [OF ok, of 1 2] ex q show ?thesis
    by (intro exI [of _ ?s]) (auto split: if_splits)
qed

end
