(* ===== verification/Rail_Network.thy ===== *)
theory Rail_Network
  imports Rail_Pathing
begin

text \<open>
  The facade of \<open>host/rail_network/rail_network.hpp\<close>. The network owns the storage; the path
  finder only holds a reference to it, so the storage is the whole state. \<open>append_rail\<close> is
  the only operation that changes it, and \<open>reachable_network\<close> are the networks that sequences
  of calls of it build. The abstract specification of the layout is a list of lists of rail
  ids, one per track.
\<close>

section \<open>Operations\<close>

definition append_rail ::
    "rail_connection_t \<Rightarrow> rail_storage_t \<Rightarrow> (rail_status_t \<times> rail_storage_t) result" where
  "append_rail connection m_storage =
     (if \<not> has_rail_pivot connection then Inr (create_track (current connection) m_storage)
      else if \<not> exists m_storage (ep_id (previous connection)) then Inr (no_previous_rail, m_storage)
      else if exists m_storage (ep_id (current connection)) \<and> exists m_storage (ep_id (previous connection))
           then connect_tracks connection m_storage
      else append_to_track connection m_storage)"

definition network_get_next_rail :: "rail_storage_t \<Rightarrow> rail_id_t \<Rightarrow> rail_id_t option result" where
  "network_get_next_rail m_storage cur = get_next_rail m_storage cur"

definition network_generate_path ::
    "rail_storage_t \<Rightarrow> rail_id_t \<Rightarrow> rail_id_t \<Rightarrow> rail_id_t list result option" where
  "network_generate_path m_storage start end_rail = generate_path m_storage start end_rail"

inductive reachable_network :: "rail_storage_t \<Rightarrow> bool" where
  start: "reachable_network storage_init"
| append: "reachable_network s \<Longrightarrow> append_rail c s = Inr (st, s') \<Longrightarrow> reachable_network s'"

inductive_cases reachable_networkE: "reachable_network s"

section \<open>Case analysis of an append\<close>

lemma append_rail_cases:
  assumes "storage_ok s"
  obtains (new_track) "\<not> has_rail_pivot c" "append_rail c s = Inr (create_track (current c) s)"
  | (no_previous) "has_rail_pivot c" "\<not> exists s (ep_id (previous c))"
      "append_rail c s = Inr (no_previous_rail, s)"
  | (connect) cur prev st s' where "has_rail_pivot c" "m_rail_lookup s (ep_id (current c)) = Some cur"
      "m_rail_lookup s (ep_id (previous c)) = Some prev"
      "connect_tracks c s = Inr (st, s')" "append_rail c s = Inr (st, s')"
  | (extend) prev where "has_rail_pivot c" "m_rail_lookup s (ep_id (previous c)) = Some prev"
      "\<not> exists s (ep_id (current c))" "loc_track prev < length (m_tracks s)"
      "append_rail c s = Inr (append_with_branch (loc_track prev) c s)"
proof -
  consider "\<not> has_rail_pivot c" | "has_rail_pivot c" "\<not> exists s (ep_id (previous c))"
    | cur prev where "has_rail_pivot c" "m_rail_lookup s (ep_id (current c)) = Some cur"
        "m_rail_lookup s (ep_id (previous c)) = Some prev"
    | prev where "has_rail_pivot c" "\<not> exists s (ep_id (current c))"
        "m_rail_lookup s (ep_id (previous c)) = Some prev"
    unfolding exists_def by blast
  then show ?thesis
  proof cases
    case 1
    then show ?thesis by (intro new_track) (simp_all add: append_rail_def)
  next
    case 2
    then show ?thesis by (intro no_previous) (simp_all add: append_rail_def)
  next
    case (3 cur prev)
    then show ?thesis
      using connect_tracks_eq [OF assms 3(2,3)]
      by (auto simp: append_rail_def exists_def split: if_splits intro: connect [OF 3])
  next
    case (4 prev)
    then show ?thesis
      using append_to_track_eq [OF assms 4(3)] lookup_position(1) [OF assms 4(3)]
      by (intro extend [OF 4(1,3,2)]) (simp_all add: append_rail_def exists_def)
  qed
qed

lemma append_rail_ok:
  assumes "storage_ok s"
  shows "\<exists>st s'. append_rail c s = Inr (st, s') \<and> storage_ok s'"
  using assms
proof (cases rule: append_rail_cases [where c = c])
  case new_track
  then show ?thesis
    using storage_ok_create_track [OF assms, of "current c"] by (cases "create_track (current c) s") auto
next
  case (connect cur prev st s')
  then show ?thesis using storage_ok_connect [OF assms] by blast
next
  case (extend prev)
  then show ?thesis
    using storage_ok_append_with_branch [OF assms, of "loc_track prev" c]
    by (cases "append_with_branch (loc_track prev) c s") (auto simp: exists_def)
qed (use assms in auto)

lemma reachable_network_ok: "reachable_network s \<Longrightarrow> storage_ok s"
proof (induction rule: reachable_network.induct)
  case start
  show ?case by (rule storage_ok_init)
next
  case (append s c st s')
  then show ?case using append_rail_ok [of s c] by auto
qed

text \<open>
  C1. Every network that calls of \<open>append_rail\<close> can build, with any arguments and whatever
  statuses they returned, is well formed, and each further call returns a status: no call
  throws, and none indexes a track or a rail out of range.
\<close>

theorem reachable_network_invariant:
  assumes "reachable_network s"
  shows "storage_ok s \<and> (\<exists>st s'. append_rail c s = Inr (st, s') \<and> reachable_network s')"
proof -
  have ok: "storage_ok s" using assms by (rule reachable_network_ok)
  moreover obtain st s' where "append_rail c s = Inr (st, s')"
    using append_rail_ok [OF ok] by blast
  ultimately show ?thesis using reachable_network.append [OF assms] by blast
qed

theorem reachable_network_invariant_witness:
  "storage_ok storage_init \<and> (\<exists>st s'. append_rail
     \<lparr>current = \<lparr>ep_id = 1, ep_type = straight\<rparr>, previous = \<lparr>ep_id = 0, ep_type = rail_none\<rparr>, branch = None\<rparr>
     storage_init = Inr (st, s') \<and> reachable_network s')"
  by (rule reachable_network_invariant [OF reachable_network.start])

section \<open>The layout\<close>

text \<open>The abstract view: the ids along each track, in order.\<close>

definition layout :: "rail_storage_t \<Rightarrow> rail_id_t list list" where
  "layout s = map (\<lambda>t. map rail_id (m_rails t)) (m_tracks s)"

definition placed :: "rail_id_t list list \<Rightarrow> rail_id_t \<Rightarrow> bool" where
  "placed L i \<longleftrightarrow> list_ex (\<lambda>t. i \<in> set t) L"

definition track_of :: "rail_id_t list list \<Rightarrow> rail_id_t \<Rightarrow> nat" where
  "track_of L i = length (takeWhile (\<lambda>t. i \<notin> set t) L)"

text \<open>
  What an append does to the layout: a new track, nothing, or one more rail at the end of the
  track of the previous rail and, for a junction with a new branch rail, a track for the branch.
\<close>

definition layout_append :: "rail_connection_t \<Rightarrow> rail_id_t list list \<Rightarrow> rail_id_t list list" where
  "layout_append c L =
     (let cur = ep_id (current c); prev = ep_id (previous c)
      in if \<not> has_rail_pivot c then (if placed L cur then L else L @ [[cur]])
         else if \<not> placed L prev \<or> placed L cur then L
         else let L' = L[track_of L prev := L ! track_of L prev @ [cur]]
              in case branch c of
                   None \<Rightarrow> L'
                 | Some b \<Rightarrow> if is_junction (current c) \<and> \<not> placed L' (ep_id b) then L' @ [[ep_id b]] else L')"

lemma layout_nth: "t < length (m_tracks s) \<Longrightarrow> layout s ! t = map rail_id (m_rails (m_tracks s ! t))"
  by (simp add: layout_def)

lemma length_layout [simp]: "length (layout s) = length (m_tracks s)"
  by (simp add: layout_def)

lemma rail_at_Some:
  "rail_at ts t p = Some r \<longleftrightarrow> t < length ts \<and> p < length (m_rails (ts ! t)) \<and> r = m_rails (ts ! t) ! p"
  by (auto simp: rail_at_def)

lemma in_layout_nth:
  assumes "t < length (m_tracks s)"
  shows "i \<in> set (layout s ! t) \<longleftrightarrow> (\<exists>p r. rail_at (m_tracks s) t p = Some r \<and> rail_id r = i)"
  by (simp add: assms layout_nth rail_at_Some in_set_conv_nth image_iff Bex_def) metis

lemma placed_iff:
  "placed (layout s) i \<longleftrightarrow> (\<exists>t p r. rail_at (m_tracks s) t p = Some r \<and> rail_id r = i)"
proof -
  have "placed (layout s) i \<longleftrightarrow> (\<exists>t < length (m_tracks s). i \<in> set (layout s ! t))"
    by (simp add: placed_def list_ex_length)
  then show ?thesis by (metis in_layout_nth rail_at_Some)
qed

lemma placed_layout:
  assumes "storage_ok s"
  shows "placed (layout s) i \<longleftrightarrow> exists s i"
  using lookup_okD [OF storage_okD(1) [OF assms]] lookup_of_rail_at [OF storage_okD(1) [OF assms]]
  unfolding placed_iff exists_def by (metis option.discI option.exhaust)

lemma track_of_layout:
  assumes "storage_ok s" and "m_rail_lookup s i = Some loc"
  shows "track_of (layout s) i = loc_track loc"
proof -
  note pos = lookup_position [OF assms]
  have "\<not> i \<notin> set (layout s ! loc_track loc)"
    using pos by (auto simp: layout_nth)
  moreover have "i \<notin> set (layout s ! t)" if lt: "t < loc_track loc" for t
  proof
    assume "i \<in> set (layout s ! t)"
    then obtain p r where "rail_at (m_tracks s) t p = Some r" "rail_id r = i"
      using lt pos(1) in_layout_nth [of t s i] by auto
    then have "m_rail_lookup s i = Some \<lparr>loc_track = t, loc_position = p\<rparr>"
      using lookup_of_rail_at [OF storage_okD(1) [OF assms(1)]] by blast
    with assms(2) lt show False by auto
  qed
  ultimately show ?thesis
    using pos(1) unfolding track_of_def
    by (subst takeWhile_eq_take_P_nth [of "loc_track loc"]) simp_all
qed

lemma layout_puts [simp]:
  "layout (put_track e s) = layout s @ [[ep_id e]]"
  "t < length (m_tracks s) \<Longrightarrow> layout (put_rail t e s) = (layout s)[t := layout s ! t @ [ep_id e]]"
  "t < length (m_tracks s) \<Longrightarrow> layout (put_connection t k s) = layout s"
  "t < length (m_tracks s) \<Longrightarrow> layout (put_branch t p b s) = layout s"
proof -
  have upd: "map f (xs[i := y]) = map f xs" if "i < length xs" "f y = f (xs ! i)" for f :: "track_t \<Rightarrow> rail_id_t list" and xs i y
    using that by (simp add: map_update list_update_same_conv)
  show "t < length (m_tracks s) \<Longrightarrow> layout (put_connection t k s) = layout s"
    by (simp add: layout_def put_connection_def track_defs upd)
  show "t < length (m_tracks s) \<Longrightarrow> layout (put_branch t p b s) = layout s"
    by (simp add: layout_def put_branch_def track_defs upd map_update)
      (metis length_map linorder_not_le list_update_id nth_map)
qed (simp_all add: layout_def put_track_def put_rail_def track_defs new_rail_def map_update)

lemma length_m_tracks_puts [simp]:
  "length (m_tracks (put_track e s)) = Suc (length (m_tracks s))"
  "length (m_tracks (put_rail t e s)) = length (m_tracks s)"
  "length (m_tracks (put_connection t k s)) = length (m_tracks s)"
  by (simp_all add: put_defs)

lemma layout_append_with_branch:
  assumes "storage_ok s" and "m_rail_lookup s (ep_id (previous c)) = Some prev"
    and "\<not> exists s (ep_id (current c))" and "has_rail_pivot c"
  shows "layout (snd (append_with_branch (loc_track prev) c s)) = layout_append c (layout s)"
proof -
  note pos = lookup_position(1) [OF assms(1,2)]
  have "storage_ok (put_rail (loc_track prev) (current c) s)"
    using assms(1,3) pos by (intro storage_ok_put_rail) (simp_all add: exists_def)
  from placed_layout [OF this] have placed':
    "exists (put_rail (loc_track prev) (current c) s) i \<longleftrightarrow>
     placed ((layout s)[loc_track prev := layout s ! loc_track prev @ [ep_id (current c)]]) i" for i
    using pos by simp
  have "placed (layout s) (ep_id (previous c))"
    using assms(1,2) by (simp add: placed_layout exists_def)
  with assms pos show ?thesis
    by (auto simp: append_with_branch_def layout_append_def Let_def track_of_layout placed_layout placed'
        split: option.split)
qed

lemma layout_connect:
  assumes "storage_ok s" and "m_rail_lookup s (ep_id (current c)) = Some cur"
    and "m_rail_lookup s (ep_id (previous c)) = Some prev" and "connect_tracks c s = Inr (st, s')"
  shows "layout s' = layout s"
  using assms(4) lookup_position(1) [OF assms(1,2)] lookup_position(1) [OF assms(1,3)]
  by (auto simp: connect_tracks_eq [OF assms(1-3)] split: if_splits)

text \<open>
  C3. Refinement: seen as a list of id lists, one per track, \<open>append_rail\<close> does to a reachable network
  exactly what \<open>layout_append\<close> does to its layout, and a rail is stored exactly when it occurs in
  the layout.
\<close>

theorem append_rail_refines_layout:
  assumes "reachable_network s" and "append_rail c s = Inr (st, s')"
  shows "layout s' = layout_append c (layout s) \<and> (exists s' i \<longleftrightarrow> placed (layout s') i)"
proof -
  have ok: "storage_ok s" using assms(1) by (rule reachable_network_ok)
  have ok': "storage_ok s'"
    using reachable_network.append [OF assms] by (rule reachable_network_ok)
  have "layout s' = layout_append c (layout s)"
    using ok
  proof (cases rule: append_rail_cases [where c = c])
    case new_track
    with assms(2) show ?thesis
      by (auto simp: create_track_eq layout_append_def Let_def placed_layout ok split: if_splits)
  next
    case no_previous
    with assms(2) placed_layout [OF ok] show ?thesis by (auto simp: layout_append_def Let_def)
  next
    case (connect cur prev st s')
    with assms(2) show ?thesis
      using layout_connect [OF ok connect(2-4)]
      by (simp add: layout_append_def placed_layout ok exists_def)
  next
    case (extend prev)
    with assms(2) show ?thesis
      using layout_append_with_branch [OF ok extend(2,3,1)] by simp
  qed
  with placed_layout [OF ok'] show ?thesis by simp
qed

theorem append_rail_refines_layout_witness:
  "layout (put_track \<lparr>ep_id = 7, ep_type = straight\<rparr> storage_init) =
     layout_append \<lparr>current = \<lparr>ep_id = 7, ep_type = straight\<rparr>,
       previous = \<lparr>ep_id = 0, ep_type = rail_none\<rparr>, branch = None\<rparr> (layout storage_init) \<and>
   (exists (put_track \<lparr>ep_id = 7, ep_type = straight\<rparr> storage_init) 7 \<longleftrightarrow>
     placed (layout (put_track \<lparr>ep_id = 7, ep_type = straight\<rparr> storage_init)) 7)"
  by (rule append_rail_refines_layout [OF reachable_network.start, where st = rail_success])
    (simp add: append_rail_def has_rail_pivot_def create_track_eq exists_def storage_init_def)

section \<open>Successors\<close>

definition at_track_end :: "rail_storage_t \<Rightarrow> rail_id_t \<Rightarrow> bool" where
  "at_track_end s i \<longleftrightarrow> (case m_rail_lookup s i of None \<Rightarrow> False
     | Some loc \<Rightarrow> Suc (loc_position loc) = length (m_rails (m_tracks s ! loc_track loc)))"

definition at_track_start :: "rail_storage_t \<Rightarrow> rail_id_t \<Rightarrow> bool" where
  "at_track_start s i \<longleftrightarrow> (case m_rail_lookup s i of None \<Rightarrow> False | Some loc \<Rightarrow> loc_position loc = 0)"

text \<open>A network of one straight rail, for the witnesses.\<close>

definition one_rail :: rail_storage_t where
  "one_rail = put_track \<lparr>ep_id = 1, ep_type = straight\<rparr> storage_init"

definition link :: "rail_endpoint_t \<Rightarrow> rail_id_t \<Rightarrow> rail_endpoint_t option \<Rightarrow> rail_connection_t" where
  "link cur prev b = \<lparr>current = cur, previous = \<lparr>ep_id = prev, ep_type = straight\<rparr>, branch = b\<rparr>"

lemma one_rail_reachable: "reachable_network one_rail"
  by (rule reachable_network.append [OF reachable_network.start,
        where c = "\<lparr>current = \<lparr>ep_id = 1, ep_type = straight\<rparr>, previous = \<lparr>ep_id = 0, ep_type = rail_none\<rparr>, branch = None\<rparr>"
          and st = rail_success])
    (simp add: append_rail_def has_rail_pivot_def create_track_eq exists_def storage_init_def one_rail_def)

lemma one_rail_facts:
  "has_rail_pivot (link e i b)" "at_track_end one_rail 1" "at_track_start one_rail 1"
  "exists one_rail i \<longleftrightarrow> i = 1"
  by (simp_all add: link_def has_rail_pivot_def rail_type_defs at_track_end_def at_track_start_def
      one_rail_def put_track_def storage_init_def track_defs exists_def)

lemma next_in_layout:
  assumes "storage_ok s" and "t < length (layout s)" and "Suc p < length (layout s ! t)"
  shows "get_next_rail s (layout s ! t ! p) = Inr (Some (layout s ! t ! Suc p))"
proof -
  from assms(2) have t: "t < length (m_tracks s)" by simp
  with assms(3) have p: "Suc p < length (m_rails (m_tracks s ! t))" by (simp add: layout_nth)
  have "m_rail_lookup s (layout s ! t ! p) = Some \<lparr>loc_track = t, loc_position = p\<rparr>"
    using lookup_of_rail_at [OF storage_okD(1) [OF assms(1)], of t p] t p
    by (simp add: rail_at_Some layout_nth)
  from get_next_rail_eq [OF assms(1) this] t p show ?thesis
    by (simp add: next_at_def rail_at_def layout_nth)
qed

text \<open>
  Appending a new rail behind the last rail of a track makes it the successor of that
  rail, whether the call reports success or an error about its branch.
\<close>

theorem append_rail_links_previous:
  assumes "reachable_network s" and "has_rail_pivot c" and "at_track_end s (ep_id (previous c))"
    and "\<not> exists s (ep_id (current c))" and "append_rail c s = Inr (st, s')"
  shows "network_get_next_rail s' (ep_id (previous c)) = Inr (Some (ep_id (current c)))"
proof -
  have ok: "storage_ok s" using assms(1) by (rule reachable_network_ok)
  have ok': "storage_ok s'" using reachable_network.append [OF assms(1,5)] by (rule reachable_network_ok)
  from assms(3) obtain prev where prev: "m_rail_lookup s (ep_id (previous c)) = Some prev"
    "Suc (loc_position prev) = length (m_rails (m_tracks s ! loc_track prev))"
    by (auto simp: at_track_end_def split: option.splits)
  note pos = lookup_position [OF ok prev(1)]
  let ?t = "loc_track prev" and ?L = "layout s"
  have "s' = snd (append_with_branch ?t c s)"
    using assms(2,4,5) prev(1) append_to_track_eq [OF ok prev(1)]
    by (simp add: append_rail_def exists_def)
  then have "layout s' = layout_append c ?L"
    using layout_append_with_branch [OF ok prev(1) assms(4,2)] by simp
  moreover have "placed ?L (ep_id (previous c))" "\<not> placed ?L (ep_id (current c))" "track_of ?L (ep_id (previous c)) = ?t"
    using assms(4) prev(1) by (simp_all add: placed_layout ok exists_def track_of_layout)
  ultimately obtain rest where L': "layout s' = ?L[?t := ?L ! ?t @ [ep_id (current c)]] @ rest"
    using assms(2) by (auto simp: layout_append_def Let_def split: option.splits if_splits)
  have "?L ! ?t ! loc_position prev = ep_id (previous c)" "Suc (loc_position prev) = length (?L ! ?t)"
    using pos prev(2) by (simp_all add: layout_nth)
  then show ?thesis
    using next_in_layout [OF ok', of ?t "loc_position prev"] pos(1)
    by (simp add: L' nth_append network_get_next_rail_def)
qed

lemma connect_links:
  assumes "storage_ok s" and "m_rail_lookup s (ep_id (current c)) = Some cur"
    and "m_rail_lookup s (ep_id (previous c)) = Some prev"
    and "Suc (loc_position prev) = length (m_rails (m_tracks s ! loc_track prev))"
    and "loc_track cur = loc_track prev \<Longrightarrow> loc_position cur = 0"
    and "connect_tracks c s = Inr (st, s')"
  shows "st = rail_success \<and> get_next_rail s' (ep_id (previous c)) = Inr (Some (ep_id (current c)))"
proof -
  note cur = lookup_position [OF assms(1,2)] and prev = lookup_position [OF assms(1,3)]
  have ok': "storage_ok s'" using assms(1-3,6) by (rule storage_ok_connect)
  have st: "st = rail_success" and s': "s' = (if loc_track cur = loc_track prev
      then put_connection (loc_track cur) (loc_track cur) s
      else put_branch (loc_track prev) (loc_position prev)
         \<lparr>br_track = loc_track cur, br_position = loc_position cur\<rparr>
         (put_connection (loc_track prev) (loc_track cur) s))"
    using assms(5,6) connect_tracks_eq [OF assms(1-3)] by (auto split: if_splits)
  have "m_rail_lookup s' (ep_id (previous c)) = Some prev"
    using assms(3) by (simp add: s' put_defs)
  from get_next_rail_eq [OF ok' this] show ?thesis
    using st assms(4,5) cur prev
    by (auto simp: s' next_at_def put_defs track_defs rail_at_def nth_list_update)
qed

theorem append_rail_links_previous_witness:
  "\<exists>s'. append_rail (link \<lparr>ep_id = 2, ep_type = left_curve\<rparr> 1 None) one_rail = Inr (rail_success, s') \<and>
     network_get_next_rail s' 1 = Inr (Some 2)"
proof -
  let ?c = "link \<lparr>ep_id = 2, ep_type = left_curve\<rparr> 1 None"
  have run: "append_rail ?c one_rail = Inr (rail_success, put_rail 0 (current ?c) one_rail)"
    by (simp add: append_rail_def append_to_track_eq [OF reachable_network_ok [OF one_rail_reachable]]
        append_with_branch_def link_def has_rail_pivot_def rail_type_defs one_rail_def exists_def
        put_track_def storage_init_def append_to_track_eq connection_has_branch_def append_to_track_def
        put_rail_def track_defs)
  show ?thesis
    using run append_rail_links_previous [OF one_rail_reachable _ _ _ run] one_rail_facts
    by (simp add: link_def)
qed

text \<open>
  Connecting the last rail of a track to the first rail of the same track, or to any rail of
  another track, succeeds and makes the connected rail the successor.
\<close>

theorem connect_links_previous:
  assumes "reachable_network s" and "has_rail_pivot c" and "at_track_end s (ep_id (previous c))"
    and "exists s (ep_id (current c))"
    and "track_of (layout s) (ep_id (current c)) \<noteq> track_of (layout s) (ep_id (previous c)) \<or>
         at_track_start s (ep_id (current c))"
    and "append_rail c s = Inr (st, s')"
  shows "st = rail_success \<and> network_get_next_rail s' (ep_id (previous c)) = Inr (Some (ep_id (current c)))"
proof -
  have ok: "storage_ok s" using assms(1) by (rule reachable_network_ok)
  from assms(3) obtain prev where prev: "m_rail_lookup s (ep_id (previous c)) = Some prev"
    "Suc (loc_position prev) = length (m_rails (m_tracks s ! loc_track prev))"
    by (auto simp: at_track_end_def split: option.splits)
  from assms(4) obtain cur where cur: "m_rail_lookup s (ep_id (current c)) = Some cur"
    by (auto simp: exists_def)
  have "connect_tracks c s = Inr (st, s')"
    using assms(2,4,6) prev(1) by (simp add: append_rail_def exists_def)
  moreover have "loc_track cur = loc_track prev \<Longrightarrow> loc_position cur = 0"
    using assms(5) by (simp add: track_of_layout [OF ok] prev cur at_track_start_def)
  ultimately show ?thesis
    using connect_links [OF ok cur prev] by (simp add: network_get_next_rail_def)
qed

theorem connect_links_previous_witness:
  "\<exists>s'. append_rail (link \<lparr>ep_id = 1, ep_type = straight\<rparr> 1 None) one_rail = Inr (rail_success, s') \<and>
     network_get_next_rail s' 1 = Inr (Some 1)"
proof -
  let ?c = "link \<lparr>ep_id = 1, ep_type = straight\<rparr> 1 None"
  obtain st s' where run: "append_rail ?c one_rail = Inr (st, s')"
    using append_rail_ok [OF reachable_network_ok [OF one_rail_reachable]] by blast
  then show ?thesis
    using connect_links_previous [OF one_rail_reachable _ _ _ _ run] one_rail_facts
    by (simp add: link_def)
qed

section \<open>Branches\<close>

text \<open>
  An error about the branch does not undo the append: when the current rail is not a junction, or
  the branch rail is already stored, \<open>append_rail\<close> reports the error and the current rail is stored
  all the same.
\<close>

theorem failed_branch_keeps_rail:
  assumes "reachable_network s" and "has_rail_pivot c" and "exists s (ep_id (previous c))"
    and "\<not> exists s (ep_id (current c))" and "branch c = Some b"
    and "is_junction (current c) \<Longrightarrow> exists s (ep_id b)"
  shows "\<exists>st s'. append_rail c s = Inr (st, s') \<and>
    st = (if is_junction (current c) then rail_already_exists else invalid_connection) \<and>
    exists s' (ep_id (current c)) \<and>
    layout s' = (layout s)[track_of (layout s) (ep_id (previous c)) :=
      layout s ! track_of (layout s) (ep_id (previous c)) @ [ep_id (current c)]]"
proof -
  have ok: "storage_ok s" using assms(1) by (rule reachable_network_ok)
  from assms(3) obtain prev where prev: "m_rail_lookup s (ep_id (previous c)) = Some prev"
    by (auto simp: exists_def)
  have "append_rail c s = Inr (append_with_branch (loc_track prev) c s)"
    using assms(2-4) append_to_track_eq [OF ok prev] by (simp add: append_rail_def)
  moreover have "append_with_branch (loc_track prev) c s =
      (if is_junction (current c) then rail_already_exists else invalid_connection,
       put_rail (loc_track prev) (current c) s)"
    using assms(5,6) by (auto simp: append_with_branch_def Let_def exists_def put_rail_def)
  moreover have "track_of (layout s) (ep_id (previous c)) = loc_track prev"
    by (rule track_of_layout [OF ok prev])
  ultimately show ?thesis
    using lookup_position(1) [OF ok prev] by (simp add: exists_def) (simp add: put_rail_def)
qed

theorem failed_branch_keeps_rail_witness:
  "\<exists>st s'. append_rail (link \<lparr>ep_id = 2, ep_type = straight\<rparr> 1 (Some \<lparr>ep_id = 3, ep_type = straight\<rparr>)) one_rail =
     Inr (st, s') \<and> st = invalid_connection \<and> exists s' 2"
  using failed_branch_keeps_rail [OF one_rail_reachable,
      of "link \<lparr>ep_id = 2, ep_type = straight\<rparr> 1 (Some \<lparr>ep_id = 3, ep_type = straight\<rparr>)"
         "\<lparr>ep_id = 3, ep_type = straight\<rparr>"] one_rail_facts
  by (auto simp: link_def is_junction_def rail_type_defs)

text \<open>
  A junction that is appended without a branch rail is taken by the path finder to branch to the
  first rail of the first track: from the rail before it the search continues with the junction and
  with that unrelated rail.
\<close>

theorem junction_without_branch_connects_to_first_rail:
  assumes "reachable_network s" and "has_rail_pivot c" and "at_track_end s (ep_id (previous c))"
    and "\<not> exists s (ep_id (current c))" and "is_junction (current c)" and "branch c = None"
    and "append_rail c s = Inr (st, s')"
  shows "st = rail_success \<and> get_connections s' (ep_id (previous c)) =
    Inr [Some (ep_id (current c)), Some (layout s ! 0 ! 0)]"
proof -
  have ok: "storage_ok s" using assms(1) by (rule reachable_network_ok)
  have ok': "storage_ok s'" using reachable_network.append [OF assms(1,7)] by (rule reachable_network_ok)
  from assms(3) obtain prev where prev: "m_rail_lookup s (ep_id (previous c)) = Some prev"
    "Suc (loc_position prev) = length (m_rails (m_tracks s ! loc_track prev))"
    by (auto simp: at_track_end_def split: option.splits)
  note pos = lookup_position [OF ok prev(1)]
  let ?t = "loc_track prev"
  have st: "st = rail_success" and s': "s' = put_rail ?t (current c) s"
    using assms(2,4,6,7) prev(1) append_to_track_eq [OF ok prev(1)]
    by (simp_all add: append_rail_def exists_def append_with_branch_def)
  have "m_rail_lookup s' (ep_id (previous c)) = Some prev"
    using prev(1) assms(4) by (auto simp: s' put_rail_def exists_def)
  then have next_rail: "get_next_rail s' (ep_id (previous c)) = Inr (Some (ep_id (current c)))"
    using get_next_rail_eq [OF ok', of "ep_id (previous c)" prev] prev(2) pos
    by (simp add: s' put_rail_def next_at_def track_defs rail_at_def nth_append new_rail_def exists_def)
  have rail: "get_from_id s' (ep_id (current c)) = Inr (new_rail (current c))"
    using pos by (simp add: s' get_from_id_def put_rail_def track_defs)
  have zero: "0 < length (m_tracks s)" using pos(1) by linarith
  have "m_rails (m_tracks s ! 0) \<noteq> []"
    using tracks_okD(1) [OF storage_okD(2) [OF ok], of 0] pos(1) by fastforce
  then have "get_from_branch s' \<lparr>br_track = 0, br_position = 0\<rparr> =
      Inr (if ?t = 0 then m_rails (track_add (current c) (m_tracks s ! 0)) ! 0 else m_rails (m_tracks s ! 0) ! 0)"
    using zero
    by (cases "?t = 0") (simp_all add: s' get_from_branch_def put_rail_def track_defs nth_chk_def)
  moreover have "layout s ! 0 ! 0 = rail_id (m_rails (m_tracks s ! 0) ! 0)"
    using zero \<open>m_rails (m_tracks s ! 0) \<noteq> []\<close> by (simp add: layout_nth)
  ultimately show ?thesis
    using st next_rail rail assms(5) \<open>m_rails (m_tracks s ! 0) \<noteq> []\<close>
    by (auto simp: get_connections_def rail_has_branch_def is_junction_def new_rail_def track_defs nth_append)
qed

theorem junction_without_branch_connects_to_first_rail_witness:
  "\<exists>s'. append_rail (link \<lparr>ep_id = 2, ep_type = left_junction\<rparr> 1 None) one_rail = Inr (rail_success, s') \<and>
     get_connections s' 1 = Inr [Some 2, Some (layout one_rail ! 0 ! 0)]"
proof -
  let ?c = "link \<lparr>ep_id = 2, ep_type = left_junction\<rparr> 1 None"
  obtain st s' where run: "append_rail ?c one_rail = Inr (st, s')"
    using append_rail_ok [OF reachable_network_ok [OF one_rail_reachable]] by blast
  then show ?thesis
    using junction_without_branch_connects_to_first_rail [OF one_rail_reachable _ _ _ _ _ run] one_rail_facts
    by (simp add: link_def is_junction_def)
qed

end
