(* ===== verification/Client_Tcp.thy ===== *)
theory Client_Tcp
  imports Packet_Registry
begin

text \<open>
  The TCP client on the train, \<open>client/main/tcp/\<close>: the socket (\<open>tcp_client.{hpp,cpp}\<close>), the messages
  it sends (\<open>tcp_event_data.hpp\<close>) and handles (\<open>tcp_message_handler.{hpp,cpp}\<close>), and the three
  tasks around it (\<open>tcp_send_task\<close>, \<open>tcp_listen_task\<close>, \<open>tcp_manager_task\<close>).

  The socket calls belong to lwIP. What they answer is an argument: a list of \<open>recv_event\<close>, one
  for each call of \<open>recv\<close> (so many bytes of the stream, a timeout, an error, the end of the
  stream), and likewise for \<open>send\<close>. A call for which the list holds no answer blocks for
  ever, and the function that made it is \<open>None\<close>. Queues and task notifications belong to FreeRTOS: a
  function returns the calls it makes on them.
\<close>

section \<open>The socket\<close>

datatype client_status_t =
    cs_success
  | cs_failure
  | cs_timeout
  | cs_connection_closed
  | cs_socket_failure
  | cs_failed_to_connect
  | cs_unknown_mds_address
  | cs_unknown_packet

text \<open>The object, and what it holds of the operating system: open sockets and address lists.\<close>

record tcp_client_t =
  cl_socket :: int
  cl_registry :: registry_t
  open_fds :: "int set"
  live_addrinfo :: nat

definition tcp_client_init :: tcp_client_t where
  "tcp_client_init = \<lparr>cl_socket = - 1, cl_registry = registry_init, open_fds = {}, live_addrinfo = 0\<rparr>"

text \<open>The answers to the calls of \<open>try_connect\<close>: whether the name was resolved (and whether a list was
  returned otherwise), the descriptor of the socket, and whether the connection was made.\<close>

record connect_env =
  resolved :: bool
  list_on_failure :: bool
  new_fd :: int
  connected :: bool

definition try_connect :: "connect_env \<Rightarrow> tcp_client_t \<Rightarrow> client_status_t \<times> tcp_client_t" where
  "try_connect env c =
     (if resolved env
      then let c = c\<lparr>live_addrinfo := live_addrinfo c + 1\<rparr>
           in if new_fd env < 0 then (cs_socket_failure, c)
              else let c = c\<lparr>open_fds := insert (new_fd env) (open_fds c)\<rparr>
                   in if \<not> connected env
                      then (cs_failed_to_connect,
                            c\<lparr>open_fds := open_fds c - {new_fd env}, live_addrinfo := live_addrinfo c - 1\<rparr>)
                      else (cs_success, c\<lparr>cl_socket := new_fd env\<rparr>)
      else (cs_unknown_mds_address, c))"

definition client_disconnect :: "bool \<Rightarrow> tcp_client_t \<Rightarrow> client_status_t \<times> tcp_client_t" where
  "client_disconnect close_fails c =
     (if cl_socket c < 0 then (cs_failure, c)
      else if close_fails then (cs_socket_failure, c)
      else (cs_success, c\<lparr>cl_socket := - 1, open_fds := open_fds c - {cl_socket c}\<rparr>))"

definition is_connected :: "tcp_client_t \<Rightarrow> bool" where
  "is_connected c \<longleftrightarrow> cl_socket c \<ge> 0"

definition register_receieve_callback :: "packet_kind \<Rightarrow> tcp_client_t \<Rightarrow> tcp_client_t" where
  "register_receieve_callback t c = c\<lparr>cl_registry := register_callback t (cl_registry c)\<rparr>"

subsection \<open>Receiving\<close>

text \<open>\<open>Deliver k\<close>: at most \<open>k + 1\<close> bytes of the stream have arrived.\<close>

datatype recv_event = Deliver nat | Recv_timeout | Recv_error | Recv_closed

text \<open>The loop of \<open>recv_exact\<close>: the bytes wanted, those read so far, the stream, and the answers.\<close>

fun recv_exact ::
    "nat \<Rightarrow> byte list \<Rightarrow> byte list \<Rightarrow> recv_event list \<Rightarrow> (client_status_t \<times> byte list \<times> byte list \<times> recv_event list) option" where
  "recv_exact need got rx [] = (if length got < need then None else Some (cs_success, got, rx, []))"
| "recv_exact need got rx (e # evs) =
     (if \<not> length got < need then Some (cs_success, got, rx, e # evs)
      else case e of
             Recv_timeout \<Rightarrow> Some (cs_timeout, got, rx, evs)
           | Recv_error \<Rightarrow> Some (cs_failure, got, rx, evs)
           | Recv_closed \<Rightarrow> Some (cs_connection_closed, got, rx, evs)
           | Deliver k \<Rightarrow>
               if rx = [] then None
               else let n = min (k + 1) (need - length got)
                    in recv_exact need (got @ take n rx) (drop n rx) evs)"

definition recv_payload_id ::
    "endian \<Rightarrow> byte list \<Rightarrow> byte list \<Rightarrow> recv_event list \<Rightarrow>
     (packet_id_t \<times> client_status_t \<times> byte list \<times> byte list \<times> recv_event list) option" where
  "recv_payload_id native payload rx evs =
     (case recv_exact packet_id_size [] rx evs of
        None \<Rightarrow> None
      | Some (status, bs, rx, evs) \<Rightarrow>
          let payload = overwrite 0 bs payload
          in if status \<noteq> cs_success then Some (0, status, payload, rx, evs)
             else Some (of_object_bytes native (take packet_id_size payload), status, payload, rx, evs))"

text \<open>The payload goes behind the id; more than the array holds would be written past its end.\<close>

definition recv_payload ::
    "nat \<Rightarrow> byte list \<Rightarrow> byte list \<Rightarrow> recv_event list \<Rightarrow>
     (nat \<times> client_status_t \<times> byte list \<times> byte list \<times> recv_event list) option result" where
  "recv_payload expected payload rx evs =
     (if packet_id_size + expected > length payload then Inl Out_of_bounds
      else Inr (case recv_exact expected [] rx evs of
                  None \<Rightarrow> None
                | Some (status, bs, rx, evs) \<Rightarrow>
                    Some (length bs, status, overwrite packet_id_size bs payload, rx, evs)))"

text \<open>The third component of the result is the message whose callback was called.\<close>

definition listen_to_server ::
    "endian \<Rightarrow> registry_t \<Rightarrow> byte list \<Rightarrow> recv_event list \<Rightarrow>
     (client_status_t \<times> packet option \<times> byte list \<times> recv_event list) option result" where
  "listen_to_server native reg rx evs =
     (case recv_payload_id native (replicate payload_length 0) rx evs of
        None \<Rightarrow> Inr None
      | Some (received_id, status, payload, rx, evs) \<Rightarrow>
          if status \<noteq> cs_success then Inr (Some (status, None, rx, evs))
          else case expected_payload_size reg received_id of
                 None \<Rightarrow> Inr (Some (cs_unknown_packet, None, rx, evs))
               | Some expected \<Rightarrow>
                   rbind (recv_payload expected payload rx evs) (\<lambda>r.
                   case r of
                     None \<Rightarrow> Inr None
                   | Some (payload_bytes, status, payload, rx, evs) \<Rightarrow>
                       if status \<noteq> cs_success then Inr (Some (status, None, rx, evs))
                       else rbind (dispatch native reg received_id payload (payload_bytes + packet_id_size)) (\<lambda>d.
                            case d of
                              None \<Rightarrow> Inr (Some (cs_unknown_packet, None, rx, evs))
                            | Some p \<Rightarrow> Inr (Some (cs_success, Some p, rx, evs)))))"

subsection \<open>Sending\<close>

text \<open>\<open>Accept k\<close>: at most \<open>k + 1\<close> bytes are taken.\<close>

datatype send_event = Accept nat | Send_error | Send_zero

text \<open>The loop of \<open>send_to_server\<close>: the bytes still to send and the bytes sent.\<close>

fun send_loop :: "byte list \<Rightarrow> byte list \<Rightarrow> send_event list \<Rightarrow> (client_status_t \<times> byte list \<times> send_event list) option" where
  "send_loop [] out evs = Some (cs_success, out, evs)"
| "send_loop (b # bs) out [] = None"
| "send_loop (b # bs) out (Accept k # evs) = send_loop (drop (k + 1) (b # bs)) (out @ take (k + 1) (b # bs)) evs"
| "send_loop (b # bs) out (Send_error # evs) = Some (cs_failure, out, evs)"
| "send_loop (b # bs) out (Send_zero # evs) = Some (cs_connection_closed, out, evs)"

definition send_to_server ::
    "endian \<Rightarrow> packet \<Rightarrow> send_event list \<Rightarrow> (client_status_t \<times> byte list \<times> send_event list) option result" where
  "send_to_server native data evs =
     rbind (create native data) (\<lambda>payload.
       if packet_size (kind_of data) > length payload then Inl Out_of_bounds
       else Inr (send_loop (take (packet_size (kind_of data)) payload) [] evs))"

section \<open>Messages\<close>

datatype tcp_event_data_t =
    Ev_init_respond esp_init_response_t
  | Ev_rail_location rail_location_t
  | Ev_motor_status motor_status_t
  | Ev_battery_status battery_status_t

fun event_packet :: "tcp_event_data_t \<Rightarrow> packet" where
  "event_packet (Ev_init_respond m) = P_esp_init_response m"
| "event_packet (Ev_rail_location m) = P_rail_location m"
| "event_packet (Ev_motor_status m) = P_motor_status m"
| "event_packet (Ev_battery_status m) = P_battery_status m"

definition event_send_to_client ::
    "endian \<Rightarrow> tcp_event_data_t \<Rightarrow> send_event list \<Rightarrow> (client_status_t \<times> byte list \<times> send_event list) option result" where
  "event_send_to_client native ev evs = send_to_server native (event_packet ev) evs"

text \<open>The calls the handlers make: on the queues of the system bus, and the connection callback.\<close>

datatype bus_call =
    Outgoing tcp_event_data_t
  | Motor_command motor_control_t
  | Station_target rail_id_t
  | Connection_callback esp_id_t

record tcp_message_handler_t =
  has_bus :: bool
  has_connection_callback :: bool

definition handler_init :: "bool \<Rightarrow> tcp_message_handler_t" where
  "handler_init callback = \<lparr>has_bus = True, has_connection_callback = callback\<rparr>"

definition register_messages :: "tcp_client_t \<Rightarrow> tcp_client_t" where
  "register_messages c =
     register_receieve_callback K_rail_destination
       (register_receieve_callback K_motor_control
         (register_receieve_callback K_esp_init_request c))"

definition handle_error :: "tcp_message_handler_t \<Rightarrow> unit result" where
  "handle_error h = (if has_bus h then Inr () else Inl Aborted)"

definition on_init_request :: "tcp_message_handler_t \<Rightarrow> esp_init_request_t \<Rightarrow> bus_call list result" where
  "on_init_request h m =
     rbind (handle_error h) (\<lambda>_.
       Inr (Outgoing (Ev_init_respond \<lparr>res_id = req_id m\<rparr>) #
            (if has_connection_callback h then [Connection_callback (req_id m)] else [])))"

definition on_motor_control :: "tcp_message_handler_t \<Rightarrow> motor_control_t \<Rightarrow> bus_call list result" where
  "on_motor_control h m = rbind (handle_error h) (\<lambda>_. Inr [Motor_command m])"

definition on_station_add :: "tcp_message_handler_t \<Rightarrow> rail_destination_t \<Rightarrow> bus_call list result" where
  "on_station_add h m = rbind (handle_error h) (\<lambda>_. Inr [Station_target (rd_id m)])"

text \<open>The callbacks by the kind they are registered for; no other kind is dispatched.\<close>

fun on_message :: "tcp_message_handler_t \<Rightarrow> packet \<Rightarrow> bus_call list result" where
  "on_message h (P_esp_init_request m) = on_init_request h m"
| "on_message h (P_motor_control m) = on_motor_control h m"
| "on_message h (P_rail_destination m) = on_station_add h m"
| "on_message h _ = Inr []"

section \<open>Tasks\<close>

text \<open>What a task does when it stops working: it notifies the manager and suspends itself.\<close>

datatype send_outcome = Next_event | Send_notify_manager

text \<open>The inner loop of the send task over the statuses of its attempts.\<close>

fun send_attempts :: "nat \<Rightarrow> uint8 \<Rightarrow> client_status_t list \<Rightarrow> send_outcome option" where
  "send_attempts timeout_attempts attempts [] =
     (if unat attempts = timeout_attempts then Some Send_notify_manager else None)"
| "send_attempts timeout_attempts attempts (status # statuses) =
     (if unat attempts = timeout_attempts then Some Send_notify_manager
      else if status = cs_success then Some Next_event
      else if status = cs_timeout then send_attempts timeout_attempts (attempts + 1) statuses
      else Some Send_notify_manager)"

definition listen_continues :: "client_status_t \<Rightarrow> bool" where
  "listen_continues status \<longleftrightarrow> status = cs_success \<or> status = cs_timeout \<or> status = cs_unknown_packet"

lemma recv_exact_events:
  "recv_exact need got rx evs = Some (st, bs, rx', evs') \<Longrightarrow>
     length evs' \<le> length evs \<and> (length got < need \<longrightarrow> length evs' < length evs)"
  by (induction need got rx evs rule: recv_exact.induct)
    (fastforce simp: Let_def split: if_splits recv_event.splits)+

lemma listen_to_server_events:
  assumes "listen_to_server native reg rx evs = Inr (Some (st, p, rx', evs'))"
  shows "length evs' < length evs"
proof -
  obtain st1 bs1 rx1 evs1 where r1: "recv_exact 2 [] rx evs = Some (st1, bs1, rx1, evs1)"
    using assms by (auto simp: listen_to_server_def recv_payload_id_def split: option.splits)
  then have less: "length evs1 < length evs" using recv_exact_events by fastforce
  have "length evs' \<le> length evs1"
    using assms r1
    by (fastforce simp: listen_to_server_def recv_payload_id_def recv_payload_def rbind_eq_Inr_iff Let_def
      split: option.splits if_splits dest: recv_exact_events)
  with less show ?thesis by simp
qed

text \<open>
  The listen task, with the calls its message callbacks make. \<open>None\<close> as the second component means
  that it still waits for the stream; otherwise it has notified the manager.
\<close>

function listen_task_run ::
    "endian \<Rightarrow> registry_t \<Rightarrow> tcp_message_handler_t \<Rightarrow> byte list \<Rightarrow> recv_event list \<Rightarrow>
     (bus_call list \<times> client_status_t option) result" where
  "listen_task_run native reg h rx evs =
     (case listen_to_server native reg rx evs of
        Inl e \<Rightarrow> Inl e
      | Inr None \<Rightarrow> Inr ([], None)
      | Inr (Some (st, p, rx', evs')) \<Rightarrow>
          rbind (case p of None \<Rightarrow> Inr [] | Some m \<Rightarrow> on_message h m) (\<lambda>calls.
          if listen_continues st
          then rbind (listen_task_run native reg h rx' evs') (\<lambda>(calls', out). Inr (calls @ calls', out))
          else Inr (calls, Some st)))"
  by pat_completeness auto
termination
  by (relation "measure (\<lambda>(native, reg, h, rx, evs). length evs)") (auto dest: listen_to_server_events)

declare listen_task_run.simps [simp del]

record tcp_manager_t =
  mg_client :: tcp_client_t
  send_task :: bool
  listen_task :: bool

definition manager_init :: tcp_manager_t where
  "manager_init = \<lparr>mg_client = register_messages tcp_client_init, send_task = False, listen_task = False\<rparr>"

text \<open>One attempt to connect; after a success the two tasks are started.\<close>

definition manager_try_connect :: "connect_env \<Rightarrow> tcp_manager_t \<Rightarrow> tcp_manager_t" where
  "manager_try_connect env m =
     (let (status, c) = try_connect env (mg_client m)
      in if status = cs_success then m\<lparr>mg_client := c, send_task := True, listen_task := True\<rparr>
         else m\<lparr>mg_client := c\<rparr>)"

text \<open>A task has notified the manager.\<close>

definition manager_notified :: "bool \<Rightarrow> tcp_manager_t \<Rightarrow> tcp_manager_t" where
  "manager_notified close_fails m =
     m\<lparr>send_task := False, listen_task := False, mg_client := snd (client_disconnect close_fails (mg_client m))\<rparr>"

text \<open>The loop of the manager; the number counts the connections it has made.\<close>

inductive manager_run :: "nat \<Rightarrow> tcp_manager_t \<Rightarrow> bool" where
  manager_start: "manager_run 0 manager_init"
| manager_retry: "manager_run n m \<Longrightarrow> \<not> listen_task m \<Longrightarrow> fst (try_connect env (mg_client m)) \<noteq> cs_success \<Longrightarrow>
    manager_run n (manager_try_connect env m)"
| manager_connect: "manager_run n m \<Longrightarrow> \<not> listen_task m \<Longrightarrow> fst (try_connect env (mg_client m)) = cs_success \<Longrightarrow>
    manager_run (Suc n) (manager_try_connect env m)"
| manager_lost: "manager_run n m \<Longrightarrow> listen_task m \<Longrightarrow> manager_run n (manager_notified close_fails m)"

section \<open>Receiving in any fragmentation\<close>

definition delivers :: "recv_event list \<Rightarrow> bool" where
  "delivers evs \<longleftrightarrow> list_all (\<lambda>e. \<exists>k. e = Deliver k) evs"

lemma delivers_simps [simp]:
  "delivers []" "delivers (e # evs) \<longleftrightarrow> (\<exists>k. e = Deliver k) \<and> delivers evs"
  by (simp_all add: delivers_def)

lemma recv_exact_delivers:
  assumes "delivers evs" and "need - length got \<le> length rx" and "need - length got \<le> length evs" and "length got \<le> need"
  shows "\<exists>evs'. recv_exact need got rx evs =
      Some (cs_success, got @ take (need - length got) rx, drop (need - length got) rx, evs') \<and>
    delivers evs' \<and> length evs \<le> length evs' + (need - length got)"
  using assms
proof (induction evs arbitrary: got rx)
  case Nil
  then show ?case by simp
next
  case (Cons e evs)
  then obtain k where e: "e = Deliver k" "delivers evs" by auto
  show ?case
  proof (cases "length got < need")
    case False
    with Cons.prems e show ?thesis by simp
  next
    case True
    define n where "n = min (k + 1) (need - length got)"
    define d where "d = need - length got - n"
    have n: "n \<le> length rx" "0 < n" "need - length got = n + d" "rx \<noteq> []"
      using True Cons.prems(2) by (auto simp: n_def d_def)
    have len: "need - length (got @ take n rx) = d" "length (got @ take n rx) \<le> need"
      using n(1) True by (simp_all add: d_def n_def)
    have room: "d \<le> length (drop n rx)" "d \<le> length evs" using Cons.prems(2,3) n by auto
    obtain evs' where evs': "recv_exact need (got @ take n rx) (drop n rx) evs =
        Some (cs_success, (got @ take n rx) @ take d (drop n rx), drop d (drop n rx), evs')"
      "delivers evs'" "length evs \<le> length evs' + d"
      using Cons.IH [of "got @ take n rx" "drop n rx", unfolded len(1), OF e(2) room len(2)] by blast
    have "recv_exact need got rx (e # evs) = recv_exact need (got @ take n rx) (drop n rx) evs"
      using True n(4) e(1) by (simp add: n_def Let_def)
    moreover have "take (n + d) rx = take n rx @ take d (drop n rx)" by (rule take_add)
    moreover have "length (e # evs) \<le> length evs' + (n + d)" using evs'(3) n(2) by simp
    ultimately show ?thesis using evs'(1,2) unfolding n(3) by (simp add: add.commute)
  qed
qed

lemma recv_frame_part:
  assumes "delivers evs" and "rx = bs @ rest" and "length bs \<le> length evs"
  shows "\<exists>evs'. recv_exact (length bs) [] rx evs = Some (cs_success, bs, rest, evs') \<and>
    delivers evs' \<and> length evs \<le> length evs' + length bs"
  using recv_exact_delivers [of evs "length bs" "[]" rx] assms by simp

text \<open>One frame of a message the client has registered.\<close>

lemma listen_frame:
  assumes "registry_ok reg" and "registered reg (kind_of p)" and "delivers evs" and "packet_size (kind_of p) \<le> length evs"
  shows "\<exists>evs'. listen_to_server native reg (frame native p @ rest) evs = Inr (Some (cs_success, Some p, rest, evs')) \<and>
    delivers evs' \<and> length evs \<le> length evs' + packet_size (kind_of p)"
proof -
  let ?h = "take 2 (frame native p)" and ?b = "drop 2 (frame native p)"
  have h: "length ?h = 2" "length ?b = payload_size (kind_of p)"
    by (simp_all add: packet_size_def)
  have split: "frame native p @ rest = ?h @ ?b @ rest"
    by (simp only: append_assoc [symmetric] append_take_drop_id)
  obtain evs1 where r1: "recv_exact 2 [] (frame native p @ rest) evs = Some (cs_success, ?h, ?b @ rest, evs1)"
    "delivers evs1" "length evs \<le> length evs1 + 2"
    using recv_frame_part [OF assms(3) split] assms(4) unfolding h by (auto simp: packet_size_def)
  obtain evs2 where r2: "recv_exact (payload_size (kind_of p)) [] (?b @ rest) evs1 = Some (cs_success, ?b, rest, evs2)"
    "delivers evs2" "length evs1 \<le> length evs2 + payload_size (kind_of p)"
    using recv_frame_part [OF r1(2), of "?b @ rest" ?b rest] r1(3) assms(4) unfolding h by (auto simp: packet_size_def)
  let ?buf = "overwrite 0 ?h (replicate 13 0)"
  have buf: "length ?buf = 13" "take 2 ?buf = ?h" using h(1) by (simp_all add: overwrite_def)
  have "expected_payload_size reg (of_object_bytes native ?h) = Some (payload_size (kind_of p))"
    using framing.expected_frame [OF assms(1), of p native] assms(2) by simp
  moreover have "dispatch native reg (of_object_bytes native ?h) (overwrite 2 ?b ?buf) (payload_size (kind_of p) + 2) = Inr (Some p)"
    using framing.deliver_overwritten [OF assms(1) _ buf(1), of p native] assms(2) by (simp add: add.commute)
  ultimately have "listen_to_server native reg (frame native p @ rest) evs = Inr (Some (cs_success, Some p, rest, evs2))"
    using r1(1) r2(1) buf payload_size_le [of "kind_of p"] h(2)
    unfolding listen_to_server_def recv_payload_id_def recv_payload_def
    by (simp del: take_frame drop_frame add: Let_def)
  with r1(3) r2(2,3) show ?thesis by (auto simp: packet_size_def)
qed

text \<open>
  A frame of a message the client has not registered: its id is taken from the stream, its
  payload is not.
\<close>

lemma listen_frame_unregistered:
  assumes "registry_ok reg" and "\<not> registered reg (kind_of p)" and "delivers evs" and "2 \<le> length evs"
  shows "\<exists>evs'. listen_to_server native reg (frame native p @ rest) evs =
      Inr (Some (cs_unknown_packet, None, packet_enc p @ rest, evs')) \<and>
    delivers evs' \<and> length evs \<le> length evs' + 2"
proof -
  let ?id = "of_nat (type_index (kind_of p)) :: packet_id_t"
  let ?h = "object_bytes native ?id"
  have h: "length ?h = 2" by simp
  have split: "frame native p @ rest = ?h @ packet_enc p @ rest" by (simp add: frame_def)
  obtain evs1 where r1: "recv_exact 2 [] (frame native p @ rest) evs = Some (cs_success, ?h, packet_enc p @ rest, evs1)"
    "delivers evs1" "length evs \<le> length evs1 + 2"
    using recv_frame_part [OF assms(3) split] assms(4) unfolding h by auto
  let ?buf = "overwrite 0 ?h (replicate 13 0)"
  have buf: "length ?buf = 13" "take 2 ?buf = ?h" using h by (simp_all add: overwrite_def)
  have none: "recv_exact 0 [] rx evs1 = Some (cs_success, [], rx, evs1)" for rx
    by (cases evs1) simp_all
  have "dispatch native reg ?id bs (Suc (Suc 0)) = Inr None" for bs
    using assms(1,2) by (simp add: dispatch_registered)
  then have "listen_to_server native reg (frame native p @ rest) evs =
      Inr (Some (cs_unknown_packet, None, packet_enc p @ rest, evs1))"
    using r1(1) buf none expected_payload_size_eq [OF assms(1), of "kind_of p"] assms(2)
    unfolding listen_to_server_def recv_payload_id_def recv_payload_def
    by (simp add: Let_def)
  with r1(2,3) show ?thesis by auto
qed

lemma listen_end_of_stream: "delivers evs \<Longrightarrow> listen_to_server native reg [] evs = Inr None"
  by (cases evs) (auto simp: listen_to_server_def recv_payload_id_def)

text \<open>The calls the client makes for a message of the host.\<close>

definition handled :: "registry_t \<Rightarrow> tcp_message_handler_t \<Rightarrow> packet \<Rightarrow> bus_call list" where
  "handled reg h p =
     (if registered reg (kind_of p) then case on_message h p of Inl e \<Rightarrow> [] | Inr calls \<Rightarrow> calls else [])"

lemma on_message_ok: "has_bus h \<Longrightarrow> \<exists>calls. on_message h p = Inr calls"
  by (cases p) (simp_all add: on_init_request_def on_motor_control_def on_station_add_def handle_error_def)

definition client_registry :: registry_t where
  "client_registry = cl_registry (register_messages tcp_client_init)"

lemma client_registry_ok: "registry_ok client_registry"
  by (simp add: client_registry_def register_messages_def register_receieve_callback_def tcp_client_init_def
    registry_ok_register registry_ok_init)

lemma client_registered [simp]:
  "registered client_registry t \<longleftrightarrow> t = K_esp_init_request \<or> t = K_motor_control \<or> t = K_rail_destination"
  by (auto simp: client_registry_def register_messages_def register_receieve_callback_def tcp_client_init_def
    registry_ok_register registry_ok_init)

text \<open>The kinds of message the host sends.\<close>

definition host_message :: "packet \<Rightarrow> bool" where
  "host_message p \<longleftrightarrow> registered client_registry (kind_of p) \<or> kind_of p = K_heartbeat"

lemma listen_host_message:
  assumes "host_message p" and "delivers evs" and "packet_size (kind_of p) \<le> length evs"
  obtains st m evs' where "listen_to_server native client_registry (frame native p @ rest) evs = Inr (Some (st, m, rest, evs'))"
    and "listen_continues st" and "m = (if registered client_registry (kind_of p) then Some p else None)"
    and "delivers evs'" and "length evs \<le> length evs' + packet_size (kind_of p)"
proof (cases "registered client_registry (kind_of p)")
  case True
  with listen_frame [OF client_registry_ok True assms(2,3), of native rest] that show ?thesis
    by (auto simp: listen_continues_def)
next
  case False
  with assms(1) obtain x where p: "p = P_heartbeat x" by (cases p) (auto simp: host_message_def)
  from listen_frame_unregistered [OF client_registry_ok False assms(2), of native rest] assms(3) p that False
  show ?thesis by (auto simp: listen_continues_def packet_size_def)
qed

lemma listen_task_run_frames:
  assumes "has_bus h" and "\<forall>p \<in> set ps. host_message p" and "delivers evs" and "length (frames native ps) \<le> length evs"
  shows "listen_task_run native client_registry h (frames native ps) evs =
    Inr (concat (map (handled client_registry h) ps), None)"
  using assms(2-)
proof (induction ps arbitrary: evs)
  case Nil
  then show ?case
    by (subst listen_task_run.simps) (simp add: listen_end_of_stream)
next
  case (Cons p ps)
  obtain st m evs' where l: "listen_to_server native client_registry (frame native p @ frames native ps) evs = Inr (Some (st, m, frames native ps, evs'))"
    "listen_continues st" "m = (if registered client_registry (kind_of p) then Some p else None)"
    "delivers evs'" "length evs \<le> length evs' + packet_size (kind_of p)"
    using listen_host_message [of p evs native "frames native ps"] Cons.prems by auto
  have rest: "listen_task_run native client_registry h (frames native ps) evs' =
      Inr (concat (map (handled client_registry h) ps), None)"
    using Cons.prems l(4,5) by (intro Cons.IH) auto
  obtain calls where "on_message h p = Inr calls" using on_message_ok [OF assms(1)] by blast
  with l rest show ?case
    by (subst listen_task_run.simps) (simp add: handled_def)
qed

section \<open>Properties\<close>

text \<open>
  C15. The client handles every message of the host, once and in order, however the network
  fragments the stream: when the host sends messages of the kinds it sends and all their bytes
  arrive, in pieces of any size, the listen task makes the calls for these messages one after the
  other and then waits for more. Heartbeats, for which the client has no callback, are skipped
  without losing the boundaries of the messages behind them.
\<close>

theorem listen_task_handles_all:
  assumes "has_bus h" and "\<forall>p \<in> set ps. host_message p" and "delivers evs" and "length (frames native ps) \<le> length evs"
  shows "listen_task_run native client_registry h (frames native ps) evs =
    Inr (concat (map (handled client_registry h) ps), None)"
  using assms by (rule listen_task_run_frames)

theorem listen_task_handles_all_witness:
  "listen_task_run little_endian client_registry (handler_init True)
     (frames little_endian [P_heartbeat Heartbeat, P_esp_init_request \<lparr>req_id = 9\<rparr>])
     (map Deliver [0, 7, 0, 0, 2, 1]) =
   Inr ([Outgoing (Ev_init_respond \<lparr>res_id = 9\<rparr>), Connection_callback 9], None)"
proof -
  let ?ps = "[P_heartbeat Heartbeat, P_esp_init_request \<lparr>req_id = 9\<rparr>]"
  have "has_bus (handler_init True)" "\<forall>p \<in> set ?ps. host_message p" "delivers (map Deliver [0, 7, 0, 0, 2, 1])"
    "length (frames little_endian ?ps) \<le> length (map Deliver [0, 7, 0, 0, 2, 1])"
    by (simp_all add: handler_init_def host_message_def packet_size_def)
  from listen_task_handles_all [OF this] show ?thesis
    by (simp add: handled_def on_init_request_def handle_error_def handler_init_def)
qed

text \<open>
  A timeout inside a message loses the stream position: when one byte of a message has
  arrived and the receive then times out, the byte read is discarded with the buffer, the task
  goes on listening, and the next message is read from the second byte of the old one on.
\<close>

theorem timeout_inside_message_loses_bytes:
  "listen_to_server native reg (b # rest) (Deliver 0 # Recv_timeout # evs) = Inr (Some (cs_timeout, None, rest, evs)) \<and>
   listen_task_run native reg h (b # rest) (Deliver 0 # Recv_timeout # evs) = listen_task_run native reg h rest evs"
proof -
  have l: "listen_to_server native reg (b # rest) (Deliver 0 # Recv_timeout # evs) = Inr (Some (cs_timeout, None, rest, evs))"
    by (simp add: listen_to_server_def recv_payload_id_def)
  moreover have "rbind r (\<lambda>(calls', out). Inr (calls', out)) = r" for r :: "(bus_call list \<times> client_status_t option) result"
    by (cases r) auto
  ultimately show ?thesis
    by (subst listen_task_run.simps) (simp add: listen_continues_def)
qed

lemma send_to_server_eq: "send_to_server native p evs = Inr (send_loop (frame native p) [] evs)"
  using packet_size_le [of "kind_of p"] by (simp add: send_to_server_def create_eq)

lemma send_loop_prefix:
  "send_loop bs out evs = Some (st, out', evs') \<Longrightarrow>
     (\<exists>rest. out @ bs = out' @ rest \<and> (st = cs_success \<longrightarrow> rest = [])) \<and> st \<noteq> cs_timeout"
proof (induction bs out evs rule: send_loop.induct)
  case (3 b bs out k evs)
  then show ?case by (metis append.assoc append_take_drop_id send_loop.simps(3))
qed auto

lemma send_loop_accepts:
  "list_all (\<lambda>e. \<exists>k. e = Accept k) evs \<Longrightarrow> length bs \<le> length evs \<Longrightarrow>
     \<exists>evs'. send_loop bs out evs = Some (cs_success, out @ bs, evs')"
proof (induction bs out evs rule: send_loop.induct)
  case (3 b bs out k evs)
  then have "\<exists>evs'. send_loop (drop (k + 1) (b # bs)) (out @ take (k + 1) (b # bs)) evs =
      Some (cs_success, (out @ take (k + 1) (b # bs)) @ drop (k + 1) (b # bs), evs')"
    by simp
  then show ?case by (simp only: send_loop.simps append_assoc append_take_drop_id)
qed auto

text \<open>
  Sending: the bytes handed to the network are a prefix of the frame of the message, all of
  it when \<open>send_to_server\<close> reports success; it never reports a timeout, so the retry loop of the send
  task makes exactly one attempt; and if the network takes at least one byte per call it returns
  with success.
\<close>

theorem send_to_server_frame:
  assumes "list_all (\<lambda>e. \<exists>k. e = Accept k) accepts" and "length (frame native p) \<le> length accepts"
  shows "(\<exists>evs'. send_to_server native p accepts = Inr (Some (cs_success, frame native p, evs'))) \<and>
    (\<forall>evs st out evs'. send_to_server native p evs = Inr (Some (st, out, evs')) \<longrightarrow>
       (\<exists>rest. frame native p = out @ rest \<and> (st = cs_success \<longrightarrow> rest = [])) \<and>
       (\<forall>n statuses. 0 < n \<longrightarrow>
          send_attempts n 0 (st # statuses) = Some (if st = cs_success then Next_event else Send_notify_manager)))"
proof -
  note eq = send_to_server_eq [of native p]
  then have "\<exists>evs'. send_to_server native p accepts = Inr (Some (cs_success, frame native p, evs'))"
    using send_loop_accepts [OF assms, of "[]"] by simp
  moreover have "(\<exists>rest. frame native p = out @ rest \<and> (st = cs_success \<longrightarrow> rest = [])) \<and>
      (\<forall>n statuses. 0 < n \<longrightarrow>
         send_attempts n 0 (st # statuses) = Some (if st = cs_success then Next_event else Send_notify_manager))"
    if "send_to_server native p evs = Inr (Some (st, out, evs'))" for evs st out evs'
  proof -
    from that have "send_loop (frame native p) [] evs = Some (st, out, evs')" by (simp add: eq)
    from send_loop_prefix [OF this] show ?thesis by auto
  qed
  ultimately show ?thesis by blast
qed

theorem send_to_server_frame_witness:
  "\<exists>evs'. send_to_server little_endian (P_esp_init_response \<lparr>res_id = 9\<rparr>) (map Accept [0, 5, 0, 0]) =
     Inr (Some (cs_success, frame little_endian (P_esp_init_response \<lparr>res_id = 9\<rparr>), evs'))"
proof -
  have "list_all (\<lambda>e. \<exists>k. e = Accept k) (map Accept [0, 5, 0, 0])"
    "length (frame little_endian (P_esp_init_response \<lparr>res_id = 9\<rparr>)) \<le> length (map Accept [0, 5, 0, 0])"
    by (simp_all add: packet_size_def)
  from send_to_server_frame [OF this] show ?thesis by blast
qed

text \<open>
  The manager keeps its tasks and its socket together, and leaks: while the tasks run the client
  is connected, and after the n-th connection at least n lists of addresses returned by
  \<open>getaddrinfo\<close> have not been freed.
\<close>

theorem manager_run_leaks_addrinfo:
  assumes "manager_run n m"
  shows "(listen_task m \<longrightarrow> is_connected (mg_client m)) \<and> send_task m = listen_task m \<and>
    n \<le> live_addrinfo (mg_client m)"
  using assms
proof induction
  case manager_start
  show ?case
    by (simp add: manager_init_def register_messages_def register_receieve_callback_def tcp_client_init_def)
next
  case (manager_retry n m env)
  then show ?case
    by (auto simp: manager_try_connect_def try_connect_def Let_def split: if_splits)
next
  case (manager_connect n m env)
  then show ?case
    by (auto simp: manager_try_connect_def try_connect_def is_connected_def Let_def split: if_splits)
next
  case (manager_lost n m close_fails)
  then show ?case
    by (auto simp: manager_notified_def client_disconnect_def)
qed

theorem manager_run_leaks_addrinfo_witness:
  "\<exists>m. manager_run 1 m \<and> is_connected (mg_client m) \<and> 1 \<le> live_addrinfo (mg_client m)"
proof -
  let ?env = "\<lparr>resolved = True, list_on_failure = False, new_fd = 3, connected = True\<rparr>"
  have run: "manager_run (Suc 0) (manager_try_connect ?env manager_init)"
    by (rule manager_connect [OF manager_start]) (simp_all add: manager_init_def try_connect_def)
  moreover have "listen_task (manager_try_connect ?env manager_init)"
    by (simp add: manager_try_connect_def try_connect_def)
  ultimately show ?thesis using manager_run_leaks_addrinfo [OF run] by auto
qed

end
