(* ===== verification/Client_Nfc.thy ===== *)
theory Client_Nfc
  imports Client_Tcp
begin

text \<open>
  Reading the tags on the rails, \<open>client/main/nfc/\<close>: the NDEF parser (\<open>ndef_parser.{hpp,cpp}\<close>), the
  record on a rail tag (\<open>rail_nfc.hpp\<close>), the tag and the reader (\<open>nfc_tag\<close>, \<open>nfc_reader\<close>), and the
  task that scans (\<open>nfc_task\<close>).

  A view (\<open>std::span\<close>, \<open>std::string_view\<close>) is an offset and a length into the array of the tag; it
  must not reach beyond the array. What the PN532 driver answers is an argument: the
  outcome of a scan, and for each page the sixteen bytes read or \<open>None\<close>.
\<close>

section \<open>NDEF parser\<close>

record byte_view =
  v_off :: nat
  v_len :: nat

record ndef_record_view_t =
  nv_type :: byte_view
  nv_payload :: byte_view

definition empty_view :: byte_view where
  "empty_view = \<lparr>v_off = 0, v_len = 0\<rparr>"

definition mk_view :: "byte list \<Rightarrow> nat \<Rightarrow> nat \<Rightarrow> byte_view result" where
  "mk_view mem off n = (if off + n \<le> length mem then Inr \<lparr>v_off = off, v_len = n\<rparr> else Inl Out_of_bounds)"

definition view_bytes :: "byte list \<Rightarrow> byte_view \<Rightarrow> byte list" where
  "view_bytes mem v = take (v_len v) (drop (v_off v) mem)"

text \<open>\<open>operator[]\<close> of a view.\<close>

definition view_nth :: "byte list \<Rightarrow> byte_view \<Rightarrow> nat \<Rightarrow> byte result" where
  "view_nth mem v i = nth_chk (view_bytes mem v) i"

definition is_short_record :: "uint8 \<Rightarrow> bool" where
  "is_short_record header \<longleftrightarrow> header AND 0x10 \<noteq> 0"

definition has_id_length :: "uint8 \<Rightarrow> bool" where
  "has_id_length header \<longleftrightarrow> header AND 0x08 \<noteq> 0"

text \<open>Finds the record inside the message block; an empty view where there is none.\<close>

definition try_get_record_view :: "byte list \<Rightarrow> byte_view \<Rightarrow> byte_view result" where
  "try_get_record_view mem data =
     rbind (view_nth mem data 0) (\<lambda>tag.
     if tag \<noteq> 0x03 then Inr empty_view
     else rbind (view_nth mem data 1) (\<lambda>len_byte.
     if len_byte = 0xFF
     then if 2 + 2 > v_len data then Inr empty_view
          else rbind (view_nth mem data 2) (\<lambda>hi.
               rbind (view_nth mem data 3) (\<lambda>lo.
               let record_length = (push_bit 8 (ucast hi) OR ucast lo :: uint16)
               in if 4 + unat record_length > v_len data then Inr empty_view
                  else mk_view mem (v_off data + 4) (unat record_length)))
     else if 2 + unat len_byte > v_len data then Inr empty_view
          else mk_view mem (v_off data + 2) (unat len_byte)))"

text \<open>The loop that reads the four length bytes of a long record; \<open>index\<close> is an 8-bit counter.\<close>

fun long_length :: "nat \<Rightarrow> byte list \<Rightarrow> byte_view \<Rightarrow> uint8 \<Rightarrow> uint32 \<Rightarrow> (uint32 \<times> uint8) result" where
  "long_length 0 mem data index acc = Inr (acc, index)"
| "long_length (Suc n) mem data index acc =
     rbind (view_nth mem data (unat index)) (\<lambda>b.
       long_length n mem data (index + 1) (push_bit 8 acc OR ucast b))"

definition get_payload_length :: "uint8 \<Rightarrow> byte list \<Rightarrow> byte_view \<Rightarrow> uint8 \<Rightarrow> (uint32 \<times> uint8) result" where
  "get_payload_length header mem data index =
     (if is_short_record header
      then if unat index \<ge> v_len data then Inr (0, index)
           else rbind (view_nth mem data (unat index)) (\<lambda>b. Inr (ucast b, index + 1))
      else long_length 4 mem data index 0)"

definition get_id_length :: "uint8 \<Rightarrow> byte list \<Rightarrow> byte_view \<Rightarrow> uint8 \<Rightarrow> (uint8 \<times> uint8) result" where
  "get_id_length header mem data index =
     (if has_id_length header
      then rbind (view_nth mem data (unat index)) (\<lambda>b. Inr (b, index + 1))
      else Inr (0, index))"

definition ndef_parse :: "byte list \<Rightarrow> byte_view \<Rightarrow> ndef_record_view_t result" where
  "ndef_parse mem data =
     rbind (try_get_record_view mem data) (\<lambda>rv.
     if v_len rv = 0 then Inr \<lparr>nv_type = empty_view, nv_payload = empty_view\<rparr>
     else rbind (view_nth mem rv 0) (\<lambda>header.
          rbind (view_nth mem rv 1) (\<lambda>type_length.
          rbind (get_payload_length header mem rv 2) (\<lambda>(payload_length, index).
          rbind (get_id_length header mem rv index) (\<lambda>(id_length, index).
          rbind (mk_view mem (v_off rv + unat index) (unat type_length)) (\<lambda>type.
          let index = index + type_length + id_length
          in rbind (mk_view mem (v_off rv + unat index) (unat payload_length)) (\<lambda>payload.
             Inr \<lparr>nv_type = type, nv_payload = payload\<rparr>)))))))"

section \<open>The record of a rail\<close>

record rail_nfc_t =
  rn_rail_id :: rail_id_t
  rn_type :: rail_type_t

definition rail_nfc_deserialise :: "endian \<Rightarrow> byte list \<Rightarrow> rail_nfc_t result" where
  "rail_nfc_deserialise native payload =
     rbind (serialise_read native Integral payload) (\<lambda>(rail, payload).
     rbind (serialise_read native Other_trivial payload) (\<lambda>(type, payload).
       Inr \<lparr>rn_rail_id = rail, rn_type = type\<rparr>))"

section \<open>Tags\<close>

definition c_max_nfc_user_memory :: nat where
  "c_max_nfc_user_memory = 888"

definition c_max_uid_length :: nat where
  "c_max_uid_length = 10"

datatype ntag_model = NTAG213 | NTAG215 | NTAG216 | NTAG_UNKNOWN

record nfc_tag_t =
  m_uid :: "byte list"
  m_uid_length :: uint8
  m_data :: "byte list"
  m_read_bytes :: nat
  m_ntag_model :: ntag_model

definition nfc_tag_init :: nfc_tag_t where
  "nfc_tag_init = \<lparr>m_uid = replicate c_max_uid_length 0, m_uid_length = 0,
     m_data = replicate c_max_nfc_user_memory 0, m_read_bytes = 0, m_ntag_model = NTAG_UNKNOWN\<rparr>"

definition set_model :: "ntag_model \<Rightarrow> nfc_tag_t \<Rightarrow> nfc_tag_t" where
  "set_model ntag tag = tag\<lparr>m_ntag_model := ntag\<rparr>"

definition set_uid :: "byte list \<Rightarrow> uint8 \<Rightarrow> nfc_tag_t \<Rightarrow> nfc_tag_t" where
  "set_uid uid n tag = tag\<lparr>m_uid := uid, m_uid_length := n\<rparr>"

definition set_payload :: "byte list \<Rightarrow> nat \<Rightarrow> nfc_tag_t \<Rightarrow> nfc_tag_t" where
  "set_payload bs n tag = tag\<lparr>m_data := bs, m_read_bytes := n\<rparr>"

definition get_uid :: "nfc_tag_t \<Rightarrow> byte list result" where
  "get_uid tag = (if unat (m_uid_length tag) \<le> length (m_uid tag)
     then Inr (take (unat (m_uid_length tag)) (m_uid tag)) else Inl Out_of_bounds)"

definition get_record :: "nfc_tag_t \<Rightarrow> ndef_record_view_t result" where
  "get_record tag = rbind (mk_view (m_data tag) 0 (m_read_bytes tag)) (ndef_parse (m_data tag))"

definition uid_equals :: "nfc_tag_t \<Rightarrow> byte list \<Rightarrow> bool" where
  "uid_equals tag uid \<longleftrightarrow> m_uid tag = uid"

section \<open>Reader\<close>

datatype nfc_read_state_t = nfc_fail | partical_read | full_read

definition c_user_start_page :: nat where
  "c_user_start_page = 4"

text \<open>The model is asked for only when it is not known yet.\<close>

definition get_user_page_end :: "ntag_model \<Rightarrow> nfc_tag_t \<Rightarrow> int \<times> nfc_tag_t" where
  "get_user_page_end asked tag =
     (let tag = (if m_ntag_model tag = NTAG_UNKNOWN then set_model asked tag else tag)
      in (case m_ntag_model tag of NTAG213 \<Rightarrow> 39 | NTAG215 \<Rightarrow> 129 | NTAG216 \<Rightarrow> 225 | NTAG_UNKNOWN \<Rightarrow> - 1, tag))"

text \<open>The loop over the pages; \<open>pages p\<close> is what the driver reads at page \<open>p\<close>.\<close>

function read_pages ::
    "(nat \<Rightarrow> byte list option) \<Rightarrow> nat \<Rightarrow> nat \<Rightarrow> byte list \<Rightarrow> nat \<Rightarrow> (nfc_read_state_t \<times> byte list \<times> nat) result" where
  "read_pages pages end_page page data bytes_read =
     (if page \<le> end_page
      then case pages page of
             None \<Rightarrow> Inr (partical_read, data, bytes_read)
           | Some buf \<Rightarrow>
               let offset = (page - c_user_start_page) * 4
               in if offset + 16 > length data then Inl Out_of_bounds
                  else read_pages pages end_page (page + 4) (overwrite offset (take 16 buf) data) (bytes_read + 16)
      else Inr (full_read, data, bytes_read))"
  by pat_completeness auto
termination
  by (relation "measure (\<lambda>(pages, end_page, page, data, n). Suc end_page - page)") auto

declare read_pages.simps [simp del]

text \<open>\<open>garbage\<close> is the initial content of the array, which the source does not initialise.\<close>

definition read_page ::
    "ntag_model \<Rightarrow> (nat \<Rightarrow> byte list option) \<Rightarrow> byte list \<Rightarrow> nfc_tag_t \<Rightarrow> (nfc_read_state_t \<times> nfc_tag_t) result" where
  "read_page asked pages garbage tag =
     (let (end_page, tag) = get_user_page_end asked tag
      in if end_page < 0 then Inr (nfc_fail, tag)
         else rbind (read_pages pages (nat end_page) c_user_start_page garbage 0) (\<lambda>(state, data, bytes_read).
              Inr (state, set_payload data bytes_read tag)))"

text \<open>What one scan yields: nothing, or a tag with its uid, model and pages.\<close>

record scan =
  sc_uid :: "byte list"
  sc_uid_length :: uint8
  sc_model :: ntag_model
  sc_pages :: "nat \<Rightarrow> byte list option"
  sc_garbage :: "byte list"

definition wait_for_tag :: "scan option \<Rightarrow> nfc_tag_t \<Rightarrow> (nfc_read_state_t \<times> nfc_tag_t) result" where
  "wait_for_tag sc tag =
     (case sc of
        None \<Rightarrow> Inr (nfc_fail, tag)
      | Some s \<Rightarrow> read_page (sc_model s) (sc_pages s) (sc_garbage s) (set_uid (sc_uid s) (sc_uid_length s) tag))"

section \<open>The scanning task\<close>

datatype nfc_call = Send_rail_location rail_location_t | Current_rail rail_id_t

definition rail_type_name :: "byte list" where
  "rail_type_name = map (\<lambda>c. of_nat (of_char c)) ''rail''"

definition process_tag :: "endian \<Rightarrow> esp_id_t \<Rightarrow> nfc_tag_t \<Rightarrow> nfc_call list result" where
  "process_tag native train_id tag =
     rbind (get_record tag) (\<lambda>rec.
     if view_bytes (m_data tag) (nv_type rec) = rail_type_name
     then rbind (rail_nfc_deserialise native (view_bytes (m_data tag) (nv_payload rec))) (\<lambda>rail.
          Inr [Send_rail_location \<lparr>rl_id = train_id, rl_rail_id = rn_rail_id rail, rl_type = rn_type rail\<rparr>,
               Current_rail (rn_rail_id rail)])
     else Inr [])"

text \<open>One turn of the loop, with the array \<open>previous_tag\<close>.\<close>

definition nfc_task_step ::
    "endian \<Rightarrow> esp_id_t \<Rightarrow> scan option \<Rightarrow> byte list \<Rightarrow> (nfc_call list \<times> byte list) result" where
  "nfc_task_step native train_id sc previous_tag =
     rbind (wait_for_tag sc nfc_tag_init) (\<lambda>(state, tag).
     if state = nfc_fail then Inr ([], previous_tag)
     else if uid_equals tag previous_tag then Inr ([], previous_tag)
     else rbind (get_uid tag) (\<lambda>uid.
          rbind (process_tag native train_id tag) (\<lambda>calls. Inr (calls, overwrite 0 uid previous_tag))))"

section \<open>Reading back an NDEF record\<close>

text \<open>A short record in its message block, as a tag writer lays it out.\<close>

definition ndef_record :: "uint8 \<Rightarrow> byte list \<Rightarrow> byte list \<Rightarrow> byte list \<Rightarrow> byte list" where
  "ndef_record header type ident payload =
     [header, of_nat (length type), of_nat (length payload)] @
     (if has_id_length header then [of_nat (length ident)] else []) @ type @ ident @ payload"

definition ndef_message :: "byte list \<Rightarrow> byte list" where
  "ndef_message rec = [0x03, of_nat (length rec)] @ rec"

lemma view_nth_ok: "i < v_len v \<Longrightarrow> v_off v + v_len v \<le> length mem \<Longrightarrow> view_nth mem v i = Inr (mem ! (v_off v + i))"
  by (simp add: view_nth_def view_bytes_def)

lemma view_bytes_middle:
  "mem = pre @ bs @ post \<Longrightarrow> view_bytes mem \<lparr>v_off = length pre, v_len = length bs\<rparr> = bs"
  by (simp add: view_bytes_def)

lemma record_view_of_message:
  assumes "0 < length rec" and "length rec < 255" and "2 + length rec \<le> n" and "n \<le> length (ndef_message rec @ rest)"
  shows "try_get_record_view (ndef_message rec @ rest) \<lparr>v_off = 0, v_len = n\<rparr> = Inr \<lparr>v_off = 2, v_len = length rec\<rparr>"
proof -
  have len: "unat (of_nat (length rec) :: byte) = length rec"
    using assms(2) by (simp add: unat_of_nat)
  then have "(of_nat (length rec) :: byte) \<noteq> 0xFF" using assms(2) by auto
  moreover have "view_nth (ndef_message rec @ rest) \<lparr>v_off = 0, v_len = n\<rparr> 0 = Inr 3"
    "view_nth (ndef_message rec @ rest) \<lparr>v_off = 0, v_len = n\<rparr> 1 = Inr (of_nat (length rec))"
    using assms(3,4) by (simp_all add: view_nth_ok) (simp_all add: ndef_message_def)
  ultimately show ?thesis
    using len assms(3) by (simp add: try_get_record_view_def mk_view_def ndef_message_def)
qed

lemma view_bytes_record: "view_bytes (ndef_message rec @ rest) \<lparr>v_off = 2, v_len = length rec\<rparr> = rec"
  by (simp add: view_bytes_def ndef_message_def)

lemma ndef_roundtrip:
  assumes "is_short_record header" and "length (ndef_record header type ident payload) < 255"
    and "has_id_length header \<or> ident = []"
    and "mem = ndef_message (ndef_record header type ident payload) @ rest"
    and "2 + length (ndef_record header type ident payload) \<le> n" and "n \<le> length mem"
  shows "\<exists>v. ndef_parse mem \<lparr>v_off = 0, v_len = n\<rparr> = Inr v \<and>
    view_bytes mem (nv_type v) = type \<and> view_bytes mem (nv_payload v) = payload"
proof -
  define rec where "rec = ndef_record header type ident payload"
  define k where "k = (if has_id_length header then 4 else 3 :: nat)"
  have mem: "mem = [0x03, of_nat (length rec)] @ rec @ rest"
    using assms(4) by (simp add: rec_def ndef_message_def)
  have lens: "length rec = k + length type + length ident + length payload" "length rec < 255"
    using assms(2) by (simp_all add: rec_def k_def ndef_record_def)
  have pos: "0 < length rec" by (simp add: rec_def ndef_record_def)
  have small: "unat (of_nat (length type) :: byte) = length type" "unat (of_nat (length payload) :: byte) = length payload"
    "unat (of_nat (length ident) :: byte) = length ident"
    using lens by (simp_all add: unat_of_nat)
  let ?rv = "\<lparr>v_off = 2, v_len = length rec\<rparr>"
  have rv: "try_get_record_view mem \<lparr>v_off = 0, v_len = n\<rparr> = Inr ?rv"
    using record_view_of_message [of rec n rest] pos lens(2) assms(4-6) by (simp add: rec_def)
  have bytes: "view_bytes mem ?rv = rec"
    using view_bytes_record [of rec rest] assms(4) by (simp add: rec_def)
  have nth: "view_nth mem ?rv 0 = Inr header" "view_nth mem ?rv 1 = Inr (of_nat (length type))"
    "view_nth mem ?rv 2 = Inr (of_nat (length payload))"
    "has_id_length header \<Longrightarrow> view_nth mem ?rv 3 = Inr (of_nat (length ident))"
    unfolding view_nth_def bytes by (simp_all add: rec_def ndef_record_def nth_chk_def)
  have pc: "ucast (of_nat (length payload) :: byte) = (of_nat (length payload) :: uint32)"
    using lens by (simp add: unsigned_of_nat take_bit_nat_eq_self)
  have plen: "get_payload_length header mem ?rv 2 = Inr (of_nat (length payload), 3)"
    using assms(1) lens nth(3) small(2)
    by (simp add: get_payload_length_def k_def pc split: if_splits)
  have ilen: "get_id_length header mem ?rv 3 = Inr (of_nat (length ident), of_nat k)"
    using nth(4) assms(3) by (auto simp: get_id_length_def k_def)
  have pay32: "unat (of_nat (length payload) :: uint32) = length payload"
    using lens by (simp add: unat_of_nat)
  have i1: "unat (of_nat k :: uint8) = k" by (simp add: k_def)
  have i2: "unat (of_nat k + of_nat (length type) + of_nat (length ident) :: uint8) = k + length type + length ident"
    using lens by (simp add: unat_of_nat flip: of_nat_add)
  let ?v = "\<lparr>nv_type = \<lparr>v_off = 2 + k, v_len = length type\<rparr>,
    nv_payload = \<lparr>v_off = 2 + (k + length type + length ident), v_len = length payload\<rparr>\<rparr>"
  have bound: "2 + k + length type \<le> length mem" "2 + (k + length type + length ident) + length payload \<le> length mem"
    using lens by (simp_all add: mem)
  have parse: "ndef_parse mem \<lparr>v_off = 0, v_len = n\<rparr> = Inr ?v"
    using rv nth plen ilen lens small(1) pay32 i1 i2 bound
    by (simp add: ndef_parse_def mk_view_def Let_def k_def split: if_splits)
  moreover define pre where "pre = [0x03, of_nat (length rec), header, of_nat (length type), of_nat (length payload)] @
    (if has_id_length header then [of_nat (length ident)] else [])"
  have parts: "mem = pre @ type @ ident @ payload @ rest" "length pre = 2 + k"
    unfolding mem rec_def ndef_record_def pre_def by (simp_all add: k_def)
  have "view_bytes mem (nv_type ?v) = type" "view_bytes mem (nv_payload ?v) = payload"
    using view_bytes_middle [of mem pre type "ident @ payload @ rest"]
      view_bytes_middle [of mem "pre @ type @ ident" payload rest] parts
    by (simp_all add: add.assoc)
  ultimately show ?thesis by blast
qed

section \<open>Reading the pages\<close>

definition page_bytes :: "(nat \<Rightarrow> byte list option) \<Rightarrow> nat \<Rightarrow> nat \<Rightarrow> byte list" where
  "page_bytes pages i m = concat (map (\<lambda>j. the (pages (4 + 4 * j))) [i..<i + m])"

definition pages_ok :: "(nat \<Rightarrow> byte list option) \<Rightarrow> bool" where
  "pages_ok pages \<longleftrightarrow> (\<forall>p. \<exists>buf. pages p = Some buf \<and> length buf = 16)"

lemma length_page_bytes: "pages_ok pages \<Longrightarrow> length (page_bytes pages i m) = 16 * m"
proof (induction m)
  case (Suc m)
  then have "length (the (pages (4 + 4 * (i + m)))) = 16"
    unfolding pages_ok_def by (metis option.sel)
  with Suc show ?case by (simp add: page_bytes_def)
qed (simp add: page_bytes_def)

text \<open>The first \<open>m\<close> turns of the loop.\<close>

lemma read_pages_prefix:
  assumes "pages_ok pages" and "4 * m \<le> end_page" and "16 * m \<le> length data"
  shows "read_pages pages end_page 4 data 0 =
    read_pages pages end_page (4 + 4 * m) (overwrite 0 (page_bytes pages 0 m) data) (16 * m)"
  using assms(2,3)
proof (induction m)
  case 0
  then show ?case by (simp add: page_bytes_def)
next
  case (Suc m)
  obtain buf where buf: "pages (4 + 4 * m) = Some buf" "length buf = 16"
    using assms(1) unfolding pages_ok_def by blast
  let ?data = "overwrite 0 (page_bytes pages 0 m) data"
  have len: "length ?data = length data"
    using Suc.prems length_page_bytes [OF assms(1), of 0 m] by simp
  have "read_pages pages end_page 4 data 0 = read_pages pages end_page (4 + 4 * m) ?data (16 * m)"
    using Suc by simp
  also have "\<dots> = read_pages pages end_page (4 + 4 * m + 4) (overwrite (16 * m) buf ?data) (16 * m + 16)"
    using Suc.prems buf len by (subst read_pages.simps) (simp add: c_user_start_page_def Let_def)
  also have "overwrite (16 * m) buf ?data = overwrite 0 (page_bytes pages 0 m @ buf) data"
    using overwrite_overwrite [of 0 "page_bytes pages 0 m" buf data] length_page_bytes [OF assms(1), of 0 m]
      Suc.prems buf(2) by simp
  also have "page_bytes pages 0 m @ buf = page_bytes pages 0 (Suc m)"
    using buf(1) by (simp add: page_bytes_def)
  finally show ?case by (simp add: algebra_simps)
qed

section \<open>Properties\<close>

text \<open>
  C16. A rail tag is understood: when the memory of a tag holds a short NDEF record of type
  \<open>rail\<close>, with or without an identifier, whose payload is the wire format of a rail id and a rail
  type, followed by anything, then processing the tag reports exactly this rail to the server,
  under the id of the train, and passes the rail id to the train controller.
\<close>

theorem rail_tag_processed:
  assumes "is_short_record header" and "has_id_length header \<or> ident = []" and "length ident < 230"
    and "m_data tag = ndef_message (ndef_record header rail_type_name ident (wire rail @ wire type)) @ rest"
    and "m_read_bytes tag \<le> length (m_data tag)" and "20 + length ident \<le> m_read_bytes tag"
  shows "process_tag native train_id tag =
    Inr [Send_rail_location \<lparr>rl_id = train_id, rl_rail_id = rail, rl_type = type\<rparr>, Current_rail rail]"
proof -
  let ?payload = "wire rail @ wire type"
  have len: "length rail_type_name = 4" "length ?payload = 9"
    by (simp_all add: rail_type_name_def)
  have "length (ndef_record header rail_type_name ident ?payload) \<le> 17 + length ident"
    using len by (simp add: ndef_record_def)
  with assms(3,6) have "length (ndef_record header rail_type_name ident ?payload) < 255"
    "2 + length (ndef_record header rail_type_name ident ?payload) \<le> m_read_bytes tag" by simp_all
  from ndef_roundtrip [OF assms(1) this(1) assms(2,4) this(2) assms(5)]
  obtain v where v: "ndef_parse (m_data tag) \<lparr>v_off = 0, v_len = m_read_bytes tag\<rparr> = Inr v"
    "view_bytes (m_data tag) (nv_type v) = rail_type_name" "view_bytes (m_data tag) (nv_payload v) = ?payload"
    by blast
  have "rail_nfc_deserialise native ?payload = Inr \<lparr>rn_rail_id = rail, rn_type = type\<rparr>"
    using serialise_read_wire [where w = type and rest = "[]" and native = native and k = Other_trivial]
    by (simp add: rail_nfc_deserialise_def serialise_read_wire)
  with v assms(5) show ?thesis
    by (simp add: process_tag_def get_record_def mk_view_def)
qed

definition sample_rail_tag :: nfc_tag_t where
  "sample_rail_tag = set_payload
     (ndef_message (ndef_record 0xD4 rail_type_name [] (wire (7 :: rail_id_t) @ wire (1 :: rail_type_t))) @ replicate 870 0)
     144 nfc_tag_init"

theorem rail_tag_processed_witness:
  "process_tag little_endian 3 sample_rail_tag =
     Inr [Send_rail_location \<lparr>rl_id = 3, rl_rail_id = 7, rl_type = 1\<rparr>, Current_rail 7]"
proof -
  have "is_short_record 0xD4" "has_id_length 0xD4 \<or> ([] :: byte list) = []" "length ([] :: byte list) < 230"
    by (simp_all add: is_short_record_def)
  moreover have "m_data sample_rail_tag = ndef_message (ndef_record 0xD4 rail_type_name []
      (wire (7 :: rail_id_t) @ wire (1 :: rail_type_t))) @ replicate 870 0"
    by (simp add: sample_rail_tag_def set_payload_def)
  moreover have "m_read_bytes sample_rail_tag \<le> length (m_data sample_rail_tag)"
    "20 + length ([] :: byte list) \<le> m_read_bytes sample_rail_tag"
    by (simp_all add: sample_rail_tag_def set_payload_def)
  ultimately show ?thesis by (rule rail_tag_processed)
qed



lemma four: "(4 :: nat) = Suc (Suc (Suc (Suc 0)))"
  by simp

lemma long_length_large:
  fixes b3 b2 b1 b0 :: byte
  assumes "b3 \<noteq> 0"
  shows "888 < unat (push_bit 8 (push_bit 8 (push_bit 8 (ucast b3) OR ucast b2) OR ucast b1) OR ucast b0 :: uint32)"
    (is "_ < unat ?p")
proof -
  have "drop_bit 24 ?p = ucast b3"
    by (rule bit_word_eqI) (auto simp: bit_simps dest: bit_imp_le_length)
  then have "unat ?p div 2 ^ 24 = unat b3"
    using unat_drop_bit_eq [of 24 ?p] unsigned_less [where 'a = nat, of b3]
    by (simp add: drop_bit_eq_div unsigned_ucast_eq take_bit_nat_eq_self)
  moreover have "0 < unat b3" using assms by (simp add: unat_gt_0)
  ultimately have "2 ^ 24 \<le> unat ?p" by (metis div_less not_le less_irrefl)
  then show ?thesis by simp
qed

text \<open>
  The parser trusts the lengths on the tag: a long record that announces a payload of 16
  megabytes or more makes the parser build a view far beyond the 888 bytes of the array, and a
  record that ends after its header byte makes it read beyond the record.
\<close>

theorem ndef_parse_unchecked_lengths:
  assumes "\<not> is_short_record header" and "\<not> has_id_length header" and "b3 \<noteq> 0"
    and "rec = [header, tlen, b3, b2, b1, b0] @ body" and "length rec < 255"
    and "mem = ndef_message rec @ rest" and "length mem = 888" and "2 + length rec \<le> n" and "n \<le> 888"
  shows "ndef_parse mem \<lparr>v_off = 0, v_len = n\<rparr> = Inl Out_of_bounds \<and>
    ndef_parse (ndef_message [header] @ rest) \<lparr>v_off = 0, v_len = 3\<rparr> = Inl Out_of_bounds"
proof
  let ?rv = "\<lparr>v_off = 2, v_len = length rec\<rparr>"
  have rv: "try_get_record_view mem \<lparr>v_off = 0, v_len = n\<rparr> = Inr ?rv"
    using record_view_of_message [of rec n rest] assms(4-9) by simp
  have bytes: "view_bytes mem ?rv = rec" using view_bytes_record assms(6) by simp
  have nth: "view_nth mem ?rv 0 = Inr header" "view_nth mem ?rv 1 = Inr tlen" "view_nth mem ?rv 2 = Inr b3"
    "view_nth mem ?rv 3 = Inr b2" "view_nth mem ?rv 4 = Inr b1" "view_nth mem ?rv 5 = Inr b0"
    unfolding view_nth_def bytes by (simp_all add: assms(4) nth_chk_def)
  let ?p = "push_bit 8 (push_bit 8 (push_bit 8 (ucast b3) OR ucast b2) OR ucast b1) OR ucast b0 :: uint32"
  have "get_payload_length header mem ?rv 2 = Inr (?p, 6)"
    unfolding get_payload_length_def four long_length.simps using assms(1) nth(3-) by simp
  moreover have "get_id_length header mem ?rv 6 = Inr (0, 6)" using assms(2) by (simp add: get_id_length_def)
  moreover have "mk_view mem k (unat ?p) = Inl Out_of_bounds" for k
    using long_length_large [OF assms(3), of b2 b1 b0] assms(7) by (simp add: mk_view_def)
  moreover have "mk_view mem 8 (unat tlen) = Inr \<lparr>v_off = 8, v_len = unat tlen\<rparr>"
    using unsigned_less [where 'a = nat, of tlen] assms(7) by (simp add: mk_view_def)
  ultimately show "ndef_parse mem \<lparr>v_off = 0, v_len = n\<rparr> = Inl Out_of_bounds"
    using rv nth(1,2) assms(4) by (simp add: ndef_parse_def Let_def)
  have "try_get_record_view (ndef_message [header] @ rest) \<lparr>v_off = 0, v_len = 3\<rparr> = Inr \<lparr>v_off = 2, v_len = 1\<rparr>"
    using record_view_of_message [of "[header]" 3 rest] by (simp add: ndef_message_def)
  moreover have "view_bytes (ndef_message [header] @ rest) \<lparr>v_off = 2, v_len = 1\<rparr> = [header]"
    using view_bytes_record [of "[header]" rest] by simp
  ultimately show "ndef_parse (ndef_message [header] @ rest) \<lparr>v_off = 0, v_len = 3\<rparr> = Inl Out_of_bounds"
    by (simp add: ndef_parse_def view_nth_def nth_chk_def)
qed

theorem ndef_parse_unchecked_lengths_witness:
  "ndef_parse (ndef_message [0, 0, 1, 0, 0, 0] @ replicate 880 0) \<lparr>v_off = 0, v_len = 144\<rparr> = Inl Out_of_bounds"
proof -
  have "\<not> is_short_record 0" "\<not> has_id_length 0" "(1 :: byte) \<noteq> 0"
    by (simp_all add: is_short_record_def has_id_length_def)
  from ndef_parse_unchecked_lengths [OF this, of "[0, 0, 1, 0, 0, 0]" 0 0 0 0 "[]"
      "ndef_message [0, 0, 1, 0, 0, 0] @ replicate 880 0" "replicate 880 0" 144]
  show ?thesis by (simp add: ndef_message_def)
qed

text \<open>
  The task reports a tag once while it stays on the reader, provided the remembered uid is not
  longer than the scanned one: after a tag has been processed, scanning it again makes no calls exactly
  when the bytes of \<open>previous_tag\<close> behind its uid are those of the tag's array. A
  shorter uid that follows a longer one is never recognised and is reported at every turn.
\<close>

theorem nfc_task_repeated_scan:
  assumes "wait_for_tag (Some sc) nfc_tag_init = Inr (state, tag)" and "state \<noteq> nfc_fail"
    and "length (sc_uid sc) = 10" and "length previous = 10" and "unat (sc_uid_length sc) \<le> 10"
    and "nfc_task_step native train_id (Some sc) previous = Inr (calls, previous')" and "m_uid tag \<noteq> previous"
  shows "(m_uid tag = previous' \<longleftrightarrow> drop (unat (sc_uid_length sc)) previous = drop (unat (sc_uid_length sc)) (sc_uid sc)) \<and>
    nfc_task_step native train_id (Some sc) previous' = Inr (if m_uid tag = previous' then [] else calls, previous')"
proof -
  have tag: "m_uid tag = sc_uid sc" "m_uid_length tag = sc_uid_length sc"
    using assms(1) by (auto simp: wait_for_tag_def read_page_def get_user_page_end_def Let_def set_payload_def
      set_uid_def set_model_def nfc_tag_init_def rbind_eq_Inr_iff split: if_splits prod.splits)
  let ?n = "unat (sc_uid_length sc)"
  have uid: "get_uid tag = Inr (take ?n (sc_uid sc))"
    using tag assms(3,5) by (simp add: get_uid_def)
  obtain cs where cs: "process_tag native train_id tag = Inr cs" "calls = cs" "previous' = overwrite 0 (take ?n (sc_uid sc)) previous"
    using assms(1,2,6,7) uid by (auto simp: nfc_task_step_def uid_equals_def rbind_eq_Inr_iff)
  have prev: "previous' = take ?n (sc_uid sc) @ drop ?n previous"
    using cs(3) assms(3,5) by (simp add: overwrite_def min_absorb2)
  have "overwrite 0 (take ?n (sc_uid sc)) previous' = previous'"
    using assms(3,5) by (simp add: prev overwrite_def min_absorb2)
  moreover have "m_uid tag = previous' \<longleftrightarrow> drop ?n previous = drop ?n (sc_uid sc)"
    unfolding tag prev by (metis append_take_drop_id same_append_eq)
  ultimately show ?thesis
    using assms(1,2) uid cs(1,2) by (simp add: nfc_task_step_def uid_equals_def)
qed

text \<open>A tag without a readable page, with a uid of four bytes.\<close>

definition sample_scan :: scan where
  "sample_scan = \<lparr>sc_uid = [1, 2, 3, 4, 0, 0, 0, 0, 0, 0], sc_uid_length = 4, sc_model = NTAG213,
     sc_pages = (\<lambda>p. if p = 4 then Some (replicate 16 0) else None), sc_garbage = replicate 888 0\<rparr>"

theorem nfc_task_repeated_scan_witness:
  "nfc_task_step little_endian 3 (Some sample_scan) [1, 2, 3, 4, 5, 6, 7, 0, 0, 0] = Inr ([], [1, 2, 3, 4, 5, 6, 7, 0, 0, 0])"
proof -
  have tag: "wait_for_tag (Some sample_scan) nfc_tag_init = Inr (partical_read,
      set_payload (replicate 888 0) 16 (set_model NTAG213 (set_uid [1, 2, 3, 4, 0, 0, 0, 0, 0, 0] 4 nfc_tag_init)))"
    by (simp add: wait_for_tag_def sample_scan_def read_page_def get_user_page_end_def set_uid_def nfc_tag_init_def
      set_model_def read_pages.simps c_user_start_page_def overwrite_def flip: replicate_add)
  let ?tag = "set_payload (replicate 888 0) 16 (set_model NTAG213 (set_uid [1, 2, 3, 4, 0, 0, 0, 0, 0, 0] 4 nfc_tag_init))"
  have "process_tag little_endian 3 ?tag = Inr []"
    by (simp add: process_tag_def get_record_def mk_view_def set_payload_def ndef_parse_def try_get_record_view_def
      view_nth_ok empty_view_def view_bytes_def rail_type_name_def)
  then have step: "nfc_task_step little_endian 3 (Some sample_scan) [9, 9, 9, 9, 5, 6, 7, 0, 0, 0] = Inr ([], [1, 2, 3, 4, 5, 6, 7, 0, 0, 0])"
    using tag by (simp add: nfc_task_step_def uid_equals_def get_uid_def set_payload_def set_uid_def set_model_def overwrite_def)
  have uid: "m_uid ?tag \<noteq> [9, 9, 9, 9, 5, 6, 7, 0, 0, 0]"
    by (simp add: set_payload_def set_uid_def set_model_def)
  from nfc_task_repeated_scan [OF tag _ _ _ _ step uid] show ?thesis
    by (simp add: sample_scan_def)
qed

end
