(* ===== verification/Client_Motor.thy ===== *)
theory Client_Motor
  imports Client_Tcp
begin

text \<open>
  The motor of the train: \<open>client/main/motor/modules/motor.{hpp,cpp}\<close> and the task that executes
  motor commands, \<open>client/main/motor/tasks/motor_task.{hpp,cpp}\<close>.

  The pins and the PWM unit belong to the ESP-IDF drivers: a motor keeps the list of the calls
  made on them. Every such call is wrapped in \<open>ESP_ERROR_CHECK\<close>, which aborts when the driver
  reports an error; \<open>hw_ok\<close> says which calls succeed. The arithmetic on \<open>float\<close> is a
  parameter, a \<open>float_ops\<close>, and so are the values of the tick counter.
\<close>

section \<open>The motor\<close>

datatype motor_direction_t = dir_none | clockwise | counter_clockwise

datatype motor_pin = Ain_a | Ain_b | Standby

datatype hw_call =
    Timer_config
  | Channel_config
  | Gpio_output motor_pin
  | Gpio_level motor_pin bool
  | Ledc_set_duty uint32
  | Ledc_update_duty
  | Gpio_reset motor_pin
  | Ledc_stop

record motor_t =
  m_current_direction :: motor_direction_t
  m_current_duty :: uint32
  m_is_active :: bool
  hw_log :: "hw_call list"

definition motor_new :: motor_t where
  "motor_new = \<lparr>m_current_direction = clockwise, m_current_duty = 0, m_is_active = True, hw_log = []\<rparr>"

definition c_motor_max_duty :: uint32 where
  "c_motor_max_duty = push_bit 10 1 - 1"

lemma c_motor_max_duty [simp]: "c_motor_max_duty = 1023"
  by (simp add: c_motor_max_duty_def)

text \<open>
  How a piece of the task ended, with the state it left: it returned, it is still at work (in its
  loop, or waiting for a command), or the program was aborted in it. The state is kept in every
  case, since the calls made on the pins and the PWM unit have been made.
\<close>

datatype 'a outcome = Returned (out: 'a) | Pending (out: 'a) | Abort (out: 'a)

fun obind :: "'a outcome \<Rightarrow> ('a \<Rightarrow> 'a outcome) \<Rightarrow> 'a outcome" where
  "obind (Returned x) f = f x"
| "obind (Pending x) f = Pending x"
| "obind (Abort x) f = Abort x"

lemma obind_keeps: "P (out r) \<Longrightarrow> (\<And>x. P x \<Longrightarrow> P (out (f x))) \<Longrightarrow> P (out (obind r f))"
  by (cases r) simp_all

lemma out_map_outcome [simp]: "out (map_outcome g r) = g (out r)"
  by (cases r) simp_all

lemma obind_eq_Returned_iff: "obind r f = Returned y \<longleftrightarrow> (\<exists>x. r = Returned x \<and> f x = Returned y)"
  by (cases r) simp_all

text \<open>\<open>ESP_ERROR_CHECK\<close> of a driver call: a call that fails has been made too.\<close>

definition hw_do :: "(hw_call \<Rightarrow> bool) \<Rightarrow> hw_call \<Rightarrow> motor_t \<Rightarrow> motor_t outcome" where
  "hw_do hw_ok c m =
     (let m = m\<lparr>hw_log := hw_log m @ [c]\<rparr>
      in if hw_ok c then Returned m else Abort m)"

fun hw_seq :: "(hw_call \<Rightarrow> bool) \<Rightarrow> hw_call list \<Rightarrow> motor_t \<Rightarrow> motor_t outcome" where
  "hw_seq hw_ok [] m = Returned m"
| "hw_seq hw_ok (c # cs) m = obind (hw_do hw_ok c m) (hw_seq hw_ok cs)"

definition motor_init :: "(hw_call \<Rightarrow> bool) \<Rightarrow> motor_t \<Rightarrow> motor_t outcome" where
  "motor_init hw_ok m =
     hw_seq hw_ok
       [Timer_config, Channel_config, Gpio_output Ain_a, Gpio_output Ain_b, Gpio_output Standby,
        Gpio_level Standby True] m"

text \<open>The destructor ignores the errors of its calls.\<close>

definition motor_destroy :: "motor_t \<Rightarrow> motor_t" where
  "motor_destroy m = m\<lparr>hw_log := hw_log m @ [Gpio_reset Ain_a, Gpio_reset Ain_b, Gpio_reset Standby, Ledc_stop]\<rparr>"

fun direction_levels :: "motor_direction_t \<Rightarrow> bool \<times> bool" where
  "direction_levels clockwise = (True, False)"
| "direction_levels counter_clockwise = (False, True)"
| "direction_levels dir_none = (False, False)"

definition set_motor_direction :: "(hw_call \<Rightarrow> bool) \<Rightarrow> motor_direction_t \<Rightarrow> motor_t \<Rightarrow> motor_t outcome" where
  "set_motor_direction hw_ok direction m =
     obind (hw_seq hw_ok [Gpio_level Ain_a (fst (direction_levels direction)),
                          Gpio_level Ain_b (snd (direction_levels direction))] m) (\<lambda>m.
       Returned (m\<lparr>m_current_direction := direction\<rparr>))"

definition set_active_state :: "(hw_call \<Rightarrow> bool) \<Rightarrow> bool \<Rightarrow> motor_t \<Rightarrow> motor_t outcome" where
  "set_active_state hw_ok active m =
     obind (hw_do hw_ok (Gpio_level Standby active) (m\<lparr>m_is_active := active\<rparr>)) (\<lambda>m.
     if active then Returned m
     else obind (set_motor_direction hw_ok dir_none m) (\<lambda>m.
          hw_seq hw_ok [Ledc_set_duty (m_current_duty m), Ledc_update_duty] m))"

definition set_motor_duty :: "(hw_call \<Rightarrow> bool) \<Rightarrow> uint32 \<Rightarrow> motor_t \<Rightarrow> motor_t outcome" where
  "set_motor_duty hw_ok duty m =
     (if \<not> m_is_active m then Returned m
      else if duty > c_motor_max_duty then Returned m
      else hw_seq hw_ok [Ledc_set_duty duty, Ledc_update_duty] (m\<lparr>m_current_duty := duty\<rparr>))"

definition get_current_duty :: "motor_t \<Rightarrow> uint32" where
  "get_current_duty m = m_current_duty m"

definition get_current_direction :: "motor_t \<Rightarrow> motor_direction_t" where
  "get_current_direction m = m_current_direction m"

definition motor_is_active :: "motor_t \<Rightarrow> bool" where
  "motor_is_active m = m_is_active m"

section \<open>The task\<close>

definition ease :: "float_ops \<Rightarrow> float32 \<Rightarrow> float32" where
  "ease fo x = f_mul fo (f_mul fo x x) x"

definition send_motor_status :: "esp_id_t \<Rightarrow> motor_t \<Rightarrow> motor_status_t" where
  "send_motor_status train_id m =
     \<lparr>ms_id = train_id, ms_current_duty = get_current_duty m,
      ms_is_active = (if motor_is_active m then 1 else 0)\<rparr>"

text \<open>The fraction of the ramp that has passed; ticks and their difference are 32-bit numbers.\<close>

definition ramp_fraction :: "float_ops \<Rightarrow> uint32 \<Rightarrow> motor_control_t \<Rightarrow> uint32 \<Rightarrow> uint32 \<Rightarrow> float32" where
  "ramp_fraction fo tick_ms mc start_tick now =
     f_div fo (f_of_int fo (uint ((now - start_tick) * tick_ms))) (f_of_int fo (uint (ramp_time_ms mc)))"

text \<open>
  The motor together with the status messages the task has put on the queue of outgoing messages.
\<close>

type_synonym motor_task_state = "motor_t \<times> motor_status_t list"

fun on_motor :: "(motor_t \<Rightarrow> motor_t outcome) \<Rightarrow> motor_task_state \<Rightarrow> motor_task_state outcome" where
  "on_motor f (m, ss) = map_outcome (\<lambda>m. (m, ss)) (f m)"

fun send_status :: "esp_id_t \<Rightarrow> motor_task_state \<Rightarrow> motor_task_state" where
  "send_status train_id (m, ss) = (m, ss @ [send_motor_status train_id m])"

text \<open>The duty of one round of the loop.\<close>

definition ramp_duty :: "float_ops \<Rightarrow> uint32 \<Rightarrow> motor_control_t \<Rightarrow> uint32 \<Rightarrow> uint32 \<Rightarrow> uint32" where
  "ramp_duty fo tick_ms mc start_tick now =
     (let t = ramp_fraction fo tick_ms mc start_tick now;
          eased = ease fo (std_clamp fo t float_0 float_1);
          val = f_lerp fo (f_of_int fo (uint (starting_duty mc))) (f_of_int fo (uint (target_duty mc))) eased
      in word_of_int (f_to_int fo (f_round fo val)))"

text \<open>
  The loop of \<open>adjust_motor\<close> over the values the tick counter has had so far: it is pending, with
  what it has done, as long as none of them ends the ramp.
\<close>

fun ramp_loop ::
    "(hw_call \<Rightarrow> bool) \<Rightarrow> float_ops \<Rightarrow> uint32 \<Rightarrow> uint32 \<Rightarrow> esp_id_t \<Rightarrow> motor_control_t \<Rightarrow> uint32 \<Rightarrow> uint32 \<Rightarrow>
     uint32 list \<Rightarrow> motor_task_state \<Rightarrow> motor_task_state outcome" where
  "ramp_loop hw_ok fo tick_ms log_interval train_id mc start_tick last_log [] x = Pending x"
| "ramp_loop hw_ok fo tick_ms log_interval train_id mc start_tick last_log (now # ticks) x =
     (if f_ge fo (ramp_fraction fo tick_ms mc start_tick now) float_1 then Returned x
      else obind (on_motor (set_motor_duty hw_ok (ramp_duty fo tick_ms mc start_tick now)) x) (\<lambda>x.
           if now - last_log \<ge> log_interval
           then ramp_loop hw_ok fo tick_ms log_interval train_id mc start_tick now ticks (send_status train_id x)
           else ramp_loop hw_ok fo tick_ms log_interval train_id mc start_tick last_log ticks x))"

definition adjust_motor ::
    "(hw_call \<Rightarrow> bool) \<Rightarrow> float_ops \<Rightarrow> uint32 \<Rightarrow> uint32 \<Rightarrow> esp_id_t \<Rightarrow> motor_control_t \<Rightarrow> uint32 \<Rightarrow>
     uint32 list \<Rightarrow> motor_task_state \<Rightarrow> motor_task_state outcome" where
  "adjust_motor hw_ok fo tick_ms log_interval train_id mc start_tick ticks x =
     obind (ramp_loop hw_ok fo tick_ms log_interval train_id mc start_tick start_tick ticks x) (\<lambda>x.
     obind (on_motor (set_motor_duty hw_ok (target_duty mc)) x) (\<lambda>x.
     Returned (send_status train_id x)))"

text \<open>What the task does with one command it has received.\<close>

definition motor_task_command ::
    "(hw_call \<Rightarrow> bool) \<Rightarrow> float_ops \<Rightarrow> uint32 \<Rightarrow> uint32 \<Rightarrow> esp_id_t \<Rightarrow> motor_control_t \<Rightarrow> uint32 \<Rightarrow>
     uint32 list \<Rightarrow> motor_task_state \<Rightarrow> motor_task_state outcome" where
  "motor_task_command hw_ok fo tick_ms log_interval train_id mc start_tick ticks x =
     obind (on_motor (set_active_state hw_ok (is_active mc \<noteq> 0)) x) (\<lambda>x.
     obind (on_motor (set_motor_direction hw_ok clockwise) x) (\<lambda>x.
     let x = send_status train_id x
     in if is_active mc \<noteq> 0 then adjust_motor hw_ok fo tick_ms log_interval train_id mc start_tick ticks x
        else Returned x))"

text \<open>
  The task: it sets the motor up and then executes what it receives, for ever. A call of
  \<open>receive\<close> gives nothing, or a command; with a command come the id of the train at that time, the
  tick at which its ramp starts and the ticks its loop has seen so far.
\<close>

type_synonym motor_request = "(esp_id_t \<times> motor_control_t \<times> uint32 \<times> uint32 list) option"

fun motor_task_loop ::
    "(hw_call \<Rightarrow> bool) \<Rightarrow> float_ops \<Rightarrow> uint32 \<Rightarrow> uint32 \<Rightarrow> motor_request list \<Rightarrow> motor_task_state \<Rightarrow> motor_task_state outcome" where
  "motor_task_loop hw_ok fo tick_ms log_interval [] x = Pending x"
| "motor_task_loop hw_ok fo tick_ms log_interval (None # reqs) x = motor_task_loop hw_ok fo tick_ms log_interval reqs x"
| "motor_task_loop hw_ok fo tick_ms log_interval (Some (train_id, mc, start_tick, ticks) # reqs) x =
     obind (motor_task_command hw_ok fo tick_ms log_interval train_id mc start_tick ticks x)
       (motor_task_loop hw_ok fo tick_ms log_interval reqs)"

definition motor_task_run ::
    "(hw_call \<Rightarrow> bool) \<Rightarrow> float_ops \<Rightarrow> uint32 \<Rightarrow> uint32 \<Rightarrow> motor_request list \<Rightarrow> motor_task_state outcome" where
  "motor_task_run hw_ok fo tick_ms log_interval reqs =
     obind (on_motor (motor_init hw_ok) (motor_new, [])) (motor_task_loop hw_ok fo tick_ms log_interval reqs)"

section \<open>Facts\<close>

lemma hw_seq_eq: "list_all hw_ok cs \<Longrightarrow> hw_seq hw_ok cs m = Returned (m\<lparr>hw_log := hw_log m @ cs\<rparr>)"
  by (induction cs arbitrary: m) (simp_all add: hw_do_def)

lemma set_motor_duty_frame:
  "m_is_active (out (set_motor_duty hw_ok d m)) = m_is_active m
   \<and> m_current_direction (out (set_motor_duty hw_ok d m)) = m_current_direction m"
  by (simp add: set_motor_duty_def hw_do_def Let_def)

lemma set_motor_duty_eq:
  "list_all hw_ok [Ledc_set_duty d, Ledc_update_duty] \<Longrightarrow>
   set_motor_duty hw_ok d m =
     Returned (if m_is_active m \<and> d \<le> 1023
          then m\<lparr>m_current_duty := d, hw_log := hw_log m @ [Ledc_set_duty d, Ledc_update_duty]\<rparr> else m)"
  by (auto simp: set_motor_duty_def hw_seq_eq simp del: hw_seq.simps)

text \<open>The duty of the motor and every duty given to the PWM unit are within its ten bits.\<close>

definition motor_ok :: "motor_t \<Rightarrow> bool" where
  "motor_ok m \<longleftrightarrow> m_current_duty m \<le> 1023 \<and> (\<forall>d. Ledc_set_duty d \<in> set (hw_log m) \<longrightarrow> d \<le> 1023)"

lemma motor_ok_steps:
  "motor_ok motor_new"
  "motor_ok m \<Longrightarrow> motor_ok (out (motor_init hw_ok m))"
  "motor_ok m \<Longrightarrow> motor_ok (out (set_motor_direction hw_ok dir m))"
  "motor_ok m \<Longrightarrow> motor_ok (out (set_active_state hw_ok act m))"
  "motor_ok m \<Longrightarrow> motor_ok (out (set_motor_duty hw_ok duty m))"
  by (auto simp: motor_ok_def motor_new_def motor_init_def set_motor_direction_def set_active_state_def
    set_motor_duty_def hw_do_def Let_def not_less)

text \<open>\<open>motor_ok\<close>, and every duty reported is within the range too.\<close>

definition motor_task_ok :: "motor_task_state \<Rightarrow> bool" where
  "motor_task_ok x \<longleftrightarrow> motor_ok (fst x) \<and> list_all (\<lambda>s. ms_current_duty s \<le> 1023) (snd x)"

lemma status_duty_ok: "motor_ok m \<Longrightarrow> ms_current_duty (send_motor_status train_id m) \<le> 1023"
  by (simp add: send_motor_status_def get_current_duty_def motor_ok_def)

lemma motor_task_ok_steps:
  "motor_task_ok x \<Longrightarrow> (\<And>m. motor_ok m \<Longrightarrow> motor_ok (out (f m))) \<Longrightarrow> motor_task_ok (out (on_motor f x))"
  "motor_task_ok x \<Longrightarrow> motor_task_ok (send_status train_id x)"
  "motor_task_ok (motor_new, [])"
  unfolding motor_task_ok_def by (cases x, simp, cases x, simp add: status_duty_ok, simp add: motor_ok_steps)

lemmas motor_task_intros =
  obind_keeps [where P = motor_task_ok] motor_task_ok_steps motor_ok_steps

lemma ramp_loop_ok:
  "motor_task_ok x \<Longrightarrow> motor_task_ok (out (ramp_loop hw_ok fo tick_ms li i mc st ll ticks x))"
proof (induction ticks arbitrary: x ll)
  case (Cons now ticks)
  have "motor_task_ok y \<Longrightarrow> motor_task_ok (out (ramp_loop hw_ok fo tick_ms li i mc st now ticks (send_status i y)))" for y
    by (intro Cons.IH motor_task_intros)
  with Cons show ?case by (auto intro!: motor_task_intros simp del: send_status.simps)
qed simp

lemma motor_task_command_ok:
  "motor_task_ok x \<Longrightarrow> motor_task_ok (out (motor_task_command hw_ok fo tick_ms li i mc st ticks x))"
  unfolding motor_task_command_def adjust_motor_def Let_def
  by (auto intro!: motor_task_intros ramp_loop_ok simp del: send_status.simps)

lemma motor_task_loop_ok:
  "motor_task_ok x \<Longrightarrow> motor_task_ok (out (motor_task_loop hw_ok fo tick_ms li reqs x))"
proof (induction reqs arbitrary: x)
  case (Cons r reqs)
  show ?case
  proof (cases r)
    case None
    with Cons show ?thesis by simp
  next
    case (Some q)
    with Cons show ?thesis by (cases q) (auto intro!: motor_task_intros motor_task_command_ok)
  qed
qed simp

text \<open>The ramp ends with the first tick at which its fraction has reached one.\<close>

lemma ramp_loop_ends:
  assumes "\<forall>c. hw_ok c" and "\<exists>now \<in> set ticks. f_ge fo (ramp_fraction fo tick_ms mc st now) float_1"
  shows "\<exists>m' ss'. ramp_loop hw_ok fo tick_ms li i mc st ll ticks (m, ss) = Returned (m', ss @ ss')
    \<and> m_is_active m' = m_is_active m \<and> m_current_direction m' = m_current_direction m"
  using assms(2)
proof (induction ticks arbitrary: m ss ll)
  case (Cons now ticks)
  show ?case
  proof (cases "f_ge fo (ramp_fraction fo tick_ms mc st now) float_1")
    case True
    then show ?thesis by simp
  next
    case False
    with Cons.prems have "\<exists>now \<in> set ticks. f_ge fo (ramp_fraction fo tick_ms mc st now) float_1" by auto
    note IH = Cons.IH [OF this]
    obtain m1 where m1: "set_motor_duty hw_ok (ramp_duty fo tick_ms mc st now) m = Returned m1"
      using assms(1) by (simp add: set_motor_duty_eq)
    have act: "m_is_active m1 = m_is_active m" "m_current_direction m1 = m_current_direction m"
      using set_motor_duty_frame [of hw_ok "ramp_duty fo tick_ms mc st now" m] m1 by simp_all
    show ?thesis
    proof (cases "li \<le> now - ll")
      case True
      from IH [of now m1 "ss @ [send_motor_status i m1]"] obtain m' ss' where
        "ramp_loop hw_ok fo tick_ms li i mc st now ticks (m1, ss @ [send_motor_status i m1])
           = Returned (m', ss @ send_motor_status i m1 # ss')" "m_is_active m' = m_is_active m1"
        "m_current_direction m' = m_current_direction m1" by auto
      with True False m1 act show ?thesis
        by (intro exI [of _ m'] exI [of _ "send_motor_status i m1 # ss'"]) simp
    next
      case nolog: False
      with False m1 act IH [of ll m1 ss] show ?thesis by simp
    qed
  qed
qed simp

lemma command_prefix:
  assumes "\<forall>c. hw_ok c"
  shows "\<exists>m2. obind (set_active_state hw_ok act m) (set_motor_direction hw_ok clockwise) = Returned m2
    \<and> m_is_active m2 = act \<and> m_current_direction m2 = clockwise \<and> m_current_duty m2 = m_current_duty m
    \<and> hw_log m2 = hw_log m @ [Gpio_level Standby act]
        @ (if act then [] else [Gpio_level Ain_a False, Gpio_level Ain_b False, Ledc_set_duty (m_current_duty m), Ledc_update_duty])
        @ [Gpio_level Ain_a True, Gpio_level Ain_b False]"
  using assms by (simp add: set_active_state_def set_motor_direction_def hw_do_def)

section \<open>Properties\<close>

text \<open>
  C18. The motor is never driven beyond its range: at every moment of the task, from its start and
  whatever commands it receives, whatever the arithmetic on floats yields (a command with an
  out-of-range duty, a ramp of length zero, a ramp that never ends), the duty the motor keeps, every
  duty given to the PWM unit and every duty reported are at most 1023. A moment is the state after the
  requests and ticks seen so far: between two commands, in the middle of a ramp, or at the driver call
  that aborted the program.
\<close>

theorem motor_task_duty_bounded:
  "motor_ok (fst (out (motor_task_run hw_ok fo tick_ms log_interval reqs)))
   \<and> list_all (\<lambda>s. ms_current_duty s \<le> 1023) (snd (out (motor_task_run hw_ok fo tick_ms log_interval reqs)))"
proof -
  have "motor_task_ok (out (motor_task_run hw_ok fo tick_ms log_interval reqs))"
    unfolding motor_task_run_def 
    by (intro motor_task_intros motor_task_loop_ok)
  then show ?thesis by (simp add: motor_task_ok_def)
qed

theorem motor_task_duty_bounded_witness:
  "let fo = int_floats\<lparr>f_ge := (\<lambda>x y. False)\<rparr>;
       mc = \<lparr>starting_duty = 200, target_duty = 5000, ramp_time_ms = 100, is_active = 1\<rparr>
   in case motor_task_run (\<lambda>c. True) fo 1 50 [Some (1, mc, 0, [10, 60, 110])] of
        Pending (m', ss) \<Rightarrow> length ss = 3 \<and> motor_ok m' \<and> list_all (\<lambda>s. ms_current_duty s \<le> 1023) ss
      | _ \<Rightarrow> False"
  using motor_task_duty_bounded [of "\<lambda>c. True" "int_floats\<lparr>f_ge := (\<lambda>x y. False)\<rparr>" 1 50
    "[Some (1, \<lparr>starting_duty = 200, target_duty = 5000, ramp_time_ms = 100, is_active = 1\<rparr>, 0, [10, 60, 110])]"]
  by (simp add: motor_task_run_def motor_init_def motor_task_command_def adjust_motor_def set_active_state_def
    set_motor_direction_def set_motor_duty_def hw_do_def motor_new_def ramp_fraction_def ramp_duty_def ease_def
    int_floats_def std_clamp_def Let_def)

text \<open>
  C19. A start command is carried out: when the driver calls succeed and the clock reaches the end
  of the ramp, the task returns from a command whose target is within the range of the PWM unit with
  the motor active, turning clockwise, and at the target duty, which the last status message it sends
  reports.
\<close>

theorem motor_start_reaches_target:
  assumes "\<forall>c. hw_ok c" and "is_active mc \<noteq> 0" and "target_duty mc \<le> 1023"
    and "\<exists>now \<in> set ticks. f_ge fo (ramp_fraction fo tick_ms mc start_tick now) float_1"
  shows "\<exists>m' ss'. motor_task_command hw_ok fo tick_ms log_interval train_id mc start_tick ticks (m, ss) = Returned (m', ss @ ss')
    \<and> m_is_active m' \<and> m_current_direction m' = clockwise \<and> m_current_duty m' = target_duty mc \<and> ss' \<noteq> []
    \<and> last ss' = \<lparr>ms_id = train_id, ms_current_duty = target_duty mc, ms_is_active = 1\<rparr>"
proof -
  obtain m2 where m2: "obind (set_active_state hw_ok True m) (set_motor_direction hw_ok clockwise) = Returned m2" "m_is_active m2"
    "m_current_direction m2 = clockwise"
    using command_prefix [OF assms(1), of True m] by blast
  then obtain m1 where m1: "set_active_state hw_ok True m = Returned m1" "set_motor_direction hw_ok clockwise m1 = Returned m2"
    by (auto simp: obind_eq_Returned_iff)
  obtain m3 ss3 where r: "ramp_loop hw_ok fo tick_ms log_interval train_id mc start_tick start_tick ticks
      (m2, ss @ [send_motor_status train_id m2]) = Returned (m3, (ss @ [send_motor_status train_id m2]) @ ss3)" "m_is_active m3"
    "m_current_direction m3 = clockwise"
    using ramp_loop_ends [OF assms(1,4), of log_interval train_id start_tick m2 "ss @ [send_motor_status train_id m2]"] m2(2,3) by auto
  with assms(1-3) m1 show ?thesis
    by (simp add: motor_task_command_def adjust_motor_def set_motor_duty_eq send_motor_status_def
      get_current_duty_def motor_is_active_def)
qed

theorem motor_start_reaches_target_witness:
  "\<exists>m' ss'. motor_task_command (\<lambda>c. True)
      (int_floats\<lparr>f_ge := (\<lambda>x y. 1 \<le> x)\<rparr>) 1 50 7
      \<lparr>starting_duty = 200, target_duty = 800, ramp_time_ms = 100, is_active = 1\<rparr> 0 [10, 60, 110] (motor_new, [])
      = Returned (m', [] @ ss')
    \<and> m_is_active m' \<and> m_current_direction m' = clockwise \<and> m_current_duty m' = 800 \<and> ss' \<noteq> []
    \<and> last ss' = \<lparr>ms_id = 7, ms_current_duty = 800, ms_is_active = 1\<rparr>"
  using motor_start_reaches_target [of "\<lambda>c. True"
    "\<lparr>starting_duty = 200, target_duty = 800, ramp_time_ms = 100, is_active = 1\<rparr>" "[10, 60, 110]"
    "int_floats\<lparr>f_ge := (\<lambda>x y. 1 \<le> x)\<rparr>" 1 0 50 7 motor_new "[]"]
  by (simp add: ramp_fraction_def int_floats_def)

text \<open>
  A stop command pulls standby low, which switches the driver off, but does not bring the
  motor to rest in the other registers: it writes the old duty to the PWM unit again and then sets
  the direction to clockwise, so that the pins end as for a running motor and the status message
  reports the duty of before the stop with the motor inactive.
\<close>

theorem motor_stop_keeps_duty:
  assumes "\<forall>c. hw_ok c" and "is_active mc = 0"
  shows "\<exists>m'. motor_task_command hw_ok fo tick_ms log_interval train_id mc start_tick ticks (m, ss) =
      Returned (m', ss @ [\<lparr>ms_id = train_id, ms_current_duty = m_current_duty m, ms_is_active = 0\<rparr>])
    \<and> \<not> m_is_active m' \<and> m_current_duty m' = m_current_duty m \<and> m_current_direction m' = clockwise
    \<and> hw_log m' = hw_log m @
        [Gpio_level Standby False, Gpio_level Ain_a False, Gpio_level Ain_b False,
         Ledc_set_duty (m_current_duty m), Ledc_update_duty, Gpio_level Ain_a True, Gpio_level Ain_b False]"
proof -
  obtain m2 where m2: "obind (set_active_state hw_ok False m) (set_motor_direction hw_ok clockwise) = Returned m2" "\<not> m_is_active m2"
    "m_current_direction m2 = clockwise" "m_current_duty m2 = m_current_duty m"
    "hw_log m2 = hw_log m @ [Gpio_level Standby False, Gpio_level Ain_a False, Gpio_level Ain_b False,
      Ledc_set_duty (m_current_duty m), Ledc_update_duty, Gpio_level Ain_a True, Gpio_level Ain_b False]"
    using command_prefix [OF assms(1), of False m] by auto
  then obtain m1 where "set_active_state hw_ok False m = Returned m1" "set_motor_direction hw_ok clockwise m1 = Returned m2"
    by (auto simp: obind_eq_Returned_iff)
  with m2 assms(2) show ?thesis
    by (simp add: motor_task_command_def send_motor_status_def get_current_duty_def motor_is_active_def)
qed

theorem motor_stop_keeps_duty_witness:
  "\<exists>m'. motor_task_command (\<lambda>c. True)
      (int_floats\<lparr>f_ge := (\<lambda>x y. 1 \<le> x)\<rparr>) 1 50 7
      \<lparr>starting_duty = 0, target_duty = 0, ramp_time_ms = 0, is_active = 0\<rparr> 0 [10] (motor_new\<lparr>m_current_duty := 900\<rparr>, []) =
      Returned (m', [\<lparr>ms_id = 7, ms_current_duty = 900, ms_is_active = 0\<rparr>])
    \<and> \<not> m_is_active m' \<and> m_current_duty m' = 900 \<and> m_current_direction m' = clockwise
    \<and> hw_log m' =
        [Gpio_level Standby False, Gpio_level Ain_a False, Gpio_level Ain_b False,
         Ledc_set_duty 900, Ledc_update_duty, Gpio_level Ain_a True, Gpio_level Ain_b False]"
  using motor_stop_keeps_duty [of "\<lambda>c. True"
    "\<lparr>starting_duty = 0, target_duty = 0, ramp_time_ms = 0, is_active = 0\<rparr>"
    "int_floats\<lparr>f_ge := (\<lambda>x y. 1 \<le> x)\<rparr>" 1 50 7 0 "[10]" "motor_new\<lparr>m_current_duty := 900\<rparr>" "[]"]
  by (simp add: motor_new_def)

end
