(* ===== verification/Client_Rtos.thy ===== *)
theory Client_Rtos
  imports Client_Tcp
begin

text \<open>
  The communication between the tasks of the train: \<open>client/main/rtos/mailbox.hpp\<close> and
  \<open>client/main/rtos/event_queue.hpp\<close>, wrappers around queues of FreeRTOS.

  The queues and event groups of FreeRTOS are parameters, a \<open>queue_ops\<close> and an
  \<open>event_group_ops\<close>. The locales \<open>freertos_queue\<close> and \<open>freertos_event_group\<close> state what their
  documentation promises; \<open>list_queue\<close> and \<open>word_group\<close> are instances that meet it. The contracts
  the tasks rely on, \<open>latest_value\<close> for a mailbox and \<open>bounded_fifo\<close> for an event queue, follow for
  the wrappers.
\<close>

section \<open>Queues\<close>

record ('q, 'a) queue_ops =
  q_create :: "nat \<Rightarrow> 'q option"
  q_send :: "'a \<Rightarrow> 'q \<Rightarrow> bool \<times> 'q"
  q_overwrite :: "'a \<Rightarrow> 'q \<Rightarrow> bool \<times> 'q"
  q_receive :: "'q \<Rightarrow> ('a \<times> 'q) option"

definition mailbox_create :: "('q, 'a) queue_ops \<Rightarrow> 'q result" where
  "mailbox_create q = (case q_create q 1 of None \<Rightarrow> Inl Aborted | Some h \<Rightarrow> Inr h)"

definition mailbox_send :: "('q, 'a) queue_ops \<Rightarrow> 'a \<Rightarrow> 'q \<Rightarrow> bool \<times> 'q" where
  "mailbox_send q destination h = q_overwrite q destination h"

text \<open>\<open>receive\<close> waits as long as it takes: \<open>None\<close> means that the task is blocked.\<close>

definition mailbox_receive :: "('q, 'a) queue_ops \<Rightarrow> 'q \<Rightarrow> ('a \<times> 'q) option" where
  "mailbox_receive q h = q_receive q h"

definition event_queue_create :: "('q, 'a) queue_ops \<Rightarrow> nat \<Rightarrow> 'q result" where
  "event_queue_create q queue_size = (case q_create q queue_size of None \<Rightarrow> Inl Aborted | Some h \<Rightarrow> Inr h)"

text \<open>Every caller leaves \<open>block_tick\<close> at its default 0, so \<open>send\<close> does not wait.\<close>

definition event_queue_send :: "('q, 'a) queue_ops \<Rightarrow> 'a \<Rightarrow> 'q \<Rightarrow> bool \<times> 'q" where
  "event_queue_send q data h = q_send q data h"

definition event_queue_receive :: "('q, 'a) queue_ops \<Rightarrow> 'q \<Rightarrow> ('a \<times> 'q) option" where
  "event_queue_receive q h = q_receive q h"

text \<open>A sequence of sends, with the values they return.\<close>

fun send_each :: "('a \<Rightarrow> 'h \<Rightarrow> bool \<times> 'h) \<Rightarrow> 'a list \<Rightarrow> 'h \<Rightarrow> bool list \<times> 'h" where
  "send_each send [] h = ([], h)"
| "send_each send (x # xs) h =
     (let (ok, h') = send x h; (oks, h'') = send_each send xs h' in (ok # oks, h''))"

section \<open>Event groups\<close>

record 'g event_group_ops =
  eg_set_bits :: "uint32 \<Rightarrow> 'g \<Rightarrow> 'g"
  eg_clear_bits :: "uint32 \<Rightarrow> 'g \<Rightarrow> 'g"
  eg_get_bits :: "'g \<Rightarrow> uint32"

text \<open>
  \<open>xEventGroupWaitBits\<close> without clearing and for any of the bits: it returns when one is set, or
  with the bits as they are when the time is over.
\<close>

definition eg_wait_bits :: "'g event_group_ops \<Rightarrow> uint32 \<Rightarrow> bool \<Rightarrow> 'g \<Rightarrow> uint32 option" where
  "eg_wait_bits eg wanted timed_out g =
     (if eg_get_bits eg g AND wanted \<noteq> 0 \<or> timed_out then Some (eg_get_bits eg g) else None)"

section \<open>What FreeRTOS promises\<close>

locale freertos_queue =
  fixes q :: "('q, 'a) queue_ops"
    and contents :: "'q \<Rightarrow> 'a list"
    and capacity :: "'q \<Rightarrow> nat"
  assumes create: "q_create q n = Some h \<Longrightarrow> contents h = [] \<and> capacity h = n"
    and send_free: "length (contents h) < capacity h \<Longrightarrow>
      fst (q_send q x h) \<and> contents (snd (q_send q x h)) = contents h @ [x] \<and> capacity (snd (q_send q x h)) = capacity h"
    and send_full: "capacity h \<le> length (contents h) \<Longrightarrow> q_send q x h = (False, h)"
    and overwrite: "capacity h = 1 \<Longrightarrow>
      fst (q_overwrite q x h) \<and> contents (snd (q_overwrite q x h)) = [x] \<and> capacity (snd (q_overwrite q x h)) = 1"
    and receive_empty: "contents h = [] \<Longrightarrow> q_receive q h = None"
    and receive_head: "contents h = x # xs \<Longrightarrow>
      \<exists>h'. q_receive q h = Some (x, h') \<and> contents h' = xs \<and> capacity h' = capacity h"

locale freertos_event_group =
  fixes eg :: "'g event_group_ops"
  assumes set_bits [simp]: "eg_get_bits eg (eg_set_bits eg b g) = eg_get_bits eg g OR b"
    and clear_bits [simp]: "eg_get_bits eg (eg_clear_bits eg b g) = eg_get_bits eg g AND NOT b"

section \<open>The contracts of the wrappers\<close>

locale latest_value =
  fixes inv :: "'h \<Rightarrow> bool"
    and send :: "'a \<Rightarrow> 'h \<Rightarrow> bool \<times> 'h"
    and receive :: "'h \<Rightarrow> ('a \<times> 'h) option"
    and latest :: "'h \<Rightarrow> 'a option"
  assumes send: "inv h \<Longrightarrow> fst (send x h) \<and> inv (snd (send x h)) \<and> latest (snd (send x h)) = Some x"
    and receive_none: "inv h \<Longrightarrow> latest h = None \<Longrightarrow> receive h = None"
    and receive_some: "inv h \<Longrightarrow> latest h = Some x \<Longrightarrow> \<exists>h'. receive h = Some (x, h') \<and> inv h' \<and> latest h' = None"
begin

lemma send_each_latest:
  "inv h \<Longrightarrow> inv (snd (send_each send xs h))
    \<and> latest (snd (send_each send xs h)) = (if xs = [] then latest h else Some (last xs))"
proof (induction xs arbitrary: h)
  case Nil
  then show ?case by simp
next
  case (Cons x xs)
  with send [of h x] show ?case by (auto simp: split_beta Let_def)
qed

end

locale bounded_fifo =
  fixes inv :: "'h \<Rightarrow> bool"
    and send :: "'a \<Rightarrow> 'h \<Rightarrow> bool \<times> 'h"
    and receive :: "'h \<Rightarrow> ('a \<times> 'h) option"
    and items :: "'h \<Rightarrow> 'a list"
    and bound :: "'h \<Rightarrow> nat"
  assumes inv_bound: "inv h \<Longrightarrow> length (items h) \<le> bound h"
    and send: "inv h \<Longrightarrow> inv (snd (send x h)) \<and> bound (snd (send x h)) = bound h
      \<and> fst (send x h) = (length (items h) < bound h)
      \<and> items (snd (send x h)) = (if length (items h) < bound h then items h @ [x] else items h)"
    and receive_none: "inv h \<Longrightarrow> items h = [] \<Longrightarrow> receive h = None"
    and receive_some: "inv h \<Longrightarrow> items h = x # xs \<Longrightarrow>
      \<exists>h'. receive h = Some (x, h') \<and> inv h' \<and> items h' = xs \<and> bound h' = bound h"
begin

lemma send_each_keeps_oldest:
  "inv h \<Longrightarrow> inv (snd (send_each send xs h))
    \<and> items (snd (send_each send xs h)) = take (bound h) (items h @ xs)
    \<and> fst (send_each send xs h) = map (\<lambda>i. length (items h) + i < bound h) [0..<length xs]"
proof (induction xs arbitrary: h)
  case Nil
  then show ?case using inv_bound by simp
next
  case (Cons x xs)
  have "map (\<lambda>i. length (items h) + i < bound h) [0..<length (x # xs)]
      = (length (items h) < bound h) # map (\<lambda>i. Suc (length (items h) + i) < bound h) [0..<length xs]"
    by (simp add: upt_conv_Cons map_Suc_upt [symmetric] del: upt_Suc)
  moreover have "\<not> length (items h) < bound h \<Longrightarrow> length (items h) = bound h"
    using inv_bound Cons.prems by (simp add: le_antisym)
  ultimately show ?case
    using Cons.IH [of "snd (send x h)"] send [OF Cons.prems, of x] by (auto simp: split_beta Let_def take_Cons')
qed

end

sublocale freertos_queue \<subseteq> mb: latest_value
  "\<lambda>h. capacity h = 1 \<and> length (contents h) \<le> 1" "mailbox_send q" "mailbox_receive q"
  "\<lambda>h. case contents h of [] \<Rightarrow> None | x # _ \<Rightarrow> Some x"
proof (unfold_locales, goal_cases)
  case (1 h x)
  then show ?case using overwrite [of h x] by (simp add: mailbox_send_def)
next
  case (2 h)
  then show ?case by (simp add: mailbox_receive_def receive_empty split: list.splits)
next
  case (3 h x)
  then obtain xs where "contents h = x # xs" "xs = []" by (auto split: list.splits)
  with 3 receive_head [of h x xs] show ?case by (auto simp: mailbox_receive_def)
qed

sublocale freertos_queue \<subseteq> eq: bounded_fifo
  "\<lambda>h. length (contents h) \<le> capacity h" "event_queue_send q" "event_queue_receive q" contents capacity
proof (unfold_locales, goal_cases)
  case (2 h x)
  then show ?case
    using send_free [of h x] send_full [of h x] by (cases "length (contents h) < capacity h") (auto simp: event_queue_send_def)
next
  case (3 h)
  then show ?case by (simp add: event_queue_receive_def receive_empty)
next
  case (4 h x xs)
  then show ?case using receive_head [of h x xs] by (auto simp: event_queue_receive_def)
qed

context freertos_queue
begin

lemmas event_queue_oldest = eq.send_each_keeps_oldest
lemmas mailbox_latest = mb.send_each_latest
lemmas mailbox_laws = mb.send mb.receive_none mb.receive_some

lemma mailbox_create_empty: "mailbox_create q = Inr h \<Longrightarrow> capacity h = 1 \<and> contents h = []"
  using create by (auto simp: mailbox_create_def split: option.splits)

end

section \<open>Instances\<close>

definition list_queue :: "(nat \<times> 'a list, 'a) queue_ops" where
  "list_queue =
     \<lparr>q_create = (\<lambda>n. Some (n, [])),
      q_send = (\<lambda>x (n, xs). if length xs < n then (True, n, xs @ [x]) else (False, n, xs)),
      q_overwrite = (\<lambda>x (n, xs). (True, n, [x])),
      q_receive = (\<lambda>(n, xs). case xs of [] \<Rightarrow> None | x # xs' \<Rightarrow> Some (x, n, xs'))\<rparr>"

interpretation lq: freertos_queue list_queue snd fst
  by unfold_locales (auto simp: list_queue_def)

definition word_group :: "uint32 event_group_ops" where
  "word_group = \<lparr>eg_set_bits = (\<lambda>b g. g OR b), eg_clear_bits = (\<lambda>b g. g AND NOT b), eg_get_bits = id\<rparr>"

interpretation wg: freertos_event_group word_group
  by unfold_locales (simp_all add: word_group_def)

section \<open>Properties\<close>

text \<open>
  The queue of outgoing messages keeps the oldest: when nothing is taken from a fresh queue of
  size \<open>n\<close>, as while the connection is down, the first \<open>n\<close> messages sent stay in it in their order,
  every later one is dropped, and only the returned value, which no caller reads, tells them apart.
\<close>

theorem outgoing_queue_keeps_oldest:
  assumes "freertos_queue q contents capacity" and "event_queue_create q n = Inr h"
  shows "contents (snd (send_each (event_queue_send q) xs h)) = take n xs
    \<and> fst (send_each (event_queue_send q) xs h) = map (\<lambda>i. i < n) [0..<length xs]"
proof -
  have h: "contents h = []" "capacity h = n"
    using freertos_queue.create [OF assms(1)] assms(2) by (auto simp: event_queue_create_def split: option.splits)
  then show ?thesis
    using freertos_queue.event_queue_oldest [OF assms(1), of h xs] by simp
qed

theorem outgoing_queue_keeps_oldest_witness:
  "snd (snd (send_each (event_queue_send list_queue) [1, 2, 3 :: nat] (2, []))) = [1, 2]
    \<and> fst (send_each (event_queue_send list_queue) [1, 2, 3 :: nat] (2, [])) = [True, True, False]"
  using outgoing_queue_keeps_oldest [OF lq.freertos_queue_axioms, of 2 "(2, [])" "[1, 2, 3 :: nat]"]
  by (simp add: event_queue_create_def list_queue_def upt_rec)

end
