(* ===== verification/Client_Wifi.thy ===== *)
theory Client_Wifi
  imports Client_Rtos
begin

text \<open>
  The network connection of the train: \<open>client/main/wifi/wifi.hpp\<close> and
  \<open>client/main/wifi/wifi_config.hpp\<close>.

  The driver of ESP-IDF is a parameter: a function from the calls made so far and the next call to
  the error it returns, so that the same call may fail or succeed at different times. A
  \<open>wifi_t\<close> keeps the log of the calls. \<open>ESP_ERROR_CHECK\<close> aborts on an error. The events of the
  driver arrive in any order.
\<close>

section \<open>Driver calls and errors\<close>

datatype esp_err_t = ESP_OK | ESP_FAIL | ESP_ERR_NVS_NO_FREE_PAGES | ESP_ERR_NVS_NEW_VERSION_FOUND | ESP_ERR nat

datatype wifi_mode_t = mode_none | mode_sta | mode_sta_ap

datatype wifi_auth = WIFI_AUTH_OPEN | WIFI_AUTH_WPA2_PSK

text \<open>The fields the program sets in the configurations; a buffer is a list of characters.\<close>

record ap_config =
  ap_ssid :: string
  ap_password :: string
  ap_ssid_len :: uint8
  ap_channel :: uint8
  ap_max_connection :: uint8
  ap_authmode :: wifi_auth

record sta_config =
  sta_ssid :: string
  sta_password :: string

datatype wifi_call =
    Nvs_flash_init | Nvs_flash_erase
  | Netif_init | Event_loop_create | Register_wifi_event | Register_ip_event | Wifi_init
  | Wifi_start | Wifi_stop | Wifi_deinit | Wifi_connect | Wifi_disconnect
  | Wifi_set_mode wifi_mode_t | Wifi_get_config
  | Set_config_ap ap_config | Set_config_sta sta_config
  | Netif_create_sta | Netif_create_ap | Netif_destroy_ap | Netif_destroy_sta
  | Unregister_wifi_event | Unregister_ip_event | Event_loop_delete | Event_group_delete

type_synonym 'c driver = "'c list \<Rightarrow> 'c \<Rightarrow> esp_err_t"

record 'g wifi_t =
  m_mode :: wifi_mode_t
  wifi_group :: 'g
  m_ap_netif :: bool
  m_sta_netif :: bool
  m_retry_count :: uint8
  c_retry_attempts :: uint8
  wifi_log :: "wifi_call list"

definition c_connected_bit :: uint32 where "c_connected_bit = 1"
definition c_fail_bit :: uint32 where "c_fail_bit = 2"

lemmas wifi_bits = c_connected_bit_def c_fail_bit_def

definition wcall :: "wifi_call driver \<Rightarrow> wifi_call \<Rightarrow> 'g wifi_t \<Rightarrow> esp_err_t \<times> 'g wifi_t" where
  "wcall d c w = (d (wifi_log w) c, w\<lparr>wifi_log := wifi_log w @ [c]\<rparr>)"

definition esp_error_check :: "esp_err_t \<times> 's \<Rightarrow> 's result" where
  "esp_error_check r = (if fst r = ESP_OK then Inr (snd r) else Inl Aborted)"

fun wcheck_all :: "wifi_call driver \<Rightarrow> wifi_call list \<Rightarrow> 'g wifi_t \<Rightarrow> 'g wifi_t result" where
  "wcheck_all d [] w = Inr w"
| "wcheck_all d (c # cs) w = rbind (esp_error_check (wcall d c w)) (wcheck_all d cs)"

text \<open>\<open>strlcpy\<close> into a buffer: at most \<open>n - 1\<close> characters and the terminator.\<close>

definition NUL :: char where "NUL = CHR 0x00"

definition strlcpy :: "string \<Rightarrow> string \<Rightarrow> nat \<Rightarrow> string" where
  "strlcpy dst src n =
     (if n = 0 then dst
      else let s = take (n - 1) src in overwrite 0 (s @ [NUL]) dst)"

text \<open>The C string in a buffer; reading on past the buffer when there is no terminator.\<close>

definition cstr :: "string \<Rightarrow> string result" where
  "cstr buffer = (if NUL \<in> set buffer then Inr (takeWhile (\<lambda>c. c \<noteq> NUL) buffer) else Inl Out_of_bounds)"

section \<open>Configurations\<close>

text \<open>The sizes of the fields are those of the structures of ESP-IDF.\<close>

definition sizeof_ssid :: nat where "sizeof_ssid = 32"
definition sizeof_password :: nat where "sizeof_password = 64"

lemmas sizeof_defs = sizeof_ssid_def sizeof_password_def

definition init_softap ::
    "wifi_call driver \<Rightarrow> string \<Rightarrow> string \<Rightarrow> uint8 \<Rightarrow> 'g wifi_t \<Rightarrow> esp_err_t \<times> 'g wifi_t" where
  "init_softap d ssid password max_connections w =
     wcall d (Set_config_ap
       \<lparr>ap_ssid = strlcpy (replicate sizeof_ssid NUL) ssid sizeof_ssid,
        ap_password = strlcpy (replicate sizeof_password NUL) password sizeof_password,
        ap_ssid_len = of_nat (length ssid),
        ap_channel = 1,
        ap_max_connection = max_connections,
        ap_authmode = (if length password = 0 then WIFI_AUTH_OPEN else WIFI_AUTH_WPA2_PSK)\<rparr>) w"

definition init_station :: "wifi_call driver \<Rightarrow> string \<Rightarrow> string \<Rightarrow> 'g wifi_t \<Rightarrow> esp_err_t \<times> 'g wifi_t" where
  "init_station d ssid password w =
     wcall d (Set_config_sta
       \<lparr>sta_ssid = strlcpy (replicate sizeof_ssid NUL) ssid sizeof_ssid,
        sta_password = strlcpy (replicate sizeof_password NUL) password sizeof_password\<rparr>) w"

section \<open>The connection\<close>

text \<open>The start of the flash storage, which is erased and started again when it is full or of an old format.\<close>

definition nvs_setup :: "wifi_call driver \<Rightarrow> 'g wifi_t \<Rightarrow> 'g wifi_t result" where
  "nvs_setup d w =
     (case wcall d Nvs_flash_init w of
        (ret, w) \<Rightarrow>
          rbind (if ret = ESP_ERR_NVS_NO_FREE_PAGES \<or> ret = ESP_ERR_NVS_NEW_VERSION_FOUND
                 then rbind (esp_error_check (wcall d Nvs_flash_erase w)) (\<lambda>w. Inr (wcall d Nvs_flash_init w))
                 else Inr (ret, w))
            esp_error_check)"

text \<open>The constructor; \<open>created\<close> is what \<open>xEventGroupCreate\<close> returns, \<open>g\<close> the null handle before it.\<close>

definition wifi_create :: "wifi_call driver \<Rightarrow> 'g \<Rightarrow> 'g option \<Rightarrow> uint8 \<Rightarrow> 'g wifi_t result" where
  "wifi_create d g created retry_attempts =
     rbind (nvs_setup d
       \<lparr>m_mode = mode_none, wifi_group = g, m_ap_netif = False, m_sta_netif = False, m_retry_count = 0,
        c_retry_attempts = retry_attempts, wifi_log = []\<rparr>) (\<lambda>w.
     case created of
       None \<Rightarrow> Inl Aborted
     | Some g' \<Rightarrow>
         wcheck_all d [Netif_init, Event_loop_create, Register_wifi_event, Register_ip_event, Wifi_init]
           (w\<lparr>wifi_group := g'\<rparr>))"

text \<open>The destructor goes on after errors.\<close>

definition wifi_destroy :: "'g wifi_t \<Rightarrow> 'g wifi_t" where
  "wifi_destroy w =
     w\<lparr>wifi_log := wifi_log w @ [Wifi_stop, Wifi_deinit]
         @ (if m_ap_netif w then [Netif_destroy_ap] else [])
         @ (if m_sta_netif w then [Netif_destroy_sta] else [])
         @ [Unregister_wifi_event, Unregister_ip_event, Event_loop_delete, Event_group_delete],
       m_ap_netif := False, m_sta_netif := False\<rparr>"

definition wifi_start :: "wifi_call driver \<Rightarrow> 'g wifi_t \<Rightarrow> esp_err_t \<times> 'g wifi_t" where
  "wifi_start d w = wcall d Wifi_start w"

definition wifi_stop :: "wifi_call driver \<Rightarrow> 'g wifi_t \<Rightarrow> esp_err_t \<times> 'g wifi_t" where
  "wifi_stop d w = wcall d Wifi_stop w"

definition wifi_disconnect :: "wifi_call driver \<Rightarrow> 'g wifi_t \<Rightarrow> esp_err_t \<times> 'g wifi_t" where
  "wifi_disconnect d w = wcall d Wifi_disconnect w"

definition handle_create_netif :: "wifi_call driver \<Rightarrow> wifi_mode_t \<Rightarrow> 'g wifi_t \<Rightarrow> 'g wifi_t" where
  "handle_create_netif d mode w =
     (let w = (if (mode = mode_sta \<or> mode = mode_sta_ap) \<and> \<not> m_sta_netif w
               then (snd (wcall d Netif_create_sta w))\<lparr>m_sta_netif := True\<rparr> else w)
      in if mode = mode_sta_ap \<and> \<not> m_ap_netif w
         then (snd (wcall d Netif_create_ap w))\<lparr>m_ap_netif := True\<rparr> else w)"

definition set_mode :: "wifi_call driver \<Rightarrow> wifi_mode_t \<Rightarrow> 'g wifi_t \<Rightarrow> (esp_err_t \<times> 'g wifi_t) result" where
  "set_mode d mode w =
     (if m_mode w = mode then Inr (ESP_OK, w)
      else rbind (if m_mode w \<noteq> mode_none then esp_error_check (wcall d Wifi_stop w) else Inr w) (\<lambda>w.
        Inr (wcall d (Wifi_set_mode mode) ((handle_create_netif d mode w)\<lparr>m_mode := mode\<rparr>))))"

definition get_mode :: "'g wifi_t \<Rightarrow> wifi_mode_t" where
  "get_mode w = m_mode w"

definition set_sta_config :: "wifi_call driver \<Rightarrow> string \<Rightarrow> string \<Rightarrow> 'g wifi_t \<Rightarrow> esp_err_t \<times> 'g wifi_t" where
  "set_sta_config d ssid password w = init_station d ssid password w"

definition set_softap_config ::
    "wifi_call driver \<Rightarrow> string \<Rightarrow> string \<Rightarrow> uint8 \<Rightarrow> 'g wifi_t \<Rightarrow> esp_err_t \<times> 'g wifi_t" where
  "set_softap_config d ssid password max_connections w = init_softap d ssid password max_connections w"

definition reset_retry :: "'g event_group_ops \<Rightarrow> 'g wifi_t \<Rightarrow> 'g wifi_t" where
  "reset_retry eg w =
     w\<lparr>m_retry_count := 0, wifi_group := eg_clear_bits eg (c_connected_bit OR c_fail_bit) (wifi_group w)\<rparr>"

definition connect_from_nvs :: "'g event_group_ops \<Rightarrow> wifi_call driver \<Rightarrow> 'g wifi_t \<Rightarrow> (esp_err_t \<times> 'g wifi_t) result" where
  "connect_from_nvs eg d w =
     rbind (rbind (set_mode d mode_sta w) esp_error_check) (\<lambda>w.
     rbind (esp_error_check (wcall d Wifi_get_config w)) (\<lambda>w.
       Inr (wcall d Wifi_start (reset_retry eg w))))"

text \<open>\<open>None\<close> while neither bit is set: the task waits without a limit.\<close>

definition wait_connection :: "'g event_group_ops \<Rightarrow> 'g wifi_t \<Rightarrow> bool option" where
  "wait_connection eg w =
     map_option (\<lambda>bits. bits AND c_connected_bit \<noteq> 0)
       (eg_wait_bits eg (c_connected_bit OR c_fail_bit) False (wifi_group w))"

section \<open>Events\<close>

datatype wifi_event_id = WIFI_EVENT_STA_START | WIFI_EVENT_STA_DISCONNECTED | WIFI_EVENT_OTHER

datatype ip_event_id = IP_EVENT_STA_GOT_IP | IP_EVENT_OTHER

definition set_fail_bit :: "'g event_group_ops \<Rightarrow> 'g wifi_t \<Rightarrow> 'g wifi_t" where
  "set_fail_bit eg w = w\<lparr>wifi_group := eg_set_bits eg c_fail_bit (wifi_group w)\<rparr>"

definition wifi_event :: "'g event_group_ops \<Rightarrow> wifi_call driver \<Rightarrow> wifi_event_id \<Rightarrow> 'g wifi_t \<Rightarrow> 'g wifi_t" where
  "wifi_event eg d event_id w =
     (if event_id = WIFI_EVENT_STA_START then
        (case wcall d Wifi_connect w of (err, w) \<Rightarrow> if err \<noteq> ESP_OK then set_fail_bit eg w else w)
      else if event_id = WIFI_EVENT_STA_DISCONNECTED then
        (if m_retry_count w < c_retry_attempts w
         then snd (wcall d Wifi_connect (w\<lparr>m_retry_count := m_retry_count w + 1\<rparr>))
         else set_fail_bit eg w)
      else w)"

definition ip_event :: "'g event_group_ops \<Rightarrow> ip_event_id \<Rightarrow> 'g wifi_t \<Rightarrow> 'g wifi_t" where
  "ip_event eg event_id w =
     (if event_id = IP_EVENT_STA_GOT_IP
      then w\<lparr>m_retry_count := 0, wifi_group := eg_set_bits eg c_connected_bit (wifi_group w)\<rparr>
      else w)"

datatype net_event = Wifi_ev wifi_event_id | Ip_ev ip_event_id

fun on_net_event :: "'g event_group_ops \<Rightarrow> wifi_call driver \<Rightarrow> net_event \<Rightarrow> 'g wifi_t \<Rightarrow> 'g wifi_t" where
  "on_net_event eg d (Wifi_ev e) w = wifi_event eg d e w"
| "on_net_event eg d (Ip_ev e) w = ip_event eg e w"

abbreviation on_net_events :: "'g event_group_ops \<Rightarrow> wifi_call driver \<Rightarrow> net_event list \<Rightarrow> 'g wifi_t \<Rightarrow> 'g wifi_t" where
  "on_net_events eg d es w \<equiv> fold (on_net_event eg d) es w"

section \<open>Buffers\<close>

lemma takeWhile_NUL [simp]: "NUL \<notin> set s \<Longrightarrow> takeWhile (\<lambda>c. c \<noteq> NUL) (s @ NUL # r) = s"
  by (induction s) auto

lemma strlcpy_fits:
  "length src < n \<Longrightarrow> n \<le> length dst \<Longrightarrow> NUL \<notin> set src \<Longrightarrow>
     length (strlcpy dst src n) = length dst \<and> cstr (strlcpy dst src n) = Inr src"
  by (auto simp: strlcpy_def Let_def overwrite_def cstr_def)

lemma length_strlcpy: "n \<le> length dst \<Longrightarrow> length (strlcpy dst src n) = length dst"
  by (auto simp: strlcpy_def Let_def overwrite_def)

lemma NUL_in_strlcpy: "0 < n \<Longrightarrow> NUL \<in> set (strlcpy dst src n)"
  by (simp add: strlcpy_def Let_def overwrite_def)

section \<open>Bits\<close>

lemma and_bit_masks:
  "x AND (1 :: uint32) \<noteq> 0 \<longleftrightarrow> bit x 0" "x AND (2 :: uint32) \<noteq> 0 \<longleftrightarrow> bit x 1" "x AND (4 :: uint32) \<noteq> 0 \<longleftrightarrow> bit x 2"
  by (simp_all add: bit_iff_and_push_bit_not_eq_0)

lemma and_or_masks:
  "x AND (1 OR 2 :: uint32) \<noteq> 0 \<longleftrightarrow> bit x 0 \<or> bit x 1"
proof -
  have "x AND (1 OR 2 :: uint32) = (x AND 1) OR (x AND 2)" by (rule bit.conj_disj_distrib)
  then show ?thesis using and_bit_masks by (simp only: or_eq_0_iff) blast
qed

lemma bits_1_2_4 [simp]:
  "bit (1 :: uint32) 0" "\<not> bit (1 :: uint32) 1" "\<not> bit (1 :: uint32) 2"
  "\<not> bit (2 :: uint32) 0" "bit (2 :: uint32) 1" "\<not> bit (2 :: uint32) 2"
  "\<not> bit (4 :: uint32) 0" "\<not> bit (4 :: uint32) 1" "bit (4 :: uint32) 2"
  by (simp_all add: bit_numeral_simps bit_1_iff)

text \<open>Events other than the start of the station and an address: disconnections and what the handlers ignore.\<close>

definition failing :: "net_event \<Rightarrow> bool" where
  "failing e \<longleftrightarrow> e \<noteq> Wifi_ev WIFI_EVENT_STA_START \<and> e \<noteq> Ip_ev IP_EVENT_STA_GOT_IP"

lemma unat_succ_less: "(x :: uint8) < y \<Longrightarrow> unat (x + 1) = Suc (unat x)"
  using unsigned_less [where 'a = nat, of y] by (simp add: unat_word_ariths word_less_nat_alt)

context freertos_event_group
begin

lemma wait_connection_eq:
  "wait_connection eg w =
     (if bit (eg_get_bits eg (wifi_group w)) 0 then Some True
      else if bit (eg_get_bits eg (wifi_group w)) 1 then Some False else None)"
  using and_or_masks [of "eg_get_bits eg (wifi_group w)"] and_bit_masks(1) [of "eg_get_bits eg (wifi_group w)"]
  by (auto simp: wait_connection_def eg_wait_bits_def wifi_bits)

lemma reset_retry_bits:
  "\<not> bit (eg_get_bits eg (wifi_group (reset_retry eg w))) 0" "\<not> bit (eg_get_bits eg (wifi_group (reset_retry eg w))) 1"
  by (simp_all add: reset_retry_def bit_simps wifi_bits)

lemma connect_from_nvs_waiting:
  assumes "connect_from_nvs eg d w = Inr (err, w')"
  shows "m_retry_count w' = 0 \<and> wait_connection eg w' = None \<and> last (wifi_log w') = Wifi_start"
proof -
  obtain w1 where "wcall d Wifi_start (reset_retry eg w1) = (err, w')"
    using assms by (auto simp: connect_from_nvs_def rbind_eq_Inr_iff)
  then show ?thesis
    using reset_retry_bits [of w1] by (auto simp: wcall_def reset_retry_def wait_connection_eq)
qed

text \<open>Without an address, every disconnection costs one of the attempts, and the one after the last sets the fail bit.\<close>

lemma failing_step:
  assumes "failing e" and "\<not> bit (eg_get_bits eg (wifi_group w)) 0" and "m_retry_count w \<le> c_retry_attempts w"
  shows "\<not> bit (eg_get_bits eg (wifi_group (on_net_event eg d e w))) 0"
    and "c_retry_attempts (on_net_event eg d e w) = c_retry_attempts w"
    and "unat (m_retry_count (on_net_event eg d e w)) =
      min (unat (m_retry_count w) + count_list [e] (Wifi_ev WIFI_EVENT_STA_DISCONNECTED)) (unat (c_retry_attempts w))"
    and "bit (eg_get_bits eg (wifi_group (on_net_event eg d e w))) 1 \<longleftrightarrow>
      bit (eg_get_bits eg (wifi_group w)) 1 \<or>
      e = Wifi_ev WIFI_EVENT_STA_DISCONNECTED \<and> m_retry_count w = c_retry_attempts w"
    and "count_list (wifi_log (on_net_event eg d e w)) Wifi_connect + unat (m_retry_count w) =
      count_list (wifi_log w) Wifi_connect + unat (m_retry_count (on_net_event eg d e w))"
proof -
  have inc: "m_retry_count w < c_retry_attempts w \<Longrightarrow> unat (m_retry_count w + 1) = Suc (unat (m_retry_count w))"
    by (rule unat_succ_less)
  have le: "m_retry_count w < c_retry_attempts w \<Longrightarrow> Suc (unat (m_retry_count w)) \<le> unat (c_retry_attempts w)"
    by (simp add: Suc_le_eq unat_mono)
  note defs = wifi_event_def ip_event_def wcall_def set_fail_bit_def wifi_bits failing_def bit_simps
  show "\<not> bit (eg_get_bits eg (wifi_group (on_net_event eg d e w))) 0"
    using assms by (cases e) (auto simp: defs)
  show "c_retry_attempts (on_net_event eg d e w) = c_retry_attempts w"
    using assms by (cases e) (auto simp: defs)
  show "unat (m_retry_count (on_net_event eg d e w)) =
      min (unat (m_retry_count w) + count_list [e] (Wifi_ev WIFI_EVENT_STA_DISCONNECTED)) (unat (c_retry_attempts w))"
    using assms inc le by (cases e) (auto simp: defs word_le_nat_alt word_less_nat_alt min_def)
  show "bit (eg_get_bits eg (wifi_group (on_net_event eg d e w))) 1 \<longleftrightarrow>
      bit (eg_get_bits eg (wifi_group w)) 1 \<or>
      e = Wifi_ev WIFI_EVENT_STA_DISCONNECTED \<and> m_retry_count w = c_retry_attempts w"
    using assms by (cases e) (auto simp: defs)
  show "count_list (wifi_log (on_net_event eg d e w)) Wifi_connect + unat (m_retry_count w) =
      count_list (wifi_log w) Wifi_connect + unat (m_retry_count (on_net_event eg d e w))"
    using assms inc by (cases e) (auto simp: defs)
qed

lemma failing_run:
  "list_all failing es \<Longrightarrow> \<not> bit (eg_get_bits eg (wifi_group w)) 0 \<Longrightarrow> m_retry_count w \<le> c_retry_attempts w \<Longrightarrow>
     \<not> bit (eg_get_bits eg (wifi_group (on_net_events eg d es w))) 0
   \<and> c_retry_attempts (on_net_events eg d es w) = c_retry_attempts w
   \<and> unat (m_retry_count (on_net_events eg d es w)) =
       min (unat (m_retry_count w) + count_list es (Wifi_ev WIFI_EVENT_STA_DISCONNECTED)) (unat (c_retry_attempts w))
   \<and> (bit (eg_get_bits eg (wifi_group (on_net_events eg d es w))) 1 \<longleftrightarrow>
       bit (eg_get_bits eg (wifi_group w)) 1 \<or>
       unat (c_retry_attempts w) < unat (m_retry_count w) + count_list es (Wifi_ev WIFI_EVENT_STA_DISCONNECTED))
   \<and> count_list (wifi_log (on_net_events eg d es w)) Wifi_connect + unat (m_retry_count w) =
       count_list (wifi_log w) Wifi_connect + unat (m_retry_count (on_net_events eg d es w))"
proof (induction es arbitrary: w)
  case Nil
  then show ?case by (simp add: word_le_nat_alt)
next
  case (Cons e es)
  have e: "failing e" "list_all failing es" using Cons.prems(1) by simp_all
  let ?w = "on_net_event eg d e w"
  note step = failing_step [OF e(1) Cons.prems(2,3), of d]
  have le: "m_retry_count ?w \<le> c_retry_attempts ?w" using step(2,3) by (simp add: word_le_nat_alt)
  have eq: "m_retry_count w = c_retry_attempts w \<longleftrightarrow> unat (m_retry_count w) = unat (c_retry_attempts w)"
    by (simp add: word_unat_eq_iff)
  have "unat (m_retry_count w) \<le> unat (c_retry_attempts w)" using Cons.prems(3) by (simp add: word_le_nat_alt)
  with Cons.IH [OF e(2) step(1) le] step(2-5) eq show ?case
    by (cases "e = Wifi_ev WIFI_EVENT_STA_DISCONNECTED") (auto simp: min_def split: if_splits)
qed

text \<open>The start of the station makes the first request to connect, and sets the fail bit when that is refused.\<close>

lemma start_step:
  "eg_get_bits eg (wifi_group (wifi_event eg d WIFI_EVENT_STA_START w)) =
     (if d (wifi_log w) Wifi_connect = ESP_OK then eg_get_bits eg (wifi_group w)
      else eg_get_bits eg (wifi_group w) OR c_fail_bit)"
  "m_retry_count (wifi_event eg d WIFI_EVENT_STA_START w) = m_retry_count w"
  "c_retry_attempts (wifi_event eg d WIFI_EVENT_STA_START w) = c_retry_attempts w"
  "wifi_log (wifi_event eg d WIFI_EVENT_STA_START w) = wifi_log w @ [Wifi_connect]"
  by (simp_all add: wifi_event_def wcall_def set_fail_bit_def)

lemma started_run:
  fixes d :: "wifi_call driver"
  assumes "list_all failing pre" and "list_all failing es" and "m_retry_count w = 0"
    and "\<not> bit (eg_get_bits eg (wifi_group w)) 0" and "\<not> bit (eg_get_bits eg (wifi_group w)) 1"
  defines "run \<equiv> on_net_events eg d (pre @ Wifi_ev WIFI_EVENT_STA_START # es) w"
    and "lost \<equiv> count_list (pre @ es) (Wifi_ev WIFI_EVENT_STA_DISCONNECTED)"
  shows "\<not> bit (eg_get_bits eg (wifi_group run)) 0"
    and "bit (eg_get_bits eg (wifi_group run)) 1 \<longleftrightarrow>
      d (wifi_log (on_net_events eg d pre w)) Wifi_connect \<noteq> ESP_OK \<or> unat (c_retry_attempts w) < lost"
    and "count_list (wifi_log run) Wifi_connect = count_list (wifi_log w) Wifi_connect + 1 + min lost (unat (c_retry_attempts w))"
proof -
  let ?w1 = "on_net_events eg d pre w"
  let ?w2 = "wifi_event eg d WIFI_EVENT_STA_START ?w1"
  note one = failing_run [OF assms(1,4), of d]
  have le: "m_retry_count ?w1 \<le> c_retry_attempts ?w1" using one assms(3) by (simp add: word_le_nat_alt)
  have bit0: "\<not> bit (eg_get_bits eg (wifi_group ?w2)) 0"
    using one assms(3) by (simp add: start_step(1) bit_simps wifi_bits)
  have bit1: "bit (eg_get_bits eg (wifi_group ?w2)) 1 \<longleftrightarrow>
      bit (eg_get_bits eg (wifi_group ?w1)) 1 \<or> d (wifi_log ?w1) Wifi_connect \<noteq> ESP_OK"
    by (simp add: start_step(1) bit_simps wifi_bits)
  note two = failing_run [OF assms(2) bit0, of d]
  have run: "run = on_net_events eg d es ?w2" by (simp add: run_def)
  show "\<not> bit (eg_get_bits eg (wifi_group run)) 0"
    using two le by (simp add: run start_step(2,3))
  show "bit (eg_get_bits eg (wifi_group run)) 1 \<longleftrightarrow>
      d (wifi_log ?w1) Wifi_connect \<noteq> ESP_OK \<or> unat (c_retry_attempts w) < lost"
    using one two bit1 le assms(3,5) by (auto simp: run start_step(2,3) lost_def min_def split: if_splits)
  show "count_list (wifi_log run) Wifi_connect = count_list (wifi_log w) Wifi_connect + 1 + min lost (unat (c_retry_attempts w))"
    using one two le assms(3) by (auto simp: run start_step(2-4) lost_def min_def split: if_splits)
qed

lemma connected_step:
  "bit (eg_get_bits eg (wifi_group w)) 0 \<Longrightarrow> bit (eg_get_bits eg (wifi_group (on_net_event eg d e w))) 0"
  by (cases e) (auto simp: wifi_event_def ip_event_def wcall_def set_fail_bit_def bit_simps split: if_splits)

lemma connected_run:
  "bit (eg_get_bits eg (wifi_group w)) 0 \<Longrightarrow> bit (eg_get_bits eg (wifi_group (on_net_events eg d es w))) 0"
  by (induction es arbitrary: w) (simp_all add: connected_step)

end

section \<open>Properties\<close>

text \<open>
  C24. The attempt to join the stored network ends. After \<open>connect_from_nvs\<close> the driver reports the
  start of the station, before or after which there may be disconnections and other events. The start
  makes the first request to connect, and every disconnection one more, up to the number of attempts.
  As long as no address is assigned, \<open>wait_connection\<close> returns false when the first request
  was refused or there has been one disconnection more than attempts, and waits otherwise. An address
  makes it return true, from then on whatever happens: no event clears the bit, so the answer stays
  true when the connection is lost again and the attempts to join it have failed.
\<close>

theorem wifi_attempt_ends:
  assumes "freertos_event_group eg" and "connect_from_nvs eg d w0 = Inr (ESP_OK, w)"
    and "list_all failing pre" and "list_all failing es"
  shows "let run = on_net_events eg d (pre @ Wifi_ev WIFI_EVENT_STA_START # es) w;
             lost = count_list (pre @ es) (Wifi_ev WIFI_EVENT_STA_DISCONNECTED)
    in wait_connection eg run =
        (if d (wifi_log (on_net_events eg d pre w)) Wifi_connect = ESP_OK \<and> lost \<le> unat (c_retry_attempts w)
         then None else Some False)
     \<and> count_list (wifi_log run) Wifi_connect =
        count_list (wifi_log w) Wifi_connect + 1 + min lost (unat (c_retry_attempts w))
     \<and> wait_connection eg (on_net_events eg d (Ip_ev IP_EVENT_STA_GOT_IP # es') run) = Some True"
proof -
  note eq = freertos_event_group.wait_connection_eq [OF assms(1)]
  have w: "m_retry_count w = 0" "\<not> bit (eg_get_bits eg (wifi_group w)) 0" "\<not> bit (eg_get_bits eg (wifi_group w)) 1"
    using freertos_event_group.connect_from_nvs_waiting [OF assms(1,2)] by (auto simp: eq split: if_splits)
  let ?run = "on_net_events eg d (pre @ Wifi_ev WIFI_EVENT_STA_START # es) w"
  note run = freertos_event_group.started_run [OF assms(1,3,4) w, of d]
  have "bit (eg_get_bits eg (wifi_group (on_net_event eg d (Ip_ev IP_EVENT_STA_GOT_IP) ?run))) 0"
    by (simp add: ip_event_def freertos_event_group.set_bits [OF assms(1)] bit_simps wifi_bits)
  from freertos_event_group.connected_run [OF assms(1) this, of d es']
  have "wait_connection eg (on_net_events eg d (Ip_ev IP_EVENT_STA_GOT_IP # es') ?run) = Some True" by (simp add: eq)
  then show ?thesis using run unfolding Let_def by (simp only: eq not_le not_less if_False) auto
qed

theorem wifi_attempt_ends_witness:
  "let w = \<lparr>m_mode = mode_sta, wifi_group = 2, m_ap_netif = False, m_sta_netif = True, m_retry_count = 3,
            c_retry_attempts = 3, wifi_log = []\<rparr> :: uint32 wifi_t;
       w' = \<lparr>m_mode = mode_sta, wifi_group = 0, m_ap_netif = False, m_sta_netif = True, m_retry_count = 0,
            c_retry_attempts = 3, wifi_log = [Wifi_get_config, Wifi_start]\<rparr> :: uint32 wifi_t;
       d = (\<lambda>log c. ESP_OK);
       run = on_net_events word_group d
         ([Wifi_ev WIFI_EVENT_OTHER] @ Wifi_ev WIFI_EVENT_STA_START # replicate 4 (Wifi_ev WIFI_EVENT_STA_DISCONNECTED)) w'
   in connect_from_nvs word_group d w = Inr (ESP_OK, w')
    \<and> wait_connection word_group run = Some False
    \<and> count_list (wifi_log run) Wifi_connect = 4
    \<and> wait_connection word_group (on_net_events word_group d [Ip_ev IP_EVENT_STA_GOT_IP] run) = Some True"
proof -
  let ?w = "\<lparr>m_mode = mode_sta, wifi_group = 2, m_ap_netif = False, m_sta_netif = True, m_retry_count = 3,
            c_retry_attempts = 3, wifi_log = []\<rparr> :: uint32 wifi_t"
  let ?w' = "\<lparr>m_mode = mode_sta, wifi_group = 0, m_ap_netif = False, m_sta_netif = True, m_retry_count = 0,
            c_retry_attempts = 3, wifi_log = [Wifi_get_config, Wifi_start]\<rparr> :: uint32 wifi_t"
  have c: "connect_from_nvs word_group (\<lambda>log c. ESP_OK) ?w = Inr (ESP_OK, ?w')"
    by (simp add: connect_from_nvs_def set_mode_def esp_error_check_def wcall_def reset_retry_def word_group_def wifi_bits)
  have "list_all failing [Wifi_ev WIFI_EVENT_OTHER]"
    "list_all failing (replicate 4 (Wifi_ev WIFI_EVENT_STA_DISCONNECTED))"
    by (simp_all add: list_all_iff failing_def)
  from wifi_attempt_ends [OF wg.freertos_event_group_axioms c this, of "[]"] c show ?thesis
    by (simp add: Let_def count_list_eq_length_filter del: fold_simps fold_append fold_replicate)
qed

end
