(* ===== verification/Client_Provisioning.thy ===== *)
theory Client_Provisioning
  imports Client_Wifi
begin

text \<open>
  Giving the train its network credentials: \<open>client/main/wifi/provisioning/provisioning_http.{hpp,cpp}\<close>,
  \<open>provisioning.{hpp,cpp}\<close> and \<open>provisioning_status.hpp\<close>.

  The HTTP server of ESP-IDF and cJSON are parameters: what \<open>httpd_req_recv\<close> returns is a list of
  events, and \<open>json_api\<close> gives the parser and the access to an object. The handlers run in the task of the
  HTTP server, one request at a time, the events of the driver in the event task, and
  \<open>provisioning_t::wait_connection\<close> in the task of the application: a run is a sequence of their steps in any
  order. The loop goes from one of its waits to the next in one step; in between it only clears bits, sets the
  status and calls the driver. A handler is split wherever it waits for the client and before every use of the event group and of
  the status, which it shares with the loop; \<open>try_stop\<close> is split between the deletion of the event group and
  \<open>httpd_stop\<close>.
\<close>

section \<open>Status\<close>

datatype provisioning_status_t = ps_none | ps_connecting | ps_connected | ps_bad_credentials

definition to_str :: "provisioning_status_t \<Rightarrow> string" where
  "to_str status =
     (case status of
        ps_connected \<Rightarrow> ''connected''
      | ps_bad_credentials \<Rightarrow> ''bad_credentials''
      | ps_connecting \<Rightarrow> ''connecting''
      | _ \<Rightarrow> ''idle'')"

section \<open>The HTTP interface\<close>

record 'g provisioning_http_t =
  m_http_handle :: bool
  prov_group :: "'g option"
  m_ssid :: string
  m_password :: string
  m_status :: provisioning_status_t

definition provisioning_http_new :: "'g provisioning_http_t" where
  "provisioning_http_new =
     \<lparr>m_http_handle = False, prov_group = None, m_ssid = replicate 32 NUL, m_password = replicate 64 NUL, m_status = ps_none\<rparr>"

definition c_received_bit :: uint32 where "c_received_bit = 1"
definition c_prov_fail_bit :: uint32 where "c_prov_fail_bit = 2"
definition c_ack_bit :: uint32 where "c_ack_bit = 4"

lemmas prov_bits = c_received_bit_def c_prov_fail_bit_def c_ack_bit_def

text \<open>Operations on the event group; without a group they are calls on a null handle.\<close>

definition on_group :: "('g \<Rightarrow> 'g) \<Rightarrow> 'g provisioning_http_t \<Rightarrow> 'g provisioning_http_t result" where
  "on_group f p = (case prov_group p of None \<Rightarrow> Inl Aborted | Some g \<Rightarrow> Inr (p\<lparr>prov_group := Some (f g)\<rparr>))"

definition reset_credentials_check :: "'g event_group_ops \<Rightarrow> 'g provisioning_http_t \<Rightarrow> 'g provisioning_http_t result" where
  "reset_credentials_check eg p = on_group (eg_clear_bits eg (c_received_bit OR c_prov_fail_bit OR c_ack_bit)) p"

definition prov_fail :: "'g event_group_ops \<Rightarrow> 'g provisioning_http_t \<Rightarrow> 'g provisioning_http_t result" where
  "prov_fail eg p = on_group (eg_set_bits eg c_prov_fail_bit) p"

definition set_status :: "provisioning_status_t \<Rightarrow> 'g provisioning_http_t \<Rightarrow> 'g provisioning_http_t" where
  "set_status state p = p\<lparr>m_status := state\<rparr>"

text \<open>
  The two halves of \<open>try_stop\<close>: the event group is deleted and its handle set to null, then
  the server is stopped.
\<close>

definition try_stop_group :: "'g provisioning_http_t \<Rightarrow> 'g provisioning_http_t" where
  "try_stop_group p = p\<lparr>prov_group := None\<rparr>"

definition try_stop_httpd :: "esp_err_t \<Rightarrow> 'g provisioning_http_t \<Rightarrow> esp_err_t \<times> 'g provisioning_http_t" where
  "try_stop_httpd httpd_stop_err p = (httpd_stop_err, p\<lparr>m_http_handle := False\<rparr>)"

definition prov_try_stop :: "esp_err_t \<Rightarrow> 'g provisioning_http_t \<Rightarrow> esp_err_t \<times> 'g provisioning_http_t" where
  "prov_try_stop httpd_stop_err p =
     (if \<not> m_http_handle p then (ESP_FAIL, p) else try_stop_httpd httpd_stop_err (try_stop_group p))"

text \<open>The handlers that \<open>try_start\<close> registers; \<open>reg\<close> gives the error of each registration.\<close>

datatype prov_uri = Post_wifi_cred_connect | Get_wifi_cred_status | Get_ping

fun register_uris ::
    "(prov_uri \<Rightarrow> esp_err_t) \<Rightarrow> esp_err_t \<Rightarrow> prov_uri list \<Rightarrow> 'g provisioning_http_t \<Rightarrow> (esp_err_t \<times> 'g provisioning_http_t) result" where
  "register_uris reg stop_err [] p = Inr (ESP_OK, p)"
| "register_uris reg stop_err (u # us) p =
     (if reg u \<noteq> ESP_OK
      then rbind (esp_error_check (prov_try_stop stop_err p)) (\<lambda>p. Inr (reg u, p))
      else register_uris reg stop_err us p)"

definition prov_try_start ::
    "'g event_group_ops \<Rightarrow> 'g option \<Rightarrow> esp_err_t \<Rightarrow> (prov_uri \<Rightarrow> esp_err_t) \<Rightarrow> esp_err_t \<Rightarrow> 'g provisioning_http_t \<Rightarrow>
     (esp_err_t \<times> 'g provisioning_http_t) result" where
  "prov_try_start eg created start_err reg stop_err p =
     (case created of
        None \<Rightarrow> Inr (ESP_FAIL, p\<lparr>prov_group := None\<rparr>)
      | Some g \<Rightarrow>
          rbind (reset_credentials_check eg (p\<lparr>prov_group := Some g\<rparr>)) (\<lambda>p.
          if start_err \<noteq> ESP_OK then Inr (start_err, p)
          else register_uris reg stop_err [Post_wifi_cred_connect, Get_wifi_cred_status, Get_ping] (p\<lparr>m_http_handle := True\<rparr>)))"

text \<open>The waits; \<open>None\<close> while the task is blocked.\<close>

definition has_credentials ::
    "'g event_group_ops \<Rightarrow> 'g provisioning_http_t \<Rightarrow> (bool \<times> 'g provisioning_http_t) option result" where
  "has_credentials eg p =
     (case prov_group p of
        None \<Rightarrow> Inl Aborted
      | Some g \<Rightarrow>
          (case eg_wait_bits eg (c_received_bit OR c_prov_fail_bit) False g of
             None \<Rightarrow> Inr None
           | Some bits \<Rightarrow>
               if bits AND c_received_bit \<noteq> 0 then Inr (Some (True, p))
               else rbind (reset_credentials_check eg p) (\<lambda>p. Inr (Some (False, p)))))"

definition has_ack_connection ::
    "'g event_group_ops \<Rightarrow> bool \<Rightarrow> 'g provisioning_http_t \<Rightarrow> (bool \<times> 'g provisioning_http_t) option result" where
  "has_ack_connection eg timed_out p =
     (case prov_group p of
        None \<Rightarrow> Inl Aborted
      | Some g \<Rightarrow>
          (case eg_wait_bits eg c_ack_bit timed_out g of
             None \<Rightarrow> Inr None
           | Some bits \<Rightarrow>
               if bits AND c_ack_bit \<noteq> 0 then Inr (Some (True, p))
               else rbind (reset_credentials_check eg p) (\<lambda>p. Inr (Some (False, p)))))"

definition get_ssid :: "'g provisioning_http_t \<Rightarrow> string result" where
  "get_ssid p = cstr (m_ssid p)"

definition get_password :: "'g provisioning_http_t \<Rightarrow> string result" where
  "get_password p = cstr (m_password p)"

section \<open>Requests\<close>

datatype http_reply =
    Reply_err nat string
  | Reply_408
  | Reply_str string

text \<open>What \<open>httpd_req_recv\<close> returns: a number of bytes of the body, a timeout or another error.\<close>

datatype req_event = Body_bytes nat | Body_timeout | Body_error

text \<open>
  Where the task of the server is: between requests; in \<open>get_body\<close>, waiting for bytes of a body, with the
  offset and the buffer; before \<open>get_body\<close> sets the fail bit; before the buffer is parsed; before the
  received bit is set, with the credentials stored; before \<open>fail()\<close>; before the status handler compares the
  status, with its response; and before it sets the bit of the acknowledgement.
\<close>

datatype http_task =
    H_idle
  | H_get_body string nat string
  | H_body_failed
  | H_parse string
  | H_received
  | H_fail
  | H_status string
  | H_ack string

text \<open>
  The head of the loop of \<open>get_body\<close>, into a buffer of \<open>content_len + 1\<close> characters, and what follows a
  return of \<open>httpd_req_recv\<close>. A count beyond the bytes left is cut to them, as \<open>httpd_req_recv\<close> is told
  their number.
\<close>

definition get_body_loop :: "string \<Rightarrow> nat \<Rightarrow> string \<Rightarrow> http_task result" where
  "get_body_loop body offset buffer =
     (if offset < length body then Inr (H_get_body body offset buffer)
      else if offset < length buffer then Inr (H_parse (buffer[offset := NUL]))
      else Inl Out_of_bounds)"

definition get_body :: "req_event \<Rightarrow> string \<Rightarrow> nat \<Rightarrow> string \<Rightarrow> (http_task \<times> http_reply list) result" where
  "get_body recv body offset buffer =
     (case recv of
        Body_bytes n \<Rightarrow>
          if n = 0 then Inr (H_body_failed, [])
          else let k = min n (length body - offset)
               in rbind (get_body_loop body (offset + k) (overwrite offset (take k (drop offset body)) buffer)) (\<lambda>t. Inr (t, []))
      | Body_timeout \<Rightarrow> Inr (H_body_failed, [Reply_408])
      | Body_error \<Rightarrow> Inr (H_body_failed, []))"

text \<open>cJSON: parsing, the member of an object, and the value of a string.\<close>

record 'j json_api =
  j_parse :: "string \<Rightarrow> 'j option"
  j_get :: "'j \<Rightarrow> string \<Rightarrow> 'j option"
  j_string :: "'j \<Rightarrow> string option"

definition store_credentials ::
    "string \<Rightarrow> string \<Rightarrow> 'g provisioning_http_t \<Rightarrow> http_task \<times> http_reply list \<times> 'g provisioning_http_t" where
  "store_credentials ssid password p =
     (if length ssid \<ge> length (m_ssid p) then (H_fail, [Reply_err 400 ''SSID too long''], p)
      else if length password \<ge> length (m_password p) then (H_fail, [Reply_err 400 ''Password too long''], p)
      else (H_received, [],
            p\<lparr>m_ssid := strlcpy (m_ssid p) ssid (length (m_ssid p)),
              m_password := strlcpy (m_password p) password (length (m_password p))\<rparr>))"

definition parse_body ::
    "'j json_api \<Rightarrow> string \<Rightarrow> 'g provisioning_http_t \<Rightarrow> (http_task \<times> http_reply list \<times> 'g provisioning_http_t) result" where
  "parse_body js buffer p =
     rbind (cstr buffer) (\<lambda>s.
     case j_parse js s of
       None \<Rightarrow> Inr (H_fail, [Reply_err 400 ''Invalid JSON''], p)
     | Some root \<Rightarrow>
         (case (Option.bind (j_get js root ''ssid'') (j_string js), Option.bind (j_get js root ''password'') (j_string js)) of
            (Some ssid, Some password) \<Rightarrow> Inr (store_credentials ssid password p)
          | _ \<Rightarrow> Inr (H_fail, [Reply_err 400 ''Missing fields''], p)))"

text \<open>
  The handler of the credentials, up to the first wait. \<open>allocated\<close> says whether the buffer could be
  allocated; the program is aborted otherwise, as \<open>make_unique\<close> does not return a null pointer.
\<close>

definition wifi_cred_post_handler :: "bool \<Rightarrow> string \<Rightarrow> (http_task \<times> http_reply list) result" where
  "wifi_cred_post_handler allocated body =
     (if length body = 0 then Inr (H_idle, [Reply_err 400 ''Empty body''])
      else if \<not> allocated then Inl Aborted
      else rbind (get_body_loop body 0 (replicate (length body + 1) NUL)) (\<lambda>t. Inr (t, [])))"

definition wifi_cred_get_handler :: "'g provisioning_http_t \<Rightarrow> http_task" where
  "wifi_cred_get_handler p = H_status (take 127 (''{\"status\":\"'' @ to_str (m_status p) @ ''\"}''))"

text \<open>The next step of a handler that does not wait for bytes.\<close>

fun http_task_step ::
    "'g event_group_ops \<Rightarrow> 'j json_api \<Rightarrow> http_task \<Rightarrow> 'g provisioning_http_t \<Rightarrow>
     (http_task \<times> http_reply list \<times> 'g provisioning_http_t) result" where
  "http_task_step eg js H_idle p = Inr (H_idle, [], p)"
| "http_task_step eg js (H_get_body body offset buffer) p = Inr (H_get_body body offset buffer, [], p)"
| "http_task_step eg js H_body_failed p = rbind (prov_fail eg p) (\<lambda>p. Inr (H_fail, [], p))"
| "http_task_step eg js (H_parse buffer) p = parse_body js buffer p"
| "http_task_step eg js H_received p =
     rbind (on_group (eg_set_bits eg c_received_bit) p) (\<lambda>p. Inr (H_idle, [Reply_str ''OK''], p))"
| "http_task_step eg js H_fail p = rbind (prov_fail eg p) (\<lambda>p. Inr (H_idle, [], p))"
| "http_task_step eg js (H_status response) p =
     (if m_status p = ps_connected then Inr (H_ack response, [], p) else Inr (H_idle, [Reply_str response], p))"
| "http_task_step eg js (H_ack response) p =
     rbind (on_group (eg_set_bits eg c_ack_bit) p) (\<lambda>p. Inr (H_idle, [Reply_str response], p))"

definition esp_ping_handler :: "http_reply list" where
  "esp_ping_handler = [Reply_str ''OK'']"

section \<open>Provisioning\<close>

text \<open>\<open>%02X\<close>.\<close>

definition hex_digit :: "nat \<Rightarrow> char" where
  "hex_digit n = ''0123456789ABCDEF'' ! n"

definition hex2 :: "uint8 \<Rightarrow> string" where
  "hex2 b = [hex_digit (unat b div 16), hex_digit (unat b mod 16)]"

text \<open>
  The name of the access point in a buffer of 32 characters; \<open>mac\<close> is the address \<open>esp_read_mac\<close> gives,
  or none on an error.
\<close>

definition create_unique_ap_ssid ::
    "(uint8 \<times> uint8 \<times> uint8) option \<Rightarrow> string \<Rightarrow> string \<Rightarrow> (esp_err_t \<times> string) result" where
  "create_unique_ap_ssid mac ssid ap_ssid_buffer =
     (let max_ssid_size = 32; suffix_size = 7; max_user_ssid = max_ssid_size - suffix_size
      in if min (length ssid) max_ssid_size > max_user_ssid then Inr (ESP_FAIL, ap_ssid_buffer)
         else (case mac of
                 None \<Rightarrow> Inl Aborted
               | Some (m3, m4, m5) \<Rightarrow>
                   Inr (ESP_OK, strlcpy ap_ssid_buffer (ssid @ ''-'' @ hex2 m3 @ hex2 m4 @ hex2 m5) max_ssid_size)))"

text \<open>\<open>unset\<close> is what the uninitialised buffer on the stack holds.\<close>

definition start_softap ::
    "wifi_call driver \<Rightarrow> (uint8 \<times> uint8 \<times> uint8) option \<Rightarrow> string \<Rightarrow> string \<Rightarrow> string \<Rightarrow> uint8 \<Rightarrow> 'g wifi_t \<Rightarrow>
     (esp_err_t \<times> 'g wifi_t) result" where
  "start_softap d mac unset ssid password max_connections w =
     rbind (rbind (set_mode d mode_sta_ap w) esp_error_check) (\<lambda>w.
     rbind (create_unique_ap_ssid mac ssid unset) (\<lambda>(_, unique_ap_ssid).
     rbind (cstr unique_ap_ssid) (\<lambda>name.
     rbind (esp_error_check (set_softap_config d name password max_connections w)) (\<lambda>w.
       Inr (wifi_start d w)))))"

definition prov_start ::
    "'g event_group_ops \<Rightarrow> wifi_call driver \<Rightarrow> (uint8 \<times> uint8 \<times> uint8) option \<Rightarrow> string \<Rightarrow> 'g option \<Rightarrow> esp_err_t \<Rightarrow>
     (prov_uri \<Rightarrow> esp_err_t) \<Rightarrow> esp_err_t \<Rightarrow> string \<Rightarrow> string \<Rightarrow> uint8 \<Rightarrow> 'g wifi_t \<Rightarrow> 'g provisioning_http_t \<Rightarrow>
     (esp_err_t \<times> 'g wifi_t \<times> 'g provisioning_http_t) result" where
  "prov_start eg d mac unset created start_err reg stop_err ssid password max_connections w p =
     rbind (start_softap d mac unset ssid password max_connections w) (\<lambda>(ret, w).
     if ret \<noteq> ESP_OK then Inr (ret, w, p)
     else rbind (prov_try_start eg created start_err reg stop_err p) (\<lambda>(ret, p). Inr (ret, w, p)))"

definition try_station_connect ::
    "'g event_group_ops \<Rightarrow> wifi_call driver \<Rightarrow> string \<Rightarrow> string \<Rightarrow> 'g wifi_t \<Rightarrow> (esp_err_t \<times> 'g wifi_t) result" where
  "try_station_connect eg d ssid password w =
     (if get_mode w \<noteq> mode_sta_ap then Inr (ESP_FAIL, w)
      else rbind (esp_error_check (set_sta_config d ssid password w)) (\<lambda>w.
        Inr (wcall d Wifi_connect (reset_retry eg w))))"

definition prov_stop :: "'g event_group_ops \<Rightarrow> wifi_call driver \<Rightarrow> 'g wifi_t \<Rightarrow> (esp_err_t \<times> 'g wifi_t) result" where
  "prov_stop eg d w = set_mode d mode_none (reset_retry eg (snd (wifi_disconnect d w)))"

text \<open>Where the loop of \<open>wait_connection\<close> waits; \<open>P_stopping\<close> is in \<open>httpd_stop\<close>.\<close>

datatype prov_pc = P_credentials | P_connection | P_ack | P_stopping | P_done

record 'g prov_state =
  p_pc :: prov_pc
  p_wifi :: "'g wifi_t"
  p_http :: "'g provisioning_http_t"
  p_task :: http_task
  p_replies :: "http_reply list"

text \<open>
  From one wait of the loop to the next, with the calls of the callback. \<open>httpd_stop\<close> returns when the
  task of the server has ended, which it does between two requests.
\<close>

definition prov_main ::
    "'g event_group_ops \<Rightarrow> wifi_call driver \<Rightarrow> esp_err_t \<Rightarrow> bool \<Rightarrow> 'g prov_state \<Rightarrow> ('g prov_state \<times> bool list) result" where
  "prov_main eg d stop_err timed_out s =
     (case p_pc s of
        P_credentials \<Rightarrow>
          rbind (has_credentials eg (p_http s)) (\<lambda>r.
          case r of
            None \<Rightarrow> Inr (s, [])
          | Some (False, p) \<Rightarrow>
              rbind (reset_credentials_check eg p) (\<lambda>p. Inr (s\<lparr>p_http := set_status ps_bad_credentials p\<rparr>, []))
          | Some (True, p) \<Rightarrow>
              rbind (get_ssid p) (\<lambda>ssid.
              rbind (get_password p) (\<lambda>password.
              rbind (rbind (try_station_connect eg d ssid password (p_wifi s)) esp_error_check) (\<lambda>w.
                Inr (s\<lparr>p_pc := P_connection, p_wifi := w, p_http := set_status ps_connecting p\<rparr>, [])))))
      | P_connection \<Rightarrow>
          (case wait_connection eg (p_wifi s) of
             None \<Rightarrow> Inr (s, [])
           | Some False \<Rightarrow>
               rbind (reset_credentials_check eg (p_http s)) (\<lambda>p.
                 Inr (s\<lparr>p_pc := P_credentials, p_http := set_status ps_bad_credentials p\<rparr>, [False]))
           | Some True \<Rightarrow> Inr (s\<lparr>p_pc := P_ack, p_http := set_status ps_connected (p_http s)\<rparr>, []))
      | P_ack \<Rightarrow>
          rbind (has_ack_connection eg timed_out (p_http s)) (\<lambda>r.
          case r of
            None \<Rightarrow> Inr (s, [])
          | Some (False, p) \<Rightarrow> Inr (s\<lparr>p_pc := P_credentials, p_http := p\<rparr>, [])
          | Some (True, p) \<Rightarrow>
              if \<not> m_http_handle p then Inl Aborted
              else Inr (s\<lparr>p_pc := P_stopping, p_http := try_stop_group p\<rparr>, []))
      | P_stopping \<Rightarrow>
          if p_task s \<noteq> H_idle then Inr (s, [])
          else rbind (esp_error_check (try_stop_httpd stop_err (p_http s))) (\<lambda>p.
               rbind (rbind (prov_stop eg d (p_wifi s)) esp_error_check) (\<lambda>w.
                 Inr (s\<lparr>p_pc := P_done, p_wifi := w, p_http := p\<rparr>, [True])))
      | P_done \<Rightarrow> Inr (s, []))"

text \<open>
  The steps: of the loop, with whether its wait has timed out; a request for each of the three handlers;
  a return of \<open>httpd_req_recv\<close>; the next step of the handler; and an event of the driver.
\<close>

datatype prov_step =
    Main bool
  | Post string
  | Get_status
  | Ping
  | Recv req_event
  | Handler
  | Net net_event

definition http_free :: "'g prov_state \<Rightarrow> bool" where
  "http_free s \<longleftrightarrow> m_http_handle (p_http s) \<and> p_task s = H_idle"

text \<open>A request reaches its handler while the HTTP server runs and is between two requests.\<close>

fun prov_run_step ::
    "'g event_group_ops \<Rightarrow> wifi_call driver \<Rightarrow> 'j json_api \<Rightarrow> esp_err_t \<Rightarrow> prov_step \<Rightarrow> 'g prov_state \<Rightarrow>
     ('g prov_state \<times> bool list) result" where
  "prov_run_step eg d js stop_err (Main timed_out) s = prov_main eg d stop_err timed_out s"
| "prov_run_step eg d js stop_err (Post body) s =
     (if \<not> http_free s then Inr (s, [])
      else rbind (wifi_cred_post_handler True body) (\<lambda>(t, replies).
        Inr (s\<lparr>p_task := t, p_replies := p_replies s @ replies\<rparr>, [])))"
| "prov_run_step eg d js stop_err Get_status s =
     Inr (if http_free s then s\<lparr>p_task := wifi_cred_get_handler (p_http s)\<rparr> else s, [])"
| "prov_run_step eg d js stop_err Ping s =
     Inr (if http_free s then s\<lparr>p_replies := p_replies s @ esp_ping_handler\<rparr> else s, [])"
| "prov_run_step eg d js stop_err (Recv e) s =
     (case p_task s of
        H_get_body body offset buffer \<Rightarrow>
          rbind (get_body e body offset buffer) (\<lambda>(t, replies).
            Inr (s\<lparr>p_task := t, p_replies := p_replies s @ replies\<rparr>, []))
      | _ \<Rightarrow> Inr (s, []))"
| "prov_run_step eg d js stop_err Handler s =
     rbind (http_task_step eg js (p_task s) (p_http s)) (\<lambda>(t, replies, p).
       Inr (s\<lparr>p_task := t, p_http := p, p_replies := p_replies s @ replies\<rparr>, []))"
| "prov_run_step eg d js stop_err (Net e) s = Inr (s\<lparr>p_wifi := on_net_event eg d e (p_wifi s)\<rparr>, [])"

fun prov_run ::
    "'g event_group_ops \<Rightarrow> wifi_call driver \<Rightarrow> 'j json_api \<Rightarrow> esp_err_t \<Rightarrow> prov_step list \<Rightarrow> 'g prov_state \<Rightarrow>
     ('g prov_state \<times> bool list) result" where
  "prov_run eg d js stop_err [] s = Inr (s, [])"
| "prov_run eg d js stop_err (l # ls) s =
     rbind (prov_run_step eg d js stop_err l s) (\<lambda>(s, out).
     rbind (prov_run eg d js stop_err ls s) (\<lambda>(s, outs). Inr (s, out @ outs)))"

lemma prov_run_append:
  "prov_run eg d js stop_err (ls @ ls') s =
     rbind (prov_run eg d js stop_err ls s) (\<lambda>(s, out).
     rbind (prov_run eg d js stop_err ls' s) (\<lambda>(s, outs). Inr (s, out @ outs)))"
  by (induction ls arbitrary: s) (auto simp: rbind_def split: sum.splits)

section \<open>The body of a request\<close>

text \<open>The buffer of a handler: as much of the body as has arrived, and a terminator once it is complete.\<close>

fun task_ok :: "http_task \<Rightarrow> bool" where
  "task_ok (H_get_body body offset buffer) \<longleftrightarrow>
     offset < length body \<and> length buffer = Suc (length body) \<and> take offset buffer = take offset body"
| "task_ok (H_parse buffer) \<longleftrightarrow> NUL \<in> set buffer"
| "task_ok _ \<longleftrightarrow> True"

lemma get_body_loop_eq:
  "length buffer = Suc (length body) \<Longrightarrow> offset \<le> length body \<Longrightarrow> take offset buffer = take offset body \<Longrightarrow>
   get_body_loop body offset buffer =
     Inr (if offset < length body then H_get_body body offset buffer else H_parse (body @ [NUL]))"
  by (auto simp: get_body_loop_def upd_conv_take_nth_drop)

text \<open>Whatever arrives, the buffer ends with the body and its terminator, and nothing is written outside it.\<close>

lemma get_body_bytes:
  assumes "task_ok (H_get_body body offset buffer)"
  shows "\<exists>offset' buffer'. offset < offset' \<and>
    get_body (Body_bytes (Suc n)) body offset buffer =
      Inr (if offset' < length body then H_get_body body offset' buffer' else H_parse (body @ [NUL]), []) \<and>
    (offset' < length body \<longrightarrow> task_ok (H_get_body body offset' buffer'))"
proof -
  define k where "k = min (Suc n) (length body - offset)"
  let ?b = "overwrite offset (take k (drop offset body)) buffer"
  have k: "0 < k" "offset + k \<le> length body" using assms by (auto simp: k_def)
  then have b: "length ?b = Suc (length body)" "offset + k \<le> length body" "take (offset + k) ?b = take (offset + k) body"
    using assms by (simp_all add: overwrite_def take_add)
  have "get_body (Body_bytes (Suc n)) body offset buffer =
      Inr (if offset + k < length body then H_get_body body (offset + k) ?b else H_parse (body @ [NUL]), [])"
    using get_body_loop_eq [OF b] by (simp add: get_body_def Let_def k_def)
  with k(1) b show ?thesis by (intro exI [of _ "offset + k"] exI [of _ ?b]) simp
qed

lemma get_body_ok:
  assumes "task_ok (H_get_body body offset buffer)"
  shows "\<exists>t replies. get_body e body offset buffer = Inr (t, replies) \<and> task_ok t"
proof (cases "\<exists>n. e = Body_bytes (Suc n)")
  case True
  then obtain n where e: "e = Body_bytes (Suc n)" by blast
  obtain offset' buffer' where "get_body e body offset buffer =
      Inr (if offset' < length body then H_get_body body offset' buffer' else H_parse (body @ [NUL]), [])"
    "offset' < length body \<longrightarrow> task_ok (H_get_body body offset' buffer')"
    unfolding e using get_body_bytes [OF assms] by blast
  then show ?thesis by (cases "offset' < length body") simp_all
next
  case False
  then show ?thesis by (cases e) (auto simp: get_body_def gr0_conv_Suc)
qed

lemma post_handler_ok: "\<exists>t replies. wifi_cred_post_handler True body = Inr (t, replies) \<and> task_ok t"
  using get_body_loop_eq [of "replicate (length body + 1) NUL" body 0] by (simp add: wifi_cred_post_handler_def)

text \<open>The bytes of a whole body bring its handler to the parser, in whatever pieces they arrive.\<close>

lemma recv_ignored: "p_task s = H_parse buffer \<Longrightarrow> prov_run eg d js stop_err (map Recv evs) s = Inr (s, [])"
  by (induction evs) simp_all

lemma recv_all:
  "list_all (\<lambda>e. \<exists>n. e = Body_bytes (Suc n)) evs \<Longrightarrow> length body - offset \<le> length evs \<Longrightarrow>
   p_task s = H_get_body body offset buffer \<Longrightarrow> task_ok (p_task s) \<Longrightarrow>
   prov_run eg d js stop_err (map Recv evs) s = Inr (s\<lparr>p_task := H_parse (body @ [NUL])\<rparr>, [])"
proof (induction evs arbitrary: s offset buffer)
  case Nil
  then show ?case by simp
next
  case (Cons e evs)
  obtain n where e: "e = Body_bytes (Suc n)" using Cons.prems(1) by auto
  obtain offset' buffer' where g: "offset < offset'" "get_body e body offset buffer =
      Inr (if offset' < length body then H_get_body body offset' buffer' else H_parse (body @ [NUL]), [])"
    "offset' < length body \<longrightarrow> task_ok (H_get_body body offset' buffer')"
    using get_body_bytes [of body offset buffer n] Cons.prems(3,4) unfolding e by auto
  show ?case
  proof (cases "offset' < length body")
    case True
    have "prov_run eg d js stop_err (map Recv evs) (s\<lparr>p_task := H_get_body body offset' buffer'\<rparr>) =
        Inr (s\<lparr>p_task := H_get_body body offset' buffer'\<rparr>\<lparr>p_task := H_parse (body @ [NUL])\<rparr>, [])"
      using Cons.prems(1,2) g(1,3) True by (intro Cons.IH) simp_all
    with True g(2) Cons.prems(3) show ?thesis by simp
  next
    case False
    with g(2) Cons.prems(3) show ?thesis by (simp add: recv_ignored)
  qed
qed

section \<open>The invariant\<close>

text \<open>
  The credentials are terminated within their buffers; the server runs, with the access point up, until
  provisioning is done, and has its event group until the loop starts to stop it; and the buffer
  of a handler holds what has arrived.
\<close>

definition http_ok :: "'g provisioning_http_t \<Rightarrow> bool" where
  "http_ok p \<longleftrightarrow> length (m_ssid p) = 32 \<and> NUL \<in> set (m_ssid p) \<and> length (m_password p) = 64 \<and> NUL \<in> set (m_password p)"

definition prov_ok :: "'g prov_state \<Rightarrow> bool" where
  "prov_ok s \<longleftrightarrow> http_ok (p_http s) \<and> task_ok (p_task s)
     \<and> (m_http_handle (p_http s) \<longleftrightarrow> p_pc s \<noteq> P_done)
     \<and> (prov_group (p_http s) = None \<longleftrightarrow> p_pc s = P_stopping \<or> p_pc s = P_done)
     \<and> (p_pc s = P_done \<longrightarrow> p_task s = H_idle)
     \<and> (p_pc s \<noteq> P_done \<longrightarrow> m_mode (p_wifi s) = mode_sta_ap)"

lemma on_group_Some [simp]: "prov_group p = Some g \<Longrightarrow> on_group f p = Inr (p\<lparr>prov_group := Some (f g)\<rparr>)"
  by (simp add: on_group_def)

lemma on_group_None [simp]: "prov_group p = None \<Longrightarrow> on_group f p = Inl Aborted"
  by (simp add: on_group_def)

lemma http_ok_group [simp]: "http_ok (p\<lparr>prov_group := g\<rparr>) = http_ok p" "http_ok (p\<lparr>m_http_handle := b\<rparr>) = http_ok p"
  by (simp_all add: http_ok_def)

lemma prov_okD:
  assumes "prov_ok s" and "p_pc s \<noteq> P_stopping" and "p_pc s \<noteq> P_done"
  obtains g where "prov_group (p_http s) = Some g" and "http_ok (p_http s)" and "m_http_handle (p_http s)"
    and "m_mode (p_wifi s) = mode_sta_ap"
  using assms unfolding prov_ok_def by (metis not_None_eq)

lemmas group_ops = reset_credentials_check_def prov_fail_def

lemma set_status_ok [simp]:
  "http_ok (set_status st p) = http_ok p" "m_http_handle (set_status st p) = m_http_handle p"
  "prov_group (set_status st p) = prov_group p" "m_status (set_status st p) = st"
  by (simp_all add: set_status_def http_ok_def)

lemma parse_body_ok:
  assumes "http_ok p" and "NUL \<in> set buffer"
  shows "\<exists>t replies p'. parse_body js buffer p = Inr (t, replies, p') \<and> task_ok t \<and> http_ok p'
    \<and> m_http_handle p' = m_http_handle p \<and> prov_group p' = prov_group p"
  using assms by (auto simp: parse_body_def store_credentials_def cstr_def http_ok_def length_strlcpy NUL_in_strlcpy
    split: option.split)

text \<open>Where the next step of a handler is a call on the event group.\<close>

fun uses_group :: "http_task \<Rightarrow> bool" where
  "uses_group H_body_failed \<longleftrightarrow> True"
| "uses_group H_received \<longleftrightarrow> True"
| "uses_group H_fail \<longleftrightarrow> True"
| "uses_group (H_ack response) \<longleftrightarrow> True"
| "uses_group _ \<longleftrightarrow> False"

lemma http_task_step_aborts: "prov_group p = None \<Longrightarrow> uses_group t \<Longrightarrow> http_task_step eg js t p = Inl Aborted"
  by (cases t) (simp_all add: prov_fail_def)

lemma http_task_step_ok:
  assumes "http_ok p" and "task_ok t" and "prov_group p \<noteq> None \<or> \<not> uses_group t"
  shows "\<exists>t' replies p'. http_task_step eg js t p = Inr (t', replies, p') \<and> task_ok t' \<and> http_ok p'
    \<and> m_http_handle p' = m_http_handle p \<and> (prov_group p' = None \<longleftrightarrow> prov_group p = None) \<and> (t = H_idle \<longrightarrow> t' = H_idle)"
proof (cases t)
  case (H_parse buffer)
  then show ?thesis using assms parse_body_ok [of p buffer js] by auto
qed (use assms in \<open>auto simp: prov_fail_def\<close>)

text \<open>The driver reports no errors.\<close>

definition driver_works :: "'c driver \<Rightarrow> bool" where
  "driver_works d \<longleftrightarrow> (\<forall>log c. d log c = ESP_OK)"

lemma wcall_works [simp]: "driver_works d \<Longrightarrow> wcall d c w = (ESP_OK, w\<lparr>wifi_log := wifi_log w @ [c]\<rparr>)"
  by (simp add: driver_works_def wcall_def)

lemma mode_of_events [simp]: "m_mode (on_net_event eg d e w) = m_mode w"
  by (cases e) (auto simp: wifi_event_def ip_event_def wcall_def set_fail_bit_def split: if_splits)

lemma wait_credentials_ok:
  assumes "http_ok p" and "prov_group p = Some g"
  shows "has_credentials eg p = Inr None \<or> has_credentials eg p = Inr (Some (True, p)) \<or>
    (\<exists>g'. has_credentials eg p = Inr (Some (False, p\<lparr>prov_group := Some g'\<rparr>)))"
  using assms by (auto simp: has_credentials_def group_ops split: option.split)

lemma wait_ack_ok:
  assumes "http_ok p" and "prov_group p = Some g"
  shows "has_ack_connection eg timed_out p = Inr None \<or> has_ack_connection eg timed_out p = Inr (Some (True, p)) \<or>
    (\<exists>g'. has_ack_connection eg timed_out p = Inr (Some (False, p\<lparr>prov_group := Some g'\<rparr>)))"
  using assms by (auto simp: has_ack_connection_def group_ops split: option.split)

lemma try_station_connect_works:
  "driver_works d \<Longrightarrow> m_mode w = mode_sta_ap \<Longrightarrow>
     \<exists>w'. try_station_connect eg d ssid password w = Inr (ESP_OK, w') \<and> m_mode w' = mode_sta_ap"
  by (simp add: try_station_connect_def get_mode_def set_sta_config_def init_station_def esp_error_check_def reset_retry_def)

lemma set_mode_works: "driver_works d \<Longrightarrow> \<exists>w'. set_mode d mode w = Inr (ESP_OK, w')"
  by (simp add: set_mode_def esp_error_check_def)

lemma prov_stop_works: "driver_works d \<Longrightarrow> \<exists>w'. prov_stop eg d w = Inr (ESP_OK, w')"
  by (simp add: prov_stop_def set_mode_works)

lemma prov_main_ok:
  assumes "prov_ok s" and "driver_works d"
  shows "\<exists>s' out. prov_main eg d ESP_OK timed_out s = Inr (s', out) \<and> prov_ok s'"
proof (cases "p_pc s")
  case P_credentials
  obtain g where h: "prov_group (p_http s) = Some g" "http_ok (p_http s)" "m_http_handle (p_http s)" "m_mode (p_wifi s) = mode_sta_ap"
    using prov_okD [OF assms(1)] P_credentials by auto
  obtain ssid password where c: "get_ssid (p_http s) = Inr ssid" "get_password (p_http s) = Inr password"
    using h(2) by (auto simp: get_ssid_def get_password_def cstr_def http_ok_def)
  obtain w where "try_station_connect eg d ssid password (p_wifi s) = Inr (ESP_OK, w)" "m_mode w = mode_sta_ap"
    using try_station_connect_works [OF assms(2) h(4)] by blast
  with wait_credentials_ok [OF h(2,1), of eg] c h P_credentials assms(1) show ?thesis
    by (auto simp: prov_main_def esp_error_check_def group_ops prov_ok_def)
next
  case P_connection
  obtain g where h: "prov_group (p_http s) = Some g" "http_ok (p_http s)" "m_http_handle (p_http s)" "m_mode (p_wifi s) = mode_sta_ap"
    using prov_okD [OF assms(1)] P_connection by auto
  with P_connection assms(1) show ?thesis
    by (simp add: prov_main_def group_ops prov_ok_def split: option.split bool.split)
next
  case P_ack
  obtain g where h: "prov_group (p_http s) = Some g" "http_ok (p_http s)" "m_http_handle (p_http s)" "m_mode (p_wifi s) = mode_sta_ap"
    using prov_okD [OF assms(1)] P_ack by auto
  with wait_ack_ok [OF h(2,1), of eg timed_out] P_ack assms(1) show ?thesis
    by (auto simp: prov_main_def try_stop_group_def prov_ok_def)
next
  case P_stopping
  obtain w where "prov_stop eg d (p_wifi s) = Inr (ESP_OK, w)" using prov_stop_works [OF assms(2)] by blast
  with P_stopping assms(1) show ?thesis
    by (simp add: prov_main_def try_stop_httpd_def esp_error_check_def prov_ok_def)
next
  case P_done
  with assms(1) show ?thesis by (simp add: prov_main_def)
qed

text \<open>The one step that aborts: a handler that uses the event group after the loop has deleted it.\<close>

definition race_step :: "prov_step \<Rightarrow> 'g prov_state \<Rightarrow> bool" where
  "race_step l s \<longleftrightarrow> l = Handler \<and> p_pc s = P_stopping \<and> uses_group (p_task s)"

lemma race_step_aborts: "prov_ok s \<Longrightarrow> race_step l s \<Longrightarrow> prov_run_step eg d js stop_err l s = Inl Aborted"
  by (auto simp: race_step_def prov_ok_def http_task_step_aborts)

lemma handler_step_ok:
  assumes "prov_ok s" and "\<not> race_step Handler s"
  shows "\<exists>s' out. prov_run_step eg d js stop_err Handler s = Inr (s', out) \<and> prov_ok s'"
proof -
  have "http_ok (p_http s)" "task_ok (p_task s)" "prov_group (p_http s) \<noteq> None \<or> \<not> uses_group (p_task s)"
    using assms by (auto simp: prov_ok_def race_step_def)
  from http_task_step_ok [OF this, of eg js] assms(1) show ?thesis by (auto simp: prov_ok_def)
qed

lemma prov_step_ok:
  assumes "prov_ok s" and "driver_works d" and "\<not> race_step l s"
  shows "\<exists>s' out. prov_run_step eg d js ESP_OK l s = Inr (s', out) \<and> prov_ok s'"
proof (cases l)
  case (Main timed_out)
  then show ?thesis using prov_main_ok [OF assms(1,2)] by simp
next
  case (Post body)
  with post_handler_ok [of body] assms(1) show ?thesis by (auto simp: prov_ok_def http_free_def)
next
  case (Recv e)
  show ?thesis
  proof (cases "p_task s")
    case (H_get_body body offset buffer)
    with assms(1) have "task_ok (H_get_body body offset buffer)" by (simp add: prov_ok_def)
    from get_body_ok [OF this, of e] H_get_body Recv assms(1) show ?thesis by (auto simp: prov_ok_def)
  qed (use Recv assms(1) in simp_all)
next
  case Handler
  then show ?thesis using handler_step_ok assms(1,3) by blast
qed (use assms(1) in \<open>simp_all add: prov_ok_def http_free_def wifi_cred_get_handler_def\<close>)

text \<open>Whether a run has such a step.\<close>

fun stop_race ::
    "'g event_group_ops \<Rightarrow> wifi_call driver \<Rightarrow> 'j json_api \<Rightarrow> esp_err_t \<Rightarrow> prov_step list \<Rightarrow> 'g prov_state \<Rightarrow> bool" where
  "stop_race eg d js stop_err [] s \<longleftrightarrow> False"
| "stop_race eg d js stop_err (l # ls) s \<longleftrightarrow>
     race_step l s \<or>
     (case prov_run_step eg d js stop_err l s of Inl _ \<Rightarrow> False | Inr (s', _) \<Rightarrow> stop_race eg d js stop_err ls s')"

lemma prov_run_ok:
  "prov_ok s \<Longrightarrow> driver_works d \<Longrightarrow>
     if stop_race eg d js ESP_OK ls s then prov_run eg d js ESP_OK ls s = Inl Aborted
     else \<exists>s' outs. prov_run eg d js ESP_OK ls s = Inr (s', outs) \<and> prov_ok s'"
proof (induction ls arbitrary: s)
  case Nil
  then show ?case by simp
next
  case (Cons l ls)
  show ?case
  proof (cases "race_step l s")
    case True
    then show ?thesis using race_step_aborts [OF Cons.prems(1) True, of eg d js ESP_OK] by simp
  next
    case False
    obtain s1 out where s1: "prov_run_step eg d js ESP_OK l s = Inr (s1, out)" "prov_ok s1"
      using prov_step_ok [OF Cons.prems False] by blast
    with Cons.IH [OF s1(2) Cons.prems(2)] False show ?thesis by (auto simp del: prov_run_step.simps split: if_splits)
  qed
qed

section \<open>Lemmas on the properties\<close>

lemma post_runs:
  assumes "http_ok (p_http s)" and "http_free s" and "prov_group (p_http s) = Some g" and "body \<noteq> []" and "NUL \<notin> set body"
    and "list_all (\<lambda>e. \<exists>n. e = Body_bytes (Suc n)) evs" and "length body \<le> length evs"
    and "j_parse js body = Some root"
    and "Option.bind (j_get js root ''ssid'') (j_string js) = Some ssid"
    and "Option.bind (j_get js root ''password'') (j_string js) = Some password"
    and "length ssid < 32" and "length password < 64"
  shows "prov_run eg d js stop_err (Post body # map Recv evs @ [Handler, Handler]) s =
    Inr (s\<lparr>p_task := H_idle, p_replies := p_replies s @ [Reply_str ''OK''],
      p_http := (p_http s)\<lparr>prov_group := Some (eg_set_bits eg c_received_bit g),
        m_ssid := strlcpy (m_ssid (p_http s)) ssid 32, m_password := strlcpy (m_password (p_http s)) password 64\<rparr>\<rparr>, [])"
proof -
  let ?s = "s\<lparr>p_task := H_get_body body 0 (replicate (length body + 1) NUL)\<rparr>"
  have post: "prov_run_step eg d js stop_err (Post body) s = Inr (?s, [])"
    using get_body_loop_eq [of "replicate (length body + 1) NUL" body 0] assms(2,4) by (simp add: wifi_cred_post_handler_def)
  have recv: "prov_run eg d js stop_err (map Recv evs) ?s = Inr (?s\<lparr>p_task := H_parse (body @ [NUL])\<rparr>, [])"
    using assms(4,6,7) by (intro recv_all) simp_all
  have "cstr (body @ [NUL]) = Inr body" using assms(5) by (simp add: cstr_def)
  moreover have "length (m_ssid (p_http s)) = 32" "length (m_password (p_http s)) = 64" using assms(1) by (simp_all add: http_ok_def)
  ultimately show ?thesis
    using post recv assms(3,8-12) by (simp add: prov_run_append parse_body_def store_credentials_def del: prov_run_step.simps(2))
qed

text \<open>
  The steps that end a request under way: its client goes away, and the handler runs to its end.
\<close>

definition finish_request :: "http_task \<Rightarrow> prov_step list" where
  "finish_request t = (if t = H_idle then [] else [Recv Body_error, Handler, Handler])"

fun steps_left :: "http_task \<Rightarrow> nat" where
  "steps_left H_idle = 0"
| "steps_left H_received = 1"
| "steps_left H_fail = 1"
| "steps_left (H_ack response) = 1"
| "steps_left (H_get_body body offset buffer) = 3"
| "steps_left _ = 2"

lemma steps_left_0: "steps_left t = 0 \<longleftrightarrow> t = H_idle"
  by (cases t) simp_all

lemma store_credentials_left: "store_credentials ssid password p = (t, replies, p') \<Longrightarrow> steps_left t = 1"
  by (auto simp: store_credentials_def split: if_splits)

lemma parse_body_left:
  assumes "parse_body js buffer p = Inr (t, replies, p')"
  shows "steps_left t = 1"
proof -
  obtain str where str: "cstr buffer = Inr str" using assms by (auto simp: parse_body_def rbind_eq_Inr_iff)
  show ?thesis
  proof (cases "j_parse js str")
    case None
    with assms str show ?thesis by (auto simp: parse_body_def)
  next
    case (Some root)
    with assms str show ?thesis
      by (cases "Option.bind (j_get js root ''ssid'') (j_string js)"; cases "Option.bind (j_get js root ''password'') (j_string js)")
        (auto simp: parse_body_def dest: store_credentials_left)
  qed
qed

lemma http_task_step_left:
  "http_task_step eg js t p = Inr (t', replies, p') \<Longrightarrow> steps_left t \<le> 2 \<Longrightarrow> steps_left t' \<le> steps_left t - 1"
  by (cases t) (auto simp: rbind_eq_Inr_iff split: if_splits dest: parse_body_left)

lemma handler_step_left:
  assumes "prov_ok s" and "p_pc s \<noteq> P_stopping" and "steps_left (p_task s) \<le> 2"
  shows "\<exists>s' replies. prov_run_step eg d js stop_err Handler s = Inr (s', []) \<and> prov_ok s' \<and> p_pc s' = p_pc s \<and> p_wifi s' = p_wifi s
    \<and> p_replies s' = p_replies s @ replies \<and> steps_left (p_task s') \<le> steps_left (p_task s) - 1"
proof -
  have "\<not> race_step Handler s" using assms(2) by (simp add: race_step_def)
  then obtain s' out where s': "prov_run_step eg d js stop_err Handler s = Inr (s', out)" "prov_ok s'"
    using handler_step_ok [OF assms(1)] by blast
  then obtain t replies p where "http_task_step eg js (p_task s) (p_http s) = Inr (t, replies, p)"
    "s' = s\<lparr>p_task := t, p_http := p, p_replies := p_replies s @ replies\<rparr>" "out = []"
    by (auto simp: rbind_eq_Inr_iff)
  with s' http_task_step_left [OF this(1) assms(3)] show ?thesis by auto
qed

lemma finish_request_runs:
  assumes "prov_ok s" and "p_pc s \<noteq> P_stopping"
  shows "\<exists>s' replies. prov_run eg d js stop_err (finish_request (p_task s)) s = Inr (s', []) \<and> prov_ok s' \<and> p_pc s' = p_pc s
    \<and> p_wifi s' = p_wifi s \<and> p_task s' = H_idle \<and> p_replies s' = p_replies s @ replies"
proof (cases "p_task s = H_idle")
  case True
  then show ?thesis using assms(1) by (simp add: finish_request_def)
next
  case False
  have "\<exists>s1. prov_run_step eg d js stop_err (Recv Body_error) s = Inr (s1, []) \<and> prov_ok s1 \<and> p_pc s1 = p_pc s
      \<and> p_wifi s1 = p_wifi s \<and> p_replies s1 = p_replies s \<and> steps_left (p_task s1) \<le> 2"
    using assms(1) by (cases "p_task s") (auto simp: get_body_def prov_ok_def)
  then obtain s1 where s1: "prov_run_step eg d js stop_err (Recv Body_error) s = Inr (s1, [])" "prov_ok s1" "p_pc s1 = p_pc s"
    "p_wifi s1 = p_wifi s" "p_replies s1 = p_replies s" "steps_left (p_task s1) \<le> 2" by blast
  obtain s2 rs2 where s2: "prov_run_step eg d js stop_err Handler s1 = Inr (s2, [])" "prov_ok s2" "p_pc s2 = p_pc s" "p_wifi s2 = p_wifi s"
    "p_replies s2 = p_replies s @ rs2" "steps_left (p_task s2) \<le> 1"
    using handler_step_left [OF s1(2), of eg d js stop_err] s1(3-6) assms(2) by fastforce
  obtain s3 rs3 where s3: "prov_run_step eg d js stop_err Handler s2 = Inr (s3, [])" "prov_ok s3" "p_pc s3 = p_pc s" "p_wifi s3 = p_wifi s"
    "p_replies s3 = p_replies s @ rs3" "steps_left (p_task s3) = 0"
    using handler_step_left [OF s2(2), of eg d js stop_err] s2(3-6) assms(2) by fastforce
  have "prov_run eg d js stop_err (finish_request (p_task s)) s = Inr (s3, [])"
    using False s1(1) s2(1) s3(1) by (simp add: finish_request_def del: prov_run_step.simps)
  with s3 show ?thesis by (auto simp: steps_left_0)
qed

text \<open>Waiting for credentials after the time for the acknowledgement is over.\<close>

definition stalled :: "'g event_group_ops \<Rightarrow> 'g prov_state \<Rightarrow> bool" where
  "stalled eg s \<longleftrightarrow> p_pc s = P_credentials \<and> m_status (p_http s) = ps_connected \<and>
     (p_task s = H_idle \<or> (\<exists>response. p_task s = H_status response \<or> p_task s = H_ack response)) \<and>
     (\<exists>g. prov_group (p_http s) = Some g \<and> \<not> bit (eg_get_bits eg g) 0 \<and> \<not> bit (eg_get_bits eg g) 1)"

context freertos_event_group
begin

lemma has_credentials_received:
  "prov_group p = Some g \<Longrightarrow> bit (eg_get_bits eg g) 0 \<Longrightarrow> has_credentials eg p = Inr (Some (True, p))"
  using and_or_masks [of "eg_get_bits eg g"] and_bit_masks(1) [of "eg_get_bits eg g"]
  by (simp add: has_credentials_def eg_wait_bits_def prov_bits)

lemma has_credentials_waits:
  "prov_group p = Some g \<Longrightarrow> \<not> bit (eg_get_bits eg g) 0 \<Longrightarrow> \<not> bit (eg_get_bits eg g) 1 \<Longrightarrow> has_credentials eg p = Inr None"
  using and_or_masks [of "eg_get_bits eg g"] by (simp add: has_credentials_def eg_wait_bits_def prov_bits)

lemma stalled_step:
  assumes "stalled eg s" and "\<forall>body. l \<noteq> Post body"
  shows "\<exists>s'. prov_run_step eg d js stop_err l s = Inr (s', []) \<and> stalled eg s'"
proof -
  obtain g where g: "prov_group (p_http s) = Some g" "\<not> bit (eg_get_bits eg g) 0" "\<not> bit (eg_get_bits eg g) 1"
    using assms(1) by (auto simp: stalled_def)
  show ?thesis
  proof (cases l)
    case (Main b)
    then show ?thesis using assms(1) has_credentials_waits [OF g] by (simp add: stalled_def prov_main_def)
  next
    case Handler
    then show ?thesis using assms(1) g by (auto simp: stalled_def bit_simps prov_bits)
  qed (use assms in \<open>auto simp: stalled_def http_free_def wifi_cred_get_handler_def split: http_task.split\<close>)
qed

lemma stalled_run:
  "stalled eg s \<Longrightarrow> list_all (\<lambda>l. \<forall>body. l \<noteq> Post body) ls \<Longrightarrow>
     \<exists>s'. prov_run eg d js stop_err ls s = Inr (s', []) \<and> stalled eg s'"
proof (induction ls arbitrary: s)
  case Nil
  then show ?case by simp
next
  case (Cons l ls)
  obtain s1 where s1: "prov_run_step eg d js stop_err l s = Inr (s1, [])" "stalled eg s1"
    using stalled_step [OF Cons.prems(1), of l] Cons.prems(2) by fastforce
  then obtain s' where "prov_run eg d js stop_err ls s1 = Inr (s', [])" "stalled eg s'"
    using Cons.IH Cons.prems(2) by fastforce
  with s1 show ?case by simp
qed

lemma ack_timeout_stalls:
  assumes "prov_ok s" and "p_pc s = P_ack" and "m_status (p_http s) = ps_connected"
    and "p_task s = H_idle" and "prov_group (p_http s) = Some g" and "\<not> bit (eg_get_bits eg g) 2"
  shows "\<exists>s'. prov_run_step eg d js stop_err (Main True) s = Inr (s', []) \<and> stalled eg s'"
  using assms and_bit_masks(3) [of "eg_get_bits eg g"]
  by (simp add: prov_main_def has_ack_connection_def eg_wait_bits_def prov_bits group_ops stalled_def prov_ok_def bit_simps)

end

lemma hex2_no_NUL: "NUL \<notin> set (hex2 b)"
proof -
  have "hex_digit n \<noteq> NUL" if "n < 16" for n
  proof -
    have "hex_digit n \<in> set ''0123456789ABCDEF''" unfolding hex_digit_def by (rule nth_mem) (use that in simp)
    then show ?thesis by (auto simp: NUL_def)
  qed
  from this [of "unat b div 16"] this [of "unat b mod 16"] show ?thesis
    using unsigned_less [where 'a = nat, of b] by (simp add: hex2_def less_mult_imp_div_less)
qed

lemma cstr_strlcpy:
  assumes "length dst = 32" and "NUL \<notin> set src"
  shows "cstr (strlcpy dst src 32) = Inr (take 31 src)"
proof -
  have "NUL \<notin> set (take 31 src)" using assms(2) by (meson in_set_takeD)
  then show ?thesis using assms(1) by (simp add: strlcpy_def Let_def overwrite_def cstr_def)
qed

section \<open>Properties\<close>


text \<open>A parser that knows one request.\<close>

definition sample_json :: "string json_api" where
  "sample_json =
     \<lparr>j_parse = (\<lambda>s. if s = ''{}'' then Some ''root'' else None),
      j_get = (\<lambda>j k. if k = ''ssid'' then Some ''home'' else if k = ''password'' then Some ''secret'' else None),
      j_string = Some\<rparr>"

definition sample_prov :: "prov_pc \<Rightarrow> provisioning_status_t \<Rightarrow> uint32 prov_state" where
  "sample_prov at st =
     \<lparr>p_pc = at,
      p_wifi = \<lparr>m_mode = mode_sta_ap, wifi_group = 0, m_ap_netif = True, m_sta_netif = True, m_retry_count = 0,
                c_retry_attempts = 3, wifi_log = []\<rparr>,
      p_http = provisioning_http_new\<lparr>m_http_handle := True, prov_group := Some 0, m_status := st\<rparr>,
      p_task = H_idle, p_replies = []\<rparr>"

lemma sample_prov_ok: "at \<noteq> P_stopping \<Longrightarrow> at \<noteq> P_done \<Longrightarrow> prov_ok (sample_prov at st)"
  by (simp add: sample_prov_def prov_ok_def http_ok_def provisioning_http_new_def)

lemma sample_driver_works: "driver_works (\<lambda>log c. ESP_OK)"
  by (simp add: driver_works_def)


text \<open>
  The case is real: the train has joined the network and the status has been asked for, and a request with
  credentials has begun whose body is not complete, so that its handler waits in \<open>httpd_req_recv\<close>. The loop
  deletes the event group and waits in \<open>httpd_stop\<close> for the handler; when the client does not send the rest,
  the handler sets the fail bit of the null group. A status request that arrives then does the same with the
  bit of the acknowledgement.
\<close>

theorem stop_during_request_aborts:
  assumes "prov_ok s" and "driver_works d" and "p_pc s = P_ack" and "prov_group (p_http s) = Some g"
    and "eg_get_bits eg g AND c_ack_bit \<noteq> 0"
  shows "p_task s = H_get_body body offset buffer \<Longrightarrow>
      prov_run eg d js ESP_OK [Main t, Recv Body_timeout, Handler] s = Inl Aborted"
    and "p_task s = H_idle \<Longrightarrow> m_status (p_http s) = ps_connected \<Longrightarrow>
      prov_run eg d js ESP_OK [Main t, Get_status, Handler, Handler] s = Inl Aborted"
  using assms
  by (simp_all add: prov_main_def has_ack_connection_def eg_wait_bits_def try_stop_group_def get_body_def prov_fail_def
    prov_ok_def http_free_def wifi_cred_get_handler_def)

theorem stop_during_request_aborts_witness:
  "prov_run word_group (\<lambda>log c. ESP_OK) sample_json ESP_OK [Main False, Recv Body_timeout, Handler]
     ((sample_prov P_ack ps_connected)\<lparr>p_task := H_get_body ''{'' 0 [NUL, NUL],
        p_http := (p_http (sample_prov P_ack ps_connected))\<lparr>prov_group := Some 4\<rparr>\<rparr>) = Inl Aborted"
  by (rule stop_during_request_aborts(1) [where g = 4])
    (simp_all add: sample_prov_def prov_ok_def http_ok_def provisioning_http_new_def driver_works_def word_group_def prov_bits)

lemma free_server_uses_credentials:
  assumes "freertos_event_group eg" and "driver_works d" and "prov_ok s" and "p_pc s = P_credentials" and "p_task s = H_idle"
    and "body \<noteq> []" and "NUL \<notin> set body"
    and "list_all (\<lambda>e. \<exists>n. e = Body_bytes (Suc n)) evs" and "length body \<le> length evs"
    and "j_parse js body = Some root"
    and "Option.bind (j_get js root ''ssid'') (j_string js) = Some ssid" and "NUL \<notin> set ssid" and "length ssid < 32"
    and "Option.bind (j_get js root ''password'') (j_string js) = Some password" and "NUL \<notin> set password"
    and "length password < 64"
  shows "\<exists>s' cfg. prov_run eg d js ESP_OK (Post body # map Recv evs @ [Handler, Handler, Main timed_out]) s = Inr (s', [])
    \<and> p_replies s' = p_replies s @ [Reply_str ''OK'']
    \<and> p_pc s' = P_connection \<and> m_status (p_http s') = ps_connecting
    \<and> wifi_log (p_wifi s') = wifi_log (p_wifi s) @ [Set_config_sta cfg, Wifi_connect]
    \<and> cstr (sta_ssid cfg) = Inr ssid \<and> cstr (sta_password cfg) = Inr password"
proof -
  obtain g where h: "prov_group (p_http s) = Some g" "http_ok (p_http s)" "m_http_handle (p_http s)" "m_mode (p_wifi s) = mode_sta_ap"
    using prov_okD [OF assms(3)] assms(4) by auto
  have free: "http_free s" using h(3) assms(5) by (simp add: http_free_def)
  let ?p = "(p_http s)\<lparr>prov_group := Some (eg_set_bits eg c_received_bit g),
      m_ssid := strlcpy (m_ssid (p_http s)) ssid 32, m_password := strlcpy (m_password (p_http s)) password 64\<rparr>"
  have post: "prov_run eg d js ESP_OK (Post body # map Recv evs @ [Handler, Handler]) s =
      Inr (s\<lparr>p_task := H_idle, p_replies := p_replies s @ [Reply_str ''OK''], p_http := ?p\<rparr>, [])"
    by (rule post_runs [OF h(2) free h(1) assms(6-11) assms(14) assms(13) assms(16)])
  have split: "Post body # map Recv evs @ [Handler, Handler, Main timed_out] =
      (Post body # map Recv evs @ [Handler, Handler]) @ [Main timed_out]" by simp
  have "bit (eg_get_bits eg (eg_set_bits eg c_received_bit g)) 0"
    using freertos_event_group.set_bits [OF assms(1)] by (simp add: bit_simps prov_bits)
  then have cred: "has_credentials eg ?p = Inr (Some (True, ?p))"
    by (intro freertos_event_group.has_credentials_received [OF assms(1)]) simp_all
  have "length (m_ssid (p_http s)) = 32" "length (m_password (p_http s)) = 64" using h(2) by (simp_all add: http_ok_def)
  then have "get_ssid ?p = Inr ssid" "get_password ?p = Inr password"
    using assms(12,13,15,16) by (simp_all add: get_ssid_def get_password_def strlcpy_fits)
  moreover have "cstr (strlcpy (replicate sizeof_ssid NUL) ssid sizeof_ssid) = Inr ssid"
    "cstr (strlcpy (replicate sizeof_password NUL) password sizeof_password) = Inr password"
    using assms(12,13,15,16) by (simp_all add: strlcpy_fits sizeof_defs)
  ultimately show ?thesis
    using cred assms(2,4) h unfolding split prov_run_append post
    by (simp add: prov_main_def try_station_connect_def get_mode_def set_sta_config_def init_station_def
      esp_error_check_def reset_retry_def set_status_def)
qed

text \<open>
  C26. Credentials reach the driver unchanged: while the loop waits for credentials, a request with a
  well-formed body, in whatever pieces its bytes arrive, with a name of less than 32 and a password of
  less than 64 characters is answered with OK, and the next step of the loop configures the driver with exactly
  these strings and connects. The server takes the request when the one under way, if any, has ended.
\<close>

theorem posted_credentials_used:
  assumes "freertos_event_group eg" and "driver_works d" and "prov_ok s" and "p_pc s = P_credentials"
    and "body \<noteq> []" and "NUL \<notin> set body"
    and "list_all (\<lambda>e. \<exists>n. e = Body_bytes (Suc n)) evs" and "length body \<le> length evs"
    and "j_parse js body = Some root"
    and "Option.bind (j_get js root ''ssid'') (j_string js) = Some ssid" and "NUL \<notin> set ssid" and "length ssid < 32"
    and "Option.bind (j_get js root ''password'') (j_string js) = Some password" and "NUL \<notin> set password"
    and "length password < 64"
  shows "\<exists>s' cfg replies. prov_run eg d js ESP_OK
        (finish_request (p_task s) @ Post body # map Recv evs @ [Handler, Handler, Main timed_out]) s = Inr (s', [])
    \<and> p_replies s' = p_replies s @ replies @ [Reply_str ''OK'']
    \<and> p_pc s' = P_connection \<and> m_status (p_http s') = ps_connecting
    \<and> wifi_log (p_wifi s') = wifi_log (p_wifi s) @ [Set_config_sta cfg, Wifi_connect]
    \<and> cstr (sta_ssid cfg) = Inr ssid \<and> cstr (sta_password cfg) = Inr password"
proof -
  obtain s0 rs where s0: "prov_run eg d js ESP_OK (finish_request (p_task s)) s = Inr (s0, [])" "prov_ok s0" "p_pc s0 = P_credentials"
    "p_wifi s0 = p_wifi s" "p_task s0 = H_idle" "p_replies s0 = p_replies s @ rs"
    using finish_request_runs [OF assms(3), of eg d js ESP_OK] assms(4) by auto
  from free_server_uses_credentials [OF assms(1,2) s0(2,3,5) assms(5-15), of timed_out] s0(1,4,6)
  show ?thesis unfolding prov_run_append [of _ _ _ _ "finish_request (p_task s)"] by (auto simp del: prov_run.simps)
qed

theorem posted_credentials_used_witness:
  "\<exists>s' cfg replies. prov_run word_group (\<lambda>log c. ESP_OK) sample_json ESP_OK
      (finish_request (p_task (sample_prov P_credentials ps_none)) @
         Post ''{}'' # map Recv [Body_bytes 1, Body_bytes 5] @ [Handler, Handler, Main False]) (sample_prov P_credentials ps_none) = Inr (s', [])
    \<and> p_replies s' = p_replies (sample_prov P_credentials ps_none) @ replies @ [Reply_str ''OK'']
    \<and> p_pc s' = P_connection \<and> m_status (p_http s') = ps_connecting
    \<and> wifi_log (p_wifi s') = wifi_log (p_wifi (sample_prov P_credentials ps_none)) @ [Set_config_sta cfg, Wifi_connect]
    \<and> cstr (sta_ssid cfg) = Inr ''home'' \<and> cstr (sta_password cfg) = Inr ''secret''"
  by (rule posted_credentials_used [OF wg.freertos_event_group_axioms sample_driver_works sample_prov_ok])
    (simp_all add: sample_prov_def sample_json_def NUL_def)

lemma free_server_completes:
  assumes "freertos_event_group eg" and "driver_works d" and "prov_ok s" and "p_pc s = P_connection" and "p_task s = H_idle"
  shows "\<exists>s'. prov_run eg d js ESP_OK
        [Net (Ip_ev IP_EVENT_STA_GOT_IP), Main t1, Get_status, Handler, Handler, Main t2, Main t3] s = Inr (s', [True])
    \<and> p_replies s' = p_replies s @ [Reply_str ''{\"status\":\"connected\"}'']
    \<and> p_pc s' = P_done \<and> m_mode (p_wifi s') = mode_none \<and> \<not> m_http_handle (p_http s')
    \<and> last (wifi_log (p_wifi s')) = Wifi_set_mode mode_none"
proof -
  obtain g where h: "prov_group (p_http s) = Some g" "http_ok (p_http s)" "m_http_handle (p_http s)" "m_mode (p_wifi s) = mode_sta_ap"
    using prov_okD [OF assms(3)] assms(4) by auto
  let ?w = "ip_event eg IP_EVENT_STA_GOT_IP (p_wifi s)"
  have wait: "wait_connection eg ?w = Some True"
    by (simp add: freertos_event_group.wait_connection_eq [OF assms(1)] ip_event_def
      freertos_event_group.set_bits [OF assms(1)] bit_simps wifi_bits)
  have ack: "eg_get_bits eg (eg_set_bits eg c_ack_bit g) AND c_ack_bit \<noteq> 0"
    using and_bit_masks(3) by (simp add: freertos_event_group.set_bits [OF assms(1)] bit_simps prov_bits)
  show ?thesis
    using h wait ack assms(2,4,5)
    by (simp add: prov_main_def wifi_cred_get_handler_def http_free_def has_ack_connection_def eg_wait_bits_def set_status_def
      try_stop_group_def try_stop_httpd_def prov_stop_def set_mode_def wifi_disconnect_def reset_retry_def esp_error_check_def
      handle_create_netif_def ip_event_def to_str_def)
qed

text \<open>
  C27. Provisioning ends: from every state in which the loop waits for the connection, once a request under
  way has ended, the train has an address and the status is asked for and answered, the next steps of the
  loop stop the server and the radio and call back with success.
\<close>

theorem provisioning_completes:
  assumes "freertos_event_group eg" and "driver_works d" and "prov_ok s" and "p_pc s = P_connection"
  shows "\<exists>s' replies. prov_run eg d js ESP_OK
        (finish_request (p_task s) @
         [Net (Ip_ev IP_EVENT_STA_GOT_IP), Main t1, Get_status, Handler, Handler, Main t2, Main t3]) s = Inr (s', [True])
    \<and> p_replies s' = p_replies s @ replies @ [Reply_str ''{\"status\":\"connected\"}'']
    \<and> p_pc s' = P_done \<and> m_mode (p_wifi s') = mode_none \<and> \<not> m_http_handle (p_http s')
    \<and> last (wifi_log (p_wifi s')) = Wifi_set_mode mode_none"
proof -
  obtain s0 rs where s0: "prov_run eg d js ESP_OK (finish_request (p_task s)) s = Inr (s0, [])" "prov_ok s0" "p_pc s0 = P_connection"
    "p_task s0 = H_idle" "p_replies s0 = p_replies s @ rs"
    using finish_request_runs [OF assms(3), of eg d js ESP_OK] assms(4) by auto
  from free_server_completes [OF assms(1,2) s0(2,3,4), of js t1 t2 t3] s0(1,5)
  show ?thesis unfolding prov_run_append [of _ _ _ _ "finish_request (p_task s)"] by (auto simp del: prov_run.simps)
qed

theorem provisioning_completes_witness:
  "\<exists>s' replies. prov_run word_group (\<lambda>log c. ESP_OK) sample_json ESP_OK
      (finish_request (p_task (sample_prov P_connection ps_connecting)) @
       [Net (Ip_ev IP_EVENT_STA_GOT_IP), Main False, Get_status, Handler, Handler, Main False, Main False])
      (sample_prov P_connection ps_connecting) = Inr (s', [True])
    \<and> p_replies s' = p_replies (sample_prov P_connection ps_connecting) @ replies @ [Reply_str ''{\"status\":\"connected\"}'']
    \<and> p_pc s' = P_done \<and> m_mode (p_wifi s') = mode_none \<and> \<not> m_http_handle (p_http s')
    \<and> last (wifi_log (p_wifi s')) = Wifi_set_mode mode_none"
  by (rule provisioning_completes [OF wg.freertos_event_group_axioms sample_driver_works sample_prov_ok])
    (simp_all add: sample_prov_def)

text \<open>
  When the status is not asked for within the ten seconds after the train has joined the
  network, provisioning stalls: the loop goes back to waiting for credentials, and no number of
  status requests, which are answered with connected, network events and steps of the loop makes
  it end; only a new request with credentials does.
\<close>

theorem ack_timeout_blocks_provisioning:
  assumes "freertos_event_group eg" and "prov_ok s" and "p_pc s = P_ack" and "m_status (p_http s) = ps_connected"
    and "p_task s = H_idle" and "prov_group (p_http s) = Some g" and "\<not> bit (eg_get_bits eg g) 2"
    and "list_all (\<lambda>l. \<forall>body. l \<noteq> Post body) ls"
  shows "\<exists>s'. prov_run eg d js stop_err (Main True # ls) s = Inr (s', [])
    \<and> p_pc s' = P_credentials \<and> m_status (p_http s') = ps_connected"
proof -
  obtain s1 where s1: "prov_run_step eg d js stop_err (Main True) s = Inr (s1, [])" "stalled eg s1"
    using freertos_event_group.ack_timeout_stalls [OF assms(1-7)] by blast
  obtain s' where "prov_run eg d js stop_err ls s1 = Inr (s', [])" "stalled eg s'"
    using freertos_event_group.stalled_run [OF assms(1) s1(2) assms(8)] by blast
  with s1 show ?thesis by (auto simp: stalled_def simp del: prov_run_step.simps)
qed

theorem ack_timeout_blocks_provisioning_witness:
  "\<exists>s'. prov_run word_group (\<lambda>log c. ESP_OK) sample_json ESP_OK (Main True # [Get_status, Main False, Handler, Handler, Get_status, Main True])
      (sample_prov P_ack ps_connected) = Inr (s', [])
    \<and> p_pc s' = P_credentials \<and> m_status (p_http s') = ps_connected"
  by (rule ack_timeout_blocks_provisioning [OF wg.freertos_event_group_axioms sample_prov_ok, where g = 0])
    (simp_all add: sample_prov_def word_group_def)

text \<open>
  The name of the access point: up to 24 characters of the configured name are followed by all
  six digits of the address; with 25, which the check allows, the last digit is cut off, so
  that two trains whose addresses differ only there get the same name; with more, the buffer is left
  as it was, uninitialised, and \<open>start_softap\<close>, which ignores the error, goes on to use it.
\<close>

theorem unique_ap_ssid_cases:
  assumes "length buffer = 32" and "NUL \<notin> set ssid"
  shows "if length ssid \<le> 25
    then \<exists>b. create_unique_ap_ssid (Some (m3, m4, m5)) ssid buffer = Inr (ESP_OK, b)
      \<and> cstr b = Inr (if length ssid < 25 then ssid @ ''-'' @ hex2 m3 @ hex2 m4 @ hex2 m5
                      else ssid @ ''-'' @ hex2 m3 @ hex2 m4 @ [hd (hex2 m5)])
    else create_unique_ap_ssid (Some (m3, m4, m5)) ssid buffer = Inr (ESP_FAIL, buffer)"
proof -
  have "NUL \<notin> set (ssid @ ''-'' @ hex2 m3 @ hex2 m4 @ hex2 m5)"
    using assms(2) hex2_no_NUL by (simp add: NUL_def)
  note c = cstr_strlcpy [OF assms(1) this]
  have "length (hex2 m3) = 2" "length (hex2 m4) = 2" "hex2 m5 = [hd (hex2 m5), hex2 m5 ! 1]" by (simp_all add: hex2_def)
  then show ?thesis using c by (auto simp: create_unique_ap_ssid_def Let_def hex2_def min_def)
qed

theorem unique_ap_ssid_cases_witness:
  "create_unique_ap_ssid (Some (1, 2, 0xAB)) (replicate 26 CHR ''x'') (replicate 32 CHR ''?'') =
      Inr (ESP_FAIL, replicate 32 CHR ''?'')
    \<and> (\<exists>b. create_unique_ap_ssid (Some (1, 2, 0xAB)) (replicate 25 CHR ''x'') (replicate 32 CHR ''?'') = Inr (ESP_OK, b)
        \<and> cstr b = Inr (replicate 25 CHR ''x'' @ ''-'' @ hex2 1 @ hex2 2 @ [hd (hex2 0xAB)]))"
  using unique_ap_ssid_cases [of "replicate 32 CHR ''?''" "replicate 26 CHR ''x''" 1 2 "0xAB"]
    unique_ap_ssid_cases [of "replicate 32 CHR ''?''" "replicate 25 CHR ''x''" 1 2 "0xAB"]
  by (simp add: NUL_def)

end
