(* ===== verification/Client_Train.thy ===== *)
theory Client_Train
  imports Client_Rtos
begin

text \<open>
  The task that drives the train to a station, \<open>client/main/train_controller/train_controller_task.cpp\<close>,
  and the mailboxes of \<open>client/main/app/system_bus.hpp\<close> it shares with the other tasks: the TCP
  handlers put stations and motor commands, the NFC task puts the rails it sees, the motor task
  takes commands. A run is a sequence of such steps in any order. The other members of the bus, which this task
  does not use, are modelled with their users: the queue of outgoing messages as what the tasks hand to it,
  and the id of the train in \<open>Client_App\<close>.
\<close>

section \<open>The mailboxes and the task\<close>

record ('r, 'm) system_bus_t =
  current_rail :: 'r
  station_target :: 'r
  motor_command :: 'm

definition system_bus_create ::
    "('r, rail_id_t) queue_ops \<Rightarrow> ('m, motor_control_t) queue_ops \<Rightarrow> ('r, 'm) system_bus_t result" where
  "system_bus_create qr qm =
     rbind (mailbox_create qr) (\<lambda>cur.
     rbind (mailbox_create qr) (\<lambda>tgt.
     rbind (mailbox_create qm) (\<lambda>cmd.
       Inr \<lparr>current_rail = cur, station_target = tgt, motor_command = cmd\<rparr>)))"

text \<open>Where the task waits: for a station, or for a rail while it drives to its station.\<close>

datatype controller_pc = Await_station | Await_rail rail_id_t

record ('r, 'm) train_state =
  pc :: controller_pc
  bus :: "('r, 'm) system_bus_t"

definition drive_command :: motor_control_t where
  "drive_command = \<lparr>starting_duty = 600, target_duty = 1023, ramp_time_ms = 7500, is_active = 1\<rparr>"

text \<open>
  From one wait to the next. The second component is the command the task has sent, if any;
  a task that has to wait does nothing.
\<close>

definition train_controller_step ::
    "('r, rail_id_t) queue_ops \<Rightarrow> ('m, motor_control_t) queue_ops \<Rightarrow> ('r, 'm) train_state \<Rightarrow>
     ('r, 'm) train_state \<times> motor_control_t list" where
  "train_controller_step qr qm s =
     (case pc s of
        Await_station \<Rightarrow>
          (case mailbox_receive qr (station_target (bus s)) of
             None \<Rightarrow> (s, [])
           | Some (target_station, h) \<Rightarrow>
               (\<lparr>pc = Await_rail target_station,
                 bus = (bus s)\<lparr>station_target := h,
                   motor_command := snd (mailbox_send qm drive_command (motor_command (bus s)))\<rparr>\<rparr>,
                [drive_command]))
      | Await_rail target_station \<Rightarrow>
          (case mailbox_receive qr (current_rail (bus s)) of
             None \<Rightarrow> (s, [])
           | Some (current_station, h) \<Rightarrow>
               if current_station \<noteq> target_station then (s\<lparr>bus := (bus s)\<lparr>current_rail := h\<rparr>\<rparr>, [])
               else
                 (\<lparr>pc = Await_station,
                   bus = (bus s)\<lparr>current_rail := h,
                     motor_command := snd (mailbox_send qm motor_control_stop (motor_command (bus s)))\<rparr>\<rparr>,
                  [motor_control_stop])))"

text \<open>The steps of the tasks on the bus.\<close>

datatype bus_step =
    Put_station rail_id_t
  | Put_rail rail_id_t
  | Put_command motor_control_t
  | Take_command
  | Controller

text \<open>What a step shows: a command of the controller, or a command the motor task gets.\<close>

datatype bus_output = Sent motor_control_t | Taken motor_control_t

fun bus_run_step ::
    "('r, rail_id_t) queue_ops \<Rightarrow> ('m, motor_control_t) queue_ops \<Rightarrow> bus_step \<Rightarrow> ('r, 'm) train_state \<Rightarrow>
     ('r, 'm) train_state \<times> bus_output list" where
  "bus_run_step qr qm (Put_station t) s =
     (s\<lparr>bus := (bus s)\<lparr>station_target := snd (mailbox_send qr t (station_target (bus s)))\<rparr>\<rparr>, [])"
| "bus_run_step qr qm (Put_rail r) s =
     (s\<lparr>bus := (bus s)\<lparr>current_rail := snd (mailbox_send qr r (current_rail (bus s)))\<rparr>\<rparr>, [])"
| "bus_run_step qr qm (Put_command c) s =
     (s\<lparr>bus := (bus s)\<lparr>motor_command := snd (mailbox_send qm c (motor_command (bus s)))\<rparr>\<rparr>, [])"
| "bus_run_step qr qm Take_command s =
     (case mailbox_receive qm (motor_command (bus s)) of
        None \<Rightarrow> (s, [])
      | Some (c, h) \<Rightarrow> (s\<lparr>bus := (bus s)\<lparr>motor_command := h\<rparr>\<rparr>, [Taken c]))"
| "bus_run_step qr qm Controller s = apsnd (map Sent) (train_controller_step qr qm s)"

fun bus_run ::
    "('r, rail_id_t) queue_ops \<Rightarrow> ('m, motor_control_t) queue_ops \<Rightarrow> bus_step list \<Rightarrow> ('r, 'm) train_state \<Rightarrow>
     ('r, 'm) train_state \<times> bus_output list" where
  "bus_run qr qm [] s = (s, [])"
| "bus_run qr qm (l # ls) s =
     (let (s', out) = bus_run_step qr qm l s; (s'', outs) = bus_run qr qm ls s' in (s'', out @ outs))"

section \<open>The abstract train\<close>

text \<open>The same system over one place for each mailbox.\<close>

record train_spec =
  sp_pc :: controller_pc
  sp_rail :: "rail_id_t option"
  sp_station :: "rail_id_t option"
  sp_command :: "motor_control_t option"

fun spec_step :: "bus_step \<Rightarrow> train_spec \<Rightarrow> train_spec \<times> bus_output list" where
  "spec_step (Put_station t) a = (a\<lparr>sp_station := Some t\<rparr>, [])"
| "spec_step (Put_rail r) a = (a\<lparr>sp_rail := Some r\<rparr>, [])"
| "spec_step (Put_command c) a = (a\<lparr>sp_command := Some c\<rparr>, [])"
| "spec_step Take_command a =
     (case sp_command a of None \<Rightarrow> (a, []) | Some c \<Rightarrow> (a\<lparr>sp_command := None\<rparr>, [Taken c]))"
| "spec_step Controller a =
     (case (sp_pc a, sp_station a, sp_rail a) of
        (Await_station, Some t, _) \<Rightarrow>
          (a\<lparr>sp_pc := Await_rail t, sp_station := None, sp_command := Some drive_command\<rparr>, [Sent drive_command])
      | (Await_rail t, _, Some r) \<Rightarrow>
          if r = t
          then (a\<lparr>sp_pc := Await_station, sp_rail := None, sp_command := Some motor_control_stop\<rparr>, [Sent motor_control_stop])
          else (a\<lparr>sp_rail := None\<rparr>, [])
      | _ \<Rightarrow> (a, []))"

fun spec_run :: "bus_step list \<Rightarrow> train_spec \<Rightarrow> train_spec \<times> bus_output list" where
  "spec_run [] a = (a, [])"
| "spec_run (l # ls) a = (let (a', out) = spec_step l a; (a'', outs) = spec_run ls a' in (a'', out @ outs))"

definition spec_init :: train_spec where
  "spec_init = \<lparr>sp_pc = Await_station, sp_rail = None, sp_station = None, sp_command = None\<rparr>"

lemma spec_run_append:
  "spec_run (ls @ ms) a = (let (a', o1) = spec_run ls a; (a'', o2) = spec_run ms a' in (a'', o1 @ o2))"
  by (induction ls arbitrary: a) (auto simp: split_beta Let_def)

section \<open>Refinement\<close>

definition slot :: "'a list \<Rightarrow> 'a option" where
  "slot xs = (case xs of [] \<Rightarrow> None | x # _ \<Rightarrow> Some x)"

definition train_abs :: "('r \<Rightarrow> rail_id_t list) \<Rightarrow> ('m \<Rightarrow> motor_control_t list) \<Rightarrow> ('r, 'm) train_state \<Rightarrow> train_spec" where
  "train_abs cr cm s =
     \<lparr>sp_pc = pc s, sp_rail = slot (cr (current_rail (bus s))), sp_station = slot (cr (station_target (bus s))),
      sp_command = slot (cm (motor_command (bus s)))\<rparr>"

definition box_ok :: "('q \<Rightarrow> 'a list) \<Rightarrow> ('q \<Rightarrow> nat) \<Rightarrow> 'q \<Rightarrow> bool" where
  "box_ok contents capacity h \<longleftrightarrow> capacity h = 1 \<and> length (contents h) \<le> 1"

definition train_ok ::
    "('r \<Rightarrow> rail_id_t list) \<Rightarrow> ('r \<Rightarrow> nat) \<Rightarrow> ('m \<Rightarrow> motor_control_t list) \<Rightarrow> ('m \<Rightarrow> nat) \<Rightarrow> ('r, 'm) train_state \<Rightarrow> bool" where
  "train_ok cr kr cm km s \<longleftrightarrow>
     box_ok cr kr (current_rail (bus s)) \<and> box_ok cr kr (station_target (bus s)) \<and> box_ok cm km (motor_command (bus s))"

lemma box_send:
  assumes "freertos_queue q contents capacity" and "box_ok contents capacity h"
  shows "box_ok contents capacity (snd (mailbox_send q x h)) \<and> slot (contents (snd (mailbox_send q x h))) = Some x"
  using freertos_queue.mailbox_laws(1) [OF assms(1)] assms(2) by (simp add: box_ok_def slot_def)

lemma box_receive:
  assumes "freertos_queue q contents capacity" and "box_ok contents capacity h"
  shows "case slot (contents h) of
      None \<Rightarrow> mailbox_receive q h = None
    | Some x \<Rightarrow> \<exists>h'. mailbox_receive q h = Some (x, h') \<and> box_ok contents capacity h' \<and> slot (contents h') = None"
  using freertos_queue.mailbox_laws(2,3) [OF assms(1), of h] assms(2)
  by (auto simp: box_ok_def slot_def split: option.split)

text \<open>One step of the tasks is one step of the abstract train.\<close>

locale train_boxes = rails: freertos_queue qr cr kr + commands: freertos_queue qm cm km
  for qr :: "('r, rail_id_t) queue_ops" and cr kr
  and qm :: "('m, motor_control_t) queue_ops" and cm km
begin

lemmas rail_send = box_send [OF rails.freertos_queue_axioms]
lemmas rail_receive = box_receive [OF rails.freertos_queue_axioms]
lemmas command_send = box_send [OF commands.freertos_queue_axioms]
lemmas command_receive = box_receive [OF commands.freertos_queue_axioms]

lemma controller_refines:
  assumes "train_ok cr kr cm km s"
  shows "train_ok cr kr cm km (fst (train_controller_step qr qm s))
    \<and> spec_step Controller (train_abs cr cm s) =
        (train_abs cr cm (fst (train_controller_step qr qm s)), map Sent (snd (train_controller_step qr qm s)))"
proof (cases "pc s")
  case Await_station
  show ?thesis
    using assms rail_receive [of "station_target (bus s)"] Await_station
      command_send [of "motor_command (bus s)" drive_command]
    by (cases "slot (cr (station_target (bus s)))") (auto simp: train_ok_def train_abs_def train_controller_step_def)
next
  case (Await_rail t)
  show ?thesis
    using assms rail_receive [of "current_rail (bus s)"] Await_rail
      command_send [of "motor_command (bus s)" motor_control_stop]
    by (cases "slot (cr (current_rail (bus s)))") (auto simp: train_ok_def train_abs_def train_controller_step_def)
qed

lemma step_refines:
  assumes "train_ok cr kr cm km s"
  shows "train_ok cr kr cm km (fst (bus_run_step qr qm l s))
    \<and> spec_step l (train_abs cr cm s) = apfst (train_abs cr cm) (bus_run_step qr qm l s)"
proof (cases l)
  case (Put_station t)
  then show ?thesis using assms rail_send [of "station_target (bus s)" t] by (simp add: train_ok_def train_abs_def)
next
  case (Put_rail r)
  then show ?thesis using assms rail_send [of "current_rail (bus s)" r] by (simp add: train_ok_def train_abs_def)
next
  case (Put_command c)
  then show ?thesis using assms command_send [of "motor_command (bus s)" c] by (simp add: train_ok_def train_abs_def)
next
  case Take_command
  then show ?thesis
    using assms command_receive [of "motor_command (bus s)"]
    by (auto simp: train_ok_def train_abs_def split: option.splits)
next
  case Controller
  then show ?thesis using controller_refines [OF assms] by (simp add: apsnd_def map_prod_def split_beta)
qed

lemma run_refines:
  "train_ok cr kr cm km s \<Longrightarrow>
     train_ok cr kr cm km (fst (bus_run qr qm ls s))
    \<and> spec_run ls (train_abs cr cm s) = apfst (train_abs cr cm) (bus_run qr qm ls s)"
proof (induction ls arbitrary: s)
  case Nil
  then show ?case by simp
next
  case (Cons l ls)
  with step_refines [OF Cons.prems, of l] Cons.IH [of "fst (bus_run_step qr qm l s)"]
  show ?case by (auto simp: split_beta Let_def apfst_def map_prod_def)
qed

lemma created_ok:
  assumes "system_bus_create qr qm = Inr b"
  shows "train_ok cr kr cm km \<lparr>pc = Await_station, bus = b\<rparr> \<and> train_abs cr cm \<lparr>pc = Await_station, bus = b\<rparr> = spec_init"
  using assms rails.mailbox_create_empty commands.mailbox_create_empty
  by (auto simp: system_bus_create_def rbind_eq_Inr_iff train_ok_def box_ok_def train_abs_def slot_def spec_init_def)

end

interpretation list_boxes: train_boxes list_queue snd fst list_queue snd fst
  by unfold_locales

section \<open>Runs of the abstract train\<close>

text \<open>The commands the controller sends.\<close>

fun sent_commands :: "bus_output list \<Rightarrow> motor_control_t list" where
  "sent_commands [] = []"
| "sent_commands (Sent c # os) = c # sent_commands os"
| "sent_commands (Taken c # os) = sent_commands os"

lemma sent_commands_append [simp]: "sent_commands (os @ ps) = sent_commands os @ sent_commands ps"
  by (induction os rule: sent_commands.induct) simp_all

fun alternating :: "bool \<Rightarrow> motor_control_t list \<Rightarrow> bool" where
  "alternating driving [] \<longleftrightarrow> True"
| "alternating driving (c # cs) \<longleftrightarrow>
     c = (if driving then motor_control_stop else drive_command) \<and> alternating (\<not> driving) cs"

lemma spec_step_alternates:
  assumes "spec_step l a = (a', out)" and "alternating (sp_pc a' \<noteq> Await_station) cs"
  shows "alternating (sp_pc a \<noteq> Await_station) (sent_commands out @ cs)"
  using assms by (cases l) (auto split: option.splits controller_pc.splits if_splits)

lemma spec_run_alternates: "alternating (sp_pc a \<noteq> Await_station) (sent_commands (snd (spec_run ls a)))"
proof (induction ls arbitrary: a)
  case Nil
  then show ?case by simp
next
  case (Cons l ls)
  obtain a' out where "spec_step l a = (a', out)" by fastforce
  with spec_step_alternates [OF this Cons.IH] show ?case by (simp add: split_beta Let_def)
qed

lemma spec_step_keeps_target:
  "sp_pc a = Await_rail t \<Longrightarrow> spec_step l a = (a', out) \<Longrightarrow> sp_pc a' = Await_rail t \<or> Sent motor_control_stop \<in> set out"
  by (cases l) (auto split: option.splits if_splits)

lemma spec_run_keeps_target:
  "sp_pc a = Await_rail t \<Longrightarrow>
     sp_pc (fst (spec_run ls a)) = Await_rail t \<or> Sent motor_control_stop \<in> set (snd (spec_run ls a))"
proof (induction ls arbitrary: a)
  case Nil
  then show ?case by simp
next
  case (Cons l ls)
  obtain a' out where "spec_step l a = (a', out)" by fastforce
  with spec_step_keeps_target [OF Cons.prems this] Cons.IH [of a'] show ?case by (auto simp: split_beta Let_def)
qed

lemma spec_run_reaches:
  assumes "sp_pc a = Await_rail t"
  shows "Sent motor_control_stop \<in> set (snd (spec_run (ls @ [Put_rail t, Controller]) a))"
  using spec_run_keeps_target [OF assms, of ls] by (auto simp: spec_run_append split_beta Let_def)

section \<open>Properties\<close>

text \<open>
  C22. Over mailboxes that behave as FreeRTOS documents, every run of the tasks on the bus, in any
  order, is a run of the abstract train with the same commands sent and taken.
\<close>

theorem train_refines_spec:
  assumes "freertos_queue qr cr kr" and "freertos_queue qm cm km" and "system_bus_create qr qm = Inr b"
  shows "spec_run ls spec_init = apfst (train_abs cr cm) (bus_run qr qm ls \<lparr>pc = Await_station, bus = b\<rparr>)"
proof -
  have tb: "train_boxes qr cr kr qm cm km" using assms(1,2) by (rule train_boxes.intro)
  from train_boxes.created_ok [OF tb assms(3)] train_boxes.run_refines [OF tb] show ?thesis by metis
qed

theorem train_refines_spec_witness:
  "spec_run [Put_station 7, Controller, Put_rail 7, Controller, Take_command] spec_init =
     apfst (train_abs snd snd)
       (bus_run list_queue list_queue [Put_station 7, Controller, Put_rail 7, Controller, Take_command]
         \<lparr>pc = Await_station, bus = \<lparr>current_rail = (1, []), station_target = (1, []), motor_command = (1, [])\<rparr>\<rparr>)"
  by (rule train_refines_spec [OF lq.freertos_queue_axioms lq.freertos_queue_axioms])
    (simp add: system_bus_create_def mailbox_create_def list_queue_def)

text \<open>
  C23. The train stops at its station: once the controller drives to rail \<open>t\<close>, then whatever the tasks
  do in between, it has sent the stop command at the latest when rail \<open>t\<close> is put into the mailbox and
  the controller runs before another rail arrives. Over a whole run its commands are drive, stop,
  drive, stop and so on.
\<close>

theorem train_stops_at_station:
  assumes "freertos_queue qr cr kr" and "freertos_queue qm cm km" and "system_bus_create qr qm = Inr b"
    and "bus_run qr qm ls \<lparr>pc = Await_station, bus = b\<rparr> = (s, before)" and "pc s = Await_rail t"
  shows "Sent motor_control_stop \<in> set (snd (bus_run qr qm (ms @ [Put_rail t, Controller]) s))
    \<and> alternating False (sent_commands before)"
proof -
  have tb: "train_boxes qr cr kr qm cm km" using assms(1,2) by (rule train_boxes.intro)
  note init = train_boxes.created_ok [OF tb assms(3)]
  note run = train_boxes.run_refines [OF tb conjunct1 [OF init], of ls]
  have spec: "spec_run ls spec_init = (train_abs cr cm s, before)" and ok: "train_ok cr kr cm km s"
    using run init assms(4) by simp_all
  have "sp_pc (train_abs cr cm s) = Await_rail t" using assms(5) by (simp add: train_abs_def)
  from spec_run_reaches [OF this, of ms] train_boxes.run_refines [OF tb ok]
  have "Sent motor_control_stop \<in> set (snd (bus_run qr qm (ms @ [Put_rail t, Controller]) s))" by simp
  with spec_run_alternates [of spec_init ls] spec show ?thesis by (simp add: spec_init_def)
qed

theorem train_stops_at_station_witness:
  "case bus_run list_queue list_queue [Put_station 7, Controller]
      \<lparr>pc = Await_station, bus = \<lparr>current_rail = (1, []), station_target = (1, []), motor_command = (1, [])\<rparr>\<rparr> of
     (s, before) \<Rightarrow>
       pc s = Await_rail 7
     \<and> Sent motor_control_stop \<in>
         set (snd (bus_run list_queue list_queue ([Put_rail 3, Put_station 9, Controller] @ [Put_rail 7, Controller]) s))
     \<and> alternating False (sent_commands before)"
  using train_stops_at_station [OF lq.freertos_queue_axioms lq.freertos_queue_axioms,
    of "\<lparr>current_rail = (1, []), station_target = (1, []), motor_command = (1, [])\<rparr>" "[Put_station 7, Controller]"
      "fst (bus_run list_queue list_queue [Put_station 7, Controller]
        \<lparr>pc = Await_station, bus = \<lparr>current_rail = (1, []), station_target = (1, []), motor_command = (1, [])\<rparr>\<rparr>)" _ 7
      "[Put_rail 3, Put_station 9, Controller]"]
  by (simp add: system_bus_create_def mailbox_create_def list_queue_def train_controller_step_def mailbox_receive_def
    mailbox_send_def)

text \<open>
  A mailbox keeps one value, so that commands and rails can be lost: when another rail is seen
  before the controller runs, the train passes its station without a stop command; and a motor command of
  the host that arrives before the motor task takes the stop command replaces it, so that the
  motor never gets it although the controller waits for the next station.
\<close>

theorem train_mailbox_loses:
  assumes "freertos_queue qr cr kr" and "freertos_queue qm cm km" and "train_ok cr kr cm km s"
    and "pc s = Await_rail t" and "r \<noteq> t"
  shows "(case bus_run qr qm [Put_rail t, Put_rail r, Controller] s of (s', out) \<Rightarrow> pc s' = Await_rail t \<and> out = [])
    \<and> (case bus_run qr qm [Put_rail t, Controller, Put_command c, Take_command, Take_command] s of (s', out) \<Rightarrow>
        pc s' = Await_station \<and> out = [Sent motor_control_stop, Taken c])"
proof -
  have tb: "train_boxes qr cr kr qm cm km" using assms(1,2) by (rule train_boxes.intro)
  have run: "snd (bus_run qr qm ls s) = snd (spec_run ls (train_abs cr cm s))"
    "pc (fst (bus_run qr qm ls s)) = sp_pc (fst (spec_run ls (train_abs cr cm s)))" for ls
    using train_boxes.run_refines [OF tb assms(3), of ls] by (simp_all add: train_abs_def)
  have a: "sp_pc (train_abs cr cm s) = Await_rail t" using assms(4) by (simp add: train_abs_def)
  show ?thesis using a assms(5) run by (simp add: split_beta Let_def del: bus_run.simps)
qed

theorem train_mailbox_loses_witness:
  "let s = \<lparr>pc = Await_rail 7, bus = \<lparr>current_rail = (1, []), station_target = (1, []), motor_command = (1, [])\<rparr>\<rparr>
   in (case bus_run list_queue list_queue [Put_rail 7, Put_rail 8, Controller] s of
         (s', out) \<Rightarrow> pc s' = Await_rail 7 \<and> out = [])
    \<and> (case bus_run list_queue list_queue [Put_rail 7, Controller, Put_command drive_command, Take_command, Take_command] s of
         (s', out) \<Rightarrow> pc s' = Await_station \<and> out = [Sent motor_control_stop, Taken drive_command])"
  unfolding Let_def
  by (rule train_mailbox_loses [OF lq.freertos_queue_axioms lq.freertos_queue_axioms])
    (simp_all add: train_ok_def box_ok_def)

end
