(* ===== verification/Client_Battery.thy ===== *)
theory Client_Battery
  imports Client_Wifi "HOL-Library.Signed_Division"
begin

text \<open>
  The task that reports the battery, \<open>client/main/battery/tasks/battery_level_task.{hpp,cpp}\<close>. The
  converter and its calibration are parameters, and so is the arithmetic on floats.
\<close>

section \<open>The task\<close>

datatype adc_call = Adc_new_unit | Adc_config_channel | Adc_create_scheme

definition setup_adc :: "(adc_call \<Rightarrow> esp_err_t) \<Rightarrow> adc_call list result" where
  "setup_adc adc =
     rbind (esp_error_check (adc Adc_new_unit, ())) (\<lambda>_.
     rbind (esp_error_check (adc Adc_config_channel, ())) (\<lambda>_.
     rbind (esp_error_check (adc Adc_create_scheme, ())) (\<lambda>_.
       Inr [Adc_new_unit, Adc_config_channel, Adc_create_scheme])))"

definition battery_to_adc_voltage :: "float_ops \<Rightarrow> float32 \<Rightarrow> int" where
  "battery_to_adc_voltage fo voltage =
     (let resistor_100 = 100; resistor_47 = 47;
          range = f_div fo (f_mul fo voltage (f_of_int fo resistor_47)) (f_of_int fo (resistor_100 + resistor_47))
      in f_to_int fo (f_mul fo range (f_of_int fo 1000)))"

text \<open>\<open>minimum_safe\<close> and \<open>fully_charged\<close> are the configured voltages of the battery.\<close>

definition get_percentage :: "float_ops \<Rightarrow> float32 \<Rightarrow> float32 \<Rightarrow> int \<Rightarrow> float32" where
  "get_percentage fo minimum_safe fully_charged voltage =
     (let min_voltage = battery_to_adc_voltage fo minimum_safe;
          max_voltage = battery_to_adc_voltage fo fully_charged;
          level = f_mul fo (f_div fo (f_of_int fo (voltage - min_voltage)) (f_of_int fo (max_voltage - min_voltage))) float_100
      in std_clamp fo level float_0 float_100)"

text \<open>The sum of \<open>n\<close> readings from the \<open>i\<close>-th on, in 32 bits; a failed reading aborts.\<close>

fun adc_total :: "(nat \<Rightarrow> uint32 option) \<Rightarrow> nat \<Rightarrow> nat \<Rightarrow> uint32 \<Rightarrow> uint32 result" where
  "adc_total reading 0 i raw_total = Inr raw_total"
| "adc_total reading (Suc n) i raw_total =
     (case reading i of None \<Rightarrow> Inl Aborted | Some raw \<Rightarrow> adc_total reading n (Suc i) (raw_total + raw))"

definition adc_samples :: nat where "adc_samples = 128"

definition get_adc_millivolts :: "(int \<Rightarrow> int option) \<Rightarrow> (nat \<Rightarrow> uint32 option) \<Rightarrow> int result" where
  "get_adc_millivolts calibrate reading =
     rbind (adc_total reading adc_samples 0 0) (\<lambda>raw_total.
     let raw_average = sint raw_total sdiv int adc_samples
     in case calibrate raw_average of None \<Rightarrow> Inl Aborted | Some voltage \<Rightarrow> Inr voltage)"

text \<open>One round of the loop: the message it sends.\<close>

definition battery_task_step ::
    "float_ops \<Rightarrow> float32 \<Rightarrow> float32 \<Rightarrow> (int \<Rightarrow> int option) \<Rightarrow> (nat \<Rightarrow> uint32 option) \<Rightarrow> esp_id_t \<Rightarrow> tcp_event_data_t result" where
  "battery_task_step fo minimum_safe fully_charged calibrate reading train_id =
     rbind (get_adc_millivolts calibrate reading) (\<lambda>millivolts.
       Inr (Ev_battery_status
         \<lparr>bs_id = train_id, bs_percentage_level = get_percentage fo minimum_safe fully_charged millivolts\<rparr>))"

section \<open>The average\<close>

lemma sint_of_nat_small:
  assumes "n < 2 ^ 31"
  shows "sint (of_nat n :: uint32) = int n"
proof -
  have "sint (of_nat n :: uint32) = signed_take_bit 31 (int n)"
    by (simp add: signed_of_nat)
  also have "\<dots> = int n" using assms by (intro signed_take_bit_int_eq_self) simp_all
  finally show ?thesis .
qed

lemma int_sdiv_int: "int m sdiv int k = int (m div k)"
  by (cases "m = 0"; cases "k = 0") (simp_all add: signed_divide_int_def zdiv_int)

lemma adc_total_eq:
  "(\<And>j. j < n \<Longrightarrow> reading (i + j) = Some (of_nat (raw (i + j)))) \<Longrightarrow> (\<And>j. raw j \<le> 4095) \<Longrightarrow>
     adc_total reading n i t = Inr (t + of_nat (\<Sum>j<n. raw (i + j)))"
proof (induction n arbitrary: i t)
  case 0
  then show ?case by simp
next
  case (Suc n)
  have "reading i = Some (of_nat (raw i))" using Suc.prems(1) [of 0] by simp
  moreover have "adc_total reading n (Suc i) (t + of_nat (raw i)) = Inr (t + of_nat (raw i) + of_nat (\<Sum>j<n. raw (Suc i + j)))"
    using Suc.prems(1) [of "Suc j" for j] by (intro Suc.IH) (use Suc.prems(2) in auto)
  moreover have "(\<Sum>j<Suc n. raw (i + j)) = raw i + (\<Sum>j<n. raw (Suc i + j))"
    by (simp add: sum.lessThan_Suc_shift del: sum.lessThan_Suc)
  ultimately show ?case by (simp add: add.assoc)
qed

lemma sum_bounds_readings: "(\<And>j. raw j \<le> (b :: nat)) \<Longrightarrow> (\<Sum>j<n. raw j) \<le> n * b"
  using sum_bounded_above [of "{..<n}" raw b] by simp

lemma std_clamp_within:
  "\<not> f_lt fo lo lo \<Longrightarrow> \<not> f_lt fo hi hi \<Longrightarrow> \<not> f_lt fo hi lo \<Longrightarrow>
     \<not> f_lt fo (std_clamp fo v lo hi) lo \<and> \<not> f_lt fo hi (std_clamp fo v lo hi)"
  by (simp add: std_clamp_def)

section \<open>Properties\<close>

text \<open>
  C28. The battery report: with readings of twelve bits the 32-bit sum of the 128 samples does not
  overflow, the calibration is given their mean rounded down, and the level reported is neither
  below 0 nor above 100, whatever the arithmetic on floats yields.
\<close>

theorem battery_report:
  assumes "\<And>j. reading j = Some (of_nat (raw j))" and "\<And>j. raw j \<le> 4095"
    and "calibrate (int ((\<Sum>j<128. raw j) div 128)) = Some voltage"
    and "\<not> f_lt fo float_0 float_0" and "\<not> f_lt fo float_100 float_100" and "\<not> f_lt fo float_100 float_0"
  shows "\<exists>level. battery_task_step fo minimum_safe fully_charged calibrate reading train_id =
      Inr (Ev_battery_status \<lparr>bs_id = train_id, bs_percentage_level = level\<rparr>)
    \<and> level = get_percentage fo minimum_safe fully_charged voltage
    \<and> \<not> f_lt fo level float_0 \<and> \<not> f_lt fo float_100 level"
proof -
  define total where "total = (\<Sum>j<128. raw j)"
  have "total \<le> 128 * 4095" using sum_bounds_readings assms(2) unfolding total_def by blast
  then have "sint (of_nat total :: uint32) = int total" by (intro sint_of_nat_small) simp
  moreover have "adc_total reading 128 0 0 = Inr (of_nat total)"
    using adc_total_eq [of 128 reading 0 raw 0] assms(1,2) unfolding total_def by simp
  moreover have "calibrate (int total sdiv int 128) = Some voltage"
    using assms(3) unfolding total_def [symmetric] int_sdiv_int .
  ultimately have "get_adc_millivolts calibrate reading = Inr voltage"
    by (simp add: get_adc_millivolts_def adc_samples_def Let_def)
  then show ?thesis
    using std_clamp_within [OF assms(4-6)] by (simp add: battery_task_step_def get_percentage_def Let_def)
qed

theorem battery_report_witness:
  "\<exists>level. battery_task_step int_floats 6 8 Some (\<lambda>j. Some (of_nat 2000)) 7 =
      Inr (Ev_battery_status \<lparr>bs_id = 7, bs_percentage_level = level\<rparr>)
    \<and> level = get_percentage int_floats 6 8 2000
    \<and> \<not> f_lt int_floats level float_0 \<and> \<not> f_lt int_floats float_100 level"
  by (rule battery_report [where raw = "\<lambda>j. 2000"]) (simp_all add: int_floats_def)

end
