(* ===== verification/Client_App.thy ===== *)
theory Client_App
  imports Client_Provisioning Client_Train Client_Battery
begin

text \<open>
  The application of the train, \<open>client/main/app/application.hpp\<close>: it joins the network, or asks for
  credentials with a tone of the buzzer (\<open>client/main/train_controller/passive_buzzer.hpp\<close>), and
  starts the tasks when the host has assigned an id.
\<close>

section \<open>The buzzer\<close>

datatype buzzer_call = Bz_timer_config | Bz_channel_config uint16 | Bz_stop | Bz_set_freq uint16 | Bz_update_duty

definition bz_call :: "buzzer_call driver \<Rightarrow> buzzer_call \<Rightarrow> buzzer_call list \<Rightarrow> esp_err_t \<times> buzzer_call list" where
  "bz_call d c log = (d log c, log @ [c])"

definition c_max_duty :: uint16 where
  "c_max_duty = push_bit 13 1 - 1"

text \<open>
  \<open>create\<close> moves the buzzer into the result and destroys the temporary it has built, whose destructor
  stops the channel.
\<close>

definition buzzer_create :: "buzzer_call driver \<Rightarrow> buzzer_call list \<Rightarrow> (esp_err_t + unit) \<times> buzzer_call list" where
  "buzzer_create d log =
     (case bz_call d Bz_timer_config log of
        (err, log) \<Rightarrow>
          if err \<noteq> ESP_OK then (Inl err, log)
          else (case bz_call d (Bz_channel_config (c_max_duty div 2)) log of
                  (err, log) \<Rightarrow>
                    if err \<noteq> ESP_OK then (Inl err, log)
                    else (Inr (), snd (bz_call d Bz_stop log))))"

definition buzzer_stop :: "buzzer_call driver \<Rightarrow> buzzer_call list \<Rightarrow> esp_err_t \<times> buzzer_call list" where
  "buzzer_stop d log = bz_call d Bz_stop log"

definition buzzer_destroy :: "buzzer_call driver \<Rightarrow> buzzer_call list \<Rightarrow> buzzer_call list" where
  "buzzer_destroy d log = snd (bz_call d Bz_stop log)"

definition set_tone :: "buzzer_call driver \<Rightarrow> uint16 \<Rightarrow> buzzer_call list \<Rightarrow> esp_err_t \<times> buzzer_call list" where
  "set_tone d frequency log =
     (if frequency = 0 then buzzer_stop d log
      else (case bz_call d (Bz_set_freq frequency) log of
              (err, log) \<Rightarrow> if err \<noteq> ESP_OK then (err, log) else bz_call d Bz_update_duty log))"

text \<open>The delay after a tone has no effect on the state.\<close>

definition set_tone_delay :: "buzzer_call driver \<Rightarrow> uint16 \<Rightarrow> buzzer_call list \<Rightarrow> esp_err_t \<times> buzzer_call list" where
  "set_tone_delay d frequency log = set_tone d frequency log"

section \<open>Starting the tasks\<close>

datatype task_kind = Battery_task | Motor_task | Nfc_task | Train_task

text \<open>\<open>task_log\<close> are the tasks created; a handle is set when \<open>xTaskCreate\<close> succeeds.\<close>

record client_app =
  app_train_id :: esp_id_t
  battery_handle :: bool
  motor_handle :: bool
  nfc_handle :: bool
  train_handle :: bool
  task_log :: "task_kind list"

definition client_app_init :: client_app where
  "client_app_init =
     \<lparr>app_train_id = 0, battery_handle = False, motor_handle = False, nfc_handle = False, train_handle = False, task_log = []\<rparr>"

type_synonym task_creator = "task_kind list \<Rightarrow> task_kind \<Rightarrow> bool"

definition battery_task_init :: "task_creator \<Rightarrow> client_app \<Rightarrow> client_app" where
  "battery_task_init ok a =
     (if battery_handle a then a
      else if ok (task_log a) Battery_task then a\<lparr>battery_handle := True, task_log := task_log a @ [Battery_task]\<rparr> else a)"

definition motor_task_init :: "task_creator \<Rightarrow> client_app \<Rightarrow> client_app" where
  "motor_task_init ok a =
     (if motor_handle a then a
      else if ok (task_log a) Motor_task then a\<lparr>motor_handle := True, task_log := task_log a @ [Motor_task]\<rparr> else a)"

definition nfc_task_init :: "task_creator \<Rightarrow> client_app \<Rightarrow> client_app" where
  "nfc_task_init ok a =
     (if nfc_handle a then a
      else if ok (task_log a) Nfc_task then a\<lparr>nfc_handle := True, task_log := task_log a @ [Nfc_task]\<rparr> else a)"

definition train_task_init :: "task_creator \<Rightarrow> client_app \<Rightarrow> client_app" where
  "train_task_init ok a =
     (if train_handle a then a
      else if ok (task_log a) Train_task then a\<lparr>train_handle := True, task_log := task_log a @ [Train_task]\<rparr> else a)"

definition on_server_acknowledgement :: "task_creator \<Rightarrow> esp_id_t \<Rightarrow> client_app \<Rightarrow> client_app" where
  "on_server_acknowledgement ok i a =
     train_task_init ok (nfc_task_init ok (motor_task_init ok (battery_task_init ok (a\<lparr>app_train_id := i\<rparr>))))"

section \<open>The run of the application\<close>

datatype prov_response = Restart | Continue "buzzer_call list"

definition on_wifi_prov_response :: "buzzer_call driver \<Rightarrow> bool \<Rightarrow> buzzer_call list \<Rightarrow> prov_response result" where
  "on_wifi_prov_response d has_connected log =
     (if has_connected then Inr Restart
      else (case buzzer_create d log of
              (Inl err, log) \<Rightarrow> Inr (Continue log)
            | (Inr _, log) \<Rightarrow>
                rbind (esp_error_check (set_tone_delay d 5000 log)) (\<lambda>log. Inr (Continue (buzzer_destroy d log)))))"

text \<open>Where \<open>run\<close> is: waiting for the network, in provisioning, restarting the chip, or done with the TCP manager started.\<close>

datatype 'g app_phase =
    Joining "'g wifi_t"
  | Provisioning "'g prov_state"
  | Restarting
  | Tcp_started

record 'g run_env =
  re_group :: "'g event_group_ops"
  re_wifi :: "wifi_call driver"
  re_buzzer :: "buzzer_call driver"
  re_mac :: "(uint8 \<times> uint8 \<times> uint8) option"
  re_unset :: string
  re_created :: "'g option"
  re_http_start :: esp_err_t
  re_http_reg :: "prov_uri \<Rightarrow> esp_err_t"
  re_http_stop :: esp_err_t
  re_ap_ssid :: string
  re_ap_password :: string
  re_ap_max :: uint8

definition app_run_begin :: "'g run_env \<Rightarrow> 'g wifi_t \<Rightarrow> 'g app_phase result" where
  "app_run_begin e w =
     rbind (rbind (connect_from_nvs (re_group e) (re_wifi e) w) esp_error_check) (\<lambda>w. Inr (Joining w))"

text \<open>The calls of the callback during provisioning, in their order.\<close>

fun prov_responses :: "buzzer_call driver \<Rightarrow> bool list \<Rightarrow> buzzer_call list \<Rightarrow> prov_response result" where
  "prov_responses d [] log = Inr (Continue log)"
| "prov_responses d (b # bs) log =
     rbind (on_wifi_prov_response d b log) (\<lambda>r.
     case r of Restart \<Rightarrow> Inr Restart | Continue log \<Rightarrow> prov_responses d bs log)"

text \<open>
  The application from one wait to the next, with the log of the buzzer. The result of \<open>start\<close> is ignored, as in the
  program.
\<close>

fun app_run_step :: "'g run_env \<Rightarrow> bool \<Rightarrow> 'g app_phase \<times> buzzer_call list \<Rightarrow> ('g app_phase \<times> buzzer_call list) result" where
  "app_run_step e timed_out (Joining w, log) =
     (case wait_connection (re_group e) w of
        None \<Rightarrow> Inr (Joining w, log)
      | Some True \<Rightarrow> Inr (Tcp_started, log)
      | Some False \<Rightarrow>
          rbind (on_wifi_prov_response (re_buzzer e) False log) (\<lambda>r.
          rbind (prov_start (re_group e) (re_wifi e) (re_mac e) (re_unset e) (re_created e) (re_http_start e)
                   (re_http_reg e) (re_http_stop e) (re_ap_ssid e) (re_ap_password e) (re_ap_max e) w provisioning_http_new) (\<lambda>(_, w, p).
            Inr (Provisioning \<lparr>p_pc = P_credentials, p_wifi = w, p_http = p, p_task = H_idle, p_replies = []\<rparr>, case r of Continue log \<Rightarrow> log | Restart \<Rightarrow> log))))"
| "app_run_step e timed_out (Provisioning s, log) =
     rbind (prov_main (re_group e) (re_wifi e) (re_http_stop e) timed_out s) (\<lambda>(s, outs).
     rbind (prov_responses (re_buzzer e) outs log) (\<lambda>r.
       Inr (case r of Restart \<Rightarrow> (Restarting, log)
            | Continue log \<Rightarrow> (if p_pc s = P_done then Tcp_started else Provisioning s, log))))"
| "app_run_step e timed_out (Restarting, log) = Inr (Restarting, log)"
| "app_run_step e timed_out (Tcp_started, log) = Inr (Tcp_started, log)"

section \<open>Lemmas\<close>

lemmas task_inits = battery_task_init_def motor_task_init_def nfc_task_init_def train_task_init_def

text \<open>The handles say which tasks have been created, each at most once.\<close>

definition tasks_ok :: "client_app \<Rightarrow> bool" where
  "tasks_ok a \<longleftrightarrow> distinct (task_log a)
     \<and> (battery_handle a \<longleftrightarrow> Battery_task \<in> set (task_log a)) \<and> (motor_handle a \<longleftrightarrow> Motor_task \<in> set (task_log a))
     \<and> (nfc_handle a \<longleftrightarrow> Nfc_task \<in> set (task_log a)) \<and> (train_handle a \<longleftrightarrow> Train_task \<in> set (task_log a))"

lemma task_init_ok [inv_intros]:
  "tasks_ok a \<Longrightarrow> tasks_ok (battery_task_init ok a)" "tasks_ok a \<Longrightarrow> tasks_ok (motor_task_init ok a)"
  "tasks_ok a \<Longrightarrow> tasks_ok (nfc_task_init ok a)" "tasks_ok a \<Longrightarrow> tasks_ok (train_task_init ok a)"
  by (auto simp: tasks_ok_def task_inits)

lemma ack_ok [inv_intros]: "tasks_ok a \<Longrightarrow> tasks_ok (on_server_acknowledgement ok i a)"
  unfolding on_server_acknowledgement_def by (intro task_init_ok) (simp add: tasks_ok_def)

lemma task_init_id [simp]:
  "app_train_id (battery_task_init ok a) = app_train_id a" "app_train_id (motor_task_init ok a) = app_train_id a"
  "app_train_id (nfc_task_init ok a) = app_train_id a" "app_train_id (train_task_init ok a) = app_train_id a"
  by (simp_all add: task_inits)

lemma task_init_creates:
  assumes "tasks_ok a" and "\<And>log k. ok log k"
  shows "set (task_log (battery_task_init ok a)) = insert Battery_task (set (task_log a))"
    and "set (task_log (motor_task_init ok a)) = insert Motor_task (set (task_log a))"
    and "set (task_log (nfc_task_init ok a)) = insert Nfc_task (set (task_log a))"
    and "set (task_log (train_task_init ok a)) = insert Train_task (set (task_log a))"
  using assms by (auto simp: task_inits tasks_ok_def)

lemma ack_id: "app_train_id (on_server_acknowledgement ok i a) = i"
  by (simp add: on_server_acknowledgement_def)

lemma ack_starts_all:
  assumes "tasks_ok a" and "\<And>log k. ok log k"
  shows "set (task_log (on_server_acknowledgement ok i a)) = UNIV"
proof -
  have "tasks_ok (a\<lparr>app_train_id := i\<rparr>)" using assms(1) by (simp add: tasks_ok_def)
  then have "set (task_log (on_server_acknowledgement ok i a)) =
      insert Train_task (insert Nfc_task (insert Motor_task (insert Battery_task (set (task_log a)))))"
    by (simp add: on_server_acknowledgement_def task_init_creates task_init_ok assms(2))
  moreover have "k \<in> {Battery_task, Motor_task, Nfc_task, Train_task}" for k by (cases k) simp_all
  ultimately show ?thesis by blast
qed

lemma acks_ok: "tasks_ok a \<Longrightarrow> tasks_ok (fold (on_server_acknowledgement ok) ids a)"
  by (induction ids arbitrary: a) (simp_all add: ack_ok)

section \<open>Properties\<close>

text \<open>
  C29. The tasks of the train are started once: however often the host assigns an id, as after every
  new connection, each of the four tasks has been created at most once, and when creation
  succeeds exactly once; the train uses the id assigned last.
\<close>

theorem tasks_started_once:
  assumes "\<And>log k. ok log k"
  shows "distinct (task_log (fold (on_server_acknowledgement ok) (ids @ [i]) client_app_init))
    \<and> set (task_log (fold (on_server_acknowledgement ok) (ids @ [i]) client_app_init)) = UNIV
    \<and> app_train_id (fold (on_server_acknowledgement ok) (ids @ [i]) client_app_init) = i"
proof -
  have "tasks_ok client_app_init" by (simp add: tasks_ok_def client_app_init_def)
  then have ok: "tasks_ok (fold (on_server_acknowledgement ok) ids client_app_init)" by (rule acks_ok)
  then have "distinct (task_log (on_server_acknowledgement ok i (fold (on_server_acknowledgement ok) ids client_app_init)))"
    using ack_ok tasks_ok_def by blast
  with ack_starts_all [OF ok assms] ack_id show ?thesis by simp
qed

theorem tasks_started_once_witness:
  "distinct (task_log (fold (on_server_acknowledgement (\<lambda>log k. True)) ([3, 4] @ [5]) client_app_init))
    \<and> set (task_log (fold (on_server_acknowledgement (\<lambda>log k. True)) ([3, 4] @ [5]) client_app_init)) = UNIV
    \<and> app_train_id (fold (on_server_acknowledgement (\<lambda>log k. True)) ([3, 4] @ [5]) client_app_init) = 5"
  by (rule tasks_started_once) simp

text \<open>
  A provisioning server that cannot be started aborts the train: the application ignores the result of
  \<open>start\<close>, so that without an event group the first wait for credentials uses the null handle.
\<close>

theorem failed_provisioning_start_aborts:
  assumes "driver_works (re_wifi e)" and "driver_works (re_buzzer e)" and "re_created e = None"
    and "re_mac e = Some mac" and "length (re_ap_ssid e) \<le> 25" and "length (re_unset e) = 32"
    and "wait_connection (re_group e) w = Some False"
  shows "\<exists>s log'. app_run_step e t (Joining w, log) = Inr (Provisioning s, log')
    \<and> app_run_step e t' (Provisioning s, log') = Inl Aborted"
proof -
  obtain m3 m4 m5 where mac: "mac = (m3, m4, m5)" by (cases mac) auto
  have "NUL \<in> set (strlcpy (re_unset e) (re_ap_ssid e @ ''-'' @ hex2 m3 @ hex2 m4 @ hex2 m5) 32)"
    by (rule NUL_in_strlcpy) simp
  then obtain name where name: "create_unique_ap_ssid (re_mac e) (re_ap_ssid e) (re_unset e) = Inr (ESP_OK, name)" "NUL \<in> set name"
    using assms(4,5) mac by (auto simp: create_unique_ap_ssid_def Let_def min_def)
  have bz: "re_buzzer e log c = ESP_OK" for log c using assms(2) by (simp add: driver_works_def)
  obtain w1 where w1: "set_mode (re_wifi e) mode_sta_ap w = Inr (ESP_OK, w1)"
    using set_mode_works [OF assms(1)] by blast
  have "\<exists>w2. prov_start (re_group e) (re_wifi e) (re_mac e) (re_unset e) (re_created e) (re_http_start e) (re_http_reg e)
      (re_http_stop e) (re_ap_ssid e) (re_ap_password e) (re_ap_max e) w provisioning_http_new
    = Inr (ESP_FAIL, w2, provisioning_http_new\<lparr>prov_group := None\<rparr>)"
    using assms(1,3) name w1
    by (simp add: prov_start_def start_softap_def esp_error_check_def cstr_def set_softap_config_def init_softap_def
      wifi_start_def prov_try_start_def)
  moreover have "\<exists>log'. on_wifi_prov_response (re_buzzer e) False log = Inr (Continue log')"
    using bz by (simp add: on_wifi_prov_response_def buzzer_create_def bz_call_def set_tone_delay_def set_tone_def esp_error_check_def)
  ultimately show ?thesis using assms(7) by (fastforce simp: prov_main_def has_credentials_def provisioning_http_new_def)
qed

theorem failed_provisioning_start_aborts_witness:
  "let e = \<lparr>re_group = word_group, re_wifi = (\<lambda>log c. ESP_OK), re_buzzer = (\<lambda>log c. ESP_OK), re_mac = Some (1, 2, 3),
            re_unset = replicate 32 NUL, re_created = None, re_http_start = ESP_OK, re_http_reg = (\<lambda>u. ESP_OK),
            re_http_stop = ESP_OK, re_ap_ssid = ''esp_device'', re_ap_password = [], re_ap_max = 1\<rparr>;
       w = (p_wifi (sample_prov P_credentials ps_none))\<lparr>m_mode := mode_sta, wifi_group := 2\<rparr>
   in \<exists>s log'. app_run_step e False (Joining w, []) = Inr (Provisioning s, log')
      \<and> app_run_step e False (Provisioning s, log') = Inl Aborted"
  unfolding Let_def
  by (rule failed_provisioning_start_aborts)
    (simp_all add: driver_works_def wait_connection_def eg_wait_bits_def word_group_def wifi_bits sample_prov_def)

end
