(* ===== verification/Client_Tasks.thy ===== *)
theory Client_Tasks
  imports Client_Tcp
begin

text \<open>
  The three tasks of the connection of a train, \<open>client/main/tcp/tasks\<close>: the manager connects, starts the send
  and the listen task, waits for a notification, deletes both and disconnects. The tasks run interleaved; each step
  below is one action of one of them.
\<close>

section \<open>State\<close>

text \<open>Whether the handle of a task is set, and what the task does.\<close>

datatype task_state = No_task | Task_running | Task_suspended

record tcp_io_task =
  it_handle :: bool
  it_state :: task_state

datatype manager_phase =
  Mg_connecting | Mg_init_send | Mg_init_listen | Mg_waiting | Mg_destroy_send | Mg_destroy_listen | Mg_disconnect

record tcp_tasks =
  mg_phase :: manager_phase
  mg_tcp_client :: tcp_client_t
  mg_send :: tcp_io_task
  mg_listen :: tcp_io_task
  mg_notes :: nat

definition io_task_new :: tcp_io_task where
  "io_task_new = \<lparr>it_handle = False, it_state = No_task\<rparr>"

definition tcp_tasks_init :: tcp_tasks where
  "tcp_tasks_init = \<lparr>mg_phase = Mg_connecting, mg_tcp_client = register_messages tcp_client_init,
     mg_send = io_task_new, mg_listen = io_task_new, mg_notes = 0\<rparr>"

section \<open>Operations\<close>

text \<open>\<open>xTaskCreate\<close> leaves the handle alone when it fails; its result is not looked at.\<close>

definition send_task_init :: "bool \<Rightarrow> tcp_io_task \<Rightarrow> tcp_io_task" where
  "send_task_init created t = (if created then \<lparr>it_handle = True, it_state = Task_running\<rparr> else t)"

definition listen_task_init :: "bool \<Rightarrow> tcp_io_task \<Rightarrow> tcp_io_task" where
  "listen_task_init created t = (if created then \<lparr>it_handle = True, it_state = Task_running\<rparr> else t)"

definition send_task_destroy :: "tcp_io_task \<Rightarrow> tcp_io_task" where
  "send_task_destroy t = (if it_handle t then \<lparr>it_handle = False, it_state = No_task\<rparr> else t)"

definition listen_task_destroy :: "tcp_io_task \<Rightarrow> tcp_io_task" where
  "listen_task_destroy t = (if it_handle t then \<lparr>it_handle = False, it_state = No_task\<rparr> else t)"

text \<open>A task gives up: it notifies the manager and suspends itself.\<close>

definition send_gives_up :: "tcp_tasks \<Rightarrow> tcp_tasks" where
  "send_gives_up s = s\<lparr>mg_notes := mg_notes s + 1, mg_send := (mg_send s)\<lparr>it_state := Task_suspended\<rparr>\<rparr>"

definition listen_gives_up :: "tcp_tasks \<Rightarrow> tcp_tasks" where
  "listen_gives_up s = s\<lparr>mg_notes := mg_notes s + 1, mg_listen := (mg_listen s)\<lparr>it_state := Task_suspended\<rparr>\<rparr>"

text \<open>The statuses of the attempts, or of the receives, decide when that is.\<close>

definition send_fails_on :: "nat \<Rightarrow> client_status_t list \<Rightarrow> bool" where
  "send_fails_on timeout_attempts statuses \<longleftrightarrow> send_attempts timeout_attempts 0 statuses = Some Send_notify_manager"

inductive tcp_step :: "nat \<Rightarrow> tcp_tasks \<Rightarrow> tcp_tasks \<Rightarrow> bool" for timeout_attempts where
  connect_fails: "mg_phase s = Mg_connecting \<Longrightarrow> try_connect env (mg_tcp_client s) = (status, c) \<Longrightarrow> status \<noteq> cs_success \<Longrightarrow>
    tcp_step timeout_attempts s (s\<lparr>mg_tcp_client := c\<rparr>)"
| connects: "mg_phase s = Mg_connecting \<Longrightarrow> try_connect env (mg_tcp_client s) = (cs_success, c) \<Longrightarrow>
    tcp_step timeout_attempts s (s\<lparr>mg_tcp_client := c, mg_phase := Mg_init_send\<rparr>)"
| init_send: "mg_phase s = Mg_init_send \<Longrightarrow>
    tcp_step timeout_attempts s (s\<lparr>mg_send := send_task_init created (mg_send s), mg_phase := Mg_init_listen\<rparr>)"
| init_listen: "mg_phase s = Mg_init_listen \<Longrightarrow>
    tcp_step timeout_attempts s (s\<lparr>mg_listen := listen_task_init created (mg_listen s), mg_phase := Mg_waiting\<rparr>)"
| notified: "mg_phase s = Mg_waiting \<Longrightarrow> 0 < mg_notes s \<Longrightarrow>
    tcp_step timeout_attempts s (s\<lparr>mg_notes := 0, mg_phase := Mg_destroy_send\<rparr>)"
| destroy_send: "mg_phase s = Mg_destroy_send \<Longrightarrow>
    tcp_step timeout_attempts s (s\<lparr>mg_send := send_task_destroy (mg_send s), mg_phase := Mg_destroy_listen\<rparr>)"
| destroy_listen: "mg_phase s = Mg_destroy_listen \<Longrightarrow>
    tcp_step timeout_attempts s (s\<lparr>mg_listen := listen_task_destroy (mg_listen s), mg_phase := Mg_disconnect\<rparr>)"
| disconnects: "mg_phase s = Mg_disconnect \<Longrightarrow>
    tcp_step timeout_attempts s (s\<lparr>mg_tcp_client := snd (client_disconnect close_fails (mg_tcp_client s)), mg_phase := Mg_connecting\<rparr>)"
| send_fails: "it_state (mg_send s) = Task_running \<Longrightarrow> send_fails_on timeout_attempts statuses \<Longrightarrow>
    tcp_step timeout_attempts s (send_gives_up s)"
| listen_fails: "it_state (mg_listen s) = Task_running \<Longrightarrow> \<not> listen_continues status \<Longrightarrow>
    tcp_step timeout_attempts s (listen_gives_up s)"

inductive tcp_reachable :: "nat \<Rightarrow> tcp_tasks \<Rightarrow> bool" for timeout_attempts where
  reach_init: "tcp_reachable timeout_attempts tcp_tasks_init"
| reach_step: "tcp_reachable timeout_attempts s \<Longrightarrow> tcp_step timeout_attempts s s' \<Longrightarrow> tcp_reachable timeout_attempts s'"

lemmas task_ops = send_task_init_def listen_task_init_def send_task_destroy_def listen_task_destroy_def
  send_gives_up_def listen_gives_up_def

section \<open>Invariant\<close>

definition task_known :: "tcp_io_task \<Rightarrow> bool" where
  "task_known t \<longleftrightarrow> (it_handle t \<longleftrightarrow> it_state t \<noteq> No_task)"

definition tasks_ok :: "tcp_tasks \<Rightarrow> bool" where
  "tasks_ok s \<longleftrightarrow> task_known (mg_send s) \<and> task_known (mg_listen s)
     \<and> (mg_phase s \<in> {Mg_connecting, Mg_init_send, Mg_destroy_listen, Mg_disconnect} \<longrightarrow> it_state (mg_send s) = No_task)
     \<and> (mg_phase s \<in> {Mg_connecting, Mg_init_send, Mg_init_listen, Mg_disconnect} \<longrightarrow> it_state (mg_listen s) = No_task)
     \<and> (mg_phase s \<noteq> Mg_connecting \<longrightarrow> is_connected (mg_tcp_client s))
     \<and> (mg_phase s \<in> {Mg_init_listen, Mg_waiting} \<longrightarrow> it_state (mg_send s) = Task_suspended \<or> it_state (mg_listen s) = Task_suspended \<longrightarrow> 0 < mg_notes s)"

lemma try_connect_connected: "try_connect env c = (cs_success, c') \<Longrightarrow> is_connected c'"
  by (auto simp: try_connect_def is_connected_def Let_def split: if_splits)

lemma tasks_ok_step: "tcp_step n s s' \<Longrightarrow> tasks_ok s \<Longrightarrow> tasks_ok s'"
proof (induction rule: tcp_step.induct)
  case (connects s env c)
  then show ?case using try_connect_connected [of env "mg_tcp_client s" c] by (auto simp: tasks_ok_def)
qed (auto simp: tasks_ok_def task_ops task_known_def)

lemma tasks_ok_init: "tasks_ok tcp_tasks_init"
  by (simp add: tasks_ok_def tcp_tasks_init_def io_task_new_def task_known_def)

lemma tasks_ok_reachable: "tcp_reachable n s \<Longrightarrow> tasks_ok s"
proof (induction rule: tcp_reachable.induct)
  case reach_init
  show ?case by (rule tasks_ok_init)
next
  case (reach_step s s')
  then show ?case using tasks_ok_step by blast
qed

text \<open>
  C30. In every interleaving of the manager with the send and the listen task: a task exists exactly while its handle is set,
  so that none is lost or started twice; the tasks only run on a connected socket, which is not closed before both are deleted;
  and a task that has given up is not overlooked, the manager then has a notification to take.
\<close>

theorem io_tasks_only_while_connected:
  assumes "tcp_reachable timeout_attempts s"
  shows "(it_handle (mg_send s) \<longleftrightarrow> it_state (mg_send s) \<noteq> No_task) \<and> (it_handle (mg_listen s) \<longleftrightarrow> it_state (mg_listen s) \<noteq> No_task)
    \<and> (it_state (mg_send s) \<noteq> No_task \<or> it_state (mg_listen s) \<noteq> No_task \<longrightarrow> is_connected (mg_tcp_client s))
    \<and> (mg_phase s = Mg_disconnect \<longrightarrow> it_state (mg_send s) = No_task \<and> it_state (mg_listen s) = No_task)
    \<and> (mg_phase s = Mg_waiting \<and> (it_state (mg_send s) = Task_suspended \<or> it_state (mg_listen s) = Task_suspended) \<longrightarrow>
        tcp_step timeout_attempts s (s\<lparr>mg_notes := 0, mg_phase := Mg_destroy_send\<rparr>))"
proof -
  have ok: "tasks_ok s" by (rule tasks_ok_reachable [OF assms])
  have "is_connected (mg_tcp_client s)" if "it_state (mg_send s) \<noteq> No_task \<or> it_state (mg_listen s) \<noteq> No_task"
    using ok that by (cases "mg_phase s = Mg_connecting") (simp_all add: tasks_ok_def)
  moreover have "it_state (mg_send s) = No_task \<and> it_state (mg_listen s) = No_task" if "mg_phase s = Mg_disconnect"
    using ok that by (simp add: tasks_ok_def)
  moreover have "tcp_step timeout_attempts s (s\<lparr>mg_notes := 0, mg_phase := Mg_destroy_send\<rparr>)"
    if "mg_phase s = Mg_waiting" "it_state (mg_send s) = Task_suspended \<or> it_state (mg_listen s) = Task_suspended"
    using ok that by (intro tcp_step.notified) (simp_all add: tasks_ok_def)
  moreover have "task_known (mg_send s)" "task_known (mg_listen s)" using ok by (simp_all add: tasks_ok_def)
  ultimately show ?thesis unfolding task_known_def by blast
qed

section \<open>A run\<close>

text \<open>The manager connects and both tasks run.\<close>

definition good_env :: connect_env where
  "good_env = \<lparr>resolved = True, list_on_failure = False, new_fd = 5, connected = True\<rparr>"

lemma good_connect: "\<exists>c'. try_connect good_env c = (cs_success, c') \<and> is_connected c'"
  by (simp add: try_connect_def good_env_def is_connected_def Let_def)

lemma manager_connects:
  assumes "tcp_reachable n s" and "mg_phase s = Mg_connecting"
  shows "\<exists>s'. tcp_reachable n s' \<and> mg_phase s' = Mg_waiting \<and> it_state (mg_send s') = Task_running
    \<and> it_state (mg_listen s') = Task_running \<and> is_connected (mg_tcp_client s') \<and> mg_notes s' = mg_notes s"
proof -
  obtain c where c: "try_connect good_env (mg_tcp_client s) = (cs_success, c)" "is_connected c" using good_connect by blast
  define s1 where "s1 = s\<lparr>mg_tcp_client := c, mg_phase := Mg_init_send\<rparr>"
  define s2 where "s2 = s1\<lparr>mg_send := send_task_init True (mg_send s1), mg_phase := Mg_init_listen\<rparr>"
  define s3 where "s3 = s2\<lparr>mg_listen := listen_task_init True (mg_listen s2), mg_phase := Mg_waiting\<rparr>"
  have "tcp_step n s s1" unfolding s1_def by (rule tcp_step.connects [OF assms(2) c(1)])
  moreover have "tcp_step n s1 s2" unfolding s2_def by (rule tcp_step.init_send) (simp add: s1_def)
  moreover have "tcp_step n s2 s3" unfolding s3_def by (rule tcp_step.init_listen) (simp add: s2_def)
  ultimately have "tcp_reachable n s3" using assms(1) by (meson tcp_reachable.reach_step)
  then show ?thesis using c(2) by (intro exI [of _ s3]) (simp add: s3_def s2_def s1_def task_ops)
qed

text \<open>The tasks are stopped and the connection is closed; a notification given meanwhile stays.\<close>

lemma manager_disconnects:
  assumes "tcp_reachable n s" and "mg_phase s = Mg_destroy_send"
  shows "\<exists>s'. tcp_reachable n s' \<and> mg_phase s' = Mg_connecting \<and> mg_notes s' = mg_notes s"
proof -
  define s1 where "s1 = s\<lparr>mg_send := send_task_destroy (mg_send s), mg_phase := Mg_destroy_listen\<rparr>"
  define s2 where "s2 = s1\<lparr>mg_listen := listen_task_destroy (mg_listen s1), mg_phase := Mg_disconnect\<rparr>"
  define s3 where "s3 = s2\<lparr>mg_tcp_client := snd (client_disconnect False (mg_tcp_client s2)), mg_phase := Mg_connecting\<rparr>"
  have "tcp_step n s s1" unfolding s1_def by (rule tcp_step.destroy_send [OF assms(2)])
  moreover have "tcp_step n s1 s2" unfolding s2_def by (rule tcp_step.destroy_listen) (simp add: s1_def)
  moreover have "tcp_step n s2 s3" unfolding s3_def by (rule tcp_step.disconnects) (simp add: s2_def)
  ultimately have "tcp_reachable n s3" using assms(1) by (meson tcp_reachable.reach_step)
  then show ?thesis by (intro exI [of _ s3]) (simp add: s3_def s2_def s1_def)
qed

theorem io_tasks_only_while_connected_witness:
  "\<exists>s. tcp_reachable 3 s \<and> it_state (mg_send s) = Task_running \<and> it_state (mg_listen s) = Task_running
    \<and> it_handle (mg_send s) \<and> it_handle (mg_listen s) \<and> is_connected (mg_tcp_client s)"
proof -
  obtain s where s: "tcp_reachable 3 s" "it_state (mg_send s) = Task_running" "it_state (mg_listen s) = Task_running"
    using manager_connects [OF tcp_reachable.reach_init, of 3] by (auto simp: tcp_tasks_init_def)
  with io_tasks_only_while_connected [OF s(1)] show ?thesis by auto
qed

text \<open>
  The notification of a task that gives up after the manager has taken that of the other one is not consumed: the manager has
  it still when it waits on the next connection, and tears this connection down although both tasks are running.
\<close>

theorem late_notification_drops_connection:
  "\<exists>s. tcp_reachable timeout_attempts s \<and> mg_phase s = Mg_waiting \<and> it_state (mg_send s) = Task_running
    \<and> it_state (mg_listen s) = Task_running \<and> is_connected (mg_tcp_client s)
    \<and> tcp_step timeout_attempts s (s\<lparr>mg_notes := 0, mg_phase := Mg_destroy_send\<rparr>)"
proof -
  let ?n = timeout_attempts
  obtain s where s: "tcp_reachable ?n s" "mg_phase s = Mg_waiting" "it_state (mg_send s) = Task_running"
    "it_state (mg_listen s) = Task_running"
    using manager_connects [OF tcp_reachable.reach_init, of ?n] by (auto simp: tcp_tasks_init_def)
  define s1 where "s1 = listen_gives_up s"
  define s2 where "s2 = s1\<lparr>mg_notes := 0, mg_phase := Mg_destroy_send\<rparr>"
  define s3 where "s3 = send_gives_up s2"
  have "tcp_step ?n s s1" unfolding s1_def by (rule tcp_step.listen_fails [OF s(4), of cs_socket_failure]) (simp add: listen_continues_def)
  moreover have "tcp_step ?n s1 s2" unfolding s2_def by (rule tcp_step.notified) (simp_all add: s1_def listen_gives_up_def s)
  moreover have "tcp_step ?n s2 s3" unfolding s3_def
    by (rule tcp_step.send_fails [where statuses = "[cs_socket_failure]"])
      (simp_all add: s2_def s1_def listen_gives_up_def s send_fails_on_def)
  ultimately have "tcp_reachable ?n s3" using s(1) by (meson tcp_reachable.reach_step)
  moreover have "mg_phase s3 = Mg_destroy_send" "mg_notes s3 = 1" by (simp_all add: s3_def s2_def send_gives_up_def)
  ultimately obtain s4 where "tcp_reachable ?n s4" "mg_phase s4 = Mg_connecting" "mg_notes s4 = 1"
    using manager_disconnects by metis
  then obtain s5 where s5: "tcp_reachable ?n s5" "mg_phase s5 = Mg_waiting" "it_state (mg_send s5) = Task_running"
    "it_state (mg_listen s5) = Task_running" "is_connected (mg_tcp_client s5)" "mg_notes s5 = 1"
    using manager_connects by metis
  moreover have "tcp_step ?n s5 (s5\<lparr>mg_notes := 0, mg_phase := Mg_destroy_send\<rparr>)"
    using s5(2,6) by (intro tcp_step.notified) simp_all
  ultimately show ?thesis by blast
qed

end
