(* ===== verification/Asio_Transfer.thy ===== *)
theory Asio_Transfer
  imports Prelude
begin

text \<open>
  The composed operations of asio the host reads and writes with: \<open>async_read\<close> and
  \<open>async_write\<close> (\<open>vendors/asio-1.36.0/include/asio/impl/read.hpp\<close> and \<open>write.hpp\<close>), the buffers
  they consume (\<open>detail/consuming_buffers.hpp\<close>, \<open>buffer.hpp\<close>) and the completion
  conditions (\<open>completion_condition.hpp\<close>).

  A buffer is a range of a memory, its offset and its size. What \<open>async_read_some\<close> and
  \<open>async_write_some\<close> transfer is a list of events: some bytes, at least one, or an error. Sizes are
  natural numbers; the sums of the code stay below the size of the buffers.
\<close>

section \<open>Buffers\<close>

record buffer_t =
  buf_data :: nat
  buf_size :: nat

definition buffer_advance :: "buffer_t \<Rightarrow> nat \<Rightarrow> buffer_t" where
  "buffer_advance b n =
     (let offset = (if n < buf_size b then n else buf_size b)
      in \<lparr>buf_data = buf_data b + offset, buf_size = buf_size b - offset\<rparr>)"

definition buffer_limit :: "buffer_t \<Rightarrow> nat \<Rightarrow> buffer_t" where
  "buffer_limit b max_size_in_bytes =
     \<lparr>buf_data = buf_data b, buf_size = (if buf_size b < max_size_in_bytes then buf_size b else max_size_in_bytes)\<rparr>"

text \<open>The bytes of a buffer.\<close>

definition buffer_bytes :: "byte list \<Rightarrow> buffer_t \<Rightarrow> byte list" where
  "buffer_bytes mem b = take (buf_size b) (drop (buf_data b) mem)"

section \<open>Completion conditions\<close>

datatype asio_error = No_error | Operation_aborted | Asio_error nat | Misc_error nat

definition default_max_transfer_size :: nat where
  "default_max_transfer_size = 65536"

definition transfer_all :: "asio_error \<Rightarrow> nat \<Rightarrow> nat" where
  "transfer_all err bytes_transferred = (if err \<noteq> No_error then 0 else default_max_transfer_size)"

definition transfer_at_least :: "nat \<Rightarrow> asio_error \<Rightarrow> nat \<Rightarrow> nat" where
  "transfer_at_least minimum err bytes_transferred =
     (if err \<noteq> No_error \<or> bytes_transferred \<ge> minimum then 0 else default_max_transfer_size)"

definition transfer_exactly :: "nat \<Rightarrow> asio_error \<Rightarrow> nat \<Rightarrow> nat" where
  "transfer_exactly sz err bytes_transferred =
     (if err \<noteq> No_error \<or> bytes_transferred \<ge> sz then 0
      else if sz - bytes_transferred < default_max_transfer_size then sz - bytes_transferred
      else default_max_transfer_size)"

section \<open>Consuming a single buffer\<close>

record consuming_single_buffer =
  csb_buffer :: buffer_t
  csb_total_consumed :: nat

definition csb_init :: "buffer_t \<Rightarrow> consuming_single_buffer" where
  "csb_init b = \<lparr>csb_buffer = b, csb_total_consumed = 0\<rparr>"

definition csb_empty :: "consuming_single_buffer \<Rightarrow> bool" where
  "csb_empty cb \<longleftrightarrow> csb_total_consumed cb \<ge> buf_size (csb_buffer cb)"

definition csb_prepare :: "consuming_single_buffer \<Rightarrow> nat \<Rightarrow> buffer_t" where
  "csb_prepare cb max_size = buffer_limit (buffer_advance (csb_buffer cb) (csb_total_consumed cb)) max_size"

definition csb_consume :: "nat \<Rightarrow> consuming_single_buffer \<Rightarrow> consuming_single_buffer" where
  "csb_consume sz cb = cb\<lparr>csb_total_consumed := csb_total_consumed cb + sz\<rparr>"

section \<open>Consuming a sequence of buffers\<close>

record consuming_buffers =
  cbs_buffers :: "buffer_t list"
  cbs_total_size :: nat
  cbs_total_consumed :: nat
  cbs_next_elem :: nat
  cbs_next_elem_offset :: nat

definition cbs_init :: "buffer_t list \<Rightarrow> consuming_buffers" where
  "cbs_init bs = \<lparr>cbs_buffers = bs, cbs_total_size = sum_list (map buf_size bs), cbs_total_consumed = 0,
     cbs_next_elem = 0, cbs_next_elem_offset = 0\<rparr>"

definition cbs_empty :: "consuming_buffers \<Rightarrow> bool" where
  "cbs_empty cb \<longleftrightarrow> cbs_total_consumed cb \<ge> cbs_total_size cb"

text \<open>The loop of \<open>prepare\<close> over the buffers from the next one on; \<open>room\<close> counts the places left in the result.\<close>

fun prepare_loop :: "nat \<Rightarrow> nat \<Rightarrow> nat \<Rightarrow> buffer_t list \<Rightarrow> buffer_t list" where
  "prepare_loop room max_size elem_offset [] = []"
| "prepare_loop room max_size elem_offset (b # bs) =
     (if max_size > 0 \<and> room > 0 then
        let buf = buffer_limit (buffer_advance b elem_offset) max_size
        in if buf_size buf > 0 then buf # prepare_loop (room - 1) (max_size - buf_size buf) 0 bs
           else prepare_loop room (max_size - buf_size buf) 0 bs
      else [])"

definition cbs_prepare :: "nat \<Rightarrow> consuming_buffers \<Rightarrow> nat \<Rightarrow> buffer_t list" where
  "cbs_prepare max_buffers cb max_size =
     prepare_loop max_buffers max_size (cbs_next_elem_offset cb) (drop (cbs_next_elem cb) (cbs_buffers cb))"

text \<open>The loop of \<open>consume\<close>: the position of the next element and the offset in it.\<close>

fun consume_loop :: "nat \<Rightarrow> nat \<Rightarrow> nat \<Rightarrow> buffer_t list \<Rightarrow> nat \<times> nat" where
  "consume_loop sz next_elem offset [] = (next_elem, offset)"
| "consume_loop sz next_elem offset (b # bs) =
     (if sz > 0 then
        let next_buf = buffer_advance b offset
        in if sz < buf_size next_buf then (next_elem, offset + sz)
           else consume_loop (sz - buf_size next_buf) (next_elem + 1) 0 bs
      else (next_elem, offset))"

definition cbs_consume :: "nat \<Rightarrow> consuming_buffers \<Rightarrow> consuming_buffers" where
  "cbs_consume sz cb =
     (case consume_loop sz (cbs_next_elem cb) (cbs_next_elem_offset cb) (drop (cbs_next_elem cb) (cbs_buffers cb)) of
        (n, off) \<Rightarrow> cb\<lparr>cbs_total_consumed := cbs_total_consumed cb + sz, cbs_next_elem := n, cbs_next_elem_offset := off\<rparr>)"

section \<open>The composed operations\<close>

text \<open>
  One call of \<open>operator()\<close> of \<open>read_op\<close>, or of \<open>write_op\<close>, which is the same: either the next
  operation is started on a buffer, or the handler is called with the error and the number of
  bytes. \<open>start\<close> is 1 for the initiating call.
\<close>

datatype op_step =
    Start_some buffer_t consuming_single_buffer
  | Call_handler asio_error nat

definition after_transfer ::
    "(asio_error \<Rightarrow> nat \<Rightarrow> nat) \<Rightarrow> bool \<Rightarrow> asio_error \<Rightarrow> nat \<Rightarrow> consuming_single_buffer \<Rightarrow> op_step" where
  "after_transfer cond cancelled ec bytes_transferred cb =
     (let cb = csb_consume bytes_transferred cb
      in if (ec = No_error \<and> bytes_transferred = 0) \<or> csb_empty cb then Call_handler ec (csb_total_consumed cb)
         else let max_size = cond ec (csb_total_consumed cb)
              in if max_size = 0 then Call_handler ec (csb_total_consumed cb)
                 else if cancelled then Call_handler Operation_aborted (csb_total_consumed cb)
                 else Start_some (csb_prepare cb max_size) cb)"

definition read_op_call ::
    "(asio_error \<Rightarrow> nat \<Rightarrow> nat) \<Rightarrow> bool \<Rightarrow> asio_error \<Rightarrow> nat \<Rightarrow> nat \<Rightarrow> consuming_single_buffer \<Rightarrow> op_step" where
  "read_op_call cond cancelled ec bytes_transferred start cb =
     (if start = 1 then Start_some (csb_prepare cb (cond ec (csb_total_consumed cb))) cb
      else after_transfer cond cancelled ec bytes_transferred cb)"

definition write_op_call ::
    "(asio_error \<Rightarrow> nat \<Rightarrow> nat) \<Rightarrow> bool \<Rightarrow> asio_error \<Rightarrow> nat \<Rightarrow> nat \<Rightarrow> consuming_single_buffer \<Rightarrow> op_step" where
  "write_op_call cond cancelled ec bytes_transferred start cb =
     (if start = 1 then Start_some (csb_prepare cb (cond ec (csb_total_consumed cb))) cb
      else after_transfer cond cancelled ec bytes_transferred cb)"

text \<open>
  The outcome of one \<open>async_read_some\<close> or \<open>async_write_some\<close>: a number of bytes, cut to what the
  buffer and the stream hold and at least one, with the cancellation state at that time, or an error
  without bytes. A transfer into an empty buffer completes with no bytes.
\<close>

datatype some_event = Transferred nat bool | Failed asio_error

text \<open>
  The read from its start to the call of the handler: the error, the number of bytes, the memory and
  the rest of the stream. While there is nothing on the stream, an event has no effect. \<open>None\<close>
  as long as the handler has not been called.
\<close>

fun read_loop ::
    "(asio_error \<Rightarrow> nat \<Rightarrow> nat) \<Rightarrow> op_step \<Rightarrow> byte list \<Rightarrow> byte list \<Rightarrow> some_event list \<Rightarrow>
     (asio_error \<times> nat \<times> byte list \<times> byte list) option" where
  "read_loop cond (Call_handler ec n) mem rx evs = Some (ec, n, mem, rx)"
| "read_loop cond (Start_some b cb) mem rx [] = None"
| "read_loop cond (Start_some b cb) mem rx (Failed e # evs) =
     read_loop cond (read_op_call cond False e 0 0 cb) mem rx evs"
| "read_loop cond (Start_some b cb) mem rx (Transferred k cancelled # evs) =
     (if buf_size b > 0 \<and> rx = [] then read_loop cond (Start_some b cb) mem rx evs
      else let n = min (Suc k) (min (buf_size b) (length rx))
           in read_loop cond (read_op_call cond cancelled No_error n 0 cb)
                (overwrite (buf_data b) (take n rx) mem) (drop n rx) evs)"

definition async_read ::
    "(asio_error \<Rightarrow> nat \<Rightarrow> nat) \<Rightarrow> buffer_t \<Rightarrow> byte list \<Rightarrow> byte list \<Rightarrow> some_event list \<Rightarrow>
     (asio_error \<times> nat \<times> byte list \<times> byte list) option" where
  "async_read cond b mem rx evs = read_loop cond (read_op_call cond False No_error 0 1 (csb_init b)) mem rx evs"

text \<open>The write: the error, the number of bytes, and the bytes on the stream.\<close>

fun write_loop ::
    "(asio_error \<Rightarrow> nat \<Rightarrow> nat) \<Rightarrow> op_step \<Rightarrow> byte list \<Rightarrow> byte list \<Rightarrow> some_event list \<Rightarrow> (asio_error \<times> nat \<times> byte list) option" where
  "write_loop cond (Call_handler ec n) mem out evs = Some (ec, n, out)"
| "write_loop cond (Start_some b cb) mem out [] = None"
| "write_loop cond (Start_some b cb) mem out (Failed e # evs) =
     write_loop cond (write_op_call cond False e 0 0 cb) mem out evs"
| "write_loop cond (Start_some b cb) mem out (Transferred k cancelled # evs) =
     (let n = min (Suc k) (buf_size b)
      in write_loop cond (write_op_call cond cancelled No_error n 0 cb) mem (out @ take n (buffer_bytes mem b)) evs)"

definition async_write ::
    "(asio_error \<Rightarrow> nat \<Rightarrow> nat) \<Rightarrow> buffer_t \<Rightarrow> byte list \<Rightarrow> byte list \<Rightarrow> some_event list \<Rightarrow> (asio_error \<times> nat \<times> byte list) option" where
  "async_write cond b mem out evs = write_loop cond (write_op_call cond False No_error 0 1 (csb_init b)) mem out evs"

section \<open>Reading\<close>

lemma csb_prepare_eq:
  "csb_total_consumed cb \<le> buf_size (csb_buffer cb) \<Longrightarrow>
     csb_prepare cb max_size = \<lparr>buf_data = buf_data (csb_buffer cb) + csb_total_consumed cb,
       buf_size = min (buf_size (csb_buffer cb) - csb_total_consumed cb) max_size\<rparr>"
  by (simp add: csb_prepare_def buffer_limit_def buffer_advance_def Let_def min_def)

lemma take_take_drop: "take m xs @ take n (drop m xs) = take (m + n) xs"
  by (simp add: take_add)

text \<open>Where a read is: \<open>m\<close> bytes of the stream are in the buffer, and there is room for more unless it has no room at all.\<close>

definition reading :: "buffer_t \<Rightarrow> byte list \<Rightarrow> byte list \<Rightarrow> nat \<Rightarrow> byte list \<Rightarrow> byte list \<Rightarrow> bool" where
  "reading b mem0 rx0 m mem rx \<longleftrightarrow>
     (m < buf_size b \<or> buf_size b = 0 \<and> m = 0) \<and> m \<le> length rx0 \<and> buf_data b + buf_size b \<le> length mem0
   \<and> mem = overwrite (buf_data b) (take m rx0) mem0 \<and> rx = drop m rx0"

abbreviation pending :: "buffer_t \<Rightarrow> nat \<Rightarrow> op_step" where
  "pending b m \<equiv> Start_some (csb_prepare \<lparr>csb_buffer = b, csb_total_consumed = m\<rparr> default_max_transfer_size)
     \<lparr>csb_buffer = b, csb_total_consumed = m\<rparr>"

lemma default_max_pos [simp]: "0 < default_max_transfer_size" "default_max_transfer_size \<noteq> 0"
  by (simp_all add: default_max_transfer_size_def)

lemma after_transfer_all:
  "after_transfer transfer_all cancelled No_error i \<lparr>csb_buffer = b, csb_total_consumed = m\<rparr> =
     (if i = 0 \<or> buf_size b \<le> m + i then Call_handler No_error (m + i)
      else if cancelled then Call_handler Operation_aborted (m + i)
      else pending b (m + i))"
  by (simp add: after_transfer_def csb_consume_def csb_empty_def Let_def transfer_all_def)

lemma after_transfer_error:
  "e \<noteq> No_error \<Longrightarrow> after_transfer transfer_all cancelled e 0 \<lparr>csb_buffer = b, csb_total_consumed = m\<rparr> = Call_handler e m"
  by (simp add: after_transfer_def csb_consume_def csb_empty_def Let_def transfer_all_def)

lemma read_step:
  fixes k :: nat
  assumes "reading b mem0 rx0 m mem rx" and "rx \<noteq> [] \<or> buf_size b = 0"
  defines "n \<equiv> min (Suc k) (min (min (buf_size b - m) default_max_transfer_size) (length rx))"
  shows "m + n \<le> buf_size b" and "m + n \<le> length rx0" and "n = 0 \<longleftrightarrow> buf_size b = 0"
    and "overwrite (buf_data b + m) (take n rx) mem = overwrite (buf_data b) (take (m + n) rx0) mem0"
    and "drop n rx = drop (m + n) rx0"
proof -
  have r: "m < buf_size b \<or> buf_size b = 0 \<and> m = 0" "m \<le> length rx0" "buf_data b + buf_size b \<le> length mem0"
    "mem = overwrite (buf_data b) (take m rx0) mem0" "rx = drop m rx0"
    using assms(1) by (auto simp: reading_def)
  show le: "m + n \<le> buf_size b" using r(1) by (auto simp: n_def)
  show lex: "m + n \<le> length rx0" using r(2,5) by (auto simp: n_def)
  show "n = 0 \<longleftrightarrow> buf_size b = 0"
    using r(1) assms(2) by (auto simp: n_def min_def split: if_splits)
  have len: "length (take m rx0) = m" "length (take n (drop m rx0)) = n" using r(2) lex by simp_all
  then show "overwrite (buf_data b + m) (take n rx) mem = overwrite (buf_data b) (take (m + n) rx0) mem0"
    using overwrite_overwrite [of "buf_data b" "take m rx0" "take n (drop m rx0)" mem0] r(3-5) le
    by (simp add: take_take_drop)
  show "drop n rx = drop (m + n) rx0" using r(5) by (simp add: add.commute)
qed

lemma pending_buffer:
  "reading b mem0 rx0 m mem rx \<Longrightarrow> csb_prepare \<lparr>csb_buffer = b, csb_total_consumed = m\<rparr> default_max_transfer_size =
      \<lparr>buf_data = buf_data b + m, buf_size = min (buf_size b - m) default_max_transfer_size\<rparr>"
  by (auto simp: csb_prepare_eq reading_def)

lemma read_loop_waits:
  assumes "reading b mem0 rx0 m mem rx" and "rx = []" and "buf_size b \<noteq> 0"
  shows "read_loop transfer_all (pending b m) mem rx (Transferred k c # evs) = read_loop transfer_all (pending b m) mem rx evs"
proof -
  have "0 < min (buf_size b - m) default_max_transfer_size" using assms(1,3) by (auto simp: reading_def)
  with assms(2) pending_buffer [OF assms(1)] show ?thesis by simp
qed

lemma read_loop_transfers:
  assumes "reading b mem0 rx0 m mem rx" and "rx \<noteq> [] \<or> buf_size b = 0"
    and "n = min (Suc k) (min (min (buf_size b - m) default_max_transfer_size) (length rx))"
  shows "read_loop transfer_all (pending b m) mem rx (Transferred k c # evs) =
    read_loop transfer_all (after_transfer transfer_all c No_error n \<lparr>csb_buffer = b, csb_total_consumed = m\<rparr>)
      (overwrite (buf_data b) (take (m + n) rx0) mem0) (drop (m + n) rx0) evs"
proof -
  note st = read_step [OF assms(1,2), of k, folded assms(3)]
  have "(0 < min (buf_size b - m) default_max_transfer_size \<and> rx = []) = False" using assms(2) by auto
  then show ?thesis
    unfolding pending_buffer [OF assms(1)] read_loop.simps
    by (simp only: buffer_t.simps if_False Let_def assms(3) [symmetric] st(4,5)) (simp add: read_op_call_def)
qed

lemma read_loop_spec:
  assumes "reading b mem0 rx0 m mem rx" and "\<forall>e. Failed e \<in> set evs \<longrightarrow> e \<noteq> No_error"
    and "read_loop transfer_all (pending b m) mem rx evs = Some (ec, n, mem', rx')"
  shows "n \<le> buf_size b \<and> n \<le> length rx0 \<and> mem' = overwrite (buf_data b) (take n rx0) mem0 \<and> rx' = drop n rx0
    \<and> (ec = No_error \<longleftrightarrow> n = buf_size b)
    \<or> buf_size b = 0 \<and> ec \<noteq> No_error \<and> n = 0 \<and> mem' = mem0 \<and> rx' = rx0"
  using assms
proof (induction evs arbitrary: m mem rx)
  case Nil
  then show ?case by simp
next
  case (Cons e evs)
  show ?case
  proof (cases e)
    case (Failed err)
    then have "err \<noteq> No_error" using Cons.prems(2) by simp
    with Failed Cons.prems(1,3) show ?thesis
      by (auto simp: read_op_call_def after_transfer_error reading_def)
  next
    case (Transferred k cancelled)
    show ?thesis
    proof (cases "rx = [] \<and> buf_size b \<noteq> 0")
      case True
      then have "read_loop transfer_all (pending b m) mem rx evs = Some (ec, n, mem', rx')"
        using read_loop_waits [OF Cons.prems(1)] Transferred Cons.prems(3) by simp
      with Cons.IH [OF Cons.prems(1)] Cons.prems(2) show ?thesis by simp
    next
      case False
      define i where "i = min (Suc k) (min (min (buf_size b - m) default_max_transfer_size) (length rx))"
      have ne: "rx \<noteq> [] \<or> buf_size b = 0" using False by blast
      note st = read_step [OF Cons.prems(1) ne, of k, folded i_def]
      note run = Cons.prems(3) [unfolded Transferred read_loop_transfers [OF Cons.prems(1) ne i_def]]
      show ?thesis
      proof (cases "m + i = buf_size b")
        case True
        with run st show ?thesis by (auto simp: after_transfer_all)
      next
        case less: False
        then have i: "0 < i" using st(1,3) by (cases "buf_size b = 0") auto
        show ?thesis
        proof (cases cancelled)
          case True
          with run st less i show ?thesis by (auto simp: after_transfer_all)
        next
          case False
          with run st less i have "read_loop transfer_all (pending b (m + i))
              (overwrite (buf_data b) (take (m + i) rx0) mem0) (drop (m + i) rx0) evs = Some (ec, n, mem', rx')"
            by (simp add: after_transfer_all)
          moreover have "reading b mem0 rx0 (m + i) (overwrite (buf_data b) (take (m + i) rx0) mem0) (drop (m + i) rx0)"
            using Cons.prems(1) st less by (auto simp: reading_def)
          ultimately show ?thesis using Cons.IH Cons.prems(2) by simp
        qed
      qed
    qed
  qed
qed

lemma read_loop_completes:
  assumes "reading b mem0 rx0 m mem rx" and "buf_size b \<le> length rx0"
    and "list_all (\<lambda>e. \<exists>k. e = Transferred k False) evs" and "buf_size b - m < length evs"
  shows "\<exists>mem' rx'. read_loop transfer_all (pending b m) mem rx evs = Some (No_error, buf_size b, mem', rx')"
  using assms
proof (induction evs arbitrary: m mem rx)
  case Nil
  then show ?case by simp
next
  case (Cons e evs)
  obtain k where e: "e = Transferred k False" using Cons.prems(3) by auto
  define i where "i = min (Suc k) (min (min (buf_size b - m) default_max_transfer_size) (length rx))"
  have ne: "rx \<noteq> [] \<or> buf_size b = 0" using Cons.prems(1,2) by (auto simp: reading_def)
  note st = read_step [OF Cons.prems(1) ne, of k, folded i_def]
  note run = read_loop_transfers [OF Cons.prems(1) ne i_def, of False evs, folded e]
  show ?case
  proof (cases "m + i = buf_size b")
    case True
    with run st show ?thesis by (auto simp: after_transfer_all)
  next
    case less: False
    then have i: "0 < i" using st(1,3) by (cases "buf_size b = 0") auto
    have "reading b mem0 rx0 (m + i) (overwrite (buf_data b) (take (m + i) rx0) mem0) (drop (m + i) rx0)"
      using Cons.prems(1) st less by (auto simp: reading_def)
    from Cons.IH [OF this] Cons.prems(2-4) i run less st(1) show ?thesis by (auto simp: after_transfer_all)
  qed
qed

section \<open>Writing\<close>

lemma length_buffer_bytes: "buf_data b + buf_size b \<le> length mem \<Longrightarrow> length (buffer_bytes mem b) = buf_size b"
  by (simp add: buffer_bytes_def)

text \<open>Where a write is: \<open>m\<close> bytes of the buffer have been sent.\<close>

definition writing :: "buffer_t \<Rightarrow> byte list \<Rightarrow> byte list \<Rightarrow> nat \<Rightarrow> byte list \<Rightarrow> bool" where
  "writing b mem out0 m out \<longleftrightarrow> (m < buf_size b \<or> buf_size b = 0 \<and> m = 0) \<and> buf_data b + buf_size b \<le> length mem
     \<and> out = out0 @ take m (buffer_bytes mem b)"

lemma write_loop_transfers:
  assumes "writing b mem out0 m out" and "n = min (Suc k) (min (buf_size b - m) default_max_transfer_size)"
  shows "m + n \<le> buf_size b" and "n = 0 \<longleftrightarrow> buf_size b = 0"
    and "write_loop transfer_all (pending b m) mem out (Transferred k c # evs) =
      write_loop transfer_all (after_transfer transfer_all c No_error n \<lparr>csb_buffer = b, csb_total_consumed = m\<rparr>) mem
        (out0 @ take (m + n) (buffer_bytes mem b)) evs"
proof -
  have w: "m < buf_size b \<or> buf_size b = 0 \<and> m = 0" "buf_data b + buf_size b \<le> length mem"
    "out = out0 @ take m (buffer_bytes mem b)"
    using assms(1) by (auto simp: writing_def)
  show le: "m + n \<le> buf_size b" using w(1) assms(2) by auto
  show "n = 0 \<longleftrightarrow> buf_size b = 0" using w(1) assms(2) by (auto simp: min_def split: if_splits)
  have prep: "csb_prepare \<lparr>csb_buffer = b, csb_total_consumed = m\<rparr> default_max_transfer_size =
      \<lparr>buf_data = buf_data b + m, buf_size = min (buf_size b - m) default_max_transfer_size\<rparr>"
    using w(1) by (auto simp: csb_prepare_eq)
  have "take n (take (min (buf_size b - m) default_max_transfer_size) (drop (buf_data b + m) mem)) = take n (drop m (buffer_bytes mem b))"
    using assms(2) le by (simp add: buffer_bytes_def drop_take min_def add.commute)
  then have "out @ take n (buffer_bytes mem \<lparr>buf_data = buf_data b + m, buf_size = min (buf_size b - m) default_max_transfer_size\<rparr>)
      = out0 @ take (m + n) (buffer_bytes mem b)"
    using w(3) by (simp add: buffer_bytes_def [of _ "\<lparr>buf_data = _, buf_size = _\<rparr>"] take_take_drop)
  then show "write_loop transfer_all (pending b m) mem out (Transferred k c # evs) =
      write_loop transfer_all (after_transfer transfer_all c No_error n \<lparr>csb_buffer = b, csb_total_consumed = m\<rparr>) mem
        (out0 @ take (m + n) (buffer_bytes mem b)) evs"
    unfolding prep write_loop.simps
    by (simp only: buffer_t.simps Let_def assms(2) [symmetric]) (simp add: write_op_call_def)
qed

lemma writing_step: "writing b mem out0 m out \<Longrightarrow> m + n < buf_size b \<Longrightarrow> writing b mem out0 (m + n) (out0 @ take (m + n) (buffer_bytes mem b))"
  by (simp add: writing_def)

lemma write_loop_spec:
  assumes "writing b mem out0 m out" and "\<forall>e. Failed e \<in> set evs \<longrightarrow> e \<noteq> No_error"
    and "write_loop transfer_all (pending b m) mem out evs = Some (ec, n, out')"
  shows "n \<le> buf_size b \<and> out' = out0 @ take n (buffer_bytes mem b) \<and> (ec = No_error \<longrightarrow> n = buf_size b)
    \<and> (n = buf_size b \<longrightarrow> ec = No_error \<or> buf_size b = 0)"
  using assms
proof (induction evs arbitrary: m out)
  case Nil
  then show ?case by simp
next
  case (Cons e evs)
  show ?case
  proof (cases e)
    case (Failed err)
    then have "err \<noteq> No_error" using Cons.prems(2) by simp
    with Failed Cons.prems(1,3) show ?thesis by (auto simp: write_op_call_def after_transfer_error writing_def)
  next
    case (Transferred k cancelled)
    define i where "i = min (Suc k) (min (buf_size b - m) default_max_transfer_size)"
    note st = write_loop_transfers [OF Cons.prems(1) i_def]
    note run = Cons.prems(3) [unfolded Transferred st(3)]
    show ?thesis
    proof (cases "m + i = buf_size b \<or> cancelled")
      case True
      with run st(1,2) show ?thesis by (auto simp: after_transfer_all split: if_splits)
    next
      case less: False
      then have i: "0 < i" using st(1,2) by (cases "buf_size b = 0") auto
      with less run st(1) have "write_loop transfer_all (pending b (m + i)) mem (out0 @ take (m + i) (buffer_bytes mem b)) evs
          = Some (ec, n, out')" by (simp add: after_transfer_all)
      moreover have "m + i < buf_size b" using less st(1) by simp
      ultimately show ?thesis using Cons.IH [OF writing_step [OF Cons.prems(1)]] Cons.prems(2) by simp
    qed
  qed
qed

lemma write_loop_completes:
  assumes "writing b mem out0 m out" and "list_all (\<lambda>e. \<exists>k. e = Transferred k False) evs" and "buf_size b - m < length evs"
  shows "\<exists>out'. write_loop transfer_all (pending b m) mem out evs = Some (No_error, buf_size b, out')"
  using assms
proof (induction evs arbitrary: m out)
  case Nil
  then show ?case by simp
next
  case (Cons e evs)
  obtain k where e: "e = Transferred k False" using Cons.prems(2) by auto
  define i where "i = min (Suc k) (min (buf_size b - m) default_max_transfer_size)"
  note st = write_loop_transfers [OF Cons.prems(1) i_def]
  note run = st(3) [of False evs, folded e]
  show ?case
  proof (cases "m + i = buf_size b")
    case True
    with run st(1,2) show ?thesis by (auto simp: after_transfer_all)
  next
    case less: False
    then have i: "0 < i" using st(1,2) by (cases "buf_size b = 0") auto
    have "m + i < buf_size b" using less st(1) by simp
    from Cons.IH [OF writing_step [OF Cons.prems(1) this]] Cons.prems(2,3) i run this show ?thesis
      by (auto simp: after_transfer_all)
  qed
qed

section \<open>Sequences of buffers\<close>

definition flat :: "byte list \<Rightarrow> buffer_t list \<Rightarrow> byte list" where
  "flat mem bs = concat (map (buffer_bytes mem) bs)"

definition in_memory :: "byte list \<Rightarrow> buffer_t list \<Rightarrow> bool" where
  "in_memory mem bs \<longleftrightarrow> (\<forall>b \<in> set bs. buf_data b + buf_size b \<le> length mem)"

lemma flat_simps [simp]: "flat mem [] = []" "flat mem (b # bs) = buffer_bytes mem b @ flat mem bs"
  by (simp_all add: flat_def)

lemma in_memory_Cons [simp]: "in_memory mem (b # bs) \<longleftrightarrow> buf_data b + buf_size b \<le> length mem \<and> in_memory mem bs"
  by (simp add: in_memory_def)

lemma length_flat: "in_memory mem bs \<Longrightarrow> length (flat mem bs) = sum_list (map buf_size bs)"
  by (induction bs) (simp_all add: length_buffer_bytes)

lemma limit_advance_bytes:
  "off \<le> buf_size b \<Longrightarrow> buffer_bytes mem (buffer_limit (buffer_advance b off) n) = take n (drop off (buffer_bytes mem b))
    \<and> buf_size (buffer_limit (buffer_advance b off) n) = min (buf_size b - off) n"
  by (auto simp: buffer_bytes_def buffer_limit_def buffer_advance_def Let_def drop_take min_def add.commute)

lemma prepare_loop_bytes:
  "length bs \<le> room \<Longrightarrow> in_memory mem bs \<Longrightarrow> (bs \<noteq> [] \<Longrightarrow> off \<le> buf_size (hd bs)) \<Longrightarrow>
     flat mem (prepare_loop room n off bs) = take n (drop off (flat mem bs))"
proof (induction room n off bs rule: prepare_loop.induct)
  case (1 room n off)
  then show ?case by simp
next
  case (2 room n off b bs)
  let ?b = "buffer_limit (buffer_advance b off) n"
  have off: "off \<le> buf_size b" using "2.prems"(3) by simp
  note lim = limit_advance_bytes [OF off, of mem n]
  have len: "length (buffer_bytes mem b) = buf_size b" using "2.prems"(2) by (simp add: length_buffer_bytes)
  have goal: "take n (drop off (flat mem (b # bs))) = buffer_bytes mem ?b @ take (n - buf_size ?b) (flat mem bs)"
    using off len lim by (auto simp: min_def)
  show ?case
  proof (cases "0 < n")
    case True
    have room: "0 < room" "length bs \<le> room - 1" "length bs \<le> room" "in_memory mem bs" using "2.prems" by auto
    show ?thesis
    proof (cases "0 < buf_size ?b")
      case nonempty: True
      have "flat mem (prepare_loop (room - 1) (n - buf_size ?b) 0 bs) = take (n - buf_size ?b) (flat mem bs)"
        using "2.IH"(1) [of ?b] True room nonempty by simp
      with goal True room nonempty show ?thesis by (simp add: Let_def)
    next
      case False
      have "flat mem (prepare_loop room (n - buf_size ?b) 0 bs) = take (n - buf_size ?b) (flat mem bs)"
        using "2.IH"(2) [of ?b] True room False by simp
      moreover have "buffer_bytes mem ?b = []" using False by (simp add: buffer_bytes_def)
      ultimately show ?thesis using goal True room False by (simp add: Let_def)
    qed
  qed (use goal in \<open>simp add: buffer_limit_def buffer_bytes_def\<close>)
qed

lemma consume_loop_position:
  "consume_loop sz n off bs = (n', off') \<Longrightarrow> (bs \<noteq> [] \<Longrightarrow> off \<le> buf_size (hd bs)) \<Longrightarrow> (bs = [] \<Longrightarrow> off = 0) \<Longrightarrow>
   off + sz \<le> sum_list (map buf_size bs) \<Longrightarrow>
   \<exists>j \<le> length bs. n' = n + j \<and> off + sz = sum_list (map buf_size (take j bs)) + off'
     \<and> (j < length bs \<longrightarrow> off' \<le> buf_size (bs ! j)) \<and> (j = length bs \<longrightarrow> off' = 0)"
proof (induction sz n off bs rule: consume_loop.induct)
  case (1 sz n off)
  then show ?case by simp
next
  case (2 sz n off b bs)
  have off: "off \<le> buf_size b" using "2.prems"(2) by simp
  then have adv: "buf_size (buffer_advance b off) = buf_size b - off" by (simp add: buffer_advance_def Let_def)
  show ?case
  proof (cases "0 < sz \<and> buf_size b - off \<le> sz")
    case True
    then have "consume_loop (sz - (buf_size b - off)) (n + 1) 0 bs = (n', off')"
      using "2.prems"(1) adv by (simp add: Let_def)
    moreover have "0 + (sz - (buf_size b - off)) \<le> sum_list (map buf_size bs)" using "2.prems"(4) True off by simp
    ultimately obtain j where "j \<le> length bs" "n' = n + 1 + j"
      "0 + (sz - (buf_size b - off)) = sum_list (map buf_size (take j bs)) + off'"
      "j < length bs \<longrightarrow> off' \<le> buf_size (bs ! j)" "j = length bs \<longrightarrow> off' = 0"
      using "2.IH" [of "buffer_advance b off"] True adv by (metis le0 not_less)
    with True off show ?thesis by (intro exI [of _ "Suc j"]) auto
  next
    case False
    with "2.prems"(1) adv have "n' = n" "off' = off + sz" by (auto simp: Let_def split: if_splits)
    with False off show ?thesis by (intro exI [of _ 0]) auto
  qed
qed

text \<open>The position a sequence has reached after \<open>m\<close> bytes.\<close>

definition cbs_at :: "buffer_t list \<Rightarrow> nat \<Rightarrow> consuming_buffers \<Rightarrow> bool" where
  "cbs_at bs m cb \<longleftrightarrow> cbs_buffers cb = bs \<and> cbs_total_size cb = sum_list (map buf_size bs) \<and> cbs_total_consumed cb = m
     \<and> cbs_next_elem cb \<le> length bs \<and> m = sum_list (map buf_size (take (cbs_next_elem cb) bs)) + cbs_next_elem_offset cb
     \<and> (cbs_next_elem cb < length bs \<longrightarrow> cbs_next_elem_offset cb \<le> buf_size (bs ! cbs_next_elem cb))
     \<and> (cbs_next_elem cb = length bs \<longrightarrow> cbs_next_elem_offset cb = 0)"

lemma cbs_at_init: "cbs_at bs 0 (cbs_init bs)"
  by (simp add: cbs_at_def cbs_init_def)

lemma sum_take_drop_sizes:
  "k \<le> length bs \<Longrightarrow> sum_list (map buf_size (take k bs)) + sum_list (map buf_size (drop k bs)) = sum_list (map buf_size bs)"
  by (metis append_take_drop_id map_append sum_list_append)

lemma cbs_at_consume:
  assumes "cbs_at bs m cb" and "m + sz \<le> sum_list (map buf_size bs)"
  shows "cbs_at bs (m + sz) (cbs_consume sz cb)"
proof -
  let ?k = "cbs_next_elem cb" and ?off = "cbs_next_elem_offset cb"
  have cb: "cbs_buffers cb = bs" "cbs_total_size cb = sum_list (map buf_size bs)" "cbs_total_consumed cb = m" "?k \<le> length bs"
    "m = sum_list (map buf_size (take ?k bs)) + ?off" "?k < length bs \<longrightarrow> ?off \<le> buf_size (bs ! ?k)" "?k = length bs \<longrightarrow> ?off = 0"
    using assms(1) by (simp_all add: cbs_at_def)
  obtain n' off' where c: "consume_loop sz ?k ?off (drop ?k bs) = (n', off')" by fastforce
  have "?off + sz \<le> sum_list (map buf_size (drop ?k bs))" using assms(2) cb(5) sum_take_drop_sizes [OF cb(4)] by linarith
  moreover have "drop ?k bs \<noteq> [] \<Longrightarrow> ?off \<le> buf_size (hd (drop ?k bs))" "drop ?k bs = [] \<Longrightarrow> ?off = 0"
    using cb(4,6,7) by (auto simp: hd_drop_conv_nth)
  ultimately obtain j where j: "j \<le> length (drop ?k bs)" "n' = ?k + j"
    "?off + sz = sum_list (map buf_size (take j (drop ?k bs))) + off'"
    "j < length (drop ?k bs) \<longrightarrow> off' \<le> buf_size (drop ?k bs ! j)" "j = length (drop ?k bs) \<longrightarrow> off' = 0"
    using consume_loop_position [OF c] by blast
  have "sum_list (map buf_size (take (?k + j) bs)) = sum_list (map buf_size (take ?k bs)) + sum_list (map buf_size (take j (drop ?k bs)))"
    by (simp add: take_add)
  with c j cb show ?thesis by (auto simp: cbs_consume_def cbs_at_def)
qed

lemma drop_flat:
  assumes "in_memory mem bs" and "k \<le> length bs"
  shows "drop (sum_list (map buf_size (take k bs)) + off) (flat mem bs) = drop off (flat mem (drop k bs))"
proof -
  have "flat mem bs = flat mem (take k bs) @ flat mem (drop k bs)"
    by (metis append_take_drop_id concat_append flat_def map_append)
  moreover have "length (flat mem (take k bs)) = sum_list (map buf_size (take k bs))"
    using assms(1) by (intro length_flat) (auto simp: in_memory_def dest: in_set_takeD)
  ultimately show ?thesis by simp
qed

lemma cbs_at_prepare:
  assumes "cbs_at bs m cb" and "in_memory mem bs" and "length bs \<le> room"
  shows "flat mem (cbs_prepare room cb n) = take n (drop m (flat mem bs))"
proof -
  let ?k = "cbs_next_elem cb" and ?off = "cbs_next_elem_offset cb"
  have cb: "cbs_buffers cb = bs" "?k \<le> length bs" "m = sum_list (map buf_size (take ?k bs)) + ?off"
    "?k < length bs \<longrightarrow> ?off \<le> buf_size (bs ! ?k)"
    using assms(1) by (simp_all add: cbs_at_def)
  have "in_memory mem (drop ?k bs)" using assms(2) by (auto simp: in_memory_def dest: in_set_dropD)
  moreover have "drop ?k bs \<noteq> [] \<Longrightarrow> ?off \<le> buf_size (hd (drop ?k bs))" using cb(2,4) by (auto simp: hd_drop_conv_nth)
  ultimately have "flat mem (prepare_loop room n ?off (drop ?k bs)) = take n (drop ?off (flat mem (drop ?k bs)))"
    using assms(3) by (intro prepare_loop_bytes) auto
  with cb drop_flat [OF assms(2) cb(2), of ?off] show ?thesis by (simp add: cbs_prepare_def)
qed

lemma cbs_at_consumes:
  "cbs_at bs m cb \<Longrightarrow> m + sum_list ns \<le> sum_list (map buf_size bs) \<Longrightarrow> cbs_at bs (m + sum_list ns) (fold cbs_consume ns cb)"
proof (induction ns arbitrary: m cb)
  case Nil
  then show ?case by simp
next
  case (Cons n ns)
  then have "cbs_at bs (m + n) (cbs_consume n cb)" by (intro cbs_at_consume) simp_all
  from Cons.IH [OF this] Cons.prems(2) show ?case by (simp add: add.assoc)
qed

lemma async_read_start:
  "async_read transfer_all b mem rx evs = read_loop transfer_all (pending b 0) mem rx evs"
  by (simp add: async_read_def read_op_call_def csb_init_def transfer_all_def)

lemma async_write_start:
  "async_write transfer_all b mem out evs = write_loop transfer_all (pending b 0) mem out evs"
  by (simp add: async_write_def write_op_call_def csb_init_def transfer_all_def)

section \<open>Properties\<close>

text \<open>
  C40. \<open>async_read\<close> delivers its buffer whole: however the stream is split, when its handler is
  called without an error the buffer holds exactly the next bytes of the stream, as many as it
  has room for, and with an error fewer; nothing outside the buffer is written and no byte is
  lost or read twice. With enough bytes on the stream and a transfer for each of them it ends
  without an error.
\<close>

theorem async_read_exact:
  assumes "buf_data b + buf_size b \<le> length mem" and "0 < buf_size b"
    and "\<forall>e. Failed e \<in> set evs \<longrightarrow> e \<noteq> No_error"
  shows "(\<forall>ec n mem' rx'. async_read transfer_all b mem rx evs = Some (ec, n, mem', rx') \<longrightarrow>
       n \<le> buf_size b \<and> n \<le> length rx \<and> mem' = overwrite (buf_data b) (take n rx) mem \<and> rx' = drop n rx
     \<and> (ec = No_error \<longleftrightarrow> n = buf_size b))
   \<and> (buf_size b \<le> length rx \<and> list_all (\<lambda>e. \<exists>k. e = Transferred k False) evs \<and> buf_size b < length evs \<longrightarrow>
       (\<exists>mem' rx'. async_read transfer_all b mem rx evs = Some (No_error, buf_size b, mem', rx')))"
proof -
  have r: "reading b mem rx 0 mem rx" using assms(1,2) by (simp add: reading_def)
  show ?thesis
    using read_loop_spec [OF r assms(3)] read_loop_completes [OF r] assms(2) by (simp add: async_read_start)
qed

theorem async_read_exact_witness:
  "\<exists>mem' rx'. async_read transfer_all \<lparr>buf_data = 1, buf_size = 2\<rparr> [0, 0, 0] [7, 8, 9]
     [Transferred 0 False, Transferred 4 False, Transferred 0 False] = Some (No_error, 2, mem', rx')"
  using async_read_exact [of "\<lparr>buf_data = 1, buf_size = 2\<rparr>" "[0, 0, 0]"
    "[Transferred 0 False, Transferred 4 False, Transferred 0 False]" "[7, 8, 9]"] by simp

text \<open>
  \<open>async_write\<close> sends its buffer whole: what it has put on the stream when the handler is called is
  the part of the buffer the reported number says, in order, and without an error it is all
  of it; when every transfer succeeds it ends without an error.
\<close>

theorem async_write_all:
  assumes "buf_data b + buf_size b \<le> length mem" and "0 < buf_size b"
    and "\<forall>e. Failed e \<in> set evs \<longrightarrow> e \<noteq> No_error"
  shows "(\<forall>ec n out'. async_write transfer_all b mem out evs = Some (ec, n, out') \<longrightarrow>
       n \<le> buf_size b \<and> out' = out @ take n (buffer_bytes mem b) \<and> (ec = No_error \<longleftrightarrow> n = buf_size b))
   \<and> (list_all (\<lambda>e. \<exists>k. e = Transferred k False) evs \<and> buf_size b < length evs \<longrightarrow>
       (\<exists>out'. async_write transfer_all b mem out evs = Some (No_error, buf_size b, out')))"
proof -
  have w: "writing b mem out 0 out" using assms(1,2) by (simp add: writing_def)
  have ne: "buf_size b \<noteq> 0" using assms(2) by simp
  have "n \<le> buf_size b \<and> out' = out @ take n (buffer_bytes mem b) \<and> (ec = No_error \<longleftrightarrow> n = buf_size b)"
    if "async_write transfer_all b mem out evs = Some (ec, n, out')" for ec n out'
    using write_loop_spec [OF w assms(3), of ec n out'] that ne unfolding async_write_start by blast
  moreover have "\<exists>out'. async_write transfer_all b mem out evs = Some (No_error, buf_size b, out')"
    if "list_all (\<lambda>e. \<exists>k. e = Transferred k False) evs" "buf_size b < length evs"
    using write_loop_completes [OF w] that unfolding async_write_start by simp
  ultimately show ?thesis by blast
qed

theorem async_write_all_witness:
  "\<exists>out'. async_write transfer_all \<lparr>buf_data = 1, buf_size = 2\<rparr> [5, 6, 7] [1]
     [Transferred 0 False, Transferred 4 False, Transferred 0 False] = Some (No_error, 2, out')"
  using async_write_all [of "\<lparr>buf_data = 1, buf_size = 2\<rparr>" "[5, 6, 7]"
    "[Transferred 0 False, Transferred 4 False, Transferred 0 False]" "[1]"] by simp

text \<open>
  Consuming a sequence of buffers is consuming their bytes one after the other: after any
  transfers within the total size, the buffers prepared for the next one cover exactly the following
  bytes, up to the limit asked for, empty buffers and partly used ones included, and the sequence is empty when all
  bytes are used.
\<close>

theorem consuming_buffers_flat:
  assumes "in_memory mem bs" and "length bs \<le> max_buffers" and "sum_list ns \<le> sum_list (map buf_size bs)"
  shows "let cb = fold cbs_consume ns (cbs_init bs)
    in flat mem (cbs_prepare max_buffers cb max_size) = take max_size (drop (sum_list ns) (flat mem bs))
     \<and> cbs_total_consumed cb = sum_list ns \<and> (cbs_empty cb \<longleftrightarrow> sum_list ns = length (flat mem bs))"
proof -
  define cb where "cb = fold cbs_consume ns (cbs_init bs)"
  have at: "cbs_at bs (sum_list ns) cb"
    using cbs_at_consumes [OF cbs_at_init] assms(3) by (simp add: cb_def)
  have total: "cbs_total_consumed cb = sum_list ns" "cbs_total_size cb = sum_list (map buf_size bs)"
    using at unfolding cbs_at_def by blast+
  moreover have "cbs_empty cb \<longleftrightarrow> sum_list ns = length (flat mem bs)"
    unfolding cbs_empty_def total length_flat [OF assms(1)] using assms(3) by linarith
  moreover note cbs_at_prepare [OF at assms(1,2), of max_size]
  ultimately show ?thesis unfolding Let_def cb_def [symmetric] by blast
qed

theorem consuming_buffers_flat_witness:
  "let bs = [\<lparr>buf_data = 0, buf_size = 2\<rparr>, \<lparr>buf_data = 2, buf_size = 0\<rparr>, \<lparr>buf_data = 3, buf_size = 2\<rparr>];
       cb = fold cbs_consume [1, 1] (cbs_init bs); mem = [10, 11, 12, 13, 14]
   in flat mem (cbs_prepare 16 cb 1) = [13] \<and> cbs_total_consumed cb = 2 \<and> \<not> cbs_empty cb"
  using consuming_buffers_flat [of "[10, 11, 12, 13, 14]"
    "[\<lparr>buf_data = 0, buf_size = 2\<rparr>, \<lparr>buf_data = 2, buf_size = 0\<rparr>, \<lparr>buf_data = 3, buf_size = 2\<rparr>]" 16 "[1, 1]" 1]
  by (simp add: Let_def in_memory_def buffer_bytes_def)

end
