(* ===== verification/Asio_Timer.thy ===== *)
theory Asio_Timer
  imports Asio_Transfer "HOL-Library.Multiset"
begin

text \<open>
  The queue of timers of asio, which decides when the handlers of the handshake and heartbeat timers of the host
  run: \<open>vendors/asio-1.36.0/include/asio/detail/timer_queue.hpp\<close>.

  The timers that wait are kept in a binary heap of times, an array in which each timer knows its
  position, and in a doubly linked list. A timer is named by a number, its address; a time is an
  integer. The operations that wait for a timer are a list, the contents of its \<open>op_queue\<close>.
\<close>

section \<open>State\<close>

type_synonym timer = nat

record wait_op =
  wo_id :: nat
  wo_key :: nat
  wo_ec :: asio_error

record per_timer_data =
  op_queue :: "wait_op list"
  heap_index :: nat
  next_timer :: "timer option"
  prev_timer :: "timer option"

record heap_entry =
  he_time :: int
  he_timer :: timer

record timer_queue =
  tq_timers :: "timer option"
  tq_heap :: "heap_entry list"
  tq_data :: "timer \<Rightarrow> per_timer_data"

definition npos :: nat where
  "npos = 2 ^ 64 - 1"

definition timer_data_new :: per_timer_data where
  "timer_data_new = \<lparr>op_queue = [], heap_index = npos, next_timer = None, prev_timer = None\<rparr>"

definition timer_queue_new :: timer_queue where
  "timer_queue_new = \<lparr>tq_timers = None, tq_heap = [], tq_data = (\<lambda>_. timer_data_new)\<rparr>"

definition update_timer :: "timer \<Rightarrow> (per_timer_data \<Rightarrow> per_timer_data) \<Rightarrow> timer_queue \<Rightarrow> timer_queue" where
  "update_timer t f q = q\<lparr>tq_data := (tq_data q)(t := f (tq_data q t))\<rparr>"

section \<open>The heap\<close>

abbreviation parent :: "nat \<Rightarrow> nat" where
  "parent i \<equiv> (i - 1) div 2"

abbreviation time_at :: "timer_queue \<Rightarrow> nat \<Rightarrow> int" where
  "time_at q i \<equiv> he_time (tq_heap q ! i)"

definition swap_heap :: "nat \<Rightarrow> nat \<Rightarrow> timer_queue \<Rightarrow> timer_queue" where
  "swap_heap index1 index2 q =
     (let tmp = tq_heap q ! index1;
          heap = (tq_heap q)[index1 := tq_heap q ! index2];
          heap = heap[index2 := tmp];
          q = q\<lparr>tq_heap := heap\<rparr>;
          q = update_timer (he_timer (heap ! index1)) (\<lambda>d. d\<lparr>heap_index := index1\<rparr>) q
      in update_timer (he_timer (heap ! index2)) (\<lambda>d. d\<lparr>heap_index := index2\<rparr>) q)"

lemma length_swap_heap [simp]: "length (tq_heap (swap_heap i j q)) = length (tq_heap q)"
  by (simp add: swap_heap_def Let_def update_timer_def)

function up_heap :: "nat \<Rightarrow> timer_queue \<Rightarrow> timer_queue" where
  "up_heap index q =
     (if index > 0 then
        if \<not> time_at q index < time_at q (parent index) then q
        else up_heap (parent index) (swap_heap index (parent index) q)
      else q)"
  by pat_completeness auto
termination
  by (relation "measure fst") auto

definition min_child :: "nat \<Rightarrow> timer_queue \<Rightarrow> nat" where
  "min_child child q =
     (if child + 1 = length (tq_heap q) \<or> time_at q child < time_at q (child + 1) then child else child + 1)"

function down_heap :: "nat \<Rightarrow> timer_queue \<Rightarrow> timer_queue" where
  "down_heap index q =
     (let child = index * 2 + 1
      in if child < length (tq_heap q) then
           if time_at q index < time_at q (min_child child q) then q
           else down_heap (min_child child q) (swap_heap index (min_child child q) q)
         else q)"
  by pat_completeness auto
termination
  by (relation "measure (\<lambda>(i, q). length (tq_heap q) - i)") (auto simp: min_child_def)

declare up_heap.simps [simp del] down_heap.simps [simp del]

section \<open>Operations\<close>

text \<open>The removal of a timer from the linked list.\<close>

definition unlink :: "timer \<Rightarrow> timer_queue \<Rightarrow> timer_queue" where
  "unlink t q =
     (let d = tq_data q t;
          q = (if tq_timers q = Some t then q\<lparr>tq_timers := next_timer d\<rparr> else q);
          q = (case prev_timer d of None \<Rightarrow> q | Some p \<Rightarrow> update_timer p (\<lambda>e. e\<lparr>next_timer := next_timer d\<rparr>) q);
          q = (case next_timer d of None \<Rightarrow> q | Some n \<Rightarrow> update_timer n (\<lambda>e. e\<lparr>prev_timer := prev_timer d\<rparr>) q)
      in update_timer t (\<lambda>e. e\<lparr>next_timer := None, prev_timer := None\<rparr>) q)"

definition pop_heap_entry :: "timer \<Rightarrow> timer_queue \<Rightarrow> timer_queue" where
  "pop_heap_entry t q = (update_timer t (\<lambda>d. d\<lparr>heap_index := npos\<rparr>) q)\<lparr>tq_heap := butlast (tq_heap q)\<rparr>"

definition heap_remove :: "timer \<Rightarrow> timer_queue \<Rightarrow> timer_queue" where
  "heap_remove t q =
     (let index = heap_index (tq_data q t)
      in if tq_heap q \<noteq> [] \<and> index < length (tq_heap q) then
           if index = length (tq_heap q) - 1 then pop_heap_entry t q
           else let q = pop_heap_entry t (swap_heap index (length (tq_heap q) - 1) q)
                in if index > 0 \<and> time_at q index < time_at q (parent index)
                   then up_heap index q else down_heap index q
         else q)"

definition remove_timer :: "timer \<Rightarrow> timer_queue \<Rightarrow> timer_queue" where
  "remove_timer t q = unlink t (heap_remove t q)"

text \<open>Is the timer in the list?\<close>

definition is_enqueued :: "timer \<Rightarrow> timer_queue \<Rightarrow> bool" where
  "is_enqueued t q \<longleftrightarrow> prev_timer (tq_data q t) \<noteq> None \<or> tq_timers q = Some t"

text \<open>A new timer; a time point of the standard library is never infinite.\<close>

definition link_front :: "timer \<Rightarrow> timer_queue \<Rightarrow> timer_queue" where
  "link_front t q =
     (let q1 = update_timer t (\<lambda>d. d\<lparr>next_timer := tq_timers q, prev_timer := None\<rparr>) q;
          q2 = (case tq_timers q1 of None \<Rightarrow> q1 | Some h \<Rightarrow> update_timer h (\<lambda>d. d\<lparr>prev_timer := Some t\<rparr>) q1)
      in q2\<lparr>tq_timers := Some t\<rparr>)"

definition heap_insert :: "int \<Rightarrow> timer \<Rightarrow> timer_queue \<Rightarrow> timer_queue" where
  "heap_insert time t q =
     (let q = update_timer t (\<lambda>d. d\<lparr>heap_index := length (tq_heap q)\<rparr>) q;
          q = q\<lparr>tq_heap := tq_heap q @ [\<lparr>he_time = time, he_timer = t\<rparr>]\<rparr>
      in up_heap (length (tq_heap q) - 1) q)"

definition enqueue_timer :: "int \<Rightarrow> timer \<Rightarrow> wait_op \<Rightarrow> timer_queue \<Rightarrow> bool \<times> timer_queue" where
  "enqueue_timer time t op q =
     (let q = (if \<not> is_enqueued t q then link_front t (heap_insert time t q) else q);
          q = update_timer t (\<lambda>d. d\<lparr>op_queue := op_queue d @ [op]\<rparr>) q
      in (heap_index (tq_data q t) = 0 \<and> wo_id (hd (op_queue (tq_data q t))) = wo_id op, q))"

definition tq_empty :: "timer_queue \<Rightarrow> bool" where
  "tq_empty q \<longleftrightarrow> tq_timers q = None"

text \<open>
  The time until the earliest timer, in milliseconds; the difference of times \<open>sub\<close> and the conversion of
  a duration \<open>to_ms\<close> are those of the parameter \<open>TimeTraits\<close> of the class.
\<close>

definition to_msec :: "(int \<Rightarrow> int) \<Rightarrow> int \<Rightarrow> int \<Rightarrow> int" where
  "to_msec to_ms d max_duration =
     (if d \<le> 0 then 0
      else let msec = to_ms d in if msec = 0 then 1 else if msec > max_duration then max_duration else msec)"

definition wait_duration_msec :: "(int \<Rightarrow> int \<Rightarrow> int) \<Rightarrow> (int \<Rightarrow> int) \<Rightarrow> int \<Rightarrow> int \<Rightarrow> timer_queue \<Rightarrow> int" where
  "wait_duration_msec sub to_ms now max_duration q =
     (if tq_heap q = [] then max_duration else to_msec to_ms (sub (time_at q 0) now) max_duration)"

text \<open>The same in microseconds; the conversion alone differs.\<close>

definition to_usec :: "(int \<Rightarrow> int) \<Rightarrow> int \<Rightarrow> int \<Rightarrow> int" where
  "to_usec to_us d max_duration =
     (if d \<le> 0 then 0
      else let usec = to_us d in if usec = 0 then 1 else if usec > max_duration then max_duration else usec)"

definition wait_duration_usec :: "(int \<Rightarrow> int \<Rightarrow> int) \<Rightarrow> (int \<Rightarrow> int) \<Rightarrow> int \<Rightarrow> int \<Rightarrow> timer_queue \<Rightarrow> int" where
  "wait_duration_usec sub to_us now max_duration q =
     (if tq_heap q = [] then max_duration else to_usec to_us (sub (time_at q 0) now) max_duration)"

text \<open>
  The loop of \<open>get_ready_timers\<close>: the timers due, with their operations in the order in which they are
  completed.
\<close>

partial_function (option) get_ready_loop :: "int \<Rightarrow> timer_queue \<Rightarrow> wait_op list \<Rightarrow> (timer_queue \<times> wait_op list) option" where
  "get_ready_loop now q ops =
     (if tq_heap q \<noteq> [] \<and> \<not> now < time_at q 0 then
        let t = he_timer (tq_heap q ! 0);
            due = map (\<lambda>op. op\<lparr>wo_ec := No_error\<rparr>) (op_queue (tq_data q t));
            q = update_timer t (\<lambda>d. d\<lparr>op_queue := []\<rparr>) q
        in get_ready_loop now (remove_timer t q) (ops @ due)
      else Some (q, ops))"

definition get_ready_timers :: "int \<Rightarrow> timer_queue \<Rightarrow> wait_op list \<Rightarrow> (timer_queue \<times> wait_op list) option" where
  "get_ready_timers now q ops = get_ready_loop now q ops"

definition cancel_timer :: "timer \<Rightarrow> nat \<Rightarrow> timer_queue \<Rightarrow> wait_op list \<Rightarrow> nat \<times> timer_queue \<times> wait_op list" where
  "cancel_timer t max_cancelled q ops =
     (if is_enqueued t q then
        let queue = op_queue (tq_data q t);
            cancelled = map (\<lambda>op. op\<lparr>wo_ec := Operation_aborted\<rparr>) (take max_cancelled queue);
            q = update_timer t (\<lambda>d. d\<lparr>op_queue := drop max_cancelled queue\<rparr>) q;
            q = (if op_queue (tq_data q t) = [] then remove_timer t q else q)
        in (length cancelled, q, ops @ cancelled)
      else (0, q, ops))"

definition cancel_timer_by_key :: "timer \<Rightarrow> nat \<Rightarrow> timer_queue \<Rightarrow> wait_op list \<Rightarrow> timer_queue \<times> wait_op list" where
  "cancel_timer_by_key t key q ops =
     (if is_enqueued t q then
        let queue = op_queue (tq_data q t);
            cancelled = map (\<lambda>op. op\<lparr>wo_ec := Operation_aborted\<rparr>) (filter (\<lambda>op. wo_key op = key) queue);
            other_ops = filter (\<lambda>op. wo_key op \<noteq> key) queue;
            q = update_timer t (\<lambda>d. d\<lparr>op_queue := other_ops\<rparr>) q;
            q = (if op_queue (tq_data q t) = [] then remove_timer t q else q)
        in (q, ops @ cancelled)
      else (q, ops))"

text \<open>All operations, as when the scheduler is shut down; the timers are taken from the linked list.\<close>

partial_function (option) get_all_loop :: "timer_queue \<Rightarrow> wait_op list \<Rightarrow> (timer_queue \<times> wait_op list) option" where
  "get_all_loop q ops =
     (case tq_timers q of
        None \<Rightarrow> Some (q, ops)
      | Some t \<Rightarrow>
          let d = tq_data q t;
              q = update_timer t (\<lambda>d. d\<lparr>op_queue := [], next_timer := None, prev_timer := None\<rparr>) q
          in get_all_loop (q\<lparr>tq_timers := next_timer d\<rparr>) (ops @ op_queue d))"

definition get_all_timers :: "timer_queue \<Rightarrow> wait_op list \<Rightarrow> (timer_queue \<times> wait_op list) option" where
  "get_all_timers q ops = map_option (\<lambda>(q, ops). (q\<lparr>tq_heap := []\<rparr>, ops)) (get_all_loop q ops)"

text \<open>A timer object is moved: the operations of \<open>source\<close> and its place in the queue go to \<open>target\<close>.\<close>

definition move_place :: "timer \<Rightarrow> timer \<Rightarrow> timer_queue \<Rightarrow> timer_queue" where
  "move_place target source q =
     (let d = tq_data q source;
          q = update_timer target (\<lambda>e. e\<lparr>op_queue := op_queue e @ op_queue d, heap_index := heap_index d\<rparr>) q;
          q = update_timer source (\<lambda>e. e\<lparr>op_queue := [], heap_index := npos\<rparr>) q
      in if heap_index d < length (tq_heap q)
         then q\<lparr>tq_heap := (tq_heap q)[heap_index d := (tq_heap q ! heap_index d)\<lparr>he_timer := target\<rparr>]\<rparr> else q)"

definition move_links :: "timer \<Rightarrow> timer \<Rightarrow> timer_queue \<Rightarrow> timer_queue" where
  "move_links target source q =
     (let d = tq_data q source;
          q = (if tq_timers q = Some source then q\<lparr>tq_timers := Some target\<rparr> else q);
          q = (case prev_timer d of None \<Rightarrow> q | Some p \<Rightarrow> update_timer p (\<lambda>e. e\<lparr>next_timer := Some target\<rparr>) q);
          q = (case next_timer d of None \<Rightarrow> q | Some n \<Rightarrow> update_timer n (\<lambda>e. e\<lparr>prev_timer := Some target\<rparr>) q);
          q = update_timer target (\<lambda>e. e\<lparr>next_timer := next_timer d, prev_timer := prev_timer d\<rparr>) q
      in update_timer source (\<lambda>e. e\<lparr>next_timer := None, prev_timer := None\<rparr>) q)"

definition move_timer :: "timer \<Rightarrow> timer \<Rightarrow> timer_queue \<Rightarrow> timer_queue" where
  "move_timer target source q = move_links target source (move_place target source q)"

section \<open>The order of the heap\<close>

definition heap_ordered :: "int list \<Rightarrow> bool" where
  "heap_ordered ts \<longleftrightarrow> (\<forall>k < length ts. 0 < k \<longrightarrow> ts ! parent k \<le> ts ! k)"

definition heap_times :: "timer_queue \<Rightarrow> int list" where
  "heap_times q = map he_time (tq_heap q)"

lemma length_times [simp]: "length (heap_times q) = length (tq_heap q)"
  by (simp add: heap_times_def)

lemma nth_times: "i < length (tq_heap q) \<Longrightarrow> heap_times q ! i = time_at q i"
  by (simp add: heap_times_def)

definition swap_list :: "'a list \<Rightarrow> nat \<Rightarrow> nat \<Rightarrow> 'a list" where
  "swap_list xs i j = xs[i := xs ! j, j := xs ! i]"

lemma nth_swap_list:
  "i < length xs \<Longrightarrow> j < length xs \<Longrightarrow> k < length xs \<Longrightarrow>
     swap_list xs i j ! k = (if k = j then xs ! i else if k = i then xs ! j else xs ! k)"
  by (simp add: swap_list_def nth_list_update)

lemma length_swap_list [simp]: "length (swap_list xs i j) = length xs"
  by (simp add: swap_list_def)

lemma mset_swap_list: "i < length xs \<Longrightarrow> j < length xs \<Longrightarrow> mset (swap_list xs i j) = mset xs"
  by (simp add: swap_list_def mset_swap)

lemma heap_swap_heap: "tq_heap (swap_heap i j q) = swap_list (tq_heap q) i j"
  by (simp add: swap_heap_def Let_def update_timer_def swap_list_def)

lemma times_swap_heap: "i < length (tq_heap q) \<Longrightarrow> j < length (tq_heap q) \<Longrightarrow> heap_times (swap_heap i j q) = swap_list (heap_times q) i j"
  by (simp add: heap_times_def heap_swap_heap swap_list_def map_update)

text \<open>Ordered but for the entry at \<open>i\<close> and its parent, respectively its children.\<close>

definition ordered_below :: "int list \<Rightarrow> nat \<Rightarrow> bool" where
  "ordered_below ts i \<longleftrightarrow> (\<forall>k < length ts. 0 < k \<longrightarrow> k \<noteq> i \<longrightarrow> ts ! parent k \<le> ts ! k)
     \<and> (\<forall>k < length ts. 0 < k \<longrightarrow> parent k = i \<longrightarrow> 0 < i \<longrightarrow> ts ! parent i \<le> ts ! k)"

definition ordered_above :: "int list \<Rightarrow> nat \<Rightarrow> bool" where
  "ordered_above ts i \<longleftrightarrow> (\<forall>k < length ts. 0 < k \<longrightarrow> parent k \<noteq> i \<longrightarrow> ts ! parent k \<le> ts ! k)
     \<and> (\<forall>k < length ts. 0 < k \<longrightarrow> parent k = i \<longrightarrow> 0 < i \<longrightarrow> ts ! parent i \<le> ts ! k)"

lemma parent_less: "0 < k \<Longrightarrow> parent k < k"
  by simp

lemma ordered_below_step:
  assumes "ordered_below ts i" and "0 < i" and "i < length ts" and "ts ! i < ts ! parent i"
  shows "ordered_below (swap_list ts i (parent i)) (parent i)"
proof -
  let ?p = "parent i"
  have p: "?p < i" "?p < length ts" using assms(2,3) by auto
  have a: "ts ! parent k \<le> ts ! k" if "k < length ts" "0 < k" "k \<noteq> i" for k
    using assms(1) that by (simp add: ordered_below_def)
  have c: "ts ! ?p \<le> ts ! k" if "k < length ts" "0 < k" "parent k = i" for k
    using assms(1,2) that by (simp add: ordered_below_def)
  note n = nth_swap_list [OF assms(3) p(2)]
  have "swap_list ts i ?p ! parent k \<le> swap_list ts i ?p ! k" if k: "k < length ts" "0 < k" "k \<noteq> ?p" for k
  proof (cases "k = i")
    case True
    then show ?thesis using assms(3,4) p n [of i] n [of ?p] by simp
  next
    case False
    have pk: "parent k < length ts" using k by simp
    show ?thesis using a [OF k(1,2) False] c [OF k(1,2)] assms(4) k False n [OF k(1)] n [OF pk] by auto
  qed
  moreover have "swap_list ts i ?p ! parent ?p \<le> swap_list ts i ?p ! k"
    if k: "k < length ts" "0 < k" "parent k = ?p" "0 < ?p" for k
  proof -
    have "parent ?p < ?p" by (rule parent_less [OF k(4)])
    then have pp: "parent ?p < ?p" "parent ?p < length ts" using p(2) by linarith+
    have "ts ! parent ?p \<le> ts ! ?p" using a [of ?p] p k(4) by auto
    moreover have "ts ! ?p \<le> ts ! k" if "k \<noteq> i" using a [OF k(1,2) that] k(3) by simp
    moreover have "k \<noteq> ?p" using k(2,3) parent_less [OF k(2)] by linarith
    moreover have "parent ?p \<noteq> ?p" "parent ?p \<noteq> i" using pp p(1) by linarith+
    then have "swap_list ts i ?p ! parent ?p = ts ! parent ?p" by (subst n [OF pp(2)]) (simp only: if_False)
    moreover have "swap_list ts i ?p ! k = (if k = i then ts ! ?p else ts ! k)"
      using \<open>k \<noteq> ?p\<close> by (subst n [OF k(1)]) (simp only: if_False)
    ultimately show ?thesis by presburger
  qed
  ultimately show ?thesis by (simp add: ordered_below_def)
qed

lemma ordered_below_done:
  "ordered_below ts i \<Longrightarrow> i = 0 \<or> \<not> ts ! i < ts ! parent i \<Longrightarrow> heap_ordered ts"
  by (auto simp: ordered_below_def heap_ordered_def not_less)

lemma ordered_above_step:
  assumes "ordered_above ts i" and "c < length ts" and "0 < c" and "parent c = i" and "\<not> ts ! i < ts ! c"
    and "\<And>k. k < length ts \<Longrightarrow> 0 < k \<Longrightarrow> parent k = i \<Longrightarrow> ts ! c \<le> ts ! k"
  shows "ordered_above (swap_list ts i c) c"
proof -
  have i: "i < c" "i < length ts" using assms(2-4) by auto
  have a: "ts ! parent k \<le> ts ! k" if "k < length ts" "0 < k" "parent k \<noteq> i" for k
    using assms(1) that by (simp add: ordered_above_def)
  note n = nth_swap_list [OF i(2) assms(2)]
  have "swap_list ts i c ! parent k \<le> swap_list ts i c ! k" if k: "k < length ts" "0 < k" "parent k \<noteq> c" for k
  proof (cases "parent k = i")
    case True
    have "k \<noteq> i" using True parent_less [OF k(2)] by auto
    then show ?thesis using True n [OF k(1)] n [OF i(2)] i assms(5) assms(6) [OF k(1,2) True] by auto
  next
    case False
    have pk: "parent k < length ts" using k by simp
    have "k \<noteq> c" using False assms(4) by auto
    moreover have "ts ! parent i \<le> ts ! c" if "k = i" using assms(1-4) k(2) that by (simp add: ordered_above_def)
    ultimately show ?thesis using False k a [OF k(1,2) False] n [OF k(1)] n [OF pk] by auto
  qed
  moreover have "swap_list ts i c ! parent c \<le> swap_list ts i c ! k"
    if k: "k < length ts" "0 < k" "parent k = c" for k
  proof -
    have "k \<noteq> c" "k \<noteq> i" using k parent_less [OF k(2)] i by auto
    moreover have "ts ! c \<le> ts ! k" using a [OF k(1,2)] k(3) i by simp
    ultimately show ?thesis using n [OF k(1)] n [OF i(2)] i assms(4) by simp
  qed
  ultimately show ?thesis by (simp add: ordered_above_def)
qed

lemma ordered_above_done:
  "ordered_above ts i \<Longrightarrow> (\<And>k. k < length ts \<Longrightarrow> 0 < k \<Longrightarrow> parent k = i \<Longrightarrow> ts ! i \<le> ts ! k) \<Longrightarrow> heap_ordered ts"
  by (auto simp: ordered_above_def heap_ordered_def)

lemma children: "0 < k \<Longrightarrow> parent k = i \<longleftrightarrow> k = i * 2 + 1 \<or> k = i * 2 + 2"
  by (cases k) auto

lemma heap_ordered_min:
  assumes "heap_ordered ts" and "k < length ts"
  shows "ts ! 0 \<le> ts ! k"
  using assms(2)
proof (induction k rule: less_induct)
  case (less k)
  show ?case
  proof (cases "k = 0")
    case False
    then have "ts ! 0 \<le> ts ! parent k" using less by (intro less.IH) auto
    also have "\<dots> \<le> ts ! k" using assms(1) less.prems False by (simp add: heap_ordered_def)
    finally show ?thesis .
  qed simp
qed

section \<open>Sifting\<close>

text \<open>What sifting keeps: the entries, the linked list, the operations, and the positions the timers know.\<close>

definition positions_ok :: "timer_queue \<Rightarrow> bool" where
  "positions_ok q \<longleftrightarrow> (\<forall>k < length (tq_heap q). heap_index (tq_data q (he_timer (tq_heap q ! k))) = k)"

definition sifted :: "timer_queue \<Rightarrow> timer_queue \<Rightarrow> bool" where
  "sifted q q' \<longleftrightarrow> mset (tq_heap q') = mset (tq_heap q) \<and> tq_timers q' = tq_timers q
     \<and> (\<forall>t. op_queue (tq_data q' t) = op_queue (tq_data q t) \<and> next_timer (tq_data q' t) = next_timer (tq_data q t)
          \<and> prev_timer (tq_data q' t) = prev_timer (tq_data q t))
     \<and> (positions_ok q \<longrightarrow> positions_ok q')"

lemma sifted_refl: "sifted q q"
  by (simp add: sifted_def)

lemma sifted_trans: "sifted q q' \<Longrightarrow> sifted q' q'' \<Longrightarrow> sifted q q''"
  by (simp add: sifted_def)

lemma sifted_length: "sifted q q' \<Longrightarrow> length (tq_heap q') = length (tq_heap q)"
  by (metis sifted_def size_mset)

lemma positions_inject:
  assumes "positions_ok q" and "i < length (tq_heap q)" and "j < length (tq_heap q)"
    and "he_timer (tq_heap q ! i) = he_timer (tq_heap q ! j)"
  shows "i = j"
  using assms unfolding positions_ok_def by metis

lemma swap_heap_data:
  "tq_data (swap_heap i j q) =
     (let h = swap_list (tq_heap q) i j; d = (tq_data q)(he_timer (h ! i) := (tq_data q (he_timer (h ! i)))\<lparr>heap_index := i\<rparr>)
      in d(he_timer (h ! j) := (d (he_timer (h ! j)))\<lparr>heap_index := j\<rparr>))"
  by (simp add: swap_heap_def Let_def update_timer_def swap_list_def)

lemma swap_heap_sifted:
  assumes "i < length (tq_heap q)" and "j < length (tq_heap q)"
  shows "sifted q (swap_heap i j q)"
proof -
  let ?h = "swap_list (tq_heap q) i j"
  have n: "?h ! k = (if k = j then tq_heap q ! i else if k = i then tq_heap q ! j else tq_heap q ! k)"
    if "k < length (tq_heap q)" for k by (rule nth_swap_list [OF assms that])
  have "positions_ok (swap_heap i j q)" if ok: "positions_ok q"
    unfolding positions_ok_def
  proof (intro allI impI)
    fix k assume "k < length (tq_heap (swap_heap i j q))"
    then have k: "k < length (tq_heap q)" by simp
    have inj: "he_timer (tq_heap q ! a) = he_timer (tq_heap q ! b) \<longleftrightarrow> a = b"
      if "a < length (tq_heap q)" "b < length (tq_heap q)" for a b
      using positions_inject [OF ok that] by blast
    have "heap_index (tq_data q (he_timer (tq_heap q ! k))) = k" using ok k by (simp add: positions_ok_def)
    then show "heap_index (tq_data (swap_heap i j q) (he_timer (tq_heap (swap_heap i j q) ! k))) = k"
      using assms k inj n [OF k] n [OF assms(1)] n [OF assms(2)]
      by (auto simp: swap_heap_data heap_swap_heap Let_def)
  qed
  moreover have "tq_timers (swap_heap i j q) = tq_timers q" by (simp add: swap_heap_def Let_def update_timer_def)
  ultimately show ?thesis
    using assms by (auto simp: sifted_def heap_swap_heap mset_swap_list swap_heap_data Let_def)
qed

lemma up_heap_ok:
  "i < length (tq_heap q) \<Longrightarrow> ordered_below (heap_times q) i \<Longrightarrow> sifted q (up_heap i q) \<and> heap_ordered (heap_times (up_heap i q))"
proof (induction i q rule: up_heap.induct)
  case (1 i q)
  have nt: "heap_times q ! i = time_at q i" "heap_times q ! parent i = time_at q (parent i)"
    using "1.prems"(1) by (simp_all add: nth_times)
  show ?case
  proof (cases "0 < i \<and> time_at q i < time_at q (parent i)")
    case True
    have p: "parent i < length (tq_heap q)" using "1.prems"(1) by simp
    let ?q = "swap_heap i (parent i) q"
    have "ordered_below (heap_times ?q) (parent i)"
      using ordered_below_step [OF "1.prems"(2)] True "1.prems"(1) nt p by (simp add: times_swap_heap)
    then have "sifted ?q (up_heap (parent i) ?q) \<and> heap_ordered (heap_times (up_heap (parent i) ?q))"
      using True p by (intro "1.IH") simp_all
    moreover have "sifted q ?q" by (rule swap_heap_sifted [OF "1.prems"(1) p])
    ultimately show ?thesis using True sifted_trans by (subst (1 2) up_heap.simps) auto
  next
    case False
    then have "up_heap i q = q" by (subst up_heap.simps) auto
    moreover have "heap_ordered (heap_times q)" using ordered_below_done [OF "1.prems"(2)] False nt by auto
    ultimately show ?thesis by (simp add: sifted_refl)
  qed
qed

lemma min_child_facts:
  assumes "i * 2 + 1 < length (tq_heap q)"
  shows "min_child (i * 2 + 1) q < length (tq_heap q)" and "0 < min_child (i * 2 + 1) q" and "parent (min_child (i * 2 + 1) q) = i"
  using assms by (auto simp: min_child_def)

lemma min_child_min:
  assumes "i * 2 + 1 < length (tq_heap q)" and "k < length (tq_heap q)" and "0 < k" and "parent k = i"
  shows "time_at q (min_child (i * 2 + 1) q) \<le> time_at q k"
proof -
  have "k = i * 2 + 1 \<or> k = i * 2 + 1 + 1" using children [OF assms(3), of i] assms(4) by simp
  then show ?thesis using assms(1,2) unfolding min_child_def by (elim disjE) simp_all
qed

lemma down_heap_ok:
  "ordered_above (heap_times q) i \<Longrightarrow> sifted q (down_heap i q) \<and> heap_ordered (heap_times (down_heap i q))"
proof (induction i q rule: down_heap.induct)
  case (1 i q)
  show ?case
  proof (cases "i * 2 + 1 < length (tq_heap q)")
    case True
    let ?c = "min_child (i * 2 + 1) q"
    note c = min_child_facts [OF True]
    have i: "i < length (tq_heap q)" using True by simp
    have min: "heap_times q ! ?c \<le> heap_times q ! k" if "k < length (heap_times q)" "0 < k" "parent k = i" for k
      using c(1) min_child_min [OF True] that by (simp add: nth_times)
    show ?thesis
    proof (cases "time_at q i < time_at q ?c")
      case less: True
      then have "down_heap i q = q" using True by (subst down_heap.simps) (simp add: Let_def)
      moreover have "heap_ordered (heap_times q)"
        using ordered_above_done [OF "1.prems"] min less i c(1) by (fastforce simp: nth_times)
      ultimately show ?thesis by (simp add: sifted_refl)
    next
      case False
      let ?q = "swap_heap i ?c q"
      have "ordered_above (heap_times ?q) ?c"
        using ordered_above_step [OF "1.prems", of ?c] c min False i by (simp add: times_swap_heap nth_times)
      then have "sifted ?q (down_heap ?c ?q) \<and> heap_ordered (heap_times (down_heap ?c ?q))"
        using "1.IH" [of "i * 2 + 1"] True False by simp
      moreover have "sifted q ?q" by (rule swap_heap_sifted [OF i c(1)])
      moreover have "down_heap i q = down_heap ?c ?q" using True False by (subst down_heap.simps) (simp add: Let_def)
      ultimately show ?thesis using sifted_trans by auto
    qed
  next
    case False
    then have "down_heap i q = q" by (subst down_heap.simps) (simp add: Let_def)
    moreover have "heap_ordered (heap_times q)"
      using ordered_above_done [OF "1.prems"] False by (auto simp: children)
    ultimately show ?thesis by (simp add: sifted_refl)
  qed
qed

section \<open>Insertion into and removal from the heap\<close>

text \<open>An entry of an ordered heap is replaced, and perhaps the last one dropped.\<close>

lemma replaced_ordered:
  assumes "heap_ordered ts" and "length us \<le> length ts" and "\<And>k. k < length us \<Longrightarrow> k \<noteq> i \<Longrightarrow> us ! k = ts ! k"
    and "i < length us"
  shows "0 < i \<Longrightarrow> us ! i < us ! parent i \<Longrightarrow> ordered_below us i"
    and "i = 0 \<or> \<not> us ! i < us ! parent i \<Longrightarrow> ordered_above us i"
proof -
  have o: "ts ! parent k \<le> ts ! k" if "k < length us" "0 < k" for k
    using assms(1,2) that by (simp add: heap_ordered_def)
  have e: "us ! parent k = ts ! parent k" if "k < length us" "0 < k" "parent k \<noteq> i" for k
    using assms(3) [of "parent k"] that by simp
  have grand: "us ! parent i \<le> us ! k" if "k < length us" "0 < k" "parent k = i" "0 < i" for k
  proof -
    have "parent i \<noteq> i" "k \<noteq> i" using parent_less [OF that(4)] parent_less [OF that(2)] that(3) by auto
    then have "us ! parent i = ts ! parent i" "us ! k = ts ! k"
      using e [OF assms(4) that(4)] assms(3) [OF that(1)] by auto
    moreover have "ts ! parent i \<le> ts ! i" "ts ! i \<le> ts ! k" using o [OF assms(4) that(4)] o [OF that(1,2)] that(3) by auto
    ultimately show ?thesis by linarith
  qed
  have other: "us ! parent k \<le> us ! k" if "k < length us" "0 < k" "k \<noteq> i" "parent k \<noteq> i" for k
    using o [OF that(1,2)] e [OF that(1,2,4)] assms(3) [OF that(1,3)] by simp
  show "ordered_below us i" if "0 < i" "us ! i < us ! parent i"
  proof -
    have "us ! parent k \<le> us ! k" if k: "k < length us" "0 < k" "k \<noteq> i" for k
    proof (cases "parent k = i")
      case True
      then show ?thesis using grand [OF k(1,2) True \<open>0 < i\<close>] \<open>us ! i < us ! parent i\<close> by simp
    qed (rule other [OF k])
    then show ?thesis using grand by (simp add: ordered_below_def)
  qed
  show "ordered_above us i" if "i = 0 \<or> \<not> us ! i < us ! parent i"
  proof -
    have "us ! parent k \<le> us ! k" if k: "k < length us" "0 < k" "parent k \<noteq> i" for k
    proof (cases "k = i")
      case True
      then show ?thesis using \<open>i = 0 \<or> \<not> us ! i < us ! parent i\<close> k(2) by simp
    qed (rule other [OF k(1,2) _ k(3)])
    then show ?thesis using grand by (simp add: ordered_above_def)
  qed
qed

text \<open>The part of the state that the operations on the heap leave alone.\<close>

definition same_links :: "timer_queue \<Rightarrow> timer_queue \<Rightarrow> bool" where
  "same_links q q' \<longleftrightarrow> tq_timers q' = tq_timers q
     \<and> (\<forall>t. op_queue (tq_data q' t) = op_queue (tq_data q t) \<and> next_timer (tq_data q' t) = next_timer (tq_data q t)
          \<and> prev_timer (tq_data q' t) = prev_timer (tq_data q t))"

lemma sifted_same_links: "sifted q q' \<Longrightarrow> same_links q q'"
  by (simp add: sifted_def same_links_def)

lemma same_links_trans: "same_links q q' \<Longrightarrow> same_links q' q'' \<Longrightarrow> same_links q q''"
  by (simp add: same_links_def)

definition heap_ok :: "timer_queue \<Rightarrow> bool" where
  "heap_ok q \<longleftrightarrow> heap_ordered (heap_times q) \<and> positions_ok q"

lemma heap_ok_sifted: "positions_ok q \<Longrightarrow> sifted q q' \<and> heap_ordered (heap_times q') \<Longrightarrow> heap_ok q'"
  by (simp add: heap_ok_def sifted_def)

lemma heap_ordered_butlast: "heap_ordered ts \<Longrightarrow> heap_ordered (butlast ts)"
  by (auto simp: heap_ordered_def nth_butlast)

lemma positions_ok_pop:
  assumes "positions_ok q" and "tq_heap q \<noteq> []" and "he_timer (last (tq_heap q)) = t"
  shows "positions_ok (pop_heap_entry t q)"
  unfolding positions_ok_def
proof (intro allI impI)
  fix k assume "k < length (tq_heap (pop_heap_entry t q))"
  then have k: "k < length (tq_heap q) - 1" by (simp add: pop_heap_entry_def)
  then have "k < length (tq_heap q)" "length (tq_heap q) - 1 < length (tq_heap q)" by linarith+
  then have "he_timer (tq_heap q ! k) \<noteq> t"
    using positions_inject [OF assms(1), of k "length (tq_heap q) - 1"] assms(2,3) k by (auto simp: last_conv_nth)
  with k assms(1) show "heap_index (tq_data (pop_heap_entry t q) (he_timer (tq_heap (pop_heap_entry t q) ! k))) = k"
    by (simp add: pop_heap_entry_def update_timer_def positions_ok_def nth_butlast)
qed

lemma same_links_pop: "same_links q (pop_heap_entry t q)"
  by (simp add: same_links_def pop_heap_entry_def update_timer_def)

lemma mset_butlast: "xs \<noteq> [] \<Longrightarrow> mset (butlast xs) = mset xs - {#last xs#}"
  by (cases xs rule: rev_cases) auto

lemma heap_remove_ok:
  assumes "heap_ok q" and "i < length (tq_heap q)" and "he_timer (tq_heap q ! i) = t"
  shows "heap_ok (heap_remove t q) \<and> same_links q (heap_remove t q)
    \<and> mset (tq_heap (heap_remove t q)) = mset (tq_heap q) - {#tq_heap q ! i#}"
proof -
  have pos: "positions_ok q" and ord: "heap_ordered (heap_times q)" using assms(1) by (auto simp: heap_ok_def)
  have idx: "heap_index (tq_data q t) = i" using pos assms(2,3) by (auto simp: positions_ok_def)
  have ne: "tq_heap q \<noteq> []" using assms(2) by auto
  let ?n = "length (tq_heap q) - 1"
  show ?thesis
  proof (cases "i = ?n")
    case True
    then have rm: "heap_remove t q = pop_heap_entry t q" using idx assms(2) ne by (simp add: heap_remove_def Let_def)
    have l: "last (tq_heap q) = tq_heap q ! i" using True ne by (simp add: last_conv_nth)
    have "heap_times (pop_heap_entry t q) = butlast (heap_times q)" by (simp add: heap_times_def pop_heap_entry_def map_butlast)
    then have "heap_ok (pop_heap_entry t q)"
      using positions_ok_pop [OF pos ne] l assms(3) heap_ordered_butlast [OF ord] by (simp add: heap_ok_def)
    then show ?thesis using mset_butlast [OF ne] l same_links_pop [of q t] by (simp add: rm pop_heap_entry_def)
  next
    case False
    then have i: "i < ?n" and n: "?n < length (tq_heap q)" using assms(2) by linarith+
    define q1 where "q1 = swap_heap i ?n q"
    define q2 where "q2 = pop_heap_entry t q1"
    have rm: "heap_remove t q = (if i > 0 \<and> time_at q2 i < time_at q2 (parent i) then up_heap i q2 else down_heap i q2)"
      using False idx assms(2) ne by (simp add: heap_remove_def Let_def q1_def q2_def)
    have s1: "sifted q q1" unfolding q1_def by (rule swap_heap_sifted [OF assms(2) n])
    have h1: "tq_heap q1 = swap_list (tq_heap q) i ?n" by (simp add: q1_def heap_swap_heap)
    have ne1: "tq_heap q1 \<noteq> []" using sifted_length [OF s1] ne by auto
    have l1: "last (tq_heap q1) = tq_heap q ! i"
      using ne1 h1 nth_swap_list [OF assms(2) n n] by (simp add: last_conv_nth)
    have pos2: "positions_ok q2"
      unfolding q2_def using s1 pos ne1 l1 assms(3) by (intro positions_ok_pop) (auto simp: sifted_def)
    have m2: "mset (tq_heap q2) = mset (tq_heap q) - {#tq_heap q ! i#}"
      using mset_butlast [OF ne1] l1 s1 by (simp add: q2_def pop_heap_entry_def sifted_def)
    have links2: "same_links q q2"
      unfolding q2_def by (rule same_links_trans [OF sifted_same_links [OF s1] same_links_pop])
    have len2: "length (heap_times q2) = ?n" using h1 by (simp add: q2_def pop_heap_entry_def)
    have at: "heap_times q2 ! k = heap_times q ! k" if "k < length (heap_times q2)" "k \<noteq> i" for k
      using that len2 h1 nth_swap_list [OF assms(2) n, of k]
      by (simp add: q2_def pop_heap_entry_def heap_times_def nth_butlast)
    have fin: "heap_ok q' \<and> same_links q q' \<and> mset (tq_heap q') = mset (tq_heap q) - {#tq_heap q ! i#}"
      if "sifted q2 q' \<and> heap_ordered (heap_times q')" for q'
      using that heap_ok_sifted [OF pos2 that] m2 same_links_trans [OF links2 sifted_same_links] by (simp add: sifted_def)
    note repl = replaced_ordered [OF ord _ at, of i]
    show ?thesis
    proof (cases "i > 0 \<and> time_at q2 i < time_at q2 (parent i)")
      case True
      then have "ordered_below (heap_times q2) i" using repl(1) len2 i by (simp add: nth_times)
      then have "sifted q2 (up_heap i q2) \<and> heap_ordered (heap_times (up_heap i q2))" using len2 i by (intro up_heap_ok) auto
      moreover have "heap_remove t q = up_heap i q2" unfolding rm using True by (rule if_P)
      ultimately show ?thesis using fin by simp
    next
      case False
      then have "ordered_above (heap_times q2) i" using repl(2) len2 i by (auto simp: nth_times)
      moreover have "heap_remove t q = down_heap i q2" unfolding rm using False by (rule if_not_P)
      ultimately show ?thesis using fin down_heap_ok by simp
    qed
  qed
qed

lemma heap_insert_ok:
  assumes "heap_ok q" and "\<forall>e \<in> set (tq_heap q). he_timer e \<noteq> t"
  shows "heap_ok (heap_insert time t q) \<and> same_links q (heap_insert time t q)
    \<and> mset (tq_heap (heap_insert time t q)) = add_mset \<lparr>he_time = time, he_timer = t\<rparr> (mset (tq_heap q))"
proof -
  let ?n = "length (tq_heap q)"
  define q1 where "q1 = (update_timer t (\<lambda>d. d\<lparr>heap_index := ?n\<rparr>) q)\<lparr>tq_heap := tq_heap q @ [\<lparr>he_time = time, he_timer = t\<rparr>]\<rparr>"
  have ins: "heap_insert time t q = up_heap ?n q1" by (simp add: heap_insert_def Let_def q1_def update_timer_def)
  have pos: "positions_ok q1"
    using assms by (auto simp: q1_def positions_ok_def heap_ok_def update_timer_def nth_append less_Suc_eq)
  have t1: "heap_times q1 = heap_times q @ [time]" by (simp add: q1_def heap_times_def)
  have ord: "heap_ordered (heap_times q)" using assms(1) by (simp add: heap_ok_def)
  have "parent k < ?n" if "k < length (heap_times q1)" "0 < k" for k using that t1 by simp
  then have "ordered_below (heap_times q1) ?n"
    using ord by (fastforce simp: t1 ordered_below_def heap_ordered_def nth_append less_Suc_eq)
  then have up: "sifted q1 (up_heap ?n q1) \<and> heap_ordered (heap_times (up_heap ?n q1))"
    by (intro up_heap_ok) (simp_all add: q1_def)
  moreover have "same_links q q1" by (simp add: same_links_def q1_def update_timer_def)
  ultimately show ?thesis
    using heap_ok_sifted [OF pos up] same_links_trans sifted_same_links
    by (auto simp: ins sifted_def q1_def same_links_def)
qed

end
