(* ===== verification/Asio_Timer_Queue.thy ===== *)
theory Asio_Timer_Queue
  imports Asio_Timer
begin

text \<open>
  The contract of the queue of timers: the invariant of its heap and its linked list, what each operation does to
  the abstract state (which timer fires when, with which operations), and that the timers
  due are handed out in the order of their times.
\<close>

section \<open>The linked list\<close>

text \<open>
  The timers \<open>xs\<close> are linked from \<open>h\<close> on; \<open>p\<close> is the predecessor of the first, \<open>p'\<close> the last timer,
  \<open>h'\<close> its successor.
\<close>

fun dlseg :: "(timer \<Rightarrow> per_timer_data) \<Rightarrow> timer option \<Rightarrow> timer option \<Rightarrow> timer list \<Rightarrow> timer option \<Rightarrow> timer option \<Rightarrow> bool" where
  "dlseg d p h [] p' h' \<longleftrightarrow> p = p' \<and> h = h'"
| "dlseg d p h (x # xs) p' h' \<longleftrightarrow> h = Some x \<and> prev_timer (d x) = p \<and> dlseg d (Some x) (next_timer (d x)) xs p' h'"

lemma dlseg_append:
  "dlseg d p h (xs @ ys) p' h' \<longleftrightarrow> (\<exists>m n. dlseg d p h xs m n \<and> dlseg d m n ys p' h')"
  by (induction xs arbitrary: p h) auto

lemma dlseg_frame:
  "\<forall>x \<in> set xs. next_timer (d' x) = next_timer (d x) \<and> prev_timer (d' x) = prev_timer (d x) \<Longrightarrow>
     dlseg d p h xs p' h' \<Longrightarrow> dlseg d' p h xs p' h'"
  by (induction xs arbitrary: p h) auto

lemma dlseg_cong:
  "(\<And>x. next_timer (d' x) = next_timer (d x)) \<Longrightarrow> (\<And>x. prev_timer (d' x) = prev_timer (d x)) \<Longrightarrow>
     dlseg d' p h xs p' h' = dlseg d p h xs p' h'"
  by (induction xs arbitrary: p h) auto

lemma dlseg_set_next:
  assumes "dlseg d p h (xs @ [l]) m n" and "l \<notin> set xs" and "prev_timer (d' l) = prev_timer (d l)"
    and "\<forall>x \<in> set xs. next_timer (d' x) = next_timer (d x) \<and> prev_timer (d' x) = prev_timer (d x)"
  shows "dlseg d' p h (xs @ [l]) m (next_timer (d' l))"
proof -
  have "dlseg d p h xs (prev_timer (d l)) (Some l)" and m: "m = Some l" using assms(1) by (auto simp: dlseg_append)
  then have "dlseg d' p h xs (prev_timer (d' l)) (Some l)" using dlseg_frame [OF assms(4)] assms(3) by simp
  with m show ?thesis by (simp add: dlseg_append)
qed

lemma dlseg_set_prev:
  assumes "dlseg d p h (x # xs) m n" and "x \<notin> set xs" and "next_timer (d' x) = next_timer (d x)"
    and "\<forall>y \<in> set xs. next_timer (d' y) = next_timer (d y) \<and> prev_timer (d' y) = prev_timer (d y)"
  shows "dlseg d' (prev_timer (d' x)) h (x # xs) m n"
  using assms dlseg_frame [OF assms(4)] by simp

definition list_ok :: "timer_queue \<Rightarrow> timer list \<Rightarrow> bool" where
  "list_ok q xs \<longleftrightarrow> distinct xs \<and> (\<exists>l. dlseg (tq_data q) None (tq_timers q) xs l None)
     \<and> (\<forall>t. t \<notin> set xs \<longrightarrow> prev_timer (tq_data q t) = None)"

lemma is_enqueued_iff:
  assumes "list_ok q xs"
  shows "is_enqueued t q \<longleftrightarrow> t \<in> set xs"
proof
  assume "is_enqueued t q"
  then show "t \<in> set xs" using assms by (cases xs) (auto simp: is_enqueued_def list_ok_def)
next
  assume "t \<in> set xs"
  then obtain ys zs where xs: "xs = ys @ t # zs" by (meson split_list)
  show "is_enqueued t q"
    using assms xs by (cases ys rule: rev_cases) (auto simp: is_enqueued_def list_ok_def dlseg_append)
qed

lemma list_ok_same_links: "same_links q q' \<Longrightarrow> list_ok q xs \<Longrightarrow> list_ok q' xs"
  using dlseg_frame [of xs "tq_data q'" "tq_data q"] by (fastforce simp: same_links_def list_ok_def)

lemma list_ok_link_front:
  assumes "list_ok q xs" and "t \<notin> set xs"
  shows "list_ok (link_front t q) (t # xs)"
proof (cases xs)
  case Nil
  then show ?thesis using assms by (auto simp: list_ok_def link_front_def update_timer_def Let_def)
next
  case (Cons x ys)
  then obtain l where l: "dlseg (tq_data q) None (tq_timers q) (x # ys) l None" and "x \<notin> set ys" and h: "tq_timers q = Some x"
    using assms(1) by (auto simp: list_ok_def)
  let ?q = "link_front t q"
  have d: "tq_data ?q y = (if y = t then (tq_data q t)\<lparr>next_timer := Some x, prev_timer := None\<rparr>
      else if y = x then (tq_data q x)\<lparr>prev_timer := Some t\<rparr> else tq_data q y)" for y
    using assms(2) h Cons by (auto simp: link_front_def Let_def update_timer_def)
  have "dlseg (tq_data ?q) (prev_timer (tq_data ?q x)) (tq_timers q) (x # ys) l None"
    using assms(2) Cons \<open>x \<notin> set ys\<close> by (intro dlseg_set_prev [OF l]) (auto simp: d)
  moreover have "prev_timer (tq_data ?q x) = Some t" using assms(2) Cons by (simp add: d)
  moreover have "tq_timers ?q = Some t" by (simp add: link_front_def Let_def)
  ultimately show ?thesis using assms Cons h by (auto simp: list_ok_def d)
qed

lemma unlink_timers: "tq_timers (unlink t q) = (if tq_timers q = Some t then next_timer (tq_data q t) else tq_timers q)"
  by (auto simp: unlink_def Let_def update_timer_def split: option.splits)

lemma unlink_data:
  assumes "prev_timer (tq_data q t) \<noteq> Some t" and "next_timer (tq_data q t) \<noteq> Some t"
  shows "next_timer (tq_data (unlink t q) y) =
      (if y = t then None else if prev_timer (tq_data q t) = Some y then next_timer (tq_data q t) else next_timer (tq_data q y))"
    and "prev_timer (tq_data (unlink t q) y) =
      (if y = t then None else if next_timer (tq_data q t) = Some y then prev_timer (tq_data q t) else prev_timer (tq_data q y))"
  using assms by (auto simp: unlink_def Let_def update_timer_def split: option.splits)

lemma unlink_rest:
  "tq_heap (unlink t q) = tq_heap q" "op_queue (tq_data (unlink t q) y) = op_queue (tq_data q y)"
  "heap_index (tq_data (unlink t q) y) = heap_index (tq_data q y)"
  by (auto simp: unlink_def Let_def update_timer_def split: option.splits)

lemma list_ok_unlink:
  assumes "list_ok q (as @ t # bs)"
  shows "list_ok (unlink t q) (as @ bs)"
proof -
  let ?d = "tq_data q" and ?q = "unlink t q"
  obtain l where as: "dlseg ?d None (tq_timers q) as (prev_timer (?d t)) (Some t)"
    and bs: "dlseg ?d (Some t) (next_timer (?d t)) bs l None" and dist: "distinct (as @ t # bs)"
    and out: "\<And>y. y \<notin> set (as @ t # bs) \<Longrightarrow> prev_timer (?d y) = None"
    using assms by (auto simp: list_ok_def dlseg_append)
  have n: "next_timer (?d t) = (if bs = [] then None else Some (hd bs))" using bs by (cases bs) auto
  have p: "prev_timer (?d t) = (if as = [] then None else Some (last as))"
    using as by (cases as rule: rev_cases) (auto simp: dlseg_append)
  have self: "prev_timer (?d t) \<noteq> Some t" "next_timer (?d t) \<noteq> Some t"
    using n p dist by (cases as rule: rev_cases; cases bs; auto)+
  note d = unlink_data [OF self]
  have "dlseg (tq_data ?q) None (tq_timers ?q) as (prev_timer (?d t)) (next_timer (?d t))"
  proof (cases as rule: rev_cases)
    case Nil
    then show ?thesis using as by (simp add: unlink_timers)
  next
    case (snoc cs a)
    then have "tq_timers q \<noteq> Some t" using as dist by (cases cs) auto
    moreover have "dlseg (tq_data ?q) None (tq_timers q) (cs @ [a]) (prev_timer (?d t)) (next_timer (tq_data ?q a))"
      using as dist snoc n p by (intro dlseg_set_next [of ?d]) (auto simp: d dest: hd_in_set)
    moreover have "next_timer (tq_data ?q a) = next_timer (?d t)" using snoc p dist by (auto simp: d)
    ultimately show ?thesis using snoc by (simp add: unlink_timers)
  qed
  moreover have "\<exists>l. dlseg (tq_data ?q) (prev_timer (?d t)) (next_timer (?d t)) bs l None"
  proof (cases bs)
    case Nil
    then show ?thesis using bs by auto
  next
    case (Cons b cs)
    have "dlseg (tq_data ?q) (prev_timer (tq_data ?q b)) (next_timer (?d t)) (b # cs) l None"
      using bs dist Cons n p by (intro dlseg_set_prev [of ?d]) (auto simp: d dest: last_in_set)
    moreover have "prev_timer (tq_data ?q b) = prev_timer (?d t)" using Cons n dist by (auto simp: d)
    ultimately show ?thesis using Cons by auto
  qed
  moreover have "prev_timer (tq_data ?q y) = None" if "y \<notin> set (as @ bs)" for y
    using that out [of y] n by (cases bs) (auto simp: d)
  ultimately show ?thesis using dist by (auto simp: list_ok_def dlseg_append)
qed

section \<open>The invariant and the abstract state\<close>

text \<open>
  The heap and the list hold the same timers, and these are the timers with operations.
\<close>

definition links_ok :: "timer_queue \<Rightarrow> bool" where
  "links_ok q \<longleftrightarrow> (\<exists>xs. list_ok q xs \<and> set xs = he_timer ` set (tq_heap q))"

definition tq_ok :: "timer_queue \<Rightarrow> bool" where
  "tq_ok q \<longleftrightarrow> heap_ok q \<and> links_ok q \<and> (\<forall>t. op_queue (tq_data q t) \<noteq> [] \<longleftrightarrow> t \<in> he_timer ` set (tq_heap q))"

text \<open>When a timer fires, and the operations that then complete.\<close>

type_synonym agenda = "timer \<Rightarrow> (int \<times> wait_op list) option"

definition due :: "timer_queue \<Rightarrow> timer \<Rightarrow> int option" where
  "due q = map_of (map (\<lambda>e. (he_timer e, he_time e)) (tq_heap q))"

definition agenda :: "timer_queue \<Rightarrow> agenda" where
  "agenda q t = map_option (\<lambda>x. (x, op_queue (tq_data q t))) (due q t)"

definition agenda_enqueue :: "int \<Rightarrow> timer \<Rightarrow> wait_op \<Rightarrow> agenda \<Rightarrow> agenda" where
  "agenda_enqueue x t op A = A(t \<mapsto> (case A t of None \<Rightarrow> (x, [op]) | Some (y, ops) \<Rightarrow> (y, ops @ [op])))"

definition agenda_set :: "timer \<Rightarrow> wait_op list \<Rightarrow> agenda \<Rightarrow> agenda" where
  "agenda_set t ops A = A(t := (if ops = [] then None else map_option (\<lambda>(x, _). (x, ops)) (A t)))"

definition agenda_ops :: "agenda \<Rightarrow> timer \<Rightarrow> wait_op list" where
  "agenda_ops A t = (case A t of None \<Rightarrow> [] | Some (_, ops) \<Rightarrow> ops)"

definition agenda_after :: "int \<Rightarrow> agenda \<Rightarrow> agenda" where
  "agenda_after now A t = (case A t of None \<Rightarrow> None | Some (x, ops) \<Rightarrow> if x \<le> now then None else Some (x, ops))"

lemma distinct_timers: "positions_ok q \<Longrightarrow> distinct (map he_timer (tq_heap q))"
  using positions_inject by (fastforce simp: distinct_conv_nth)

lemma entry_eq: "e = \<lparr>he_time = x, he_timer = t\<rparr> \<longleftrightarrow> he_time e = x \<and> he_timer e = t"
  by auto

lemma due_Some:
  assumes "heap_ok q"
  shows "due q t = Some x \<longleftrightarrow> \<lparr>he_time = x, he_timer = t\<rparr> \<in> set (tq_heap q)"
proof -
  have "distinct (map fst (map (\<lambda>e. (he_timer e, he_time e)) (tq_heap q)))"
    using distinct_timers assms by (simp add: heap_ok_def comp_def)
  then have "due q t = Some x \<longleftrightarrow> (t, x) \<in> (\<lambda>e. (he_timer e, he_time e)) ` set (tq_heap q)"
    by (simp add: due_def map_of_eq_Some_iff)
  also have "\<dots> \<longleftrightarrow> (\<exists>e \<in> set (tq_heap q). e = \<lparr>he_time = x, he_timer = t\<rparr>)" unfolding entry_eq by auto
  finally show ?thesis by simp
qed

lemma due_None: "due q t = None \<longleftrightarrow> t \<notin> he_timer ` set (tq_heap q)"
  by (auto simp: due_def map_of_eq_None_iff image_image)

lemma due_add:
  assumes "heap_ok q" and "heap_ok q'" and "mset (tq_heap q') = add_mset \<lparr>he_time = x, he_timer = t\<rparr> (mset (tq_heap q))"
  shows "due q' = (due q)(t \<mapsto> x)" and "due q t = None"
proof -
  have set: "set (tq_heap q') = insert \<lparr>he_time = x, he_timer = t\<rparr> (set (tq_heap q))"
    using assms(3) by (metis set_mset_add_mset_insert set_mset_mset)
  have "mset (map he_timer (tq_heap q')) = add_mset t (mset (map he_timer (tq_heap q)))" using assms(3) by simp
  moreover have "distinct (map he_timer (tq_heap q'))" using assms(2) distinct_timers by (simp add: heap_ok_def)
  ultimately show none: "due q t = None"
    by (metis distinct.simps(2) due_None mset.simps(2) mset_eq_imp_distinct_iff set_map)
  show "due q' = (due q)(t \<mapsto> x)"
  proof
    fix s
    have "due q' s = Some y \<longleftrightarrow> ((due q)(t \<mapsto> x)) s = Some y" for y
      using due_Some [OF assms(1), of s y] due_Some [OF assms(2), of s y] set none by (cases "s = t") auto
    then show "due q' s = ((due q)(t \<mapsto> x)) s" by (metis not_Some_eq)
  qed
qed

lemma due_remove:
  assumes "heap_ok q" and "heap_ok q'" and "mset (tq_heap q') = mset (tq_heap q) - {#e#}" and "e \<in> set (tq_heap q)"
  shows "due q' = (due q)(he_timer e := None)"
proof -
  have "mset (tq_heap q) = add_mset \<lparr>he_time = he_time e, he_timer = he_timer e\<rparr> (mset (tq_heap q'))"
    using assms(3,4) by (simp add: entry_eq [THEN iffD2, symmetric])
  from due_add [OF assms(2,1) this] show ?thesis by (simp add: fun_upd_idem)
qed

lemma due_dom: "he_timer ` set (tq_heap q) = dom (due q)"
proof (rule set_eqI)
  show "t \<in> he_timer ` set (tq_heap q) \<longleftrightarrow> t \<in> dom (due q)" for t using due_None [of q t] by (auto simp: domIff)
qed

lemma tq_ok_due: "tq_ok q \<longleftrightarrow> heap_ok q \<and> links_ok q \<and> (\<forall>t. op_queue (tq_data q t) \<noteq> [] \<longleftrightarrow> due q t \<noteq> None)"
  by (simp add: tq_ok_def due_dom domIff)

lemma enqueued_due: "links_ok q \<Longrightarrow> is_enqueued t q \<longleftrightarrow> due q t \<noteq> None"
  by (auto simp: links_ok_def is_enqueued_iff due_dom domIff)

lemma heap_ok_cong:
  "tq_heap q' = tq_heap q \<Longrightarrow> (\<And>t. heap_index (tq_data q' t) = heap_index (tq_data q t)) \<Longrightarrow> heap_ok q' = heap_ok q"
  by (simp add: heap_ok_def heap_times_def positions_ok_def)

lemma due_cong: "tq_heap q' = tq_heap q \<Longrightarrow> due q' = due q"
  by (simp add: due_def)

text \<open>A change of the operations alone.\<close>

lemma set_ops:
  "heap_ok (update_timer t (\<lambda>d. d\<lparr>op_queue := f d\<rparr>) q) = heap_ok q"
  "links_ok (update_timer t (\<lambda>d. d\<lparr>op_queue := f d\<rparr>) q) = links_ok q"
  "due (update_timer t (\<lambda>d. d\<lparr>op_queue := f d\<rparr>) q) = due q"
  "op_queue (tq_data (update_timer t (\<lambda>d. d\<lparr>op_queue := f d\<rparr>) q) s) = (if s = t then f (tq_data q t) else op_queue (tq_data q s))"
  "heap_index (tq_data (update_timer t (\<lambda>d. d\<lparr>op_queue := f d\<rparr>) q) s) = heap_index (tq_data q s)"
  "tq_heap (update_timer t (\<lambda>d. d\<lparr>op_queue := f d\<rparr>) q) = tq_heap q"
proof -
  let ?q = "update_timer t (\<lambda>d. d\<lparr>op_queue := f d\<rparr>) q"
  show "heap_ok ?q = heap_ok q" by (rule heap_ok_cong) (auto simp: update_timer_def)
  have d: "next_timer (tq_data ?q s) = next_timer (tq_data q s)" "prev_timer (tq_data ?q s) = prev_timer (tq_data q s)" for s
    by (simp_all add: update_timer_def)
  then have "dlseg (tq_data ?q) p h xs p' h' = dlseg (tq_data q) p h xs p' h'" for p h xs p' h'
    by (rule dlseg_cong)
  moreover have "tq_timers ?q = tq_timers q" by (simp add: update_timer_def)
  ultimately have "list_ok ?q xs = list_ok q xs" for xs by (simp only: list_ok_def d)
  then show "links_ok ?q = links_ok q" by (simp add: links_ok_def update_timer_def)
qed (auto simp: update_timer_def due_def)

lemma remove_timer_ok:
  assumes "heap_ok q" and "links_ok q" and "due q t \<noteq> None"
  shows "heap_ok (remove_timer t q)" and "links_ok (remove_timer t q)" and "due (remove_timer t q) = (due q)(t := None)"
    and "op_queue (tq_data (remove_timer t q) s) = op_queue (tq_data q s)"
    and "length (tq_heap (remove_timer t q)) < length (tq_heap q)"
proof -
  let ?q = "heap_remove t q"
  obtain i where i: "i < length (tq_heap q)" "he_timer (tq_heap q ! i) = t"
    using assms(3) by (auto simp: due_None in_set_conv_nth)
  note rm = heap_remove_ok [OF assms(1) i]
  have "due ?q = (due q)(t := None)" using due_remove [OF assms(1), of ?q] rm i by auto
  then show due: "due (remove_timer t q) = (due q)(t := None)" by (simp add: remove_timer_def due_def unlink_rest)
  show "heap_ok (remove_timer t q)"
    using rm heap_ok_cong [of "unlink t ?q" ?q] by (simp add: remove_timer_def unlink_rest)
  obtain xs where xs: "list_ok q xs" "set xs = dom (due q)" using assms(2) by (auto simp: links_ok_def due_dom)
  then obtain as bs where ab: "xs = as @ t # bs" using assms(3) by (metis domIff split_list)
  have "list_ok ?q (as @ t # bs)" using list_ok_same_links rm xs(1) ab by blast
  then have "list_ok (remove_timer t q) (as @ bs)" unfolding remove_timer_def by (rule list_ok_unlink)
  moreover have "set (as @ bs) = dom (due (remove_timer t q))" using xs ab due by (auto simp: list_ok_def)
  ultimately show "links_ok (remove_timer t q)" unfolding links_ok_def due_dom by blast
  show "op_queue (tq_data (remove_timer t q) s) = op_queue (tq_data q s)"
    using rm by (simp add: remove_timer_def unlink_rest same_links_def)
  have "size (mset (tq_heap ?q)) < size (mset (tq_heap q))" using rm i by (metis mset_subset_size multi_drop_mem_not_eq diff_subset_eq_self nth_mem_mset subset_mset.less_le in_multiset_in_set nth_mem)
  then show "length (tq_heap (remove_timer t q)) < length (tq_heap q)" by (simp add: remove_timer_def unlink_rest)
qed

text \<open>Operations are taken from a timer, which leaves the queue when it has none left.\<close>

definition take_ops :: "timer \<Rightarrow> wait_op list \<Rightarrow> timer_queue \<Rightarrow> timer_queue" where
  "take_ops t rest q =
     (let q = update_timer t (\<lambda>d. d\<lparr>op_queue := rest\<rparr>) q in if rest = [] then remove_timer t q else q)"

lemma take_ops_ok:
  assumes "tq_ok q" and "due q t \<noteq> None"
  shows "tq_ok (take_ops t rest q)" and "agenda (take_ops t rest q) = agenda_set t rest (agenda q)"
proof -
  let ?q = "update_timer t (\<lambda>d. d\<lparr>op_queue := rest\<rparr>) q"
  have "heap_ok ?q" "links_ok ?q" "due ?q t \<noteq> None" using assms by (auto simp: tq_ok_due set_ops)
  note rm = remove_timer_ok [OF this]
  have "tq_ok (take_ops t rest q) \<and> agenda (take_ops t rest q) = agenda_set t rest (agenda q)"
  proof (cases "rest = []")
    case True
    then have eq: "take_ops t rest q = remove_timer t ?q" by (simp add: take_ops_def)
    have "tq_ok (remove_timer t ?q)" using rm assms(1) True by (simp add: tq_ok_due set_ops)
    moreover have "agenda (remove_timer t ?q) = agenda_set t rest (agenda q)"
      using rm True by (auto simp: agenda_def agenda_set_def fun_eq_iff set_ops)
    ultimately show ?thesis by (simp only: eq)
  next
    case False
    then have eq: "take_ops t rest q = ?q" by (simp add: take_ops_def)
    have "tq_ok ?q" using assms False by (simp add: tq_ok_due set_ops)
    moreover have "agenda ?q = agenda_set t rest (agenda q)"
      using False assms(2) by (auto simp: agenda_def agenda_set_def fun_eq_iff set_ops)
    ultimately show ?thesis by (simp only: eq)
  qed
  then show "tq_ok (take_ops t rest q)" and "agenda (take_ops t rest q) = agenda_set t rest (agenda q)" by simp_all
qed

lemma agenda_ops_agenda:
  assumes "tq_ok q"
  shows "agenda_ops (agenda q) t = op_queue (tq_data q t)"
proof -
  have "op_queue (tq_data q t) \<noteq> [] \<longleftrightarrow> due q t \<noteq> None" using assms by (simp only: tq_ok_due)
  then show ?thesis by (cases "due q t") (auto simp: agenda_def agenda_ops_def)
qed

lemma agenda_None: "agenda q t = None \<longleftrightarrow> due q t = None"
  by (simp add: agenda_def)

lemma agenda_set_idle: "A t = None \<Longrightarrow> agenda_set t [] A = A"
  by (auto simp: agenda_set_def)

section \<open>The operations refine the abstract ones\<close>

lemma link_front_rest:
  "tq_heap (link_front t q) = tq_heap q" "op_queue (tq_data (link_front t q) s) = op_queue (tq_data q s)"
  "heap_index (tq_data (link_front t q) s) = heap_index (tq_data q s)"
  by (auto simp: link_front_def Let_def update_timer_def split: option.splits)

text \<open>A timer that does not wait yet is put into the heap and the list.\<close>

lemma new_timer_ok:
  fixes x
  assumes "heap_ok q" and "links_ok q" and "due q t = None"
  defines "q' \<equiv> link_front t (heap_insert x t q)"
  shows "heap_ok q'" and "links_ok q'" and "due q' = (due q)(t \<mapsto> x)"
    and "op_queue (tq_data q' s) = op_queue (tq_data q s)"
proof -
  let ?q = "heap_insert x t q"
  have "\<forall>e \<in> set (tq_heap q). he_timer e \<noteq> t" using assms(3) by (auto simp: due_None)
  note ins = heap_insert_ok [OF assms(1) this, of x]
  show due: "due q' = (due q)(t \<mapsto> x)"
    using due_add [OF assms(1), of ?q x t] ins by (simp add: q'_def due_def link_front_rest)
  show "heap_ok q'" using ins heap_ok_cong [of q' ?q] by (simp add: q'_def link_front_rest)
  obtain xs where xs: "list_ok q xs" "set xs = dom (due q)" using assms(2) by (auto simp: links_ok_def due_dom)
  have "list_ok ?q xs" using list_ok_same_links ins xs(1) by blast
  moreover have "t \<notin> set xs" using xs(2) assms(3) by auto
  ultimately have "list_ok q' (t # xs)" unfolding q'_def by (rule list_ok_link_front)
  moreover have "set (t # xs) = dom (due q')" using xs(2) due by simp
  ultimately show "links_ok q'" unfolding links_ok_def due_dom by blast
  show "op_queue (tq_data q' s) = op_queue (tq_data q s)"
    using ins by (simp add: q'_def link_front_rest same_links_def)
qed

lemma enqueue_timer_ok:
  assumes "tq_ok q"
  shows "tq_ok (snd (enqueue_timer x t op q))"
    and "agenda (snd (enqueue_timer x t op q)) = agenda_enqueue x t op (agenda q)"
proof -
  have q: "heap_ok q" "links_ok q" "\<And>s. op_queue (tq_data q s) \<noteq> [] \<longleftrightarrow> due q s \<noteq> None"
    using assms by (simp_all add: tq_ok_due)
  define q1 where "q1 = (if due q t = None then link_front t (heap_insert x t q) else q)"
  have q': "snd (enqueue_timer x t op q) = update_timer t (\<lambda>d. d\<lparr>op_queue := op_queue d @ [op]\<rparr>) q1"
    using enqueued_due [OF q(2), of t] by (simp add: enqueue_timer_def Let_def q1_def)
  have q1: "heap_ok q1" "links_ok q1" "due q1 = (if due q t = None then (due q)(t \<mapsto> x) else due q)"
    "\<And>s. op_queue (tq_data q1 s) = op_queue (tq_data q s)"
    using new_timer_ok [OF q(1,2), of t x] q(1,2) by (simp_all add: q1_def)
  show "tq_ok (snd (enqueue_timer x t op q))" using q(3) q1 by (auto simp: q' tq_ok_due set_ops)
  have "op_queue (tq_data q t) = []" if "due q t = None" using q(3) that by blast
  then show "agenda (snd (enqueue_timer x t op q)) = agenda_enqueue x t op (agenda q)"
    using q1 by (auto simp: q' agenda_def agenda_enqueue_def set_ops fun_eq_iff)
qed

text \<open>The root of the heap is the earliest entry.\<close>

lemma root_earliest:
  assumes "heap_ok q" and "due q s = Some y"
  shows "tq_heap q \<noteq> [] \<and> time_at q 0 \<le> y"
proof -
  obtain k where k: "k < length (tq_heap q)" "tq_heap q ! k = \<lparr>he_time = y, he_timer = s\<rparr>"
    using assms due_Some by (auto simp: in_set_conv_nth)
  then have "heap_times q ! 0 \<le> heap_times q ! k" using assms(1) by (intro heap_ordered_min) (auto simp: heap_ok_def)
  moreover have "0 < length (tq_heap q)" using k(1) by linarith
  ultimately show ?thesis using k by (auto simp: nth_times)
qed

lemma root_due: "heap_ok q \<Longrightarrow> tq_heap q \<noteq> [] \<Longrightarrow> due q (he_timer (tq_heap q ! 0)) = Some (time_at q 0)"
  by (subst due_Some) (simp_all add: entry_eq [THEN iffD2, symmetric])

lemma index_zero:
  assumes "heap_ok q" and "due q t \<noteq> None"
  shows "heap_index (tq_data q t) = 0 \<longleftrightarrow> he_timer (tq_heap q ! 0) = t"
proof -
  obtain k where k: "k < length (tq_heap q)" "he_timer (tq_heap q ! k) = t"
    using assms(2) by (auto simp: due_None in_set_conv_nth)
  then have "heap_index (tq_data q t) = k" and "0 < length (tq_heap q)" using assms(1) by (auto simp: heap_ok_def positions_ok_def)
  then show ?thesis using assms(1) positions_inject [of q k 0] k by (auto simp: heap_ok_def)
qed

text \<open>Is the wait the earliest of all?\<close>

lemma enqueue_timer_earliest:
  assumes "tq_ok q" and "\<forall>o' \<in> set (op_queue (tq_data q t)). wo_id o' \<noteq> wo_id op"
  shows "fst (enqueue_timer x t op q) \<Longrightarrow> agenda q t = None \<and> (\<forall>s y ops. agenda q s = Some (y, ops) \<longrightarrow> x \<le> y)"
    and "agenda q t = None \<Longrightarrow> (\<forall>s y ops. agenda q s = Some (y, ops) \<longrightarrow> x < y) \<Longrightarrow> fst (enqueue_timer x t op q)"
proof -
  let ?q = "snd (enqueue_timer x t op q)"
  have tq: "tq_ok ?q" by (rule enqueue_timer_ok(1) [OF assms(1)])
  have ok: "heap_ok ?q" "\<And>s. op_queue (tq_data q s) \<noteq> [] \<longleftrightarrow> due q s \<noteq> None"
    using tq assms(1) by (auto simp: tq_ok_due)
  have A: "agenda ?q = agenda_enqueue x t op (agenda q)" by (rule enqueue_timer_ok(2) [OF assms(1)])
  then have "agenda ?q t \<noteq> None" by (simp add: agenda_enqueue_def)
  then have "due ?q t \<noteq> None" by (simp add: agenda_None)
  note zero = index_zero [OF ok(1) this]
  have "op_queue (tq_data ?q t) = op_queue (tq_data q t) @ [op]"
    using agenda_ops_agenda [OF assms(1), of t] agenda_ops_agenda [OF tq, of t] A
    by (auto simp: agenda_ops_def agenda_enqueue_def split: option.splits)
  then have first: "fst (enqueue_timer x t op q) \<longleftrightarrow> agenda q t = None \<and> he_timer (tq_heap ?q ! 0) = t"
    using zero ok(2) [of t] assms(2) by (cases "op_queue (tq_data q t)") (auto simp: enqueue_timer_def Let_def agenda_None)
  have early: "time_at ?q 0 \<le> y" if "agenda ?q s = Some (y, ops)" for s y ops
    using that root_earliest [OF ok(1), of s y] by (auto simp: agenda_def)
  have ne: "tq_heap ?q \<noteq> []" using \<open>due ?q t \<noteq> None\<close> root_earliest [OF ok(1), of t] by auto
  have at: "due ?q (he_timer (tq_heap ?q ! 0)) = Some (time_at ?q 0)" by (rule root_due [OF ok(1) ne])
  have new: "due ?q s = (if s = t then Some x else due q s)" if "agenda q t = None" for s
    using arg_cong [OF A, of "\<lambda>f. map_option fst (f s)"] that by (auto simp: agenda_enqueue_def agenda_def option.map_comp comp_def option.map_ident)
  show "agenda q t = None \<and> (\<forall>s y ops. agenda q s = Some (y, ops) \<longrightarrow> x \<le> y)" if "fst (enqueue_timer x t op q)"
  proof -
    have none: "agenda q t = None" and "time_at ?q 0 = x" using that first at new by auto
    moreover have "agenda ?q s = agenda q s" if "s \<noteq> t" for s using that A by (simp add: agenda_enqueue_def)
    ultimately show ?thesis using early by (metis option.distinct(1))
  qed
  show "fst (enqueue_timer x t op q)" if none: "agenda q t = None" and less: "\<forall>s y ops. agenda q s = Some (y, ops) \<longrightarrow> x < y"
  proof (rule ccontr)
    let ?r = "he_timer (tq_heap ?q ! 0)"
    assume "\<not> fst (enqueue_timer x t op q)"
    then have "?r \<noteq> t" using first none by simp
    then have "due q ?r = Some (time_at ?q 0)" using at new [OF none] by simp
    then have "x < time_at ?q 0" using less by (auto simp: agenda_def)
    moreover have "time_at ?q 0 \<le> x" using root_earliest [OF ok(1)] new [OF none, of t] by simp
    ultimately show False by simp
  qed
qed

lemma idle_timer:
  assumes "tq_ok q" and "due q t = None"
  shows "agenda_ops (agenda q) t = []" and "agenda q t = None" and "\<not> is_enqueued t q"
proof -
  show none: "agenda q t = None" using assms(2) by (simp add: agenda_None)
  then show "agenda_ops (agenda q) t = []" by (simp add: agenda_ops_def)
  show "\<not> is_enqueued t q" using assms enqueued_due by (simp add: tq_ok_due)
qed

lemma cancel_timer_ok:
  assumes "tq_ok q"
  shows "\<exists>q'. cancel_timer t n q ops =
      (min n (length (agenda_ops (agenda q) t)), q', ops @ map (\<lambda>op. op\<lparr>wo_ec := Operation_aborted\<rparr>) (take n (agenda_ops (agenda q) t)))
    \<and> tq_ok q' \<and> agenda q' = agenda_set t (drop n (agenda_ops (agenda q) t)) (agenda q)"
proof (cases "due q t = None")
  case True
  then show ?thesis using idle_timer [OF assms True] assms by (simp add: cancel_timer_def agenda_set_idle)
next
  case False
  let ?rest = "drop n (agenda_ops (agenda q) t)"
  have "is_enqueued t q" using False assms enqueued_due by (simp add: tq_ok_due)
  moreover have "op_queue (tq_data (update_timer t (\<lambda>d. d\<lparr>op_queue := xs\<rparr>) q) t) = xs" for xs
    by (simp add: update_timer_def)
  ultimately have "cancel_timer t n q ops = (min n (length (agenda_ops (agenda q) t)), take_ops t ?rest q,
      ops @ map (\<lambda>op. op\<lparr>wo_ec := Operation_aborted\<rparr>) (take n (agenda_ops (agenda q) t)))"
    unfolding agenda_ops_agenda [OF assms] cancel_timer_def take_ops_def Let_def by (simp only: if_True length_map length_take min.commute)
  with take_ops_ok [OF assms False, of ?rest] show ?thesis by blast
qed

lemma cancel_timer_by_key_ok:
  assumes "tq_ok q"
  shows "\<exists>q'. cancel_timer_by_key t key q ops =
      (q', ops @ map (\<lambda>op. op\<lparr>wo_ec := Operation_aborted\<rparr>) (filter (\<lambda>op. wo_key op = key) (agenda_ops (agenda q) t)))
    \<and> tq_ok q' \<and> agenda q' = agenda_set t (filter (\<lambda>op. wo_key op \<noteq> key) (agenda_ops (agenda q) t)) (agenda q)"
proof (cases "due q t = None")
  case True
  then show ?thesis using idle_timer [OF assms True] assms by (simp add: cancel_timer_by_key_def agenda_set_idle)
next
  case False
  let ?rest = "filter (\<lambda>op. wo_key op \<noteq> key) (agenda_ops (agenda q) t)"
  have "is_enqueued t q" using False assms enqueued_due by (simp add: tq_ok_due)
  moreover have "op_queue (tq_data (update_timer t (\<lambda>d. d\<lparr>op_queue := xs\<rparr>) q) t) = xs" for xs
    by (simp add: update_timer_def)
  ultimately have "cancel_timer_by_key t key q ops = (take_ops t ?rest q,
      ops @ map (\<lambda>op. op\<lparr>wo_ec := Operation_aborted\<rparr>) (filter (\<lambda>op. wo_key op = key) (agenda_ops (agenda q) t)))"
    unfolding agenda_ops_agenda [OF assms] cancel_timer_by_key_def take_ops_def Let_def by (simp only: if_True)
  with take_ops_ok [OF assms False, of ?rest] show ?thesis by blast
qed

text \<open>The timers due.\<close>

definition due_timers :: "int \<Rightarrow> agenda \<Rightarrow> timer set" where
  "due_timers now A = {t. \<exists>x ops. A t = Some (x, ops) \<and> x \<le> now}"

definition ready_ops :: "agenda \<Rightarrow> timer list \<Rightarrow> wait_op list" where
  "ready_ops A ts = concat (map (\<lambda>t. map (\<lambda>op. op\<lparr>wo_ec := No_error\<rparr>) (agenda_ops A t)) ts)"

lemma agenda_after_set: "t \<in> due_timers now A \<Longrightarrow> agenda_after now (agenda_set t [] A) = agenda_after now A"
  by (auto simp: agenda_after_def agenda_set_def due_timers_def fun_eq_iff split: option.splits)

lemma ready_ops_cong: "(\<And>t. t \<in> set ts \<Longrightarrow> B t = A t) \<Longrightarrow> ready_ops B ts = ready_ops A ts"
  by (induction ts) (auto simp: ready_ops_def agenda_ops_def)

lemma get_ready_loop_ok:
  assumes "tq_ok q"
  shows "\<exists>q' ts. get_ready_loop now q ops = Some (q', ops @ ready_ops (agenda q) ts) \<and> tq_ok q'
    \<and> agenda q' = agenda_after now (agenda q) \<and> distinct ts \<and> set ts = due_timers now (agenda q)
    \<and> sorted (map (\<lambda>t. fst (the (agenda q t))) ts)"
  using assms
proof (induction "length (tq_heap q)" arbitrary: q ops rule: less_induct)
  case less
  have ok: "heap_ok q" "links_ok q" using less.prems by (auto simp: tq_ok_due)
  show ?case
  proof (cases "tq_heap q \<noteq> [] \<and> \<not> now < time_at q 0")
    case False
    have "due_timers now (agenda q) = {}" using root_earliest [OF ok(1)] False by (fastforce simp: due_timers_def agenda_def)
    moreover from this have "agenda_after now (agenda q) = agenda q"
      by (auto simp: agenda_after_def due_timers_def fun_eq_iff split: option.splits)
    moreover have "get_ready_loop now q ops = Some (q, ops)" using False by (subst get_ready_loop.simps) auto
    ultimately show ?thesis using less.prems by (intro exI [of _ q] exI [of _ "[]"]) (simp add: ready_ops_def)
  next
    case True
    define t where "t = he_timer (tq_heap q ! 0)"
    let ?q = "take_ops t [] q" and ?A = "agenda q"
    have due: "due q t = Some (time_at q 0)" using root_due ok(1) True by (simp add: t_def)
    have A: "?A t = Some (time_at q 0, agenda_ops ?A t)" using due by (simp add: agenda_def agenda_ops_def)
    have next_step: "get_ready_loop now q ops = get_ready_loop now ?q (ops @ ready_ops ?A [t])"
      using True agenda_ops_agenda [OF less.prems]
      by (subst get_ready_loop.simps) (simp add: Let_def t_def take_ops_def ready_ops_def)
    have q: "tq_ok ?q" "agenda ?q = agenda_set t [] ?A" using take_ops_ok [OF less.prems] due by simp_all
    have "length (tq_heap ?q) < length (tq_heap q)"
      using remove_timer_ok(5) [of "update_timer t (\<lambda>d. d\<lparr>op_queue := []\<rparr>) q" t] ok due by (simp add: take_ops_def set_ops)
    from less.hyps [OF this q(1)] obtain q' ts where ts:
      "get_ready_loop now ?q (ops @ ready_ops ?A [t]) = Some (q', (ops @ ready_ops ?A [t]) @ ready_ops (agenda ?q) ts)"
      "tq_ok q'" "agenda q' = agenda_after now (agenda ?q)" "distinct ts" "set ts = due_timers now (agenda ?q)"
      "sorted (map (\<lambda>t. fst (the (agenda ?q t))) ts)" by blast
    have set: "t \<notin> set ts" "due_timers now ?A = insert t (set ts)" "t \<in> due_timers now ?A"
      using ts(5) q(2) A True by (auto simp: due_timers_def agenda_set_def)
    then have same: "agenda ?q s = ?A s" if "s \<in> set ts" for s using that q(2) by (auto simp: agenda_set_def)
    have "time_at q 0 \<le> fst (the (?A s))" if "s \<in> set ts" for s
    proof -
      have "s \<in> due_timers now ?A" using that set(2) by blast
      then obtain y where "due q s = Some y" by (auto simp: due_timers_def agenda_def)
      then show ?thesis using root_earliest [OF ok(1)] by (simp add: agenda_def)
    qed
    then have "sorted (map (\<lambda>t. fst (the (?A t))) (t # ts))" using ts(6) A same by (simp cong: map_cong)
    moreover have "agenda q' = agenda_after now ?A" using ts(3) q(2) agenda_after_set [OF set(3)] by simp
    moreover have "ready_ops ?A (t # ts) = ready_ops ?A [t] @ ready_ops (agenda ?q) ts"
      using ready_ops_cong [OF same] by (simp add: ready_ops_def)
    ultimately show ?thesis
      unfolding next_step ts(1) using ts(2,4) set(1,2) by (intro exI [of _ q'] exI [of _ "t # ts"]) simp
  qed
qed

text \<open>All timers, when the reactor shuts down.\<close>

lemma get_all_loop_ok:
  assumes "distinct xs" and "dlseg (tq_data q) p (tq_timers q) xs l None"
    and "\<forall>t. t \<notin> set xs \<longrightarrow> op_queue (tq_data q t) = [] \<and> prev_timer (tq_data q t) = None"
  shows "\<exists>q'. get_all_loop q ops = Some (q', ops @ concat (map (\<lambda>t. op_queue (tq_data q t)) xs)) \<and> tq_timers q' = None
    \<and> (\<forall>t. op_queue (tq_data q' t) = [] \<and> prev_timer (tq_data q' t) = None)"
  using assms
proof (induction xs arbitrary: q p ops)
  case Nil
  then show ?case by (subst get_all_loop.simps) simp
next
  case (Cons x xs)
  define q1 where "q1 = (update_timer x (\<lambda>d. d\<lparr>op_queue := [], next_timer := None, prev_timer := None\<rparr>) q)
    \<lparr>tq_timers := next_timer (tq_data q x)\<rparr>"
  have step: "get_all_loop q ops = get_all_loop q1 (ops @ op_queue (tq_data q x))"
    using Cons.prems(2) by (subst get_all_loop.simps) (simp add: Let_def q1_def)
  have "dlseg (tq_data q1) (Some x) (tq_timers q1) xs l None"
    using Cons.prems(1,2) dlseg_frame [of xs "tq_data q1" "tq_data q"] by (auto simp: update_timer_def q1_def)
  moreover have "\<forall>t. t \<notin> set xs \<longrightarrow> op_queue (tq_data q1 t) = [] \<and> prev_timer (tq_data q1 t) = None"
    using Cons.prems(3) by (simp add: update_timer_def q1_def)
  moreover have "map (\<lambda>t. op_queue (tq_data q1 t)) xs = map (\<lambda>t. op_queue (tq_data q t)) xs"
    using Cons.prems(1) by (auto simp: update_timer_def q1_def)
  ultimately show ?case
    using Cons.IH [of q1 "Some x" "ops @ op_queue (tq_data q x)"] Cons.prems(1) unfolding step by (simp cong: map_cong)
qed

lemma get_all_timers_ok:
  assumes "tq_ok q"
  shows "\<exists>q' ts. get_all_timers q ops = Some (q', ops @ concat (map (agenda_ops (agenda q)) ts)) \<and> tq_ok q' \<and> tq_empty q'
    \<and> agenda q' = Map.empty \<and> distinct ts \<and> set ts = dom (agenda q)"
proof -
  obtain xs where xs: "list_ok q xs" "set xs = dom (due q)" using assms by (auto simp: tq_ok_def links_ok_def due_dom)
  then obtain l where l: "distinct xs" "dlseg (tq_data q) None (tq_timers q) xs l None"
    and "\<forall>t. t \<notin> set xs \<longrightarrow> prev_timer (tq_data q t) = None" by (auto simp: list_ok_def)
  moreover have "\<forall>t. op_queue (tq_data q t) \<noteq> [] \<longleftrightarrow> due q t \<noteq> None" using assms tq_ok_due by blast
  ultimately have out: "\<forall>t. t \<notin> set xs \<longrightarrow> op_queue (tq_data q t) = [] \<and> prev_timer (tq_data q t) = None"
    using xs(2) by (metis domIff)
  obtain q' where q': "get_all_loop q ops = Some (q', ops @ concat (map (\<lambda>t. op_queue (tq_data q t)) xs))"
    "tq_timers q' = None" "\<forall>t. op_queue (tq_data q' t) = [] \<and> prev_timer (tq_data q' t) = None"
    using get_all_loop_ok [OF l out, of ops] by blast
  let ?q = "q'\<lparr>tq_heap := []\<rparr>"
  have "heap_ok ?q" by (simp add: heap_ok_def heap_ordered_def positions_ok_def)
  moreover have "links_ok ?q" using q'(2,3) by (simp add: links_ok_def list_ok_def)
  ultimately have "tq_ok ?q" using q'(3) by (simp add: tq_ok_def)
  moreover have "agenda ?q = Map.empty" by (simp add: agenda_def due_def fun_eq_iff)
  moreover have "dom (agenda q) = set xs" using xs(2) by (simp add: agenda_def dom_def)
  moreover have "agenda_ops (agenda q) = (\<lambda>t. op_queue (tq_data q t))" using agenda_ops_agenda [OF assms] by (simp add: fun_eq_iff)
  ultimately show ?thesis
    using q' l(1) by (intro exI [of _ ?q] exI [of _ xs])
      (simp add: get_all_timers_def tq_empty_def)
qed

lemma timer_queue_new_ok: "tq_ok timer_queue_new" and agenda_new: "agenda timer_queue_new = Map.empty"
  by (simp_all add: timer_queue_new_def timer_data_new_def tq_ok_def heap_ok_def heap_ordered_def positions_ok_def
    links_ok_def list_ok_def agenda_def due_def fun_eq_iff)

lemma tq_empty_iff:
  assumes "tq_ok q"
  shows "tq_empty q \<longleftrightarrow> agenda q = Map.empty"
proof -
  obtain xs l where "dlseg (tq_data q) None (tq_timers q) xs l None" "set xs = dom (due q)"
    using assms by (auto simp: tq_ok_def links_ok_def list_ok_def due_dom)
  then have "tq_timers q = None \<longleftrightarrow> dom (due q) = {}" by (cases xs) auto
  then show ?thesis by (simp add: tq_empty_def agenda_def fun_eq_iff)
qed

section \<open>Moving a timer\<close>

lemma move_place_rest:
  "next_timer (tq_data (move_place t s q) y) = next_timer (tq_data q y)"
  "prev_timer (tq_data (move_place t s q) y) = prev_timer (tq_data q y)"
  "tq_timers (move_place t s q) = tq_timers q"
  by (simp_all add: move_place_def Let_def update_timer_def)

lemma move_links_rest:
  "op_queue (tq_data (move_links t s q) y) = op_queue (tq_data q y)"
  "heap_index (tq_data (move_links t s q) y) = heap_index (tq_data q y)"
  "tq_heap (move_links t s q) = tq_heap q"
  by (simp_all add: move_links_def Let_def update_timer_def split: option.split)

lemma move_links_data:
  assumes "t \<noteq> s" and "prev_timer (tq_data q s) \<notin> {Some s, Some t}" and "next_timer (tq_data q s) \<notin> {Some s, Some t}"
  shows "next_timer (tq_data (move_links t s q) y) = (if y = s then None else if y = t then next_timer (tq_data q s)
      else if prev_timer (tq_data q s) = Some y then Some t else next_timer (tq_data q y))"
    and "prev_timer (tq_data (move_links t s q) y) = (if y = s then None else if y = t then prev_timer (tq_data q s)
      else if next_timer (tq_data q s) = Some y then Some t else prev_timer (tq_data q y))"
    and "tq_timers (move_links t s q) = (if tq_timers q = Some s then Some t else tq_timers q)"
  using assms by (simp_all add: move_links_def Let_def update_timer_def split: option.split)

lemma move_timer_data:
  assumes "t \<noteq> s" and "prev_timer (tq_data q s) \<notin> {Some s, Some t}" and "next_timer (tq_data q s) \<notin> {Some s, Some t}"
  defines "d \<equiv> tq_data q" and "q' \<equiv> move_timer t s q"
  shows "next_timer (tq_data q' y) = (if y = s then None else if y = t then next_timer (d s)
      else if prev_timer (d s) = Some y then Some t else next_timer (d y))"
    and "prev_timer (tq_data q' y) = (if y = s then None else if y = t then prev_timer (d s)
      else if next_timer (d s) = Some y then Some t else prev_timer (d y))"
    and "op_queue (tq_data q' y) = (if y = s then [] else if y = t then op_queue (d t) @ op_queue (d s) else op_queue (d y))"
    and "heap_index (tq_data q' y) = (if y = s then npos else if y = t then heap_index (d s) else heap_index (d y))"
    and "tq_timers q' = (if tq_timers q = Some s then Some t else tq_timers q)"
    and "tq_heap q' = (if heap_index (d s) < length (tq_heap q)
      then (tq_heap q)[heap_index (d s) := (tq_heap q ! heap_index (d s))\<lparr>he_timer := t\<rparr>] else tq_heap q)"
proof -
  have links: "prev_timer (tq_data (move_place t s q) s) \<notin> {Some s, Some t}" "next_timer (tq_data (move_place t s q) s) \<notin> {Some s, Some t}"
    using assms(2,3) by (simp_all add: move_place_rest)
  note m = move_links_data [OF assms(1) links, unfolded move_place_rest] move_links_rest
  show "next_timer (tq_data q' y) = (if y = s then None else if y = t then next_timer (d s)
      else if prev_timer (d s) = Some y then Some t else next_timer (d y))"
    and "prev_timer (tq_data q' y) = (if y = s then None else if y = t then prev_timer (d s)
      else if next_timer (d s) = Some y then Some t else prev_timer (d y))"
    and "tq_timers q' = (if tq_timers q = Some s then Some t else tq_timers q)"
    unfolding q'_def d_def move_timer_def by (rule m)+
  show "op_queue (tq_data q' y) = (if y = s then [] else if y = t then op_queue (d t) @ op_queue (d s) else op_queue (d y))"
    and "heap_index (tq_data q' y) = (if y = s then npos else if y = t then heap_index (d s) else heap_index (d y))"
    and "tq_heap q' = (if heap_index (d s) < length (tq_heap q)
      then (tq_heap q)[heap_index (d s) := (tq_heap q ! heap_index (d s))\<lparr>he_timer := t\<rparr>] else tq_heap q)"
    using assms(1) by (simp_all add: q'_def d_def move_timer_def m move_place_def Let_def update_timer_def)
qed

lemma list_ok_move:
  assumes "list_ok q (as @ s # bs)" and "t \<notin> set (as @ s # bs)"
  shows "list_ok (move_timer t s q) (as @ t # bs)"
proof -
  let ?d = "tq_data q" and ?q = "move_timer t s q"
  obtain l where as: "dlseg ?d None (tq_timers q) as (prev_timer (?d s)) (Some s)"
    and bs: "dlseg ?d (Some s) (next_timer (?d s)) bs l None" and dist: "distinct (as @ s # bs)"
    and out: "\<And>y. y \<notin> set (as @ s # bs) \<Longrightarrow> prev_timer (?d y) = None"
    using assms by (auto simp: list_ok_def dlseg_append)
  have n: "next_timer (?d s) = (if bs = [] then None else Some (hd bs))" using bs by (cases bs) auto
  have p: "prev_timer (?d s) = (if as = [] then None else Some (last as))"
    using as by (cases as rule: rev_cases) (auto simp: dlseg_append)
  have self: "t \<noteq> s" "prev_timer (?d s) \<notin> {Some s, Some t}" "next_timer (?d s) \<notin> {Some s, Some t}"
    using n p dist assms(2) by (cases as rule: rev_cases; cases bs; auto)+
  note d = move_timer_data [OF self]
  have "dlseg (tq_data ?q) None (tq_timers ?q) as (prev_timer (?d s)) (Some t)"
  proof (cases as rule: rev_cases)
    case Nil
    then show ?thesis using as d(5) by simp
  next
    case (snoc cs a)
    then have "tq_timers ?q = tq_timers q" using as dist d(5) by (cases cs) auto
    moreover have "dlseg (tq_data ?q) None (tq_timers q) (cs @ [a]) (prev_timer (?d s)) (next_timer (tq_data ?q a))"
      using as dist snoc n p assms(2) by (intro dlseg_set_next [of ?d]) (auto simp: d(1,2) dest: hd_in_set)
    moreover have "next_timer (tq_data ?q a) = Some t" using snoc p dist assms(2) by (auto simp: d(1))
    ultimately show ?thesis using snoc by simp
  qed
  moreover have "\<exists>l. dlseg (tq_data ?q) (Some t) (next_timer (?d s)) bs l None"
  proof (cases bs)
    case (Cons b cs)
    have "dlseg (tq_data ?q) (prev_timer (tq_data ?q b)) (next_timer (?d s)) (b # cs) l None"
      using bs dist Cons n p assms(2) by (intro dlseg_set_prev [of ?d]) (auto simp: d(1,2) dest: last_in_set)
    moreover have "prev_timer (tq_data ?q b) = Some t" using Cons n dist assms(2) by (auto simp: d(2))
    ultimately show ?thesis using Cons by auto
  qed (use n in simp)
  moreover have "prev_timer (tq_data ?q y) = None" if "y \<notin> set (as @ t # bs)" for y
    using that out [of y] n by (cases bs) (auto simp: d(2))
  moreover have "next_timer (tq_data ?q t) = next_timer (?d s)" "prev_timer (tq_data ?q t) = prev_timer (?d s)"
    using self(1) by (simp_all add: d(1,2))
  ultimately show ?thesis using dist assms(2) by (auto simp: list_ok_def dlseg_append)
qed

lemma heap_ok_move:
  assumes "heap_ok q" and "i < length (tq_heap q)" and "he_timer (tq_heap q ! i) = s" and "t \<notin> he_timer ` set (tq_heap q)"
    and "tq_heap q' = (tq_heap q)[i := (tq_heap q ! i)\<lparr>he_timer := t\<rparr>]" and "heap_index (tq_data q' t) = i"
    and "\<And>y. y \<noteq> s \<Longrightarrow> y \<noteq> t \<Longrightarrow> heap_index (tq_data q' y) = heap_index (tq_data q y)"
  shows "heap_ok q'"
proof -
  have "heap_times q' = (heap_times q)[i := heap_times q ! i]" using assms(2,5) by (simp add: heap_times_def map_update)
  moreover have "positions_ok q'"
    unfolding positions_ok_def
  proof (intro allI impI)
    fix k assume "k < length (tq_heap q')"
    then have k: "k < length (tq_heap q)" using assms(5) by simp
    have pos: "positions_ok q" using assms(1) by (simp add: heap_ok_def)
    show "heap_index (tq_data q' (he_timer (tq_heap q' ! k))) = k"
    proof (cases "k = i")
      case False
      have "he_timer (tq_heap q ! k) \<noteq> s" using positions_inject [OF pos k assms(2)] assms(3) False by metis
      moreover have "he_timer (tq_heap q ! k) \<noteq> t" using assms(4) nth_mem [OF k] by blast
      ultimately show ?thesis using pos k False assms(5,7) by (simp add: positions_ok_def)
    qed (use k assms(5,6) in simp)
  qed
  ultimately show ?thesis using assms(1) by (simp add: heap_ok_def)
qed

lemma move_timer_ok:
  assumes "tq_ok q" and "agenda q s \<noteq> None" and "agenda q t = None"
  shows "tq_ok (move_timer t s q)" and "agenda (move_timer t s q) = (agenda q)(t := agenda q s, s := None)"
proof -
  let ?q = "move_timer t s q"
  have ok: "heap_ok q" "links_ok q" "\<And>y. op_queue (tq_data q y) \<noteq> [] \<longleftrightarrow> due q y \<noteq> None"
    using assms(1) tq_ok_due by blast+
  obtain x where x: "due q s = Some x" and none: "due q t = None" using assms(2,3) by (auto simp: agenda_None)
  obtain xs where xs: "list_ok q xs" "set xs = dom (due q)" using ok(2) by (auto simp: links_ok_def due_dom)
  then obtain as bs where ab: "xs = as @ s # bs" using x by (metis domI split_list)
  then have "t \<notin> set (as @ s # bs)" using xs(2) none by auto
  note lst = list_ok_move [OF xs(1) [unfolded ab] this]
  obtain l where "dlseg (tq_data q) None (tq_timers q) (as @ s # bs) l None" "distinct (as @ s # bs)"
    using xs(1) ab by (auto simp: list_ok_def)
  then have "t \<noteq> s" "prev_timer (tq_data q s) \<notin> {Some s, Some t}" "next_timer (tq_data q s) \<notin> {Some s, Some t}"
    using \<open>t \<notin> set (as @ s # bs)\<close> by (cases as rule: rev_cases; cases bs; auto simp: dlseg_append)+
  note d = move_timer_data [OF this]
  obtain i where i: "i < length (tq_heap q)" "tq_heap q ! i = \<lparr>he_time = x, he_timer = s\<rparr>"
    using x due_Some [OF ok(1)] by (auto simp: in_set_conv_nth)
  then have idx: "heap_index (tq_data q s) = i" using ok(1) by (force simp: heap_ok_def positions_ok_def)
  have heap: "tq_heap ?q = (tq_heap q)[i := \<lparr>he_time = x, he_timer = t\<rparr>]" using d(6) i idx by simp
  have hok: "heap_ok ?q"
    using i idx none \<open>t \<noteq> s\<close> heap by (intro heap_ok_move [OF ok(1) i(1)]) (auto simp: d(4) due_None)
  have "distinct (tq_heap q)" using ok(1) distinct_timers by (auto simp: heap_ok_def distinct_map)
  then have set: "set (tq_heap ?q) = insert \<lparr>he_time = x, he_timer = t\<rparr> (set (tq_heap q) - {\<lparr>he_time = x, he_timer = s\<rparr>})"
    using i by (simp add: heap set_update_distinct)
  have due: "due ?q = (due q)(t \<mapsto> x, s := None)"
  proof
    fix y
    have "due ?q y = Some z \<longleftrightarrow> ((due q)(t \<mapsto> x, s := None)) y = Some z" for z
      using due_Some [OF hok, of y z] due_Some [OF ok(1), of y z] x none \<open>t \<noteq> s\<close> unfolding set by auto
    then show "due ?q y = ((due q)(t \<mapsto> x, s := None)) y" by (metis not_Some_eq)
  qed
  have ops: "op_queue (tq_data ?q y) = (if y = s then [] else if y = t then op_queue (tq_data q s) else op_queue (tq_data q y))" for y
    using d(3) ok(3) [of t] none by simp
  have "set (as @ t # bs) = dom (due ?q)" using xs ab due \<open>t \<noteq> s\<close> none by (auto simp: list_ok_def)
  then have "links_ok ?q" unfolding links_ok_def due_dom using lst by blast
  then show "tq_ok ?q" using hok ok(3) x by (simp add: tq_ok_due ops due)
  show "agenda ?q = (agenda q)(t := agenda q s, s := None)" using x by (auto simp: agenda_def fun_eq_iff ops due)
qed

section \<open>The contract\<close>

text \<open>
  What a service that waits for timers may rely on: every operation keeps the invariant and
  has the effect of the abstract one.
\<close>

locale timer_agenda =
  fixes inv :: "'q \<Rightarrow> bool"
    and abs :: "'q \<Rightarrow> agenda"
    and enqueue :: "int \<Rightarrow> timer \<Rightarrow> wait_op \<Rightarrow> 'q \<Rightarrow> bool \<times> 'q"
    and cancel :: "timer \<Rightarrow> nat \<Rightarrow> 'q \<Rightarrow> wait_op list \<Rightarrow> nat \<times> 'q \<times> wait_op list"
    and ready :: "int \<Rightarrow> 'q \<Rightarrow> wait_op list \<Rightarrow> ('q \<times> wait_op list) option"
  assumes enqueue_inv: "inv q \<Longrightarrow> inv (snd (enqueue x t op q))"
    and enqueue_abs: "inv q \<Longrightarrow> abs (snd (enqueue x t op q)) = agenda_enqueue x t op (abs q)"
    and cancel_spec: "inv q \<Longrightarrow> \<exists>q'. cancel t n q ops =
        (min n (length (agenda_ops (abs q) t)), q', ops @ map (\<lambda>op. op\<lparr>wo_ec := Operation_aborted\<rparr>) (take n (agenda_ops (abs q) t)))
      \<and> inv q' \<and> abs q' = agenda_set t (drop n (agenda_ops (abs q) t)) (abs q)"
    and ready_spec: "inv q \<Longrightarrow> \<exists>q' ts. ready now q ops = Some (q', ops @ ready_ops (abs q) ts) \<and> inv q'
      \<and> abs q' = agenda_after now (abs q) \<and> distinct ts \<and> set ts = due_timers now (abs q)
      \<and> sorted (map (\<lambda>t. fst (the (abs q t))) ts)"
begin

text \<open>A timer is cancelled and armed again: the waits before it are aborted, and it alone is pending.\<close>

lemma rearm:
  assumes "inv q" and "length (agenda_ops (abs q) t) \<le> n"
  shows "\<exists>q' q''. cancel t n q ops = (length (agenda_ops (abs q) t), q',
        ops @ map (\<lambda>op. op\<lparr>wo_ec := Operation_aborted\<rparr>) (agenda_ops (abs q) t))
    \<and> snd (enqueue x t op q') = q'' \<and> inv q'' \<and> abs q'' = (abs q)(t \<mapsto> (x, [op]))"
proof -
  obtain q' where q': "cancel t n q ops = (length (agenda_ops (abs q) t), q',
      ops @ map (\<lambda>op. op\<lparr>wo_ec := Operation_aborted\<rparr>) (agenda_ops (abs q) t))" "inv q'" "abs q' = agenda_set t [] (abs q)"
    using cancel_spec [OF assms(1), of t n ops] assms(2) by (auto simp: min_def)
  then have "abs (snd (enqueue x t op q')) = (abs q)(t \<mapsto> (x, [op]))"
    using enqueue_abs [OF q'(2)] by (simp add: agenda_enqueue_def agenda_set_def)
  with q' enqueue_inv [OF q'(2)] show ?thesis by blast
qed

text \<open>A wait fires when its time has come, and stays pending until then.\<close>

lemma fires:
  assumes "inv q" and "abs q t = Some (x, os)" and "op \<in> set os" and "x \<le> now"
  shows "\<exists>q' done. ready now q [] = Some (q', done) \<and> inv q' \<and> op\<lparr>wo_ec := No_error\<rparr> \<in> set done \<and> abs q' t = None"
proof -
  obtain q' ts where ts: "ready now q [] = Some (q', ready_ops (abs q) ts)" "inv q'" "abs q' = agenda_after now (abs q)"
    "set ts = due_timers now (abs q)" using ready_spec [OF assms(1), of now "[]"] by auto
  moreover have "t \<in> set ts" using ts(4) assms(2,4) by (simp add: due_timers_def)
  then have "op\<lparr>wo_ec := No_error\<rparr> \<in> set (ready_ops (abs q) ts)"
    using assms(2,3) by (auto simp: ready_ops_def agenda_ops_def intro!: bexI [of _ t])
  moreover have "abs q' t = None" using ts(3) assms(2,4) by (simp add: agenda_after_def)
  ultimately show ?thesis by blast
qed

lemma not_early:
  assumes "inv q" and "abs q t = Some (x, os)" and "now < x" and "ready now q ops = Some (q', done)"
  shows "inv q' \<and> abs q' t = Some (x, os)"
  using ready_spec [OF assms(1), of now ops] assms(2-4) by (auto simp: agenda_after_def)

end

interpretation atq: timer_agenda tq_ok agenda enqueue_timer cancel_timer get_ready_timers
  by unfold_locales
    (simp_all add: enqueue_timer_ok cancel_timer_ok get_ready_loop_ok get_ready_timers_def)

section \<open>Properties of the queue\<close>

text \<open>
  A wait is added: the heap stays ordered, every timer knows its place, and the heap and the list agree
  (\<open>tq_ok\<close>); a timer that already waits keeps its time, another is entered with the given one; and the reactor
  is told to look again whenever the new wait is the earliest, and only if no wait is earlier.
\<close>

theorem enqueue_timer_refines:
  assumes "tq_ok q" and "\<forall>o' \<in> set (agenda_ops (agenda q) t). wo_id o' \<noteq> wo_id op"
    and "enqueue_timer x t op q = (earliest, q')"
  shows "tq_ok q' \<and> agenda q' = agenda_enqueue x t op (agenda q)
    \<and> (earliest \<longrightarrow> agenda q t = None \<and> (\<forall>s y ops. agenda q s = Some (y, ops) \<longrightarrow> x \<le> y))
    \<and> (agenda q t = None \<and> (\<forall>s y ops. agenda q s = Some (y, ops) \<longrightarrow> x < y) \<longrightarrow> earliest)"
  using enqueue_timer_ok [OF assms(1), of x t op] enqueue_timer_earliest [OF assms(1), of t op x] assms(2,3)
  by (auto simp: agenda_ops_agenda [OF assms(1)])

text \<open>Two timers, 4 and 2, that fire at 30 and at 10.\<close>

definition demo_op :: "nat \<Rightarrow> wait_op" where
  "demo_op i = \<lparr>wo_id = i, wo_key = 0, wo_ec = No_error\<rparr>"

definition demo_queue :: timer_queue where
  "demo_queue = snd (enqueue_timer 10 2 (demo_op 21) (snd (enqueue_timer 30 4 (demo_op 41) timer_queue_new)))"

lemma demo_queue_ok: "tq_ok demo_queue" "agenda demo_queue = [4 \<mapsto> (30, [demo_op 41]), 2 \<mapsto> (10, [demo_op 21])]"
  unfolding demo_queue_def
  by (simp_all add: enqueue_timer_ok timer_queue_new_ok agenda_new agenda_enqueue_def)

theorem enqueue_timer_refines_witness:
  "\<exists>earliest q'. enqueue_timer 5 9 (demo_op 91) demo_queue = (earliest, q') \<and> tq_ok q' \<and> earliest
    \<and> agenda q' = [4 \<mapsto> (30, [demo_op 41]), 2 \<mapsto> (10, [demo_op 21]), 9 \<mapsto> (5, [demo_op 91])]"
proof -
  obtain earliest q' where e: "enqueue_timer 5 9 (demo_op 91) demo_queue = (earliest, q')" by fastforce
  have "agenda_ops (agenda demo_queue) 9 = []" by (simp add: agenda_ops_def demo_queue_ok(2))
  with enqueue_timer_refines [OF demo_queue_ok(1) _ e] e show ?thesis
    by (auto simp: demo_queue_ok(2) agenda_enqueue_def split: if_splits)
qed

text \<open>
  C37. Looking for the timers due terminates; it hands out the operations of exactly the timers whose time has come,
  each timer once and in the order of their times, all of them with success, and removes these timers and no
  others.
\<close>

theorem get_ready_timers_exact:
  assumes "tq_ok q"
  shows "\<exists>q' ts. get_ready_timers now q ops = Some (q', ops @ ready_ops (agenda q) ts) \<and> tq_ok q'
    \<and> agenda q' = agenda_after now (agenda q) \<and> distinct ts \<and> set ts = due_timers now (agenda q)
    \<and> sorted (map (\<lambda>t. fst (the (agenda q t))) ts)"
  using get_ready_loop_ok [OF assms, of now ops] by (simp add: get_ready_timers_def)

theorem get_ready_timers_exact_witness:
  "\<exists>q' ts. get_ready_timers 30 demo_queue [] = Some (q', ready_ops (agenda demo_queue) ts) \<and> tq_ok q'
    \<and> agenda q' = Map.empty \<and> distinct ts \<and> set ts = {2, 4}"
proof -
  have "due_timers 30 (agenda demo_queue) = {2, 4}" by (auto simp: due_timers_def demo_queue_ok(2) split: if_splits)
  moreover have "agenda_after 30 (agenda demo_queue) = Map.empty"
    by (auto simp: agenda_after_def demo_queue_ok(2) fun_eq_iff)
  ultimately show ?thesis using get_ready_timers_exact [OF demo_queue_ok(1), of 30 "[]"] by (simp only: append_Nil) blast
qed

text \<open>
  Moving a timer object that waits: its wait goes on under the new object, with its time and its operations, and
  the old object waits no more; the invariant of the queue is kept.
\<close>

theorem move_timer_refines:
  assumes "tq_ok q" and "agenda q source \<noteq> None" and "agenda q target = None"
  shows "tq_ok (move_timer target source q)
    \<and> agenda (move_timer target source q) = (agenda q)(target := agenda q source, source := None)"
  using move_timer_ok [OF assms] by simp

theorem move_timer_refines_witness:
  "tq_ok (move_timer 7 2 demo_queue) \<and> agenda (move_timer 7 2 demo_queue) = [4 \<mapsto> (30, [demo_op 41]), 7 \<mapsto> (10, [demo_op 21])]"
  using move_timer_refines [OF demo_queue_ok(1), of 2 7] by (simp add: demo_queue_ok(2))

end
