(* ===== verification/Asio_Scheduler.thy ===== *)
theory Asio_Scheduler
  imports Prelude
begin

text \<open>
  The event loop of asio that runs the handlers of the host,
  \<open>vendors/asio-1.36.0/include/asio/detail/op_queue.hpp\<close>, \<open>detail/scheduler.hpp\<close> and \<open>detail/impl/scheduler.ipp\<close>.

  The first part is the queue of operations as the code has it, a singly linked list through the
  operations, and that it implements a list. The second is the scheduler: the operations ready to run
  are a list, among them the marker for the task, which is the reactor.
\<close>

section \<open>The intrusive queue of operations\<close>

text \<open>An operation is a number, its address; the field \<open>next_\<close> of all operations is one map.\<close>

type_synonym links = "nat \<Rightarrow> nat option"

record op_queue_t =
  oq_front :: "nat option"
  oq_back :: "nat option"

definition oq_new :: op_queue_t where
  "oq_new = \<lparr>oq_front = None, oq_back = None\<rparr>"

definition oq_pop :: "op_queue_t \<times> links \<Rightarrow> op_queue_t \<times> links" where
  "oq_pop = (\<lambda>(q, nxt).
     case oq_front q of
       None \<Rightarrow> (q, nxt)
     | Some tmp \<Rightarrow>
         let q = q\<lparr>oq_front := nxt tmp\<rparr>;
             q = (if oq_front q = None then q\<lparr>oq_back := None\<rparr> else q)
         in (q, nxt(tmp := None)))"

definition oq_push :: "nat \<Rightarrow> op_queue_t \<times> links \<Rightarrow> op_queue_t \<times> links" where
  "oq_push h = (\<lambda>(q, nxt).
     let nxt = nxt(h := None)
     in case oq_back q of
          Some b \<Rightarrow> (q\<lparr>oq_back := Some h\<rparr>, nxt(b := Some h))
        | None \<Rightarrow> (q\<lparr>oq_front := Some h, oq_back := Some h\<rparr>, nxt))"

text \<open>All operations of another queue; the result is the queue, the other queue and the links.\<close>

definition oq_push_all :: "op_queue_t \<Rightarrow> op_queue_t \<times> links \<Rightarrow> op_queue_t \<times> op_queue_t \<times> links" where
  "oq_push_all other = (\<lambda>(q, nxt).
     case oq_front other of
       None \<Rightarrow> (q, other, nxt)
     | Some other_front \<Rightarrow>
         let (q, nxt) = (case oq_back q of
               Some b \<Rightarrow> (q, nxt(b := Some other_front))
             | None \<Rightarrow> (q\<lparr>oq_front := Some other_front\<rparr>, nxt))
         in (q\<lparr>oq_back := oq_back other\<rparr>, other\<lparr>oq_front := None, oq_back := None\<rparr>, nxt))"

definition oq_empty :: "op_queue_t \<Rightarrow> bool" where
  "oq_empty q \<longleftrightarrow> oq_front q = None"

definition oq_is_enqueued :: "nat \<Rightarrow> op_queue_t \<times> links \<Rightarrow> bool" where
  "oq_is_enqueued o' = (\<lambda>(q, nxt). nxt o' \<noteq> None \<or> oq_back q = Some o')"

text \<open>The list a queue stands for: linked from the front to the back.\<close>

fun chain :: "links \<Rightarrow> nat option \<Rightarrow> nat list \<Rightarrow> bool" where
  "chain nxt p [] \<longleftrightarrow> p = None"
| "chain nxt p (x # xs) \<longleftrightarrow> p = Some x \<and> chain nxt (nxt x) xs"

definition oq_holds :: "op_queue_t \<times> links \<Rightarrow> nat list \<Rightarrow> bool" where
  "oq_holds = (\<lambda>(q, nxt) xs. distinct xs \<and> chain nxt (oq_front q) xs \<and> oq_back q = (if xs = [] then None else Some (last xs)))"

lemma chain_frame: "x \<notin> set xs \<Longrightarrow> chain (nxt(x := y)) p xs = chain nxt p xs"
  by (induction xs arbitrary: p) auto

lemma chain_append:
  "chain nxt p (xs @ [x]) \<Longrightarrow> distinct (xs @ [x]) \<Longrightarrow> x \<notin> set ys \<Longrightarrow> chain nxt r ys \<Longrightarrow> chain (nxt(x := r)) p (xs @ x # ys)"
  by (induction xs arbitrary: p) (auto simp: chain_frame)

lemma chain_last: "chain nxt p (xs @ [x]) \<Longrightarrow> nxt x = None"
  by (induction xs arbitrary: p) auto

lemma chain_next: "chain nxt p (xs @ x # y # ys) \<Longrightarrow> nxt x = Some y"
  by (induction xs arbitrary: p) auto

lemma oq_pop_holds: "oq_holds qn (x # xs) \<Longrightarrow> oq_holds (oq_pop qn) xs"
  by (cases xs) (auto simp: oq_holds_def oq_pop_def Let_def chain_frame split: prod.splits)

lemma oq_push_holds:
  assumes "oq_holds qn xs" and "h \<notin> set xs"
  shows "oq_holds (oq_push h qn) (xs @ [h])"
proof (cases xs rule: rev_cases)
  case Nil
  then show ?thesis using assms by (auto simp: oq_holds_def oq_push_def Let_def split: prod.splits)
next
  case (snoc ys y)
  obtain q nxt where qn: "qn = (q, nxt)" by (cases qn)
  have "chain (nxt(h := None)) (oq_front q) (ys @ [y])" "distinct (ys @ [y])" "y \<noteq> h"
    using assms snoc qn by (auto simp: oq_holds_def chain_frame)
  then have "chain ((nxt(h := None))(y := Some h)) (oq_front q) (ys @ [y, h])"
    by (intro chain_append) auto
  then show ?thesis using assms snoc qn by (auto simp: oq_holds_def oq_push_def Let_def)
qed

lemma oq_push_all_holds:
  assumes "oq_holds (q, nxt) xs" and "oq_holds (other, nxt) ys" and "set xs \<inter> set ys = {}"
    and "oq_push_all other (q, nxt) = (q', other', nxt')"
  shows "oq_holds (q', nxt') (xs @ ys)" and "oq_holds (other', nxt') []"
proof -
  have "oq_holds (q', nxt') (xs @ ys) \<and> oq_holds (other', nxt') []"
  proof (cases ys)
    case Nil
    then show ?thesis using assms by (auto simp: oq_holds_def oq_push_all_def)
  next
    case (Cons y zs)
    then have y: "oq_front other = Some y" "oq_back other = Some (last ys)" using assms(2) by (auto simp: oq_holds_def)
    show ?thesis
    proof (cases xs rule: rev_cases)
      case Nil
      then show ?thesis using assms y Cons by (auto simp: oq_holds_def oq_push_all_def)
    next
      case (snoc ws w)
      have "chain (nxt(w := Some y)) (oq_front q) (ws @ w # ys)"
        using assms(1-3) snoc Cons by (intro chain_append) (auto simp: oq_holds_def)
      then show ?thesis using assms y snoc Cons by (auto simp: oq_holds_def oq_push_all_def)
    qed
  qed
  then show "oq_holds (q', nxt') (xs @ ys)" and "oq_holds (other', nxt') []" by simp_all
qed

lemma oq_is_enqueued_iff:
  assumes "oq_holds (q, nxt) xs" and "x \<in> set xs \<or> nxt x = None"
  shows "oq_is_enqueued x (q, nxt) \<longleftrightarrow> x \<in> set xs"
proof
  assume "oq_is_enqueued x (q, nxt)"
  then show "x \<in> set xs" using assms by (auto simp: oq_is_enqueued_def oq_holds_def split: if_splits)
next
  assume "x \<in> set xs"
  then obtain ys zs where xs: "xs = ys @ x # zs" by (meson split_list)
  then show "oq_is_enqueued x (q, nxt)"
    using assms(1) chain_next [of nxt "oq_front q" ys x] by (cases zs) (auto simp: oq_is_enqueued_def oq_holds_def)
qed

lemma oq_empty_iff: "oq_holds (q, nxt) xs \<Longrightarrow> oq_empty q \<longleftrightarrow> xs = []"
  by (cases xs) (auto simp: oq_empty_def oq_holds_def)

text \<open>A queue of operations, for its users: first in, first out.\<close>

locale op_fifo =
  fixes holds :: "'q \<Rightarrow> nat list \<Rightarrow> bool"
    and push :: "nat \<Rightarrow> 'q \<Rightarrow> 'q"
    and pop :: "'q \<Rightarrow> 'q"
    and front :: "'q \<Rightarrow> nat option"
  assumes push_holds: "holds q xs \<Longrightarrow> x \<notin> set xs \<Longrightarrow> holds (push x q) (xs @ [x])"
    and pop_holds: "holds q (x # xs) \<Longrightarrow> holds (pop q) xs"
    and front_holds: "holds q xs \<Longrightarrow> front q = (case xs of [] \<Rightarrow> None | x # _ \<Rightarrow> Some x)"
begin

lemma push_many: "holds q xs \<Longrightarrow> distinct (xs @ ys) \<Longrightarrow> holds (fold push ys q) (xs @ ys)"
proof (induction ys arbitrary: q xs)
  case (Cons y ys)
  then have "holds (push y q) (xs @ [y])" by (intro push_holds) auto
  from Cons.IH [OF this] Cons.prems show ?case by simp
qed simp

lemma pop_many: "holds q (xs @ ys) \<Longrightarrow> holds ((pop ^^ length xs) q) ys"
proof (induction xs arbitrary: q)
  case (Cons x xs)
  then have "holds (pop q) (xs @ ys)" by (intro pop_holds) simp
  from Cons.IH [OF this] show ?case by (simp add: funpow_swap1)
qed simp

lemma fifo_order:
  assumes "holds q xs" and "distinct (xs @ ys)" and "n < length (xs @ ys)"
  shows "front ((pop ^^ n) (fold push ys q)) = Some ((xs @ ys) ! n)"
proof -
  have "holds (fold push ys q) (take n (xs @ ys) @ drop n (xs @ ys))" using push_many [OF assms(1,2)] by (simp only: append_take_drop_id)
  moreover have "length (take n (xs @ ys)) = n" using assms(3) by simp
  ultimately have "holds ((pop ^^ n) (fold push ys q)) (drop n (xs @ ys))" using pop_many by metis
  from front_holds [OF this] show ?thesis using assms(3) Cons_nth_drop_Suc [OF assms(3)] by (metis list.simps(5))
qed

end

interpretation oq: op_fifo oq_holds oq_push oq_pop "\<lambda>qn. oq_front (fst qn)"
proof (unfold_locales, goal_cases)
  case (3 q xs)
  then show ?case by (cases xs) (auto simp: oq_holds_def)
qed (simp_all add: oq_push_holds oq_pop_holds)

lemma oq_new_holds: "oq_holds (oq_new, nxt) []"
  by (simp add: oq_holds_def oq_new_def)

text \<open>
  The queue of operations is first in, first out: from a new queue, operations pushed
  one after the other are at the front in the same order, one further with each \<open>pop\<close>, whatever
  their links held before.
\<close>

theorem op_queue_fifo:
  assumes "distinct ys" and "n < length ys"
  shows "oq_front (fst ((oq_pop ^^ n) (fold oq_push ys (oq_new, nxt)))) = Some (ys ! n)"
  using oq.fifo_order [OF oq_new_holds, of ys n nxt] assms by simp

theorem op_queue_fifo_witness:
  "oq_front (fst ((oq_pop ^^ 2) (fold oq_push [7, 3, 9] (oq_new, \<lambda>_. Some 5)))) = Some 9"
  using op_queue_fifo [of "[7, 3, 9]" 2 "\<lambda>_. Some 5"] by simp

section \<open>The scheduler\<close>

datatype sched_op = Task_operation | Operation nat

record thread_info =
  private_op_queue :: "sched_op list"
  private_outstanding_work :: int

text \<open>
  The event \<open>wakeup_event_\<close> is its signalled flag and the number of threads that wait for it; \<open>sc_interrupts\<close>
  counts the calls of \<open>interrupt\<close> of the task.
\<close>

record scheduler =
  one_thread :: bool
  sc_task :: bool
  task_interrupted :: bool
  sc_stopped :: bool
  sc_shutdown :: bool
  outstanding_work :: int
  sc_queue :: "sched_op list"
  task_usec :: int
  wait_usec :: int
  sc_signalled :: bool
  sc_waiters :: nat
  sc_interrupts :: nat

definition thread_info_new :: thread_info where
  "thread_info_new = \<lparr>private_op_queue = [], private_outstanding_work = 0\<rparr>"

definition scheduler_new :: "bool \<Rightarrow> int \<Rightarrow> int \<Rightarrow> scheduler" where
  "scheduler_new one t_usec w_usec =
     \<lparr>one_thread = one, sc_task = False, task_interrupted = True, sc_stopped = False, sc_shutdown = False,
      outstanding_work = 0, sc_queue = [], task_usec = t_usec, wait_usec = w_usec, sc_signalled = False,
      sc_waiters = 0, sc_interrupts = 0\<rparr>"

definition interrupt_task :: "scheduler \<Rightarrow> scheduler" where
  "interrupt_task s =
     (if \<not> task_interrupted s \<and> sc_task s
      then s\<lparr>task_interrupted := True, sc_interrupts := sc_interrupts s + 1\<rparr> else s)"

definition stop_all_threads :: "scheduler \<Rightarrow> scheduler" where
  "stop_all_threads s = interrupt_task (s\<lparr>sc_stopped := True, sc_signalled := True\<rparr>)"

definition sched_stop :: "scheduler \<Rightarrow> scheduler" where
  "sched_stop s = stop_all_threads s"

definition sched_restart :: "scheduler \<Rightarrow> scheduler" where
  "sched_restart s = s\<lparr>sc_stopped := False\<rparr>"

definition maybe_unlock_and_signal_one :: "scheduler \<Rightarrow> bool \<times> scheduler" where
  "maybe_unlock_and_signal_one s = (sc_waiters s > 0, s\<lparr>sc_signalled := True\<rparr>)"

definition wake_one_thread_and_unlock :: "scheduler \<Rightarrow> scheduler" where
  "wake_one_thread_and_unlock s =
     (if wait_usec s = 0 then interrupt_task s
      else let (woken, s) = maybe_unlock_and_signal_one s in if woken then s else interrupt_task s)"

definition work_started :: "scheduler \<Rightarrow> scheduler" where
  "work_started s = s\<lparr>outstanding_work := outstanding_work s + 1\<rparr>"

definition work_finished :: "scheduler \<Rightarrow> scheduler" where
  "work_finished s =
     (let s = s\<lparr>outstanding_work := outstanding_work s - 1\<rparr>
      in if outstanding_work s = 0 then sched_stop s else s)"

definition sched_push :: "sched_op list \<Rightarrow> scheduler \<Rightarrow> scheduler" where
  "sched_push ops s = s\<lparr>sc_queue := sc_queue s @ ops\<rparr>"

definition init_task :: "scheduler \<Rightarrow> scheduler" where
  "init_task s =
     (if \<not> sc_shutdown s \<and> \<not> sc_task s
      then wake_one_thread_and_unlock (sched_push [Task_operation] (s\<lparr>sc_task := True\<rparr>)) else s)"

text \<open>The posting functions; the thread is the calling one if it runs the scheduler.\<close>

definition private_push :: "int \<Rightarrow> sched_op list \<Rightarrow> thread_info \<Rightarrow> thread_info" where
  "private_push n ops th = th\<lparr>private_outstanding_work := private_outstanding_work th + n, private_op_queue := private_op_queue th @ ops\<rparr>"

definition post_immediate_completion :: "nat \<Rightarrow> bool \<Rightarrow> scheduler \<times> thread_info option \<Rightarrow> scheduler \<times> thread_info option" where
  "post_immediate_completion op is_continuation = (\<lambda>(s, th).
     case th of
       Some t \<Rightarrow> if one_thread s \<or> is_continuation then (s, Some (private_push 1 [Operation op] t))
         else (wake_one_thread_and_unlock (sched_push [Operation op] (work_started s)), th)
     | None \<Rightarrow> (wake_one_thread_and_unlock (sched_push [Operation op] (work_started s)), th))"

definition post_immediate_completions :: "nat list \<Rightarrow> bool \<Rightarrow> scheduler \<times> thread_info option \<Rightarrow> scheduler \<times> thread_info option" where
  "post_immediate_completions ops is_continuation = (\<lambda>(s, th).
     let n = int (length ops);
         outer = (wake_one_thread_and_unlock (sched_push (map Operation ops) (s\<lparr>outstanding_work := outstanding_work s + n\<rparr>)), th)
     in case th of
          Some t \<Rightarrow> if one_thread s \<or> is_continuation then (s, Some (private_push n (map Operation ops) t)) else outer
        | None \<Rightarrow> outer)"

definition post_deferred_completion :: "nat \<Rightarrow> scheduler \<times> thread_info option \<Rightarrow> scheduler \<times> thread_info option" where
  "post_deferred_completion op = (\<lambda>(s, th).
     let outer = (wake_one_thread_and_unlock (sched_push [Operation op] s), th)
     in case th of
          Some t \<Rightarrow> if one_thread s then (s, Some (private_push 0 [Operation op] t)) else outer
        | None \<Rightarrow> outer)"

definition post_deferred_completions :: "nat list \<Rightarrow> scheduler \<times> thread_info option \<Rightarrow> scheduler \<times> thread_info option" where
  "post_deferred_completions ops = (\<lambda>(s, th).
     if ops \<noteq> [] then
       let outer = (wake_one_thread_and_unlock (sched_push (map Operation ops) s), th)
       in case th of
            Some t \<Rightarrow> if one_thread s then (s, Some (private_push 0 (map Operation ops) t)) else outer
          | None \<Rightarrow> outer
     else (s, th))"

definition do_dispatch :: "nat \<Rightarrow> scheduler \<Rightarrow> scheduler" where
  "do_dispatch op s = wake_one_thread_and_unlock (sched_push [Operation op] (work_started s))"

definition task_cleanup :: "scheduler \<times> thread_info \<Rightarrow> scheduler \<times> thread_info" where
  "task_cleanup = (\<lambda>(s, th).
     let s = (if private_outstanding_work th > 0
              then s\<lparr>outstanding_work := outstanding_work s + private_outstanding_work th\<rparr> else s);
         s = s\<lparr>task_interrupted := True\<rparr>;
         s = sched_push (private_op_queue th) s
     in (sched_push [Task_operation] s, \<lparr>private_op_queue = [], private_outstanding_work = 0\<rparr>))"

definition work_cleanup :: "scheduler \<times> thread_info \<Rightarrow> scheduler \<times> thread_info" where
  "work_cleanup = (\<lambda>(s, th).
     let s = (if private_outstanding_work th > 1
              then s\<lparr>outstanding_work := outstanding_work s + (private_outstanding_work th - 1)\<rparr>
              else if private_outstanding_work th < 1 then work_finished s else s);
         th = th\<lparr>private_outstanding_work := 0\<rparr>
     in if private_op_queue th \<noteq> [] then (sched_push (private_op_queue th) s, th\<lparr>private_op_queue := []\<rparr>) else (s, th))"

text \<open>
  What a handler, or another thread, does with the scheduler. An operation started is held by the
  reactor until the reactor finds it complete or it is cancelled; a work guard counts as work. The
  operations the reactor holds and the number of guards are kept beside the scheduler.
\<close>

datatype sched_call =
    Call_post nat bool
  | Call_start nat
  | Call_cancel "nat list"
  | Call_guard
  | Call_release
  | Call_stop

record io_context =
  io_sched :: scheduler
  io_held :: "nat list"
  io_guards :: nat

definition on_sched :: "(scheduler \<times> thread_info option \<Rightarrow> scheduler \<times> thread_info option) \<Rightarrow>
    io_context \<times> thread_info option \<Rightarrow> io_context \<times> thread_info option" where
  "on_sched f = (\<lambda>(c, th). let (s, th) = f (io_sched c, th) in (c\<lparr>io_sched := s\<rparr>, th))"

fun do_call :: "sched_call \<Rightarrow> io_context \<times> thread_info option \<Rightarrow> io_context \<times> thread_info option" where
  "do_call (Call_post op cont) ct = on_sched (post_immediate_completion op cont) ct"
| "do_call (Call_start op) (c, th) = (c\<lparr>io_sched := work_started (io_sched c), io_held := io_held c @ [op]\<rparr>, th)"
| "do_call (Call_cancel ops) (c, th) =
     (let cancelled = filter (\<lambda>op. op \<in> set ops) (io_held c)
      in on_sched (post_deferred_completions cancelled) (c\<lparr>io_held := filter (\<lambda>op. op \<notin> set ops) (io_held c)\<rparr>, th))"
| "do_call Call_guard (c, th) = (c\<lparr>io_sched := work_started (io_sched c), io_guards := io_guards c + 1\<rparr>, th)"
| "do_call Call_release (c, th) =
     (if io_guards c > 0 then (c\<lparr>io_sched := work_finished (io_sched c), io_guards := io_guards c - 1\<rparr>, th) else (c, th))"
| "do_call Call_stop (c, th) = (c\<lparr>io_sched := sched_stop (io_sched c)\<rparr>, th)"

definition sched_calls :: "sched_call list \<Rightarrow> io_context \<times> thread_info option \<Rightarrow> io_context \<times> thread_info option" where
  "sched_calls cs ct = fold do_call cs ct"

text \<open>
  What happens while the thread does not hold the lock: the calls of other threads, and the
  operations the reactor finds complete when it is run. What the scheduler sees of the reactor is the queue
  it fills, so that here any of the operations it holds may be in it; \<open>Asio_Loop\<close> puts the reactor itself in this place,
  with its descriptor states and the work they count (\<open>compensating_work_started\<close>).
\<close>

record env_step =
  env_calls :: "sched_call list"
  env_ready :: "nat list"

definition outside_calls :: "env_step \<Rightarrow> io_context \<Rightarrow> io_context" where
  "outside_calls e c = fst (sched_calls (env_calls e) (c, None))"

definition task_run :: "env_step \<Rightarrow> io_context \<times> thread_info \<Rightarrow> io_context \<times> thread_info" where
  "task_run e = (\<lambda>(c, th).
     let ready = filter (\<lambda>op. op \<in> set (env_ready e)) (io_held c)
     in (c\<lparr>io_held := filter (\<lambda>op. op \<notin> set (env_ready e)) (io_held c)\<rparr>,
         th\<lparr>private_op_queue := private_op_queue th @ map Operation ready\<rparr>))"

definition complete_op :: "(nat \<Rightarrow> sched_call list) \<Rightarrow> nat \<Rightarrow> io_context \<times> thread_info \<Rightarrow> io_context \<times> thread_info" where
  "complete_op handler op = (\<lambda>(c, th). let (c, th) = sched_calls (handler op) (c, Some th) in (c, the th))"

definition with_sched :: "(scheduler \<times> thread_info \<Rightarrow> scheduler \<times> thread_info) \<Rightarrow> io_context \<times> thread_info \<Rightarrow> io_context \<times> thread_info" where
  "with_sched f = (\<lambda>(c, th). let (s, th) = f (io_sched c, th) in (c\<lparr>io_sched := s\<rparr>, th))"

text \<open>
  One operation. The result is the operation run, if any; \<open>None\<close> for the whole means that the
  thread still waits when the steps of the environment have run out.
\<close>

definition run_task_step :: "sched_op list \<Rightarrow> env_step \<Rightarrow> io_context \<times> thread_info \<Rightarrow> io_context \<times> thread_info" where
  "run_task_step rest e = (\<lambda>(c, th).
     let more_handlers = rest \<noteq> [];
         s = (io_sched c)\<lparr>sc_queue := rest, task_interrupted := more_handlers \<or> task_usec (io_sched c) = 0\<rparr>;
         s = (if more_handlers \<and> \<not> one_thread s \<and> wait_usec s \<noteq> 0 then s\<lparr>sc_signalled := True\<rparr> else s)
     in with_sched task_cleanup (task_run e (outside_calls e (c\<lparr>io_sched := s\<rparr>), th)))"

definition run_op_step :: "(nat \<Rightarrow> sched_call list) \<Rightarrow> nat \<Rightarrow> sched_op list \<Rightarrow> env_step \<Rightarrow>
    io_context \<times> thread_info \<Rightarrow> io_context \<times> thread_info" where
  "run_op_step handler op rest e = (\<lambda>(c, th).
     let s = (io_sched c)\<lparr>sc_queue := rest\<rparr>;
         s = (if rest \<noteq> [] \<and> \<not> one_thread s then wake_one_thread_and_unlock s else s)
     in with_sched work_cleanup (complete_op handler op (outside_calls e (c\<lparr>io_sched := s\<rparr>), th)))"

definition wait_step :: "env_step \<Rightarrow> io_context \<Rightarrow> io_context" where
  "wait_step e c =
     (if wait_usec (io_sched c) = 0 then outside_calls e c
      else let s = (io_sched c)\<lparr>sc_signalled := False, sc_waiters := sc_waiters (io_sched c) + 1\<rparr>;
               c = outside_calls e (c\<lparr>io_sched := s\<rparr>)
           in c\<lparr>io_sched := (io_sched c)\<lparr>sc_waiters := sc_waiters (io_sched c) - 1\<rparr>\<rparr>)"

fun do_run_one :: "(nat \<Rightarrow> sched_call list) \<Rightarrow> env_step list \<Rightarrow> io_context \<times> thread_info \<Rightarrow>
    (nat option \<times> env_step list \<times> io_context \<times> thread_info) option" where
  "do_run_one handler [] (c, th) = (if sc_stopped (io_sched c) then Some (None, [], c, th) else None)"
| "do_run_one handler (e # es) (c, th) =
     (if sc_stopped (io_sched c) then Some (None, e # es, c, th)
      else case sc_queue (io_sched c) of
             Task_operation # rest \<Rightarrow> do_run_one handler es (run_task_step rest e (c, th))
           | Operation op # rest \<Rightarrow> Some (Some op, es, run_op_step handler op rest e (c, th))
           | [] \<Rightarrow> do_run_one handler es (wait_step e c, th))"

text \<open>The loop of \<open>run\<close>; the operations run are listed in order.\<close>

lemma do_run_one_shorter:
  "do_run_one handler es ct = Some (Some op, es', ct') \<Longrightarrow> length es' < length es"
proof (induction handler es ct rule: do_run_one.induct)
  case (2 handler e es c th)
  then show ?case by (fastforce split: if_splits list.splits sched_op.splits)
qed (simp split: if_splits)

function run_loop :: "(nat \<Rightarrow> sched_call list) \<Rightarrow> env_step list \<Rightarrow> io_context \<times> thread_info \<Rightarrow> (nat list \<times> io_context \<times> thread_info) option" where
  "run_loop handler es ct =
     (case do_run_one handler es ct of
        None \<Rightarrow> None
      | Some (None, es', ct') \<Rightarrow> Some ([], ct')
      | Some (Some op, es', ct') \<Rightarrow> map_option (\<lambda>(ops, ct''). (op # ops, ct'')) (run_loop handler es' ct'))"
  by pat_completeness auto
termination
  by (relation "measure (\<lambda>(_, es, _). length es)") (auto dest: do_run_one_shorter)

declare run_loop.simps [simp del]

definition sched_run :: "(nat \<Rightarrow> sched_call list) \<Rightarrow> env_step list \<Rightarrow> io_context \<Rightarrow> (nat list \<times> io_context) option" where
  "sched_run handler es c =
     (if outstanding_work (io_sched c) = 0 then Some ([], c\<lparr>io_sched := sched_stop (io_sched c)\<rparr>)
      else map_option (\<lambda>(ops, c', _). (ops, c')) (run_loop handler es (c, thread_info_new)))"

definition sched_run_one :: "(nat \<Rightarrow> sched_call list) \<Rightarrow> env_step list \<Rightarrow> io_context \<Rightarrow> (nat option \<times> env_step list \<times> io_context) option" where
  "sched_run_one handler es c =
     (if outstanding_work (io_sched c) = 0 then Some (None, es, c\<lparr>io_sched := sched_stop (io_sched c)\<rparr>)
      else map_option (\<lambda>(r, es', c', _). (r, es', c')) (do_run_one handler es (c, thread_info_new)))"

text \<open>
  Polling and waiting for a limited time: the task is run at most once, in the first step of the environment, and the
  operation in the second.
\<close>

definition task_signal :: "io_context \<Rightarrow> io_context" where
  "task_signal c = c\<lparr>io_sched := snd (maybe_unlock_and_signal_one (io_sched c))\<rparr>"

definition do_poll_one :: "(nat \<Rightarrow> sched_call list) \<Rightarrow> env_step \<Rightarrow> env_step \<Rightarrow> io_context \<times> thread_info \<Rightarrow>
    nat option \<times> io_context \<times> thread_info" where
  "do_poll_one handler e1 e2 = (\<lambda>(c, th).
     if sc_stopped (io_sched c) then (None, c, th)
     else let (c, th) = (case sc_queue (io_sched c) of
                Task_operation # rest \<Rightarrow>
                  with_sched task_cleanup (task_run e1 (outside_calls e1 (c\<lparr>io_sched := (io_sched c)\<lparr>sc_queue := rest\<rparr>\<rparr>), th))
              | _ \<Rightarrow> (c, th))
          in case sc_queue (io_sched c) of
               Task_operation # _ \<Rightarrow> (None, task_signal c, th)
             | [] \<Rightarrow> (None, c, th)
             | Operation op # rest \<Rightarrow> (Some op, run_op_step handler op rest e2 (c, th)))"

definition timed_wait :: "env_step \<Rightarrow> io_context \<Rightarrow> io_context" where
  "timed_wait e c =
     (let s = (io_sched c)\<lparr>sc_signalled := False, sc_waiters := sc_waiters (io_sched c) + 1\<rparr>;
          c = outside_calls e (c\<lparr>io_sched := s\<rparr>)
      in c\<lparr>io_sched := (io_sched c)\<lparr>sc_waiters := sc_waiters (io_sched c) - 1\<rparr>\<rparr>)"

definition wait_task_step :: "int \<Rightarrow> sched_op list \<Rightarrow> env_step \<Rightarrow> io_context \<times> thread_info \<Rightarrow> io_context \<times> thread_info" where
  "wait_task_step usec rest e = (\<lambda>(c, th).
     let more_handlers = rest \<noteq> [];
         s = io_sched c;
         usec = (if task_usec s \<ge> 0 \<and> task_usec s < usec then task_usec s else usec);
         s = s\<lparr>sc_queue := rest, task_interrupted := more_handlers \<or> usec = 0\<rparr>;
         s = (if more_handlers \<and> \<not> one_thread s \<and> wait_usec s \<noteq> 0 then s\<lparr>sc_signalled := True\<rparr> else s)
     in with_sched task_cleanup (task_run e (outside_calls e (c\<lparr>io_sched := s\<rparr>), th)))"

definition do_wait_one :: "(nat \<Rightarrow> sched_call list) \<Rightarrow> int \<Rightarrow> env_step \<Rightarrow> env_step \<Rightarrow> env_step \<Rightarrow> io_context \<times> thread_info \<Rightarrow>
    nat option \<times> io_context \<times> thread_info" where
  "do_wait_one handler usec e0 e1 e2 = (\<lambda>(c, th).
     if sc_stopped (io_sched c) then (None, c, th)
     else let (c, usec) = (if sc_queue (io_sched c) = [] then (timed_wait e0 c, 0) else (c, usec));
              (c, th) = (case sc_queue (io_sched c) of
                  Task_operation # rest \<Rightarrow> wait_task_step usec rest e1 (c, th)
                | _ \<Rightarrow> (c, th))
          in case sc_queue (io_sched c) of
               Task_operation # _ \<Rightarrow> (None, if one_thread (io_sched c) then c else task_signal c, th)
             | [] \<Rightarrow> (None, c, th)
             | Operation op # rest \<Rightarrow> (Some op, run_op_step handler op rest e2 (c, th)))"

text \<open>The operations that wait in the private queue of an outer call are first moved to the queue.\<close>

definition take_outer :: "thread_info option \<Rightarrow> io_context \<Rightarrow> io_context \<times> thread_info option" where
  "take_outer outer c =
     (case outer of
        Some t \<Rightarrow> if one_thread (io_sched c)
          then (c\<lparr>io_sched := sched_push (private_op_queue t) (io_sched c)\<rparr>, Some (t\<lparr>private_op_queue := []\<rparr>)) else (c, outer)
      | None \<Rightarrow> (c, outer))"

definition sched_poll_one :: "(nat \<Rightarrow> sched_call list) \<Rightarrow> thread_info option \<Rightarrow> env_step \<Rightarrow> env_step \<Rightarrow> io_context \<Rightarrow>
    nat option \<times> io_context \<times> thread_info option" where
  "sched_poll_one handler outer e1 e2 c =
     (if outstanding_work (io_sched c) = 0 then (None, c\<lparr>io_sched := sched_stop (io_sched c)\<rparr>, outer)
      else let (c, outer) = take_outer outer c; (r, c, _) = do_poll_one handler e1 e2 (c, thread_info_new) in (r, c, outer))"

fun poll_loop :: "(nat \<Rightarrow> sched_call list) \<Rightarrow> (env_step \<times> env_step) list \<Rightarrow> io_context \<times> thread_info \<Rightarrow>
    (nat list \<times> io_context \<times> thread_info) option" where
  "poll_loop handler [] ct = None"
| "poll_loop handler ((e1, e2) # es) ct =
     (case do_poll_one handler e1 e2 ct of
        (None, ct') \<Rightarrow> Some ([], ct')
      | (Some op, ct') \<Rightarrow> map_option (\<lambda>(ops, ct''). (op # ops, ct'')) (poll_loop handler es ct'))"

definition sched_poll :: "(nat \<Rightarrow> sched_call list) \<Rightarrow> thread_info option \<Rightarrow> (env_step \<times> env_step) list \<Rightarrow> io_context \<Rightarrow>
    (nat list \<times> io_context \<times> thread_info option) option" where
  "sched_poll handler outer es c =
     (if outstanding_work (io_sched c) = 0 then Some ([], c\<lparr>io_sched := sched_stop (io_sched c)\<rparr>, outer)
      else let (c, outer) = take_outer outer c
           in map_option (\<lambda>(ops, c, _). (ops, c, outer)) (poll_loop handler es (c, thread_info_new)))"

definition sched_wait_one :: "(nat \<Rightarrow> sched_call list) \<Rightarrow> int \<Rightarrow> env_step \<Rightarrow> env_step \<Rightarrow> env_step \<Rightarrow> io_context \<Rightarrow>
    nat option \<times> io_context" where
  "sched_wait_one handler usec e0 e1 e2 c =
     (if outstanding_work (io_sched c) = 0 then (None, c\<lparr>io_sched := sched_stop (io_sched c)\<rparr>)
      else let (r, c, _) = do_wait_one handler usec e0 e1 e2 (c, thread_info_new) in (r, c))"

text \<open>The shutdown destroys the handlers queued; they are the second result.\<close>

definition sched_shutdown :: "scheduler \<Rightarrow> scheduler \<times> nat list" where
  "sched_shutdown s =
     (s\<lparr>sc_shutdown := True, sc_queue := [], sc_task := False\<rparr>,
      concat (map (\<lambda>x. case x of Task_operation \<Rightarrow> [] | Operation op \<Rightarrow> [op]) (sc_queue s)))"

section \<open>Outstanding work\<close>

text \<open>The number of operations in a queue; the marker of the task does not count.\<close>

definition n_ops :: "sched_op list \<Rightarrow> nat" where
  "n_ops xs = length (filter (\<lambda>x. x \<noteq> Task_operation) xs)"

lemma n_ops_simps [simp]:
  "n_ops [] = 0" "n_ops (Task_operation # xs) = n_ops xs" "n_ops (Operation op # xs) = n_ops xs + 1"
  "n_ops (xs @ ys) = n_ops xs + n_ops ys" "n_ops (map Operation ops) = length ops"
  by (simp_all add: n_ops_def filter_map comp_def)

text \<open>
  The work counted is the operations queued, those held by the reactor, the guards, and those being run
  (\<open>k\<close>); what a thread has counted for itself it has also queued for itself.
\<close>

definition work_ok :: "nat \<Rightarrow> io_context \<Rightarrow> thread_info \<Rightarrow> bool" where
  "work_ok k c th \<longleftrightarrow>
     outstanding_work (io_sched c) + private_outstanding_work th =
       int (n_ops (sc_queue (io_sched c)) + n_ops (private_op_queue th) + length (io_held c) + io_guards c + k)
     \<and> 0 \<le> private_outstanding_work th \<and> private_outstanding_work th \<le> int (n_ops (private_op_queue th))
     \<and> Task_operation \<notin> set (private_op_queue th)"

lemma interrupt_task_rest [simp]:
  "outstanding_work (interrupt_task s) = outstanding_work s" "sc_queue (interrupt_task s) = sc_queue s"
  "sc_stopped (interrupt_task s) = sc_stopped s" "sc_task (interrupt_task s) = sc_task s"
  "one_thread (interrupt_task s) = one_thread s" "wait_usec (interrupt_task s) = wait_usec s"
  by (simp_all add: interrupt_task_def)

lemma wake_rest [simp]:
  "outstanding_work (wake_one_thread_and_unlock s) = outstanding_work s" "sc_queue (wake_one_thread_and_unlock s) = sc_queue s"
  "sc_stopped (wake_one_thread_and_unlock s) = sc_stopped s" "sc_task (wake_one_thread_and_unlock s) = sc_task s"
  "one_thread (wake_one_thread_and_unlock s) = one_thread s"
  by (simp_all add: wake_one_thread_and_unlock_def maybe_unlock_and_signal_one_def)

lemma sched_push_rest [simp]:
  "outstanding_work (sched_push ops s) = outstanding_work s" "sc_queue (sched_push ops s) = sc_queue s @ ops"
  "sc_stopped (sched_push ops s) = sc_stopped s" "sc_task (sched_push ops s) = sc_task s" "one_thread (sched_push ops s) = one_thread s"
  by (simp_all add: sched_push_def)

lemma work_started_rest [simp]:
  "outstanding_work (work_started s) = outstanding_work s + 1" "sc_queue (work_started s) = sc_queue s"
  "sc_stopped (work_started s) = sc_stopped s" "sc_task (work_started s) = sc_task s" "one_thread (work_started s) = one_thread s"
  by (simp_all add: work_started_def)

lemma sched_stop_rest [simp]:
  "outstanding_work (sched_stop s) = outstanding_work s" "sc_queue (sched_stop s) = sc_queue s"
  "sc_stopped (sched_stop s)" "sc_task (sched_stop s) = sc_task s" "one_thread (sched_stop s) = one_thread s"
  by (simp_all add: sched_stop_def stop_all_threads_def)

lemma work_finished_rest [simp]:
  "outstanding_work (work_finished s) = outstanding_work s - 1" "sc_queue (work_finished s) = sc_queue s"
  "sc_stopped (work_finished s) \<longleftrightarrow> sc_stopped s \<or> outstanding_work s = 1" "sc_task (work_finished s) = sc_task s"
  "one_thread (work_finished s) = one_thread s"
  by (simp_all add: work_finished_def Let_def)

lemma length_partition: "length (filter P xs) + length (filter (\<lambda>x. \<not> P x) xs) = length xs"
  by (simp add: sum_length_filter_compl)

lemma private_push_rest [simp]:
  "private_outstanding_work (private_push n ops th) = private_outstanding_work th + n"
  "private_op_queue (private_push n ops th) = private_op_queue th @ ops"
  by (simp_all add: private_push_def)

text \<open>A call from another thread, and one from a handler.\<close>

lemma outside_call_ok:
  assumes "work_ok k c th"
  shows "\<exists>c'. do_call call (c, None) = (c', None) \<and> work_ok k c' th"
proof (cases call)
  case (Call_cancel ops)
  then show ?thesis using assms length_partition [of "\<lambda>op. op \<in> set ops" "io_held c"]
    by (auto simp: work_ok_def on_sched_def post_deferred_completions_def Let_def)
qed (use assms in \<open>auto simp: work_ok_def on_sched_def post_immediate_completion_def\<close>)

lemma handler_call_ok:
  assumes "work_ok k c th"
  shows "\<exists>c' th'. do_call call (c, Some th) = (c', Some th') \<and> work_ok k c' th'"
proof (cases call)
  case (Call_cancel ops)
  then show ?thesis using assms length_partition [of "\<lambda>op. op \<in> set ops" "io_held c"]
    by (auto simp: work_ok_def on_sched_def post_deferred_completions_def Let_def)
qed (use assms in \<open>auto simp: work_ok_def on_sched_def post_immediate_completion_def\<close>)

lemma outside_calls_ok:
  assumes "work_ok k c th"
  shows "work_ok k (outside_calls e c) th"
proof -
  have "\<exists>c'. sched_calls cs (c, None) = (c', None) \<and> work_ok k c' th" for cs
    using assms unfolding sched_calls_def
  proof (induction cs arbitrary: c)
    case (Cons call cs)
    then show ?case using outside_call_ok [OF Cons.prems, of call] by fastforce
  qed simp
  from this [of "env_calls e"] show ?thesis by (auto simp: outside_calls_def)
qed

lemma complete_op_ok:
  assumes "work_ok k c th" and "complete_op handler op (c, th) = (c', th')"
  shows "work_ok k c' th'"
proof -
  have "\<exists>c' th'. sched_calls cs (c, Some th) = (c', Some th') \<and> work_ok k c' th'" for cs
    using assms(1) unfolding sched_calls_def
  proof (induction cs arbitrary: c th)
    case (Cons call cs)
    then show ?case using handler_call_ok [OF Cons.prems, of call] by fastforce
  qed simp
  from this [of "handler op"] show ?thesis using assms(2) by (auto simp: complete_op_def)
qed

text \<open>Nothing is left to do.\<close>

definition sched_idle :: "io_context \<Rightarrow> bool" where
  "sched_idle c \<longleftrightarrow> n_ops (sc_queue (io_sched c)) = 0 \<and> io_held c = [] \<and> io_guards c = 0"

lemma work_cleanup_ok:
  assumes "work_ok 1 c th" and "with_sched work_cleanup (c, th) = (c', th')"
  shows "work_ok 0 c' th' \<and> io_guards c' = io_guards c \<and> th' = thread_info_new
    \<and> (sc_stopped (io_sched c') \<longleftrightarrow> sc_stopped (io_sched c) \<or> sched_idle c')"
proof -
  obtain q p where th: "th = \<lparr>private_op_queue = q, private_outstanding_work = p\<rparr>" by (cases th)
  have w: "outstanding_work (io_sched c) + p = int (n_ops (sc_queue (io_sched c)) + n_ops q + length (io_held c) + io_guards c + 1)"
    "0 \<le> p" "p \<le> int (n_ops q)" using assms(1) by (simp_all add: work_ok_def th)
  define s where "s = (if p > 1 then (io_sched c)\<lparr>outstanding_work := outstanding_work (io_sched c) + (p - 1)\<rparr>
    else if p < 1 then work_finished (io_sched c) else io_sched c)"
  have s: "outstanding_work s = outstanding_work (io_sched c) + p - 1" "sc_queue s = sc_queue (io_sched c)"
    "sc_stopped s \<longleftrightarrow> sc_stopped (io_sched c) \<or> p = 0 \<and> outstanding_work (io_sched c) = 1"
    using w(2) by (auto simp: s_def)
  have "work_cleanup (io_sched c, th) = (if q = [] then s else sched_push q s, thread_info_new)"
    unfolding work_cleanup_def Let_def prod.case th s_def by (cases "q = []") (simp_all add: thread_info_new_def)
  then have "c' = c\<lparr>io_sched := if q = [] then s else sched_push q s\<rparr>" "th' = thread_info_new"
    using assms(2) by (simp_all add: with_sched_def)
  then have c': "th' = thread_info_new" "outstanding_work (io_sched c') = outstanding_work s" "sc_queue (io_sched c') = sc_queue s @ q"
    "sc_stopped (io_sched c') = sc_stopped s" "io_held c' = io_held c" "io_guards c' = io_guards c" by simp_all
  have "p = 0 \<and> outstanding_work (io_sched c) = 1 \<longleftrightarrow> sched_idle c'" using w by (auto simp: sched_idle_def c' s simp flip: length_0_conv)
  moreover have "work_ok 0 c' th'" using w by (simp add: work_ok_def c' s thread_info_new_def)
  ultimately show ?thesis by (simp add: c' s)
qed

lemma task_part_ok:
  assumes "work_ok 0 c th" and "with_sched task_cleanup (task_run e (outside_calls e c, th)) = (c', th')"
  shows "work_ok 0 c' th'" and "th' = thread_info_new"
proof -
  define c1 where "c1 = outside_calls e c"
  have w: "work_ok 0 c1 th" unfolding c1_def by (rule outside_calls_ok [OF assms(1)])
  have step: "with_sched task_cleanup (task_run e (c1, th)) = (c', th')" using assms(2) by (simp add: c1_def)
  then show "th' = thread_info_new"
    by (auto simp: with_sched_def task_run_def task_cleanup_def Let_def thread_info_new_def)
  show "work_ok 0 c' th'"
    using step w length_partition [of "\<lambda>op. op \<in> set (env_ready e)" "io_held c1"]
    by (auto simp: with_sched_def task_run_def task_cleanup_def Let_def work_ok_def)
qed

lemma task_step_ok:
  assumes "work_ok 0 c th" and "sc_queue (io_sched c) = Task_operation # rest" and "run_task_step rest e (c, th) = (c', th')"
  shows "work_ok 0 c' th'" and "th' = thread_info_new"
proof -
  define s where "s = (let s = (io_sched c)\<lparr>sc_queue := rest, task_interrupted := rest \<noteq> [] \<or> task_usec (io_sched c) = 0\<rparr>
    in if rest \<noteq> [] \<and> \<not> one_thread s \<and> wait_usec s \<noteq> 0 then s\<lparr>sc_signalled := True\<rparr> else s)"
  have "work_ok 0 (c\<lparr>io_sched := s\<rparr>) th" using assms(1,2) by (simp add: work_ok_def s_def Let_def)
  moreover have "with_sched task_cleanup (task_run e (outside_calls e (c\<lparr>io_sched := s\<rparr>), th)) = (c', th')"
    using assms(3) unfolding run_task_step_def s_def Let_def prod.case .
  ultimately show "work_ok 0 c' th'" and "th' = thread_info_new" by (rule task_part_ok)+
qed

lemma wait_task_step_ok:
  assumes "work_ok 0 c th" and "sc_queue (io_sched c) = Task_operation # rest" and "wait_task_step usec rest e (c, th) = (c', th')"
  shows "work_ok 0 c' th'"
proof -
  define s where "s = (let usec = (if task_usec (io_sched c) \<ge> 0 \<and> task_usec (io_sched c) < usec then task_usec (io_sched c) else usec);
      s = (io_sched c)\<lparr>sc_queue := rest, task_interrupted := rest \<noteq> [] \<or> usec = 0\<rparr>
    in if rest \<noteq> [] \<and> \<not> one_thread s \<and> wait_usec s \<noteq> 0 then s\<lparr>sc_signalled := True\<rparr> else s)"
  have "work_ok 0 (c\<lparr>io_sched := s\<rparr>) th" using assms(1,2) by (simp add: work_ok_def s_def Let_def)
  moreover have "with_sched task_cleanup (task_run e (outside_calls e (c\<lparr>io_sched := s\<rparr>), th)) = (c', th')"
    using assms(3) unfolding wait_task_step_def s_def Let_def prod.case .
  ultimately show ?thesis by (rule task_part_ok)
qed

lemma timed_wait_ok: "work_ok k c th \<Longrightarrow> work_ok k (timed_wait e c) th"
proof -
  assume "work_ok k c th"
  then have "work_ok k (c\<lparr>io_sched := (io_sched c)\<lparr>sc_signalled := False, sc_waiters := sc_waiters (io_sched c) + 1\<rparr>\<rparr>) th"
    by (simp add: work_ok_def)
  from outside_calls_ok [OF this, of e] show ?thesis by (simp add: timed_wait_def Let_def work_ok_def)
qed

text \<open>The state in which a handler runs, with its operation taken from the queue.\<close>

definition before_op :: "sched_op list \<Rightarrow> io_context \<Rightarrow> io_context" where
  "before_op rest c = c\<lparr>io_sched :=
     (let s = (io_sched c)\<lparr>sc_queue := rest\<rparr> in if rest \<noteq> [] \<and> \<not> one_thread s then wake_one_thread_and_unlock s else s)\<rparr>"

lemma before_op_rest [simp]:
  "io_held (before_op rest c) = io_held c" "io_guards (before_op rest c) = io_guards c"
  "sc_stopped (io_sched (before_op rest c)) = sc_stopped (io_sched c)"
  by (simp_all add: before_op_def Let_def)

lemma run_op_step_eq:
  "run_op_step handler op rest e (c, th) = with_sched work_cleanup (complete_op handler op (outside_calls e (before_op rest c), th))"
  unfolding run_op_step_def before_op_def Let_def prod.case ..

lemma before_op_ok: "work_ok 0 c th \<Longrightarrow> sc_queue (io_sched c) = Operation op # rest \<Longrightarrow> work_ok 1 (before_op rest c) th"
  by (simp add: work_ok_def before_op_def Let_def)

lemma op_step_ok:
  assumes "work_ok 0 c th" and "sc_queue (io_sched c) = Operation op # rest"
    and "complete_op handler op (outside_calls e (before_op rest c), th) = (c2, th2)"
    and "run_op_step handler op rest e (c, th) = (c', th')"
  shows "work_ok 0 c' th' \<and> io_guards c' = io_guards c2 \<and> th' = thread_info_new
    \<and> (sc_stopped (io_sched c') \<longleftrightarrow> sc_stopped (io_sched c2) \<or> sched_idle c')"
proof -
  have "work_ok 1 c2 th2"
    using complete_op_ok [OF outside_calls_ok [OF before_op_ok [OF assms(1,2)]] assms(3)] .
  then show ?thesis using assms(3,4) by (intro work_cleanup_ok) (simp_all add: run_op_step_eq)
qed

lemma wait_step_ok: "work_ok k c th \<Longrightarrow> work_ok k (wait_step e c) th"
  using timed_wait_ok [of k c th e] outside_calls_ok [of k c th e] by (simp add: wait_step_def timed_wait_def Let_def)

text \<open>The end of the three functions that run one operation.\<close>

lemma run_front_ok:
  assumes "work_ok 0 c th" and "sc_queue (io_sched c) = Operation op # rest" and "run_op_step handler op rest e (c, th) = (c', th')"
  shows "work_ok 0 c' th'"
proof -
  obtain c3 th3 where "complete_op handler op (outside_calls e (before_op rest c), th) = (c3, th3)" by fastforce
  from op_step_ok [OF assms(1,2) this assms(3)] show ?thesis by blast
qed

lemma task_signal_ok: "work_ok 0 (task_signal c) th = work_ok 0 c th"
  by (simp add: task_signal_def maybe_unlock_and_signal_one_def work_ok_def)

lemma do_poll_one_ok:
  assumes "work_ok 0 c th" and "do_poll_one handler e1 e2 (c, th) = (r, c', th')"
  shows "work_ok 0 c' th'"
proof (cases "sc_stopped (io_sched c)")
  case False
  define ct where "ct = (case sc_queue (io_sched c) of
      Task_operation # rest \<Rightarrow>
        with_sched task_cleanup (task_run e1 (outside_calls e1 (c\<lparr>io_sched := (io_sched c)\<lparr>sc_queue := rest\<rparr>\<rparr>), th))
    | _ \<Rightarrow> (c, th))"
  obtain c1 th1 where ct: "ct = (c1, th1)" by (cases ct)
  have w: "work_ok 0 c1 th1"
  proof (cases "\<exists>rest. sc_queue (io_sched c) = Task_operation # rest")
    case True
    then obtain rest where q: "sc_queue (io_sched c) = Task_operation # rest" by blast
    then have "work_ok 0 (c\<lparr>io_sched := (io_sched c)\<lparr>sc_queue := rest\<rparr>\<rparr>) th" using assms(1) by (simp add: work_ok_def)
    from task_part_ok(1) [OF this] show ?thesis using ct q by (simp add: ct_def)
  next
    case False
    then show ?thesis using ct assms(1) by (auto simp: ct_def split: list.splits sched_op.splits)
  qed
  have "(case sc_queue (io_sched c1) of
      Task_operation # _ \<Rightarrow> (None, task_signal c1, th1)
    | [] \<Rightarrow> (None, c1, th1)
    | Operation op # rest \<Rightarrow> (Some op, run_op_step handler op rest e2 (c1, th1))) = (r, c', th')"
    using assms(2) False ct by (simp add: do_poll_one_def ct_def)
  then show ?thesis using w run_front_ok task_signal_ok by (auto split: list.splits sched_op.splits)
qed (use assms in \<open>simp add: do_poll_one_def\<close>)

lemma do_wait_one_ok:
  assumes "work_ok 0 c th" and "do_wait_one handler usec e0 e1 e2 (c, th) = (r, c', th')"
  shows "work_ok 0 c' th'"
proof (cases "sc_stopped (io_sched c)")
  case False
  define c0 u where "c0 = (if sc_queue (io_sched c) = [] then timed_wait e0 c else c)"
    and "u = (if sc_queue (io_sched c) = [] then 0 else usec)"
  define ct where "ct = (case sc_queue (io_sched c0) of
      Task_operation # rest \<Rightarrow> wait_task_step u rest e1 (c0, th) | _ \<Rightarrow> (c0, th))"
  obtain c1 th1 where ct: "ct = (c1, th1)" by (cases ct)
  have "work_ok 0 c0 th" using assms(1) timed_wait_ok by (simp add: c0_def)
  then have w: "work_ok 0 c1 th1" using ct wait_task_step_ok by (auto simp: ct_def split: list.splits sched_op.splits)
  have "(case sc_queue (io_sched c1) of
      Task_operation # _ \<Rightarrow> (None, if one_thread (io_sched c1) then c1 else task_signal c1, th1)
    | [] \<Rightarrow> (None, c1, th1)
    | Operation op # rest \<Rightarrow> (Some op, run_op_step handler op rest e2 (c1, th1))) = (r, c', th')"
    using assms(2) False ct unfolding do_wait_one_def ct_def c0_def u_def by (simp split: if_splits)
  then show ?thesis using w run_front_ok task_signal_ok by (auto split: list.splits sched_op.splits if_splits)
qed (use assms in \<open>simp add: do_wait_one_def\<close>)

text \<open>What every step keeps holds when the loop returns, and then the scheduler is stopped.\<close>

lemma do_run_one_keeps:
  assumes "do_run_one handler es (c, th) = Some (r, es', c', th')" and "P c th" and "set es \<subseteq> E"
    and task: "\<And>e rest c th c1 th1. e \<in> E \<Longrightarrow> \<not> sc_stopped (io_sched c) \<Longrightarrow> sc_queue (io_sched c) = Task_operation # rest \<Longrightarrow>
      P c th \<Longrightarrow> run_task_step rest e (c, th) = (c1, th1) \<Longrightarrow> P c1 th1"
    and oper: "\<And>e op rest c th c1 th1. e \<in> E \<Longrightarrow> \<not> sc_stopped (io_sched c) \<Longrightarrow> sc_queue (io_sched c) = Operation op # rest \<Longrightarrow>
      P c th \<Longrightarrow> run_op_step handler op rest e (c, th) = (c1, th1) \<Longrightarrow> P c1 th1"
    and wait: "\<And>e c th. e \<in> E \<Longrightarrow> \<not> sc_stopped (io_sched c) \<Longrightarrow> sc_queue (io_sched c) = [] \<Longrightarrow> P c th \<Longrightarrow> P (wait_step e c) th"
  shows "P c' th' \<and> set es' \<subseteq> E \<and> (r = None \<longrightarrow> sc_stopped (io_sched c'))"
  using assms(1-3)
proof (induction es arbitrary: c th)
  case Nil
  then show ?case by (simp split: if_splits)
next
  case (Cons e es)
  show ?case
  proof (cases "sc_stopped (io_sched c)")
    case False
    show ?thesis
    proof (cases "sc_queue (io_sched c)")
      case Nil
      then show ?thesis using Cons.IH [of "wait_step e c" th] Cons.prems False wait [of e c th] by simp
    next
      case q: (Cons x rest)
      show ?thesis
      proof (cases x)
        case Task_operation
        obtain c1 th1 where s: "run_task_step rest e (c, th) = (c1, th1)" by fastforce
        have "P c1 th1" using task [OF _ False _ Cons.prems(2) s] q Task_operation Cons.prems(3) by simp
        then show ?thesis using Cons.IH [of c1 th1] Cons.prems False q Task_operation s by simp
      next
        case (Operation op)
        obtain c1 th1 where s: "run_op_step handler op rest e (c, th) = (c1, th1)" by fastforce
        have "P c1 th1" using oper [OF _ False _ Cons.prems(2) s] q Operation Cons.prems(3) by simp
        then show ?thesis using Cons.prems False q Operation s by auto
      qed
    qed
  qed (use Cons.prems in auto)
qed

lemma run_loop_keeps:
  assumes "run_loop handler es (c, th) = Some (ops, c', th')" and "P c th" and "set es \<subseteq> E"
    and task: "\<And>e rest c th c1 th1. e \<in> E \<Longrightarrow> \<not> sc_stopped (io_sched c) \<Longrightarrow> sc_queue (io_sched c) = Task_operation # rest \<Longrightarrow>
      P c th \<Longrightarrow> run_task_step rest e (c, th) = (c1, th1) \<Longrightarrow> P c1 th1"
    and oper: "\<And>e op rest c th c1 th1. e \<in> E \<Longrightarrow> \<not> sc_stopped (io_sched c) \<Longrightarrow> sc_queue (io_sched c) = Operation op # rest \<Longrightarrow>
      P c th \<Longrightarrow> run_op_step handler op rest e (c, th) = (c1, th1) \<Longrightarrow> P c1 th1"
    and wait: "\<And>e c th. e \<in> E \<Longrightarrow> \<not> sc_stopped (io_sched c) \<Longrightarrow> sc_queue (io_sched c) = [] \<Longrightarrow> P c th \<Longrightarrow> P (wait_step e c) th"
  shows "P c' th' \<and> sc_stopped (io_sched c')"
  using assms(1-3)
proof (induction "length es" arbitrary: es c th ops rule: less_induct)
  case less
  obtain r es1 c1 th1 where one: "do_run_one handler es (c, th) = Some (r, es1, c1, th1)"
    using less.prems(1) by (subst (asm) run_loop.simps) (auto split: option.splits)
  have k: "P c1 th1 \<and> set es1 \<subseteq> E \<and> (r = None \<longrightarrow> sc_stopped (io_sched c1))"
    by (rule do_run_one_keeps [where P = P, OF one less.prems(2,3) task oper wait])
  show ?case
  proof (cases r)
    case None
    then show ?thesis using less.prems(1) one k by (subst (asm) run_loop.simps) auto
  next
    case (Some op)
    then obtain ops' where "run_loop handler es1 (c1, th1) = Some (ops', c', th')"
      using less.prems(1) one by (subst (asm) run_loop.simps) auto
    moreover have "length es1 < length es" using do_run_one_shorter one Some by blast
    ultimately show ?thesis using less.hyps k by blast
  qed
qed

section \<open>When the loop ends\<close>

text \<open>A call that is neither a stop nor the release of a guard does not stop the scheduler.\<close>

lemma call_keeps_running:
  assumes "call \<noteq> Call_stop" and "call \<noteq> Call_release" and "do_call call (c, t) = (c', t')"
  shows "sc_stopped (io_sched c') = sc_stopped (io_sched c) \<and> io_guards c \<le> io_guards c'"
  using assms
  by (cases call) (auto simp: on_sched_def post_immediate_completion_def post_deferred_completions_def Let_def
    split: option.splits if_splits)

lemma calls_keep_running:
  "Call_stop \<notin> set cs \<Longrightarrow> Call_release \<notin> set cs \<Longrightarrow> sched_calls cs (c, t) = (c', t') \<Longrightarrow>
     sc_stopped (io_sched c') = sc_stopped (io_sched c) \<and> io_guards c \<le> io_guards c'"
proof (induction cs arbitrary: c t)
  case (Cons call cs)
  obtain c1 t1 where "do_call call (c, t) = (c1, t1)" by fastforce
  then show ?case using Cons call_keeps_running [of call c t c1 t1] by (fastforce simp: sched_calls_def)
qed (simp add: sched_calls_def)

text \<open>A handler may release a guard: its own operation still counts.\<close>

lemma handler_keeps_running:
  assumes "work_ok 1 c th" and "Call_stop \<notin> set cs" and "sched_calls cs (c, Some th) = (c', t')"
  shows "sc_stopped (io_sched c') = sc_stopped (io_sched c)"
  using assms
proof (induction cs arbitrary: c th)
  case (Cons call cs)
  obtain c1 th1 where c1: "do_call call (c, Some th) = (c1, Some th1)" "work_ok 1 c1 th1"
    using handler_call_ok [OF Cons.prems(1), of call] by blast
  have "sc_stopped (io_sched c1) = sc_stopped (io_sched c)"
  proof (cases "call = Call_release")
    case True
    then show ?thesis using c1(1) Cons.prems(1) by (auto simp: work_ok_def split: if_splits)
  next
    case False
    then show ?thesis using call_keeps_running [OF _ False c1(1)] Cons.prems(2) by auto
  qed
  then show ?case using Cons.IH [OF c1(2)] Cons.prems c1(1) by (simp add: sched_calls_def)
qed (simp add: sched_calls_def)

lemma outside_keeps_running:
  "Call_stop \<notin> set (env_calls e) \<Longrightarrow> Call_release \<notin> set (env_calls e) \<Longrightarrow>
     sc_stopped (io_sched (outside_calls e c)) = sc_stopped (io_sched c) \<and> io_guards c \<le> io_guards (outside_calls e c)"
  using calls_keep_running [of "env_calls e" c None] by (cases "sched_calls (env_calls e) (c, None)") (auto simp: outside_calls_def)

lemma task_step_keeps_running:
  assumes "Call_stop \<notin> set (env_calls e)" and "Call_release \<notin> set (env_calls e)" and "run_task_step rest e (c, th) = (c', th')"
  shows "sc_stopped (io_sched c') = sc_stopped (io_sched c) \<and> io_guards c \<le> io_guards c'"
proof -
  define s where "s = (let s = (io_sched c)\<lparr>sc_queue := rest, task_interrupted := rest \<noteq> [] \<or> task_usec (io_sched c) = 0\<rparr>
    in if rest \<noteq> [] \<and> \<not> one_thread s \<and> wait_usec s \<noteq> 0 then s\<lparr>sc_signalled := True\<rparr> else s)"
  define c1 where "c1 = outside_calls e (c\<lparr>io_sched := s\<rparr>)"
  have "with_sched task_cleanup (task_run e (c1, th)) = (c', th')"
    using assms(3) unfolding run_task_step_def c1_def s_def Let_def prod.case .
  moreover have "sc_stopped (io_sched (fst (with_sched task_cleanup (task_run e (c1, th))))) = sc_stopped (io_sched c1)"
    "io_guards (fst (with_sched task_cleanup (task_run e (c1, th)))) = io_guards c1"
    by (simp_all add: with_sched_def task_run_def task_cleanup_def Let_def)
  ultimately have "sc_stopped (io_sched c') = sc_stopped (io_sched c1)" "io_guards c' = io_guards c1" by simp_all
  moreover have "sc_stopped s = sc_stopped (io_sched c)" by (simp add: s_def Let_def)
  ultimately show ?thesis
    using outside_keeps_running [OF assms(1,2), of "c\<lparr>io_sched := s\<rparr>"] by (simp add: c1_def)
qed

lemma wait_step_keeps_running:
  assumes "Call_stop \<notin> set (env_calls e)" and "Call_release \<notin> set (env_calls e)"
  shows "sc_stopped (io_sched (wait_step e c)) = sc_stopped (io_sched c) \<and> io_guards c \<le> io_guards (wait_step e c)"
  using outside_keeps_running [OF assms, of c]
    outside_keeps_running [OF assms, of "c\<lparr>io_sched := (io_sched c)\<lparr>sc_signalled := False, sc_waiters := sc_waiters (io_sched c) + 1\<rparr>\<rparr>"]
  by (simp add: wait_step_def Let_def)

text \<open>The loop is running and a guard keeps it so.\<close>

definition serving :: "io_context \<Rightarrow> thread_info \<Rightarrow> bool" where
  "serving c th \<longleftrightarrow> work_ok 0 c th \<and> 0 < io_guards c \<and> \<not> sc_stopped (io_sched c)"

definition quiet :: "sched_call list \<Rightarrow> bool" where
  "quiet cs \<longleftrightarrow> Call_stop \<notin> set cs \<and> Call_release \<notin> set cs"

lemma serving_op:
  assumes "serving c th" and "quiet (env_calls e)" and "quiet (handler op)" and "sc_queue (io_sched c) = Operation op # rest"
    and "run_op_step handler op rest e (c, th) = (c', th')"
  shows "serving c' th'"
proof -
  obtain c3 th3 where c3: "complete_op handler op (outside_calls e (before_op rest c), th) = (c3, th3)" by fastforce
  then obtain t3 where "sched_calls (handler op) (outside_calls e (before_op rest c), Some th) = (c3, t3)"
    by (auto simp: complete_op_def split: prod.splits)
  then have "\<not> sc_stopped (io_sched c3)" "0 < io_guards c3"
    using calls_keep_running [of "handler op"] outside_keeps_running [of e "before_op rest c"] assms(1-3)
    by (fastforce simp: serving_def quiet_def)+
  with op_step_ok [OF _ assms(4) c3 assms(5)] assms(1) show ?thesis by (auto simp: serving_def sched_idle_def)
qed

lemma serving_task:
  assumes "serving c th" and "quiet (env_calls e)" and "sc_queue (io_sched c) = Task_operation # rest"
    and "run_task_step rest e (c, th) = (c', th')"
  shows "serving c' th'"
  using task_step_ok(1) [OF _ assms(3,4)] task_step_keeps_running [OF _ _ assms(4)] assms(1,2) by (auto simp: serving_def quiet_def)

lemma serving_wait: "serving c th \<Longrightarrow> quiet (env_calls e) \<Longrightarrow> serving (wait_step e c) th"
  using wait_step_ok wait_step_keeps_running [of e c] by (auto simp: serving_def quiet_def)

text \<open>
  C38. While a work guard is held and nobody calls \<open>stop\<close>, \<open>run\<close> does not return, whatever the handlers
  and the other threads post, start and cancel and whatever the reactor reports: the thread of the
  server serves its connections until \<open>stop_server\<close>.
\<close>

theorem guarded_run_never_returns:
  assumes "work_ok 0 c thread_info_new" and "0 < io_guards c" and "\<not> sc_stopped (io_sched c)"
    and "\<forall>e \<in> set es. quiet (env_calls e)" and "\<forall>op. quiet (handler op)"
  shows "sched_run handler es c = None"
proof (rule ccontr)
  assume "sched_run handler es c \<noteq> None"
  moreover have "outstanding_work (io_sched c) \<noteq> 0" using assms(1,2) by (auto simp: work_ok_def thread_info_new_def)
  ultimately obtain ops c' th' where "run_loop handler es (c, thread_info_new) = Some (ops, c', th')"
    by (auto simp: sched_run_def)
  then have "serving c' th' \<and> sc_stopped (io_sched c')"
  proof (rule run_loop_keeps [where E = "set es"])
    show "serving c thread_info_new" using assms(1-3) by (simp add: serving_def)
    show "serving c2 th2" if "e \<in> set es" "sc_queue (io_sched c1) = Task_operation # rest" "serving c1 th1"
      "run_task_step rest e (c1, th1) = (c2, th2)" for e rest c1 th1 c2 th2
      using serving_task [OF that(3) _ that(2,4)] that(1) assms(4) by blast
    show "serving c2 th2" if "e \<in> set es" "sc_queue (io_sched c1) = Operation op # rest" "serving c1 th1"
      "run_op_step handler op rest e (c1, th1) = (c2, th2)" for e op rest c1 th1 c2 th2
      using serving_op [OF that(3) _ _ that(2,4)] that(1) assms(4,5) by blast
    show "serving (wait_step e c1) th1" if "e \<in> set es" "serving c1 th1" for e c1 th1
      using serving_wait [OF that(2)] that(1) assms(4) by blast
  qed simp
  then show False by (simp add: serving_def)
qed

text \<open>
  C39. The count of outstanding work is exact: running, polling or waiting for one operation keeps it equal to the number
  of operations queued and held by the reactor and of guards, whatever the handler, the other threads
  and the reactor do meanwhile.
\<close>

theorem outstanding_work_exact:
  assumes "work_ok 0 c th"
    and "do_run_one handler es (c, th) = Some (r, es', c', th') \<or> do_poll_one handler e1 e2 (c, th) = (r, c', th')
      \<or> do_wait_one handler usec e0 e1 e2 (c, th) = (r, c', th')"
  shows "work_ok 0 c' th'"
  using assms(2)
proof (elim disjE)
  assume "do_run_one handler es (c, th) = Some (r, es', c', th')"
  from do_run_one_keeps [where P = "work_ok 0", OF this assms(1) subset_UNIV] task_step_ok(1) run_front_ok wait_step_ok
  show ?thesis by blast
qed (rule do_poll_one_ok [OF assms(1)] do_wait_one_ok [OF assms(1)], assumption)+

text \<open>The server when its thread starts: the reactor is initialised, a guard is held, and an accept is pending.\<close>

definition server_context :: io_context where
  "server_context =
     (let s = work_started (work_started (init_task (scheduler_new False (- 1) (- 1))))
      in \<lparr>io_sched = s, io_held = [1], io_guards = 1\<rparr>)"

lemma server_context_ok: "work_ok 0 server_context thread_info_new" "0 < io_guards server_context"
  "\<not> sc_stopped (io_sched server_context)"
  by (simp_all add: work_ok_def server_context_def scheduler_new_def init_task_def thread_info_new_def Let_def)

theorem guarded_run_never_returns_witness:
  "sched_run (\<lambda>op. [Call_post (op + 1) True, Call_start op]) (replicate 5 \<lparr>env_calls = [Call_post 8 False], env_ready = [1]\<rparr>)
     server_context = None"
  using guarded_run_never_returns [OF server_context_ok, of "replicate 5 \<lparr>env_calls = [Call_post 8 False], env_ready = [1]\<rparr>"
    "\<lambda>op. [Call_post (op + 1) True, Call_start op]"] by (simp add: quiet_def)

theorem outstanding_work_exact_witness:
  "work_ok 0 (fst (snd (do_poll_one (\<lambda>_. [Call_post 5 False]) \<lparr>env_calls = [Call_start 4], env_ready = [1]\<rparr>
      \<lparr>env_calls = [], env_ready = []\<rparr> (server_context, thread_info_new)))) thread_info_new"
proof -
  let ?p = "do_poll_one (\<lambda>_. [Call_post 5 False]) \<lparr>env_calls = [Call_start 4], env_ready = [1]\<rparr>
      \<lparr>env_calls = [], env_ready = []\<rparr> (server_context, thread_info_new)"
  have "?p = (fst ?p, fst (snd ?p), snd (snd ?p))" by simp
  moreover have "snd (snd ?p) = thread_info_new" by code_simp
  ultimately show ?thesis using outstanding_work_exact [OF server_context_ok(1)] by metis
qed

text \<open>Stopped only when nothing is left.\<close>

definition settled :: "io_context \<Rightarrow> thread_info \<Rightarrow> bool" where
  "settled c th \<longleftrightarrow> work_ok 0 c th \<and> th = thread_info_new \<and> (sc_stopped (io_sched c) \<longrightarrow> sched_idle c)"

lemma settled_op:
  assumes "settled c th" and "env_calls e = []" and "Call_stop \<notin> set (handler op)" and "\<not> sc_stopped (io_sched c)"
    and "sc_queue (io_sched c) = Operation op # rest" and "run_op_step handler op rest e (c, th) = (c', th')"
  shows "settled c' th'"
proof -
  have out: "outside_calls e (before_op rest c) = before_op rest c" by (simp add: outside_calls_def sched_calls_def assms(2))
  obtain c3 th3 where c3: "complete_op handler op (outside_calls e (before_op rest c), th) = (c3, th3)" by fastforce
  then obtain t3 where "sched_calls (handler op) (before_op rest c, Some th) = (c3, t3)"
    by (auto simp: complete_op_def out split: prod.splits)
  moreover have "work_ok 1 (before_op rest c) th" using before_op_ok [OF _ assms(5)] assms(1) unfolding settled_def by blast
  ultimately have "\<not> sc_stopped (io_sched c3)" using handler_keeps_running assms(3,4) by fastforce
  with op_step_ok [OF _ assms(5) c3 assms(6)] assms(1) show ?thesis by (auto simp: settled_def)
qed

text \<open>
  Without a call of \<open>stop\<close> the loop of a single thread returns only when all work is done: no operation is queued,
  none is held by the reactor, and no guard is left.
\<close>

theorem run_finishes_work:
  assumes "work_ok 0 c thread_info_new" and "\<not> sc_stopped (io_sched c)"
    and "\<forall>e \<in> set es. env_calls e = []" and "\<forall>op. Call_stop \<notin> set (handler op)"
    and "sched_run handler es c = Some (ops, c')"
  shows "sched_idle c' \<and> outstanding_work (io_sched c') = 0 \<and> sc_stopped (io_sched c')"
proof (cases "outstanding_work (io_sched c) = 0")
  case True
  then have "sched_idle c" using assms(1) by (auto simp: work_ok_def sched_idle_def thread_info_new_def simp flip: length_0_conv)
  then show ?thesis using True assms(5) by (auto simp: sched_run_def sched_idle_def)
next
  case False
  then obtain th' where "run_loop handler es (c, thread_info_new) = Some (ops, c', th')" using assms(5) by (auto simp: sched_run_def)
  then have end_state: "settled c' th' \<and> sc_stopped (io_sched c')"
  proof (rule run_loop_keeps [where E = "set es"])
    show "settled c thread_info_new" using assms(1,2) by (simp add: settled_def)
    show "settled c2 th2" if "e \<in> set es" "\<not> sc_stopped (io_sched c1)" "sc_queue (io_sched c1) = Task_operation # rest" "settled c1 th1"
      "run_task_step rest e (c1, th1) = (c2, th2)" for e rest c1 th1 c2 th2
      using task_step_ok [OF _ that(3,5)] task_step_keeps_running [OF _ _ that(5)] that assms(3) by (auto simp: settled_def)
    show "settled c2 th2" if "e \<in> set es" "\<not> sc_stopped (io_sched c1)" "sc_queue (io_sched c1) = Operation op # rest" "settled c1 th1"
      "run_op_step handler op rest e (c1, th1) = (c2, th2)" for e op rest c1 th1 c2 th2
      using settled_op [OF that(4) _ _ that(2,3,5)] that(1) assms(3,4) by blast
    show "settled (wait_step e c1) th1" if "e \<in> set es" "\<not> sc_stopped (io_sched c1)" "settled c1 th1" for e c1 th1
      using wait_step_ok wait_step_keeps_running [of e c1] that assms(3) by (auto simp: settled_def)
  qed simp
  then show ?thesis by (auto simp: settled_def work_ok_def sched_idle_def thread_info_new_def)
qed

theorem run_finishes_work_witness:
  "\<exists>ops c'. sched_run (\<lambda>op. if op = 1 then [Call_post 2 True, Call_start 3] else if op = 3 then [Call_release] else [])
      (replicate 8 \<lparr>env_calls = [], env_ready = [1, 3]\<rparr>) server_context = Some (ops, c')
    \<and> ops = [1, 2, 3] \<and> sched_idle c' \<and> outstanding_work (io_sched c') = 0 \<and> sc_stopped (io_sched c')"
proof -
  let ?h = "\<lambda>op. if op = 1 then [Call_post 2 True, Call_start 3] else if op = 3 then [Call_release] else []"
    and ?es = "replicate 8 \<lparr>env_calls = [], env_ready = [1, 3]\<rparr>"
  have "map_option fst (sched_run ?h ?es server_context) = Some [1, 2, 3]" by code_simp
  then obtain c' where "sched_run ?h ?es server_context = Some ([1, 2, 3], c')" by auto
  with run_finishes_work [OF server_context_ok(1,3) _ _ this] show ?thesis by auto
qed

text \<open>Calls of handlers and other threads only append to the queue.\<close>

lemma call_appends: "do_call call (c, t) = (c', t') \<Longrightarrow> \<exists>ys. sc_queue (io_sched c') = sc_queue (io_sched c) @ ys"
  by (cases call) (auto simp: on_sched_def post_immediate_completion_def post_deferred_completions_def Let_def
    split: option.splits if_splits)

lemma outside_appends: "\<exists>ys. sc_queue (io_sched (outside_calls e c)) = sc_queue (io_sched c) @ ys"
proof -
  have "\<exists>ys. sc_queue (io_sched (fst (sched_calls cs (c, t)))) = sc_queue (io_sched c) @ ys" for cs t
  proof (induction cs arbitrary: c t)
    case (Cons call cs)
    obtain c1 t1 where c1: "do_call call (c, t) = (c1, t1)" by fastforce
    then show ?case using call_appends [OF c1] Cons.IH [of c1 t1] by (auto simp: sched_calls_def)
  qed (simp add: sched_calls_def)
  then show ?thesis by (simp add: outside_calls_def)
qed

lemma task_step_appends:
  assumes "run_task_step rest e (c, th) = (c', th')"
  shows "\<exists>ys. sc_queue (io_sched c') = rest @ ys"
proof -
  define s where "s = (let s = (io_sched c)\<lparr>sc_queue := rest, task_interrupted := rest \<noteq> [] \<or> task_usec (io_sched c) = 0\<rparr>
    in if rest \<noteq> [] \<and> \<not> one_thread s \<and> wait_usec s \<noteq> 0 then s\<lparr>sc_signalled := True\<rparr> else s)"
  define c1 where "c1 = outside_calls e (c\<lparr>io_sched := s\<rparr>)"
  have "with_sched task_cleanup (task_run e (c1, th)) = (c', th')"
    using assms unfolding run_task_step_def c1_def s_def Let_def prod.case .
  moreover have "\<exists>ys. sc_queue (io_sched (fst (with_sched task_cleanup (task_run e (c1, th))))) = sc_queue (io_sched c1) @ ys"
    by (simp add: with_sched_def task_run_def task_cleanup_def Let_def)
  moreover have "sc_queue s = rest" by (simp add: s_def Let_def)
  then obtain zs where "sc_queue (io_sched c1) = rest @ zs"
    using outside_appends [of e "c\<lparr>io_sched := s\<rparr>"] by (auto simp: c1_def)
  ultimately show ?thesis by auto
qed

text \<open>
  The loop does not block while an operation is ready: the first operation in the queue is run
  next, at most one run of the reactor later, and before any operation queued after it.
\<close>

theorem ready_operation_runs:
  assumes "\<not> sc_stopped (io_sched c)" and "sc_queue (io_sched c) = pre @ Operation op # post" and "pre = [] \<or> pre = [Task_operation]"
    and "quiet (env_calls e)" and "0 < length es"
  shows "\<exists>es' c' th'. do_run_one handler (e # es) (c, th) = Some (Some op, es', c', th')"
  using assms(3)
proof
  assume "pre = []"
  then show ?thesis using assms(1,2) by (cases "run_op_step handler op post e (c, th)") simp
next
  assume pre: "pre = [Task_operation]"
  obtain c1 th1 where s: "run_task_step (Operation op # post) e (c, th) = (c1, th1)" by fastforce
  obtain ys where "sc_queue (io_sched c1) = Operation op # ys" using task_step_appends [OF s] by auto
  moreover have "\<not> sc_stopped (io_sched c1)"
    using task_step_keeps_running [OF _ _ s] assms(1,4) by (simp add: quiet_def)
  moreover obtain e2 es2 where "es = e2 # es2" using assms(5) by (cases es) auto
  ultimately show ?thesis using pre assms(1,2) s by (cases "run_op_step handler op ys e2 (c1, th1)") simp
qed

theorem ready_operation_runs_witness:
  "\<exists>es' c' th'. do_run_one (\<lambda>_. []) [\<lparr>env_calls = [Call_post 8 False], env_ready = [1]\<rparr>, \<lparr>env_calls = [], env_ready = []\<rparr>]
      (server_context\<lparr>io_sched := do_dispatch 4 (io_sched server_context)\<rparr>, thread_info_new) = Some (Some 4, es', c', th')"
  using ready_operation_runs [of "server_context\<lparr>io_sched := do_dispatch 4 (io_sched server_context)\<rparr>" "[Task_operation]" 4 "[]"
    "\<lparr>env_calls = [Call_post 8 False], env_ready = [1]\<rparr>" "[\<lparr>env_calls = [], env_ready = []\<rparr>]" "\<lambda>_. []" thread_info_new]
  by (simp add: server_context_def do_dispatch_def scheduler_new_def init_task_def Let_def quiet_def)

end
