(* ===== verification/Asio_Timer_Service.thy ===== *)
theory Asio_Timer_Service
  imports Asio_Timer_Queue Asio_Scheduler
begin

text \<open>
  The timers the host waits with: the time arithmetic of
  \<open>vendors/asio-1.36.0/include/asio/detail/chrono_time_traits.hpp\<close>, the part of the reactor that serves timers
  (\<open>detail/impl/epoll_reactor.hpp\<close> and \<open>.ipp\<close>, \<open>detail/impl/timer_queue_set.ipp\<close>), and the service behind
  \<open>asio::steady_timer\<close> (\<open>detail/deadline_timer_service.hpp\<close>).

  Times and durations are 64-bit counts of clock ticks, kept as integers; the arithmetic below never
  leaves the range, which is proved.
\<close>

section \<open>Times\<close>

definition time_min :: int where
  "time_min = - (2 ^ 63)"

definition time_max :: int where
  "time_max = 2 ^ 63 - 1"

definition in_range :: "int \<Rightarrow> bool" where
  "in_range x \<longleftrightarrow> time_min \<le> x \<and> x \<le> time_max"

definition chrono_add :: "int \<Rightarrow> int \<Rightarrow> int" where
  "chrono_add t d =
     (if t \<ge> 0 then if time_max - t < d then time_max else t + d
      else if - (t - time_min) > d then time_min else t + d)"

definition chrono_subtract :: "int \<Rightarrow> int \<Rightarrow> int" where
  "chrono_subtract t1 t2 =
     (if t1 \<ge> 0 then
        if t2 \<ge> 0 then t1 - t2
        else if t2 = time_min then time_max
        else if time_max - t1 < 0 - t2 then time_max
        else t1 - t2
      else
        if t2 < 0 then t1 - t2
        else if t1 = time_min then time_min
        else if time_max - t2 < 0 - t1 then time_min
        else - (t2 - t1))"

text \<open>The nearest value of the type.\<close>

definition saturate :: "int \<Rightarrow> int" where
  "saturate x = max time_min (min time_max x)"

text \<open>
  The sum and the difference of times saturate: the result is the exact one, or the end of the
  range it lies beyond.
\<close>

theorem chrono_saturates:
  assumes "in_range t" and "in_range d"
  shows "chrono_add t d = saturate (t + d) \<and> chrono_subtract t d = saturate (t - d)"
  using assms by (auto simp: chrono_add_def chrono_subtract_def saturate_def in_range_def time_min_def time_max_def)

theorem chrono_saturates_witness:
  "chrono_add time_max 5 = saturate (time_max + 5) \<and> chrono_subtract time_max 5 = saturate (time_max - 5)"
  using chrono_saturates [of time_max 5] by (simp add: in_range_def time_min_def time_max_def)

text \<open>The conversion to another period; the period of the clock is \<open>pnum / pden\<close> seconds.\<close>

function gcd_t :: "int \<Rightarrow> int \<Rightarrow> int" where
  "gcd_t v1 v2 = (if v2 = 0 then v1 else gcd_t v2 (v1 mod v2))"
  by pat_completeness auto
termination
  by (relation "measure (\<lambda>(_, v2). nat \<bar>v2\<bar>)") (auto simp: abs_mod_less zless_nat_eq_int_zless)

declare gcd_t.simps [simp del]

definition c_div :: "int \<Rightarrow> int \<Rightarrow> int" where
  "c_div a b = (if a \<ge> 0 then a div b else - ((- a) div b))"

definition duration_cast :: "int \<Rightarrow> int \<Rightarrow> int \<Rightarrow> int \<Rightarrow> int \<Rightarrow> int" where
  "duration_cast pnum pden Num Den ticks =
     (let num1 = c_div pnum (gcd_t pnum Num);
          num2 = c_div Num (gcd_t pnum Num);
          den1 = c_div pden (gcd_t pden Den);
          den2 = c_div Den (gcd_t pden Den);
          num = num1 * den2;
          den = num2 * den1
      in if num = 1 \<and> den = 1 then ticks
         else if num \<noteq> 1 \<and> den = 1 then ticks * num
         else if num = 1 \<and> pden \<noteq> 1 then c_div ticks den
         else c_div (ticks * num) den)"

text \<open>The steady clock counts nanoseconds.\<close>

definition total_seconds :: "int \<Rightarrow> int" where
  "total_seconds = duration_cast 1 1000000000 1 1"

definition total_milliseconds :: "int \<Rightarrow> int" where
  "total_milliseconds = duration_cast 1 1000000000 1 1000"

definition total_microseconds :: "int \<Rightarrow> int" where
  "total_microseconds = duration_cast 1 1000000000 1 1000000"

lemma gcd_t_values: "gcd_t 1 1 = 1" "gcd_t 1000000000 1 = 1" "gcd_t 1000000000 1000 = 1000" "gcd_t 1000000000 1000000 = 1000000"
  by (simp_all add: gcd_t.simps)

lemma totals:
  "total_seconds d = c_div d 1000000000" "total_milliseconds d = c_div d 1000000" "total_microseconds d = c_div d 1000"
  by (simp_all add: total_seconds_def total_milliseconds_def total_microseconds_def duration_cast_def gcd_t_values c_div_def)

section \<open>The timeout of the reactor\<close>

text \<open>The set of queues is a list, linked from its first queue.\<close>

definition tqs_insert :: "'q \<Rightarrow> 'q list \<Rightarrow> 'q list" where
  "tqs_insert q qs = q # qs"

definition tqs_erase :: "'q \<Rightarrow> 'q list \<Rightarrow> 'q list" where
  "tqs_erase q qs = remove1 q qs"

definition all_empty :: "timer_queue list \<Rightarrow> bool" where
  "all_empty qs \<longleftrightarrow> list_all tq_empty qs"

definition set_wait_duration_msec :: "int \<Rightarrow> int \<Rightarrow> timer_queue list \<Rightarrow> int" where
  "set_wait_duration_msec now max_duration qs =
     fold (\<lambda>q d. wait_duration_msec chrono_subtract total_milliseconds now d q) qs max_duration"

definition set_wait_duration_usec :: "int \<Rightarrow> int \<Rightarrow> timer_queue list \<Rightarrow> int" where
  "set_wait_duration_usec now max_duration qs =
     fold (\<lambda>q d. wait_duration_usec chrono_subtract total_microseconds now d q) qs max_duration"

fun set_get_ready_timers :: "int \<Rightarrow> timer_queue list \<Rightarrow> wait_op list \<Rightarrow> (timer_queue list \<times> wait_op list) option" where
  "set_get_ready_timers now [] ops = Some ([], ops)"
| "set_get_ready_timers now (q # qs) ops =
     (case get_ready_timers now q ops of
        None \<Rightarrow> None
      | Some (q', ops) \<Rightarrow> map_option (\<lambda>(qs', ops). (q' # qs', ops)) (set_get_ready_timers now qs ops))"

fun set_get_all_timers :: "timer_queue list \<Rightarrow> wait_op list \<Rightarrow> (timer_queue list \<times> wait_op list) option" where
  "set_get_all_timers [] ops = Some ([], ops)"
| "set_get_all_timers (q # qs) ops =
     (case get_all_timers q ops of
        None \<Rightarrow> None
      | Some (q', ops) \<Rightarrow> map_option (\<lambda>(qs', ops). (q' # qs', ops)) (set_get_all_timers qs ops))"

definition get_timeout_msec :: "int \<Rightarrow> int \<Rightarrow> timer_queue list \<Rightarrow> int" where
  "get_timeout_msec now msec qs =
     (let max_msec = 5 * 60 * 1000
      in set_wait_duration_msec now (if msec < 0 \<or> max_msec < msec then max_msec else msec) qs)"

text \<open>The value for the timer descriptor, seconds and nanoseconds, and whether it is absolute.\<close>

definition get_timeout :: "int \<Rightarrow> timer_queue list \<Rightarrow> int \<times> int \<times> bool" where
  "get_timeout now qs =
     (let usec = set_wait_duration_usec now (5 * 60 * 1000 * 1000) qs
      in (c_div usec 1000000, if usec \<noteq> 0 then usec mod 1000000 * 1000 else 1, usec = 0))"

lemma to_usec_bounds:
  assumes "0 \<le> max_duration"
  shows "0 \<le> to_usec total_microseconds d max_duration" and "to_usec total_microseconds d max_duration \<le> max max_duration 1"
  using assms by (auto simp: to_usec_def Let_def totals c_div_def)

lemma to_usec_due: "0 < max_duration \<Longrightarrow> to_usec total_microseconds d max_duration = 0 \<longleftrightarrow> d \<le> 0"
  by (auto simp: to_usec_def Let_def totals c_div_def)

lemma to_usec_upper: "0 < d \<Longrightarrow> to_usec total_microseconds d max_duration \<le> max 1 (d div 1000)"
  by (auto simp: to_usec_def Let_def totals c_div_def)

lemma chrono_subtract_pos: "in_range x \<Longrightarrow> in_range y \<Longrightarrow> chrono_subtract x y \<le> 0 \<longleftrightarrow> x \<le> y"
  by (auto simp: chrono_subtract_def in_range_def time_min_def time_max_def)

lemma chrono_subtract_upper: "in_range x \<Longrightarrow> in_range y \<Longrightarrow> y < x \<Longrightarrow> chrono_subtract x y \<le> x - y"
  by (auto simp: chrono_subtract_def in_range_def time_min_def time_max_def)

lemma wait_usec_facts:
  assumes "tq_ok q" and "in_range now" and "\<forall>t x ops. agenda q t = Some (x, ops) \<longrightarrow> in_range x"
  defines "w \<equiv> wait_duration_usec chrono_subtract total_microseconds now 300000000 q"
  shows "0 \<le> w" and "w \<le> 300000000" and "w = 0 \<longleftrightarrow> (\<exists>t x ops. agenda q t = Some (x, ops) \<and> x \<le> now)"
    and "agenda q t = Some (x, ops) \<Longrightarrow> now < x \<Longrightarrow> w \<le> max 1 ((x - now) div 1000)"
proof -
  have ok: "heap_ok q" using assms(1) by (simp add: tq_ok_due)
  show "0 \<le> w" "w \<le> 300000000"
    using to_usec_bounds [of 300000000 "chrono_subtract (time_at q 0) now"] by (simp_all add: w_def wait_duration_usec_def)
  have root: "time_at q 0 \<le> x" "tq_heap q \<noteq> []" if "agenda q t = Some (x, ops)" for t x ops
    using root_earliest [OF ok, of t x] that by (auto simp: agenda_def)
  have at: "\<exists>ops. agenda q (he_timer (tq_heap q ! 0)) = Some (time_at q 0, ops)" if "tq_heap q \<noteq> []"
    using root_due [OF ok that] by (simp add: agenda_def)
  have r0: "in_range (time_at q 0)" if "tq_heap q \<noteq> []" using at [OF that] assms(3) by blast
  show zero: "w = 0 \<longleftrightarrow> (\<exists>t x ops. agenda q t = Some (x, ops) \<and> x \<le> now)"
  proof (cases "tq_heap q = []")
    case True
    then show ?thesis using root(2) by (auto simp: w_def wait_duration_usec_def)
  next
    case False
    then have "w = 0 \<longleftrightarrow> time_at q 0 \<le> now"
      using to_usec_due chrono_subtract_pos [OF r0 [OF False] assms(2)] by (simp add: w_def wait_duration_usec_def)
    then show ?thesis using at [OF False] root(1) by (meson order.trans)
  qed
  assume a: "agenda q t = Some (x, ops)" "now < x"
  show "w \<le> max 1 ((x - now) div 1000)"
  proof (cases "time_at q 0 \<le> now")
    case True
    then have "w = 0" using at [OF root(2) [OF a(1)]] zero by blast
    then show ?thesis by simp
  next
    case False
    let ?d = "chrono_subtract (time_at q 0) now"
    have "0 < ?d" "?d \<le> time_at q 0 - now"
      using chrono_subtract_pos chrono_subtract_upper r0 [OF root(2) [OF a(1)]] assms(2) False by force+
    then have "w \<le> max 1 (?d div 1000)" "?d div 1000 \<le> (x - now) div 1000"
      using to_usec_upper [of ?d 300000000] root [OF a(1)] by (auto simp: w_def wait_duration_usec_def intro!: zdiv_mono1)
    then show ?thesis by linarith
  qed
qed

text \<open>
  The time the reactor sets its timer descriptor to is valid and never disarms it; it is in the past exactly if
  some timer is due, and otherwise not later than any timer, up to the microsecond to which it is rounded.
\<close>

theorem get_timeout_covers_timers:
  assumes "tq_ok q" and "in_range now" and "\<forall>t x ops. agenda q t = Some (x, ops) \<longrightarrow> in_range x"
    and "get_timeout now [q] = (sec, nsec, absolute)"
  shows "0 \<le> sec \<and> 0 \<le> nsec \<and> nsec < 10 ^ 9 \<and> 0 < sec * 10 ^ 9 + nsec
    \<and> (absolute \<longleftrightarrow> (\<exists>t x ops. agenda q t = Some (x, ops) \<and> x \<le> now))
    \<and> (\<forall>t x ops. agenda q t = Some (x, ops) \<and> now < x \<longrightarrow> sec * 10 ^ 9 + nsec \<le> max 1000 (x - now))"
proof -
  define w where "w = wait_duration_usec chrono_subtract total_microseconds now 300000000 q"
  note w = wait_usec_facts [OF assms(1-3), folded w_def]
  have out: "sec = w div 1000000" "nsec = (if w \<noteq> 0 then w mod 1000000 * 1000 else 1)" "absolute \<longleftrightarrow> w = 0"
    using assms(4) w(1) by (auto simp: get_timeout_def set_wait_duration_usec_def w_def c_div_def Let_def)
  have total: "sec * 10 ^ 9 + nsec = (if w = 0 then 1 else w * 1000)"
  proof (cases "w = 0")
    case False
    have "w div 1000000 * 1000000000 + w mod 1000000 * 1000 = w * 1000" using div_mult_mod_eq [of w 1000000] by linarith
    then show ?thesis using False unfolding out by simp
  qed (simp add: out)
  have "sec * 10 ^ 9 + nsec \<le> max 1000 (x - now)" if "agenda q t = Some (x, ops)" "now < x" for t x ops
  proof -
    have "w * 1000 \<le> max 1 ((x - now) div 1000) * 1000" using w(4) [OF that] by (rule mult_right_mono) simp
    moreover have "(x - now) div 1000 * 1000 \<le> x - now"
      using div_mult_mod_eq [of "x - now" 1000] pos_mod_sign [of 1000 "x - now"] by linarith
    ultimately have "w * 1000 \<le> max 1000 (x - now)" by (simp add: max_def split: if_splits)
    then show ?thesis unfolding total by (auto split: if_splits)
  qed
  moreover have "0 \<le> sec" "0 \<le> nsec" "nsec < 10 ^ 9" using w(1) by (auto simp: out)
  moreover have "0 < sec * 10 ^ 9 + nsec" unfolding total using w(1) by auto
  ultimately show ?thesis unfolding out(3) w(3) by blast
qed

text \<open>One timer that fires five milliseconds after the epoch.\<close>

definition sample_op :: wait_op where
  "sample_op = \<lparr>wo_id = 7, wo_key = 0, wo_ec = No_error\<rparr>"

definition sample_queue :: timer_queue where
  "sample_queue = snd (enqueue_timer 5000000 3 sample_op timer_queue_new)"

lemma sample_queue_ok: "tq_ok sample_queue" "agenda sample_queue = [3 \<mapsto> (5000000, [sample_op])]"
  unfolding sample_queue_def
  using enqueue_timer_ok [OF timer_queue_new_ok] by (simp_all add: agenda_new agenda_enqueue_def)

lemma sample_queue_heap: "tq_heap sample_queue = [\<lparr>he_time = 5000000, he_timer = 3\<rparr>]"
  by (simp add: sample_queue_def enqueue_timer_def is_enqueued_def timer_queue_new_def timer_data_new_def heap_insert_def
    link_front_def update_timer_def Let_def up_heap.simps)

theorem get_timeout_covers_timers_witness:
  "get_timeout 1000 [sample_queue] = (0, 4999000, False)
    \<and> (\<forall>t x ops. agenda sample_queue t = Some (x, ops) \<and> 1000 < x \<longrightarrow> 0 * 10 ^ 9 + 4999000 \<le> max 1000 (x - 1000))"
proof -
  have "get_timeout 1000 [sample_queue] = (0, 4999000, False)"
    by (simp add: get_timeout_def set_wait_duration_usec_def wait_duration_usec_def sample_queue_heap to_usec_def
      chrono_subtract_def totals c_div_def Let_def)
  with get_timeout_covers_timers [OF sample_queue_ok(1) _ _ this] show ?thesis
    by (simp add: sample_queue_ok(2) in_range_def time_min_def time_max_def)
qed

section \<open>Timers of the reactor\<close>

text \<open>
  The reactor's view of the scheduler: the scheduler and, if the caller runs it, the calling thread.
  \<open>re_updates\<close> counts the calls of \<open>update_timeout\<close>, which hand the value of \<open>get_timeout\<close> to the system.
  The scheduler is given the addresses of waits; \<open>re_posted\<close> are these waits as they are handed to it,
  with the error code their handlers are called with.
\<close>

record reactor =
  re_shutdown :: bool
  re_queue :: timer_queue
  re_sched :: "scheduler \<times> thread_info option"
  re_updates :: nat
  re_posted :: "wait_op list"

definition schedule_timer :: "int \<Rightarrow> timer \<Rightarrow> wait_op \<Rightarrow> reactor \<Rightarrow> reactor" where
  "schedule_timer time t op r =
     (if re_shutdown r then r\<lparr>re_sched := post_immediate_completion (wo_id op) False (re_sched r), re_posted := re_posted r @ [op]\<rparr>
      else let (earliest, q) = enqueue_timer time t op (re_queue r);
               r = r\<lparr>re_queue := q, re_sched := map_prod work_started id (re_sched r)\<rparr>
           in if earliest then r\<lparr>re_updates := re_updates r + 1\<rparr> else r)"

definition reactor_cancel_timer :: "timer \<Rightarrow> nat \<Rightarrow> reactor \<Rightarrow> nat \<times> reactor" where
  "reactor_cancel_timer t max_cancelled r =
     (let (n, q, ops) = cancel_timer t max_cancelled (re_queue r) []
      in (n, r\<lparr>re_queue := q, re_sched := post_deferred_completions (map wo_id ops) (re_sched r), re_posted := re_posted r @ ops\<rparr>))"

definition reactor_cancel_timer_by_key :: "timer \<Rightarrow> nat \<Rightarrow> reactor \<Rightarrow> reactor" where
  "reactor_cancel_timer_by_key t key r =
     (let (q, ops) = cancel_timer_by_key t key (re_queue r) []
      in r\<lparr>re_queue := q, re_sched := post_deferred_completions (map wo_id ops) (re_sched r), re_posted := re_posted r @ ops\<rparr>)"

definition reactor_move_timer :: "timer \<Rightarrow> timer \<Rightarrow> reactor \<Rightarrow> reactor" where
  "reactor_move_timer target source r =
     (let (_, q, ops) = cancel_timer target npos (re_queue r) [];
          q = move_timer target source q
      in r\<lparr>re_queue := q, re_sched := post_deferred_completions (map wo_id ops) (re_sched r), re_posted := re_posted r @ ops\<rparr>)"

section \<open>The timer service\<close>

record timer_impl =
  expiry :: int
  might_have_pending_waits :: bool

definition dts_construct :: timer_impl where
  "dts_construct = \<lparr>expiry = 0, might_have_pending_waits = False\<rparr>"

definition dts_cancel :: "timer \<Rightarrow> timer_impl \<times> reactor \<Rightarrow> nat \<times> timer_impl \<times> reactor" where
  "dts_cancel t = (\<lambda>(impl, r).
     if \<not> might_have_pending_waits impl then (0, impl, r)
     else let (count, r) = reactor_cancel_timer t npos r
          in (count, impl\<lparr>might_have_pending_waits := False\<rparr>, r))"

definition dts_cancel_one :: "timer \<Rightarrow> timer_impl \<times> reactor \<Rightarrow> nat \<times> timer_impl \<times> reactor" where
  "dts_cancel_one t = (\<lambda>(impl, r).
     if \<not> might_have_pending_waits impl then (0, impl, r)
     else let (count, r) = reactor_cancel_timer t 1 r
          in (count, if count = 0 then impl\<lparr>might_have_pending_waits := False\<rparr> else impl, r))"

definition dts_destroy :: "timer \<Rightarrow> timer_impl \<times> reactor \<Rightarrow> timer_impl \<times> reactor" where
  "dts_destroy t ir = snd (dts_cancel t ir)"

definition dts_expires_at :: "timer \<Rightarrow> int \<Rightarrow> timer_impl \<times> reactor \<Rightarrow> nat \<times> timer_impl \<times> reactor" where
  "dts_expires_at t expiry_time ir =
     (let (count, impl, r) = dts_cancel t ir in (count, impl\<lparr>expiry := expiry_time\<rparr>, r))"

definition dts_expires_after :: "timer \<Rightarrow> int \<Rightarrow> int \<Rightarrow> timer_impl \<times> reactor \<Rightarrow> nat \<times> timer_impl \<times> reactor" where
  "dts_expires_after t now d ir = dts_expires_at t (chrono_add now d) ir"

definition dts_async_wait :: "timer \<Rightarrow> wait_op \<Rightarrow> timer_impl \<times> reactor \<Rightarrow> timer_impl \<times> reactor" where
  "dts_async_wait t op = (\<lambda>(impl, r).
     (impl\<lparr>might_have_pending_waits := True\<rparr>, schedule_timer (expiry impl) t op r))"

definition dts_move_construct :: "timer \<Rightarrow> timer \<Rightarrow> timer_impl \<times> reactor \<Rightarrow> timer_impl \<times> timer_impl \<times> reactor" where
  "dts_move_construct t other_t = (\<lambda>(other, r).
     let r = (if might_have_pending_waits other then reactor_move_timer t other_t r else r)
     in (\<lparr>expiry = expiry other, might_have_pending_waits = might_have_pending_waits other\<rparr>,
         \<lparr>expiry = 0, might_have_pending_waits = False\<rparr>, r))"

text \<open>An assignment within one service.\<close>

definition dts_move_assign :: "timer \<Rightarrow> timer \<Rightarrow> timer_impl \<times> reactor \<Rightarrow> timer_impl \<times> timer_impl \<times> reactor" where
  "dts_move_assign t other_t = (\<lambda>(other, r).
     let r = reactor_move_timer t other_t r
     in (\<lparr>expiry = expiry other, might_have_pending_waits = might_have_pending_waits other\<rparr>,
         \<lparr>expiry = 0, might_have_pending_waits = False\<rparr>, r))"

text \<open>A timer of the service: what waits in the queue is known to the timer.\<close>

definition dts_ok :: "timer \<Rightarrow> timer_impl \<Rightarrow> reactor \<Rightarrow> bool" where
  "dts_ok t impl r \<longleftrightarrow> tq_ok (re_queue r) \<and> (agenda (re_queue r) t \<noteq> None \<longrightarrow> might_have_pending_waits impl)
     \<and> length (agenda_ops (agenda (re_queue r)) t) \<le> npos"

lemma post_deferred_none [simp]: "post_deferred_completions [] st = st"
  by (cases st) (simp add: post_deferred_completions_def)

lemma dts_cancel_ok:
  assumes "dts_ok t impl r"
  defines "waits \<equiv> agenda_ops (agenda (re_queue r)) t"
  shows "\<exists>impl' r'. dts_cancel t (impl, r) = (length waits, impl', r') \<and> dts_ok t impl' r' \<and> expiry impl' = expiry impl
    \<and> \<not> might_have_pending_waits impl' \<and> agenda (re_queue r') = (agenda (re_queue r))(t := None)
    \<and> re_sched r' = post_deferred_completions (map wo_id waits) (re_sched r) \<and> re_shutdown r' = re_shutdown r
    \<and> re_posted r' = re_posted r @ map (\<lambda>op. op\<lparr>wo_ec := Operation_aborted\<rparr>) waits"
proof (cases "might_have_pending_waits impl")
  case False
  then have none: "agenda (re_queue r) t = None" using assms(1) unfolding dts_ok_def by blast
  then have "waits = []" by (simp add: waits_def agenda_ops_def)
  then show ?thesis using False assms(1) none by (auto simp: dts_cancel_def fun_upd_idem)
next
  case True
  have ok: "tq_ok (re_queue r)" "length waits \<le> npos" using assms(1) by (simp_all add: dts_ok_def waits_def)
  obtain q' where q': "cancel_timer t npos (re_queue r) [] =
      (length waits, q', map (\<lambda>op. op\<lparr>wo_ec := Operation_aborted\<rparr>) waits)" "tq_ok q'"
    "agenda q' = agenda_set t [] (agenda (re_queue r))"
    using atq.cancel_spec [OF ok(1), of t npos "[]"] ok(2) by (auto simp: waits_def min_def)
  then have "agenda q' = (agenda (re_queue r))(t := None)" by (simp add: agenda_set_def)
  with q' True show ?thesis
    by (simp add: dts_cancel_def reactor_cancel_timer_def dts_ok_def agenda_ops_def agenda_set_def comp_def)
qed

lemma dts_async_wait_ok:
  assumes "dts_ok t impl r" and "agenda (re_queue r) t = None" and "\<not> re_shutdown r"
  shows "\<exists>impl' r'. dts_async_wait t op (impl, r) = (impl', r') \<and> dts_ok t impl' r'
    \<and> agenda (re_queue r') = (agenda (re_queue r))(t \<mapsto> (expiry impl, [op]))
    \<and> re_sched r' = map_prod work_started id (re_sched r) \<and> re_posted r' = re_posted r"
proof -
  have ok: "tq_ok (re_queue r)" using assms(1) by (simp add: dts_ok_def)
  obtain earliest q where e: "enqueue_timer (expiry impl) t op (re_queue r) = (earliest, q)" by fastforce
  have "tq_ok q" "agenda q = (agenda (re_queue r))(t \<mapsto> (expiry impl, [op]))"
    using atq.enqueue_inv [OF ok, of "expiry impl" t op] atq.enqueue_abs [OF ok, of "expiry impl" t op] e assms(2)
    by (simp_all add: agenda_enqueue_def)
  then show ?thesis using e assms(3) by (simp add: dts_async_wait_def schedule_timer_def dts_ok_def agenda_ops_def npos_def Let_def)
qed

text \<open>
  C36. Arming a timer again, as the monitor of the connections does for every heartbeat: every wait pending is
  cancelled, that is, its handler is posted, once, in order, with the error \<open>operation_aborted\<close>, and nothing else
  is; and the new wait is the only one of the timer. Its handler is
  handed out with success by the first look at the timers at or after the expiry, and at no look before it;
  other timers are not touched.
\<close>

theorem steady_timer_rearmed:
  assumes "dts_ok t impl r" and "\<not> re_shutdown r"
    and "dts_expires_after t now d (impl, r) = (n, impl1, r1)" and "dts_async_wait t op (impl1, r1) = (impl2, r2)"
  defines "waits \<equiv> agenda_ops (agenda (re_queue r)) t"
  shows "dts_ok t impl2 r2 \<and> n = length waits
    \<and> re_sched r2 = map_prod work_started id (post_deferred_completions (map wo_id waits) (re_sched r))
    \<and> re_posted r2 = re_posted r @ map (\<lambda>op. op\<lparr>wo_ec := Operation_aborted\<rparr>) waits
    \<and> agenda (re_queue r2) = (agenda (re_queue r))(t \<mapsto> (chrono_add now d, [op]))
    \<and> (if chrono_add now d \<le> now'
       then \<exists>q' fired. get_ready_timers now' (re_queue r2) [] = Some (q', fired) \<and> op\<lparr>wo_ec := No_error\<rparr> \<in> set fired
         \<and> agenda q' t = None
       else \<exists>q' fired. get_ready_timers now' (re_queue r2) [] = Some (q', fired) \<and> agenda q' t = Some (chrono_add now d, [op]))"
proof -
  obtain impl0 r0 where r0: "dts_cancel t (impl, r) = (length waits, impl0, r0)" "dts_ok t impl0 r0"
    "agenda (re_queue r0) = (agenda (re_queue r))(t := None)" "re_sched r0 = post_deferred_completions (map wo_id waits) (re_sched r)"
    "re_shutdown r0 = re_shutdown r" "re_posted r0 = re_posted r @ map (\<lambda>op. op\<lparr>wo_ec := Operation_aborted\<rparr>) waits"
    using dts_cancel_ok [OF assms(1)] by (auto simp: waits_def)
  then have r1: "n = length waits" "r1 = r0" "impl1 = impl0\<lparr>expiry := chrono_add now d\<rparr>"
    using assms(3) by (auto simp: dts_expires_after_def dts_expires_at_def)
  have "dts_ok t impl1 r1" using r0(2) r1 by (simp add: dts_ok_def)
  then have r2: "dts_ok t impl2 r2" "agenda (re_queue r2) = (agenda (re_queue r))(t \<mapsto> (chrono_add now d, [op]))"
    "re_sched r2 = map_prod work_started id (re_sched r1)" "re_posted r2 = re_posted r1"
    using dts_async_wait_ok [of t impl1 r1 op] assms(2,4) r0 r1 by auto
  have ok: "tq_ok (re_queue r2)" using r2(1) by (simp add: dts_ok_def)
  have "if chrono_add now d \<le> now'
       then \<exists>q' fired. get_ready_timers now' (re_queue r2) [] = Some (q', fired) \<and> op\<lparr>wo_ec := No_error\<rparr> \<in> set fired \<and> agenda q' t = None
       else \<exists>q' fired. get_ready_timers now' (re_queue r2) [] = Some (q', fired) \<and> agenda q' t = Some (chrono_add now d, [op])"
  proof (cases "chrono_add now d \<le> now'")
    case True
    then show ?thesis using atq.fires [OF ok, of t "chrono_add now d" "[op]" op now'] r2(2) by auto
  next
    case False
    obtain q' fired where g: "get_ready_timers now' (re_queue r2) [] = Some (q', fired)"
      using atq.ready_spec [OF ok, of now' "[]"] by blast
    then show ?thesis using atq.not_early [OF ok _ _ g, of t "chrono_add now d" "[op]"] r2(2) False by auto
  qed
  then show ?thesis using r0(4,6) r1 r2 by simp
qed

text \<open>A reactor whose only timer, number 3, is armed.\<close>

definition sample_reactor :: reactor where
  "sample_reactor = \<lparr>re_shutdown = False, re_queue = sample_queue,
     re_sched = (work_started (init_task (scheduler_new False (- 1) (- 1))), None), re_updates = 1, re_posted = []\<rparr>"

theorem steady_timer_rearmed_witness:
  "\<exists>impl1 r1 impl2 r2. dts_expires_after 3 1000 9000000 (\<lparr>expiry = 5000000, might_have_pending_waits = True\<rparr>, sample_reactor) = (1, impl1, r1)
    \<and> dts_async_wait 3 (sample_op\<lparr>wo_id := 8\<rparr>) (impl1, r1) = (impl2, r2)
    \<and> re_posted r2 = [sample_op\<lparr>wo_ec := Operation_aborted\<rparr>]
    \<and> agenda (re_queue r2) = [3 \<mapsto> (9001000, [sample_op\<lparr>wo_id := 8\<rparr>])]
    \<and> (\<exists>q' fired. get_ready_timers 9001000 (re_queue r2) [] = Some (q', fired)
         \<and> sample_op\<lparr>wo_id := 8, wo_ec := No_error\<rparr> \<in> set fired \<and> agenda q' 3 = None)"
proof -
  let ?impl = "\<lparr>expiry = 5000000, might_have_pending_waits = True\<rparr>"
  have ok: "dts_ok 3 ?impl sample_reactor" "\<not> re_shutdown sample_reactor"
    by (simp_all add: dts_ok_def sample_reactor_def sample_queue_ok agenda_ops_def npos_def)
  obtain n impl1 r1 where e: "dts_expires_after 3 1000 9000000 (?impl, sample_reactor) = (n, impl1, r1)" by (metis surj_pair)
  obtain impl2 r2 where w: "dts_async_wait 3 (sample_op\<lparr>wo_id := 8\<rparr>) (impl1, r1) = (impl2, r2)" by fastforce
  have "chrono_add 1000 9000000 = 9001000" by (simp add: chrono_add_def time_max_def)
  with steady_timer_rearmed [OF ok e w, of 9001000] e w show ?thesis
    by (auto simp: sample_reactor_def sample_queue_ok agenda_ops_def)
qed

text \<open>
  A timer that is destroyed, as that of a handshake that has ended, or cancelled: every wait pending is cancelled
  and its handler posted once, in order, with the error \<open>operation_aborted\<close>, and nothing of the timer is left in the queue, so that none of
  its handlers is handed out as expired.
\<close>

theorem destroyed_timer_never_fires:
  assumes "dts_ok t impl r" and "dts_destroy t (impl, r) = (impl', r')"
  defines "waits \<equiv> agenda_ops (agenda (re_queue r)) t"
  shows "re_sched r' = post_deferred_completions (map wo_id waits) (re_sched r) \<and> tq_ok (re_queue r')
    \<and> re_posted r' = re_posted r @ map (\<lambda>op. op\<lparr>wo_ec := Operation_aborted\<rparr>) waits
    \<and> agenda (re_queue r') = (agenda (re_queue r))(t := None)
    \<and> (\<exists>q' ts. get_ready_timers now (re_queue r') [] = Some (q', ready_ops (agenda (re_queue r')) ts) \<and> t \<notin> set ts)"
proof -
  have r': "re_sched r' = post_deferred_completions (map wo_id waits) (re_sched r)" "tq_ok (re_queue r')"
    "agenda (re_queue r') = (agenda (re_queue r))(t := None)"
    "re_posted r' = re_posted r @ map (\<lambda>op. op\<lparr>wo_ec := Operation_aborted\<rparr>) waits"
    using dts_cancel_ok [OF assms(1)] assms(2) by (auto simp: dts_destroy_def dts_ok_def waits_def)
  moreover obtain q' ts where "get_ready_timers now (re_queue r') [] = Some (q', ready_ops (agenda (re_queue r')) ts)"
    "set ts = due_timers now (agenda (re_queue r'))" using atq.ready_spec [OF r'(2), of now "[]"] by auto
  moreover have "t \<notin> due_timers now (agenda (re_queue r'))" using r'(3) by (simp add: due_timers_def)
  ultimately show ?thesis by metis
qed

theorem destroyed_timer_never_fires_witness:
  "\<exists>impl' r'. dts_destroy 3 (\<lparr>expiry = 5000000, might_have_pending_waits = True\<rparr>, sample_reactor) = (impl', r')
    \<and> re_sched r' = post_deferred_completions [7] (re_sched sample_reactor) \<and> agenda (re_queue r') = Map.empty
    \<and> (\<exists>q' ts. get_ready_timers 6000000 (re_queue r') [] = Some (q', ready_ops (agenda (re_queue r')) ts) \<and> 3 \<notin> set ts)"
proof -
  let ?impl = "\<lparr>expiry = 5000000, might_have_pending_waits = True\<rparr>"
  have ok: "dts_ok 3 ?impl sample_reactor"
    by (simp add: dts_ok_def sample_reactor_def sample_queue_ok agenda_ops_def npos_def)
  obtain impl' r' where d: "dts_destroy 3 (?impl, sample_reactor) = (impl', r')" by fastforce
  from destroyed_timer_never_fires [OF ok d, of 6000000] d show ?thesis
    by (auto simp: sample_reactor_def sample_queue_ok agenda_ops_def sample_op_def)
qed

end
