(* ===== verification/Asio_Reactor.thy ===== *)
theory Asio_Reactor
  imports Asio_Timer_Service
begin

text \<open>
  The reactor of asio, which turns the readiness of sockets into completed operations:
  \<open>vendors/asio-1.36.0/include/asio/detail/epoll_reactor.hpp\<close>, \<open>detail/impl/epoll_reactor.ipp\<close>,
  \<open>detail/impl/epoll_reactor.hpp\<close>, \<open>detail/reactor_op.hpp\<close> and \<open>detail/object_pool.hpp\<close>.

  The system calls are parameters: \<open>perform\<close> is the virtual function of an operation, \<open>ctl\<close> is
  \<open>epoll_ctl\<close>, \<open>wait\<close> is \<open>epoll_wait\<close>, and \<open>'k\<close> is the state of the operating system. What epoll documents about
  edge-triggered descriptors is the locale \<open>epoll\<close> of \<open>Asio_Readiness\<close>. An operation or a descriptor state is
  named by a number, its address. The descriptor mutex makes each of the functions atomic.
\<close>

section \<open>Operations and descriptors\<close>

datatype op_type = read_op | write_op | except_op

datatype perform_status = st_not_done | st_done | st_done_and_exhausted

datatype op_kind = Recv_op nat | Send_op nat | Accept_op

record reactor_op =
  ro_id :: nat
  ro_ec :: asio_error
  ro_key :: nat
  ro_bytes :: nat
  ro_socket :: int
  ro_state :: uint8
  ro_kind :: op_kind
  ro_new_socket :: int

definition EPOLLIN :: uint32 where "EPOLLIN = 1"
definition EPOLLPRI :: uint32 where "EPOLLPRI = 2"
definition EPOLLOUT :: uint32 where "EPOLLOUT = 4"
definition EPOLLERR :: uint32 where "EPOLLERR = 8"
definition EPOLLHUP :: uint32 where "EPOLLHUP = 16"
definition EPOLLET :: uint32 where "EPOLLET = 0x80000000"

definition bad_descriptor :: asio_error where "bad_descriptor = Asio_error 9"
definition operation_not_supported :: asio_error where "operation_not_supported = Asio_error 95"
definition EPERM :: nat where "EPERM = 1"

fun op_flag :: "op_type \<Rightarrow> uint32" where
  "op_flag read_op = EPOLLIN"
| "op_flag write_op = EPOLLOUT"
| "op_flag except_op = EPOLLPRI"

record descriptor_state =
  ds_descriptor :: int
  ds_registered :: uint32
  ds_ops :: "op_type \<Rightarrow> reactor_op list"
  ds_spec :: "op_type \<Rightarrow> bool"
  ds_shutdown :: bool
  ds_task_result :: uint32

definition ds_push :: "op_type \<Rightarrow> reactor_op \<Rightarrow> descriptor_state \<Rightarrow> descriptor_state" where
  "ds_push j op d = d\<lparr>ds_ops := (ds_ops d)(j := ds_ops d j @ [op])\<rparr>"

definition ds_set_spec :: "op_type \<Rightarrow> bool \<Rightarrow> descriptor_state \<Rightarrow> descriptor_state" where
  "ds_set_spec j b d = d\<lparr>ds_spec := (ds_spec d)(j := b)\<rparr>"

text \<open>The constructor of a descriptor state leaves its numbers unspecified; \<open>junk\<close> stands for them.\<close>

definition descriptor_state_new :: "descriptor_state \<Rightarrow> descriptor_state" where
  "descriptor_state_new junk = junk\<lparr>ds_ops := \<lambda>_. []\<rparr>"

datatype ctl_op = Ctl_add | Ctl_mod | Ctl_del

datatype epoll_event = Ev_interrupter | Ev_timer_fd | Ev_descriptor nat uint32

type_synonym 'k perform_fn = "reactor_op \<Rightarrow> 'k \<Rightarrow> (perform_status \<times> reactor_op \<times> 'k) option"
type_synonym 'k ctl_fn = "ctl_op \<Rightarrow> int \<Rightarrow> uint32 \<Rightarrow> nat \<Rightarrow> 'k \<Rightarrow> nat \<times> 'k"
type_synonym 'k wait_fn = "int \<Rightarrow> 'k \<Rightarrow> epoll_event list \<times> 'k"

section \<open>One descriptor\<close>

text \<open>The body of \<open>start_op\<close> under the lock of the descriptor: the operation completes at once or is queued.\<close>

datatype started = Immediate reactor_op | Queued

definition try_perform :: "'k perform_fn \<Rightarrow> op_type \<Rightarrow> reactor_op \<Rightarrow> descriptor_state \<times> 'k \<Rightarrow>
    (perform_status \<times> reactor_op \<times> 'k) option" where
  "try_perform perform j op = (\<lambda>(d, k). if ds_spec d j then perform op k else Some (st_not_done, op, k))"

definition start_speculative :: "'k perform_fn \<Rightarrow> 'k ctl_fn \<Rightarrow> op_type \<Rightarrow> int \<Rightarrow> nat \<Rightarrow> reactor_op \<Rightarrow>
    descriptor_state \<times> 'k \<Rightarrow> (started \<times> descriptor_state \<times> 'k) option" where
  "start_speculative perform ctl j fd p op = (\<lambda>(d, k).
     case try_perform perform j op (d, k) of
       None \<Rightarrow> None
     | Some (st, op, k) \<Rightarrow>
         if st \<noteq> st_not_done then
           Some (Immediate op, if st = st_done_and_exhausted \<and> ds_registered d \<noteq> 0 then ds_set_spec j False d else d, k)
         else if ds_registered d = 0 then Some (Immediate (op\<lparr>ro_ec := operation_not_supported\<rparr>), d, k)
         else if j = write_op \<and> ds_registered d AND EPOLLOUT = 0 then
           let events = ds_registered d OR EPOLLOUT;
               (err, k) = ctl Ctl_mod fd events p k
           in if err = 0 then Some (Queued, ds_push j op (d\<lparr>ds_registered := ds_registered d OR events\<rparr>), k)
              else Some (Immediate (op\<lparr>ro_ec := Asio_error err\<rparr>), d, k)
         else Some (Queued, ds_push j op d, k))"

definition start_waiting :: "'k ctl_fn \<Rightarrow> op_type \<Rightarrow> int \<Rightarrow> nat \<Rightarrow> reactor_op \<Rightarrow>
    descriptor_state \<times> 'k \<Rightarrow> started \<times> descriptor_state \<times> 'k" where
  "start_waiting ctl j fd p op = (\<lambda>(d, k).
     if ds_registered d = 0 then (Immediate (op\<lparr>ro_ec := operation_not_supported\<rparr>), d, k)
     else let d = (if j = write_op then d\<lparr>ds_registered := ds_registered d OR EPOLLOUT\<rparr> else d);
              k = snd (ctl Ctl_mod fd (ds_registered d) p k)
          in (Queued, ds_push j op d, k))"

definition start_on :: "'k perform_fn \<Rightarrow> 'k ctl_fn \<Rightarrow> op_type \<Rightarrow> int \<Rightarrow> nat \<Rightarrow> reactor_op \<Rightarrow> bool \<Rightarrow>
    descriptor_state \<times> 'k \<Rightarrow> (started \<times> descriptor_state \<times> 'k) option" where
  "start_on perform ctl j fd p op allow_speculative = (\<lambda>(d, k).
     if ds_shutdown d then Some (Immediate op, d, k)
     else if ds_ops d j \<noteq> [] then Some (Queued, ds_push j op d, k)
     else if allow_speculative \<and> (j \<noteq> read_op \<or> ds_ops d except_op = [])
       then start_speculative perform ctl j fd p op (d, k)
     else Some (start_waiting ctl j fd p op (d, k)))"

text \<open>The loop over the operations of one direction.\<close>

fun perform_loop :: "'k perform_fn \<Rightarrow> reactor_op list \<Rightarrow> 'k \<Rightarrow>
    (reactor_op list \<times> reactor_op list \<times> bool \<times> 'k) option" where
  "perform_loop perform [] k = Some ([], [], False, k)"
| "perform_loop perform (op # ops) k =
     (case perform op k of
        None \<Rightarrow> None
      | Some (st, op, k) \<Rightarrow>
          if st = st_not_done then Some ([], op # ops, False, k)
          else if st = st_done_and_exhausted then Some ([op], ops, True, k)
          else case perform_loop perform ops k of
                 None \<Rightarrow> None
               | Some (finished, rest, exhausted, k) \<Rightarrow> Some (op # finished, rest, exhausted, k))"

definition hits :: "uint32 \<Rightarrow> op_type \<Rightarrow> bool" where
  "hits events j \<longleftrightarrow> events AND (op_flag j OR EPOLLERR OR EPOLLHUP) \<noteq> 0"

definition perform_dir :: "'k perform_fn \<Rightarrow> uint32 \<Rightarrow> op_type \<Rightarrow> descriptor_state \<times> 'k \<Rightarrow>
    (reactor_op list \<times> descriptor_state \<times> 'k) option" where
  "perform_dir perform events j = (\<lambda>(d, k).
     if hits events j then
       case perform_loop perform (ds_ops d j) k of
         None \<Rightarrow> None
       | Some (finished, rest, exhausted, k) \<Rightarrow>
           Some (finished, ds_set_spec j (\<not> exhausted) (d\<lparr>ds_ops := (ds_ops d)(j := rest)\<rparr>), k)
     else Some ([], d, k))"

fun perform_dirs :: "'k perform_fn \<Rightarrow> uint32 \<Rightarrow> op_type list \<Rightarrow> descriptor_state \<times> 'k \<Rightarrow>
    (reactor_op list \<times> descriptor_state \<times> 'k) option" where
  "perform_dirs perform events [] dk = Some ([], dk)"
| "perform_dirs perform events (j # js) dk =
     (case perform_dir perform events j dk of
        None \<Rightarrow> None
      | Some (finished, dk) \<Rightarrow>
          (case perform_dirs perform events js dk of
             None \<Rightarrow> None
           | Some (later, dk) \<Rightarrow> Some (finished @ later, dk)))"

text \<open>The operations taken off a descriptor when it is cancelled.\<close>

definition aborted :: "reactor_op \<Rightarrow> reactor_op" where
  "aborted op = op\<lparr>ro_ec := Operation_aborted\<rparr>"

definition cancel_on :: "descriptor_state \<Rightarrow> reactor_op list \<times> descriptor_state" where
  "cancel_on d =
     (map aborted (ds_ops d read_op) @ map aborted (ds_ops d write_op) @ map aborted (ds_ops d except_op),
      d\<lparr>ds_ops := \<lambda>_. []\<rparr>)"

definition cancel_key_on :: "op_type \<Rightarrow> nat \<Rightarrow> descriptor_state \<Rightarrow> reactor_op list \<times> descriptor_state" where
  "cancel_key_on j key d =
     (map aborted (filter (\<lambda>op. ro_key op = key) (ds_ops d j)),
      d\<lparr>ds_ops := (ds_ops d)(j := filter (\<lambda>op. ro_key op \<noteq> key) (ds_ops d j))\<rparr>)"

section \<open>The reactor\<close>

text \<open>
  The descriptor states are kept in a pool: the list of those in use, and of those that are free. The scheduler
  is given the addresses of completed operations; \<open>ep_posted\<close> are these operations, as their
  handlers find them.
\<close>

record 'k epoll_reactor =
  ep_timers :: reactor
  ep_has_timer_fd :: bool
  ep_state :: "nat \<Rightarrow> descriptor_state"
  ep_live :: "nat list"
  ep_free :: "nat list"
  ep_fresh :: nat
  ep_posted :: "reactor_op list"
  ep_sys :: 'k

definition pool_alloc :: "'k epoll_reactor \<Rightarrow> nat \<times> 'k epoll_reactor" where
  "pool_alloc r =
     (case ep_free r of
        p # ps \<Rightarrow> (p, r\<lparr>ep_free := ps, ep_live := p # ep_live r\<rparr>)
      | [] \<Rightarrow> let p = ep_fresh r
             in (p, r\<lparr>ep_fresh := p + 1, ep_live := p # ep_live r,
                      ep_state := (ep_state r)(p := descriptor_state_new (ep_state r p))\<rparr>))"

definition pool_free :: "nat \<Rightarrow> 'k epoll_reactor \<Rightarrow> 'k epoll_reactor" where
  "pool_free p r = r\<lparr>ep_live := remove1 p (ep_live r), ep_free := p # ep_free r\<rparr>"

definition on_immediate :: "reactor_op \<Rightarrow> bool \<Rightarrow> 'k epoll_reactor \<Rightarrow> 'k epoll_reactor" where
  "on_immediate op is_continuation r =
     (let t = ep_timers r
      in r\<lparr>ep_timers := t\<lparr>re_sched := post_immediate_completion (ro_id op) is_continuation (re_sched t)\<rparr>,
           ep_posted := ep_posted r @ [op]\<rparr>)"

definition post_ops :: "reactor_op list \<Rightarrow> 'k epoll_reactor \<Rightarrow> 'k epoll_reactor" where
  "post_ops ops r =
     (let t = ep_timers r
      in r\<lparr>ep_timers := t\<lparr>re_sched := post_deferred_completions (map ro_id ops) (re_sched t)\<rparr>,
           ep_posted := ep_posted r @ ops\<rparr>)"

definition reactor_work_started :: "'k epoll_reactor \<Rightarrow> 'k epoll_reactor" where
  "reactor_work_started r = (let t = ep_timers r in r\<lparr>ep_timers := t\<lparr>re_sched := map_prod work_started id (re_sched t)\<rparr>\<rparr>)"

definition initial_events :: uint32 where
  "initial_events = EPOLLIN OR EPOLLERR OR EPOLLHUP OR EPOLLPRI OR EPOLLET"

definition register_descriptor :: "'k ctl_fn \<Rightarrow> int \<Rightarrow> 'k epoll_reactor \<Rightarrow> nat \<times> nat \<times> 'k epoll_reactor" where
  "register_descriptor ctl fd r =
     (let (p, r) = pool_alloc r;
          d = (ep_state r p)\<lparr>ds_descriptor := fd, ds_shutdown := False, ds_spec := \<lambda>_. True, ds_registered := initial_events\<rparr>;
          (err, k) = ctl Ctl_add fd initial_events p (ep_sys r);
          r = r\<lparr>ep_sys := k\<rparr>
      in if err = 0 then (0, p, r\<lparr>ep_state := (ep_state r)(p := d)\<rparr>)
         else if err = EPERM then (0, p, r\<lparr>ep_state := (ep_state r)(p := d\<lparr>ds_registered := 0\<rparr>)\<rparr>)
         else (err, p, r\<lparr>ep_state := (ep_state r)(p := d)\<rparr>))"

definition register_internal_descriptor :: "'k ctl_fn \<Rightarrow> op_type \<Rightarrow> int \<Rightarrow> reactor_op \<Rightarrow> 'k epoll_reactor \<Rightarrow>
    nat \<times> nat \<times> 'k epoll_reactor" where
  "register_internal_descriptor ctl j fd op r =
     (let (p, r) = pool_alloc r;
          d = (ep_state r p)\<lparr>ds_descriptor := fd, ds_shutdown := False\<rparr>;
          d = (ds_push j op d)\<lparr>ds_spec := \<lambda>_. True, ds_registered := initial_events\<rparr>;
          (err, k) = ctl Ctl_add fd initial_events p (ep_sys r);
          r = r\<lparr>ep_sys := k\<rparr>
      in if err = 0 then (0, p, r\<lparr>ep_state := (ep_state r)(p := d)\<rparr>)
         else (err, p, r\<lparr>ep_state := (ep_state r)(p := d\<lparr>ds_registered := 0\<rparr>)\<rparr>))"

definition move_descriptor :: "nat option \<Rightarrow> nat option \<times> nat option" where
  "move_descriptor source = (source, None)"

definition reactor_start_op :: "'k perform_fn \<Rightarrow> 'k ctl_fn \<Rightarrow> op_type \<Rightarrow> int \<Rightarrow> nat option \<Rightarrow> reactor_op \<Rightarrow> bool \<Rightarrow> bool \<Rightarrow>
    'k epoll_reactor \<Rightarrow> 'k epoll_reactor option" where
  "reactor_start_op perform ctl j fd data op is_continuation allow_speculative r =
     (case data of
        None \<Rightarrow> Some (on_immediate (op\<lparr>ro_ec := bad_descriptor\<rparr>) is_continuation r)
      | Some p \<Rightarrow>
          (case start_on perform ctl j fd p op allow_speculative (ep_state r p, ep_sys r) of
             None \<Rightarrow> None
           | Some (res, d, k) \<Rightarrow>
               let r = r\<lparr>ep_state := (ep_state r)(p := d), ep_sys := k\<rparr>
               in Some (case res of Immediate op \<Rightarrow> on_immediate op is_continuation r | Queued \<Rightarrow> reactor_work_started r)))"

definition cancel_ops :: "nat option \<Rightarrow> 'k epoll_reactor \<Rightarrow> 'k epoll_reactor" where
  "cancel_ops data r =
     (case data of
        None \<Rightarrow> r
      | Some p \<Rightarrow> let (ops, d) = cancel_on (ep_state r p) in post_ops ops (r\<lparr>ep_state := (ep_state r)(p := d)\<rparr>))"

definition cancel_ops_by_key :: "nat option \<Rightarrow> op_type \<Rightarrow> nat \<Rightarrow> 'k epoll_reactor \<Rightarrow> 'k epoll_reactor" where
  "cancel_ops_by_key data j key r =
     (case data of
        None \<Rightarrow> r
      | Some p \<Rightarrow> let (ops, d) = cancel_key_on j key (ep_state r p) in post_ops ops (r\<lparr>ep_state := (ep_state r)(p := d)\<rparr>))"

definition deregister_descriptor :: "'k ctl_fn \<Rightarrow> int \<Rightarrow> nat option \<Rightarrow> bool \<Rightarrow> 'k epoll_reactor \<Rightarrow>
    nat option \<times> 'k epoll_reactor" where
  "deregister_descriptor ctl fd data closing r =
     (case data of
        None \<Rightarrow> (None, r)
      | Some p \<Rightarrow>
          if \<not> ds_shutdown (ep_state r p) then
            let k = (if \<not> closing \<and> ds_registered (ep_state r p) \<noteq> 0 then snd (ctl Ctl_del fd 0 p (ep_sys r)) else ep_sys r);
                (ops, d) = cancel_on (ep_state r p);
                d = d\<lparr>ds_descriptor := - 1, ds_shutdown := True\<rparr>
            in (Some p, post_ops ops (r\<lparr>ep_sys := k, ep_state := (ep_state r)(p := d)\<rparr>))
          else (None, r))"

text \<open>The operations of an internal descriptor are dropped without their handlers being called.\<close>

definition deregister_internal_descriptor :: "'k ctl_fn \<Rightarrow> int \<Rightarrow> nat option \<Rightarrow> 'k epoll_reactor \<Rightarrow>
    nat option \<times> 'k epoll_reactor" where
  "deregister_internal_descriptor ctl fd data r =
     (case data of
        None \<Rightarrow> (None, r)
      | Some p \<Rightarrow>
          if \<not> ds_shutdown (ep_state r p) then
            let k = snd (ctl Ctl_del fd 0 p (ep_sys r));
                d = (ep_state r p)\<lparr>ds_ops := \<lambda>_. [], ds_descriptor := - 1, ds_shutdown := True\<rparr>
            in (Some p, r\<lparr>ep_sys := k, ep_state := (ep_state r)(p := d)\<rparr>)
          else (None, r))"

definition cleanup_descriptor_data :: "nat option \<Rightarrow> 'k epoll_reactor \<Rightarrow> nat option \<times> 'k epoll_reactor" where
  "cleanup_descriptor_data data r = (case data of None \<Rightarrow> (None, r) | Some p \<Rightarrow> (None, pool_free p r))"

text \<open>Waiting for events. The result are the operations handed to the scheduler: descriptor states, then timers.\<close>

definition wait_timeout :: "int \<Rightarrow> int \<Rightarrow> 'k epoll_reactor \<Rightarrow> int" where
  "wait_timeout now usec r =
     (if usec = 0 then 0
      else let timeout = (if usec < 0 then - 1 else c_div (usec - 1) 1000 + 1)
           in if \<not> ep_has_timer_fd r then get_timeout_msec now timeout [re_queue (ep_timers r)] else timeout)"

fun dispatch_event :: "bool \<Rightarrow> epoll_event \<Rightarrow> bool \<times> nat list \<times> (nat \<Rightarrow> descriptor_state) \<Rightarrow>
    bool \<times> nat list \<times> (nat \<Rightarrow> descriptor_state)" where
  "dispatch_event timer_fd Ev_interrupter (check_timers, ops, st) = (check_timers \<or> \<not> timer_fd, ops, st)"
| "dispatch_event timer_fd Ev_timer_fd (check_timers, ops, st) = (True, ops, st)"
| "dispatch_event timer_fd (Ev_descriptor p events) (check_timers, ops, st) =
     (if p \<notin> set ops
      then (check_timers, ops @ [p], st(p := (st p)\<lparr>ds_task_result := events\<rparr>))
      else (check_timers, ops, st(p := (st p)\<lparr>ds_task_result := ds_task_result (st p) OR events\<rparr>)))"

definition reactor_run :: "'k wait_fn \<Rightarrow> int \<Rightarrow> int \<Rightarrow> 'k epoll_reactor \<Rightarrow> (nat list \<times> nat list \<times> 'k epoll_reactor) option" where
  "reactor_run wait now usec r =
     (let (evs, k) = wait (wait_timeout now usec r) (ep_sys r);
          (check_timers, ops, st) = fold (dispatch_event (ep_has_timer_fd r)) evs (\<not> ep_has_timer_fd r, [], ep_state r);
          r = r\<lparr>ep_sys := k, ep_state := st\<rparr>
      in if check_timers
         then case get_ready_timers now (re_queue (ep_timers r)) [] of
                None \<Rightarrow> None
              | Some (q, fired) \<Rightarrow>
                  let t = (ep_timers r)\<lparr>re_queue := q, re_posted := re_posted (ep_timers r) @ fired\<rparr>
                  in Some (ops, map wo_id fired,
                       r\<lparr>ep_timers := if ep_has_timer_fd r then t\<lparr>re_updates := re_updates t + 1\<rparr> else t\<rparr>)
         else Some (ops, [], r))"

text \<open>
  A descriptor state that the scheduler runs. The first operation that completes is returned, and completed by the
  caller; the others are posted. If there is none, the count of outstanding work, which the scheduler
  is about to decrease, is increased.
\<close>

definition compensating_work_started :: "scheduler \<times> thread_info option \<Rightarrow> scheduler \<times> thread_info option" where
  "compensating_work_started = (\<lambda>(s, th). (s, map_option (\<lambda>t. t\<lparr>private_outstanding_work := private_outstanding_work t + 1\<rparr>) th))"

definition perform_io_cleanup :: "reactor_op list \<Rightarrow> 'k epoll_reactor \<Rightarrow> 'k epoll_reactor" where
  "perform_io_cleanup finished r =
     (let t = ep_timers r
      in case finished of
           [] \<Rightarrow> r\<lparr>ep_timers := t\<lparr>re_sched := compensating_work_started (re_sched t)\<rparr>\<rparr>
         | op # ops \<Rightarrow> (post_ops ops (r\<lparr>ep_posted := ep_posted r @ [op]\<rparr>)))"

definition perform_io :: "'k perform_fn \<Rightarrow> nat \<Rightarrow> 'k epoll_reactor \<Rightarrow> (reactor_op option \<times> 'k epoll_reactor) option" where
  "perform_io perform p r =
     (case perform_dirs perform (ds_task_result (ep_state r p)) [except_op, write_op, read_op] (ep_state r p, ep_sys r) of
        None \<Rightarrow> None
      | Some (finished, d, k) \<Rightarrow>
          Some (case finished of [] \<Rightarrow> None | op # _ \<Rightarrow> Some op,
                perform_io_cleanup finished (r\<lparr>ep_state := (ep_state r)(p := d), ep_sys := k\<rparr>)))"

text \<open>Shutting down: all operations are handed out to be destroyed.\<close>

definition shutdown_state :: "descriptor_state \<Rightarrow> descriptor_state" where
  "shutdown_state d = d\<lparr>ds_ops := \<lambda>_. [], ds_shutdown := True\<rparr>"

definition all_ops :: "descriptor_state \<Rightarrow> reactor_op list" where
  "all_ops d = ds_ops d read_op @ ds_ops d write_op @ ds_ops d except_op"

definition reactor_shutdown :: "'k epoll_reactor \<Rightarrow> (nat list \<times> 'k epoll_reactor) option" where
  "reactor_shutdown r =
     (case get_all_timers (re_queue (ep_timers r)) [] of
        None \<Rightarrow> None
      | Some (q, timer_ops) \<Rightarrow>
          Some (concat (map (\<lambda>p. map ro_id (all_ops (ep_state r p))) (ep_live r)) @ map wo_id timer_ops,
            r\<lparr>ep_timers := (ep_timers r)\<lparr>re_shutdown := True, re_queue := q\<rparr>,
              ep_state := (\<lambda>p. if p \<in> set (ep_live r) then shutdown_state (ep_state r p) else ep_state r p),
              ep_live := [], ep_free := rev (ep_live r) @ ep_free r\<rparr>))"

end
