(* ===== verification/Asio_Readiness.thy ===== *)
theory Asio_Readiness
  imports Asio_Reactor "HOL-Library.Sublist"
begin

text \<open>
  Why no operation of a socket waits for ever: the reactor uses edge-triggered events, so an event that is not followed
  up is lost. The locale \<open>epoll\<close> states what the system calls promise, \<open>edge_triggered\<close> what the operations do; the invariant of the
  reactor is that an operation waits only while its descriptor is not ready, or an event for it is on its way.
\<close>

section \<open>The contract of epoll\<close>

definition watches :: "uint32 \<Rightarrow> op_type \<Rightarrow> bool" where
  "watches reg j \<longleftrightarrow> reg AND op_flag j \<noteq> 0"

definition op_dir :: "reactor_op \<Rightarrow> op_type" where
  "op_dir op = (case ro_kind op of Send_op _ \<Rightarrow> write_op | _ \<Rightarrow> read_op)"

lemma and_or_nonzero: "(a OR b) AND f \<noteq> (0 :: uint32) \<longleftrightarrow> a AND f \<noteq> 0 \<or> b AND f \<noteq> 0"
  by (auto simp: bit_eq_iff bit_simps)

lemma watches_or [simp]: "watches (a OR b) j \<longleftrightarrow> watches a j \<or> watches b j"
  by (simp only: watches_def and_or_nonzero)

lemma hits_or [simp]: "hits (a OR b) j \<longleftrightarrow> hits a j \<or> hits b j"
  by (simp only: hits_def and_or_nonzero)

lemma watches_out [simp]: "watches EPOLLOUT j \<longleftrightarrow> j = write_op"
  by (cases j) (simp_all add: watches_def EPOLLOUT_def EPOLLIN_def EPOLLPRI_def)

lemma watches_initial: "watches initial_events j \<longleftrightarrow> j \<noteq> write_op"
  by (cases j) (simp_all add: watches_def initial_events_def EPOLLOUT_def EPOLLIN_def EPOLLPRI_def EPOLLERR_def EPOLLHUP_def EPOLLET_def)

lemma initial_events_nonzero: "initial_events \<noteq> 0"
  by (simp add: initial_events_def EPOLLIN_def EPOLLPRI_def EPOLLERR_def EPOLLHUP_def EPOLLET_def)

lemma or_absorb: "a OR (a OR b) = (a OR b :: uint32)"
  by (rule bit_eqI) (auto simp: bit_simps)

lemma or_nonzero: "a \<noteq> 0 \<Longrightarrow> a OR b \<noteq> (0 :: uint32)"
  by (auto simp: bit_eq_iff bit_simps)

text \<open>
  An operation that is not done although the system call did not say that it would block. This happens to
  \<open>accept\<close>, when a connection was aborted before it was accepted.
\<close>

definition would_block :: asio_error where "would_block = Asio_error 11"

definition op_stalled :: "reactor_op \<Rightarrow> bool" where
  "op_stalled op \<longleftrightarrow> ro_ec op \<noteq> No_error \<and> ro_ec op \<noteq> would_block"

text \<open>
  The view of epoll on a descriptor: \<open>watch\<close> is what it has been asked to report and under which address, \<open>can\<close> says
  that an operation would not block, \<open>edge\<close> that an event is recorded that has not been reported. While the
  system runs, a descriptor becomes ready only together with an event for those who watch it.
\<close>

definition evolves :: "('k \<Rightarrow> int \<Rightarrow> op_type \<Rightarrow> bool) \<Rightarrow> ('k \<Rightarrow> int \<Rightarrow> op_type \<Rightarrow> bool) \<Rightarrow>
    ('k \<Rightarrow> int \<Rightarrow> (nat \<times> uint32) option) \<Rightarrow> int \<Rightarrow> 'k \<Rightarrow> 'k \<Rightarrow> bool" where
  "evolves can edge watch fd k k' \<longleftrightarrow> watch k' fd = watch k fd
     \<and> (\<forall>p reg j. watch k fd = Some (p, reg) \<and> watches reg j \<longrightarrow>
          (edge k fd j \<longrightarrow> edge k' fd j) \<and> (can k' fd j \<longrightarrow> can k fd j \<or> edge k' fd j))"

lemma evolves_refl: "evolves can edge watch fd k k"
  by (simp add: evolves_def)

lemma evolves_trans: "evolves can edge watch fd k k' \<Longrightarrow> evolves can edge watch fd k' k'' \<Longrightarrow> evolves can edge watch fd k k''"
  unfolding evolves_def by metis

text \<open>
  The runs of the reactor as seen from one descriptor \<open>p\<close> on the socket \<open>fd\<close>, while it is registered: operations are started
  on it and on other descriptors, cancelled, performed; the reactor is run, which hands descriptors to the scheduler,
  and run again only when these have been performed, since the scheduler queues the task behind them; the timers and the
  scheduler change; the rest of the world moves. The second component are the descriptors handed out, the third the operations started on \<open>p\<close>.
\<close>

text \<open>
  The operations of a socket in one direction: those posted and those queued are the operations
  started, each once; those not aborted are posted in the order in which they were started, before those queued.
\<close>

definition in_order :: "reactor_op list \<Rightarrow> reactor_op list \<Rightarrow> nat list \<Rightarrow> bool" where
  "in_order posted queued started \<longleftrightarrow> mset (map ro_id (posted @ queued)) = mset started
     \<and> subseq (map ro_id (filter (\<lambda>op. ro_ec op \<noteq> Operation_aborted) posted @ queued)) started"

definition posted_of :: "int \<Rightarrow> op_type \<Rightarrow> reactor_op list \<Rightarrow> reactor_op list" where
  "posted_of fd j ops = filter (\<lambda>op. ro_socket op = fd \<and> op_dir op = j) ops"

lemma posted_of_append [simp]: "posted_of fd j (xs @ ys) = posted_of fd j xs @ posted_of fd j ys"
  by (simp add: posted_of_def)

lemma in_order_extend:
  assumes "in_order P Q S" and "mset (map ro_id (N @ Q')) = mset (map ro_id Q @ H)"
    and "subseq (map ro_id (filter (\<lambda>op. ro_ec op \<noteq> Operation_aborted) N @ Q')) (map ro_id Q @ H)"
  shows "in_order (P @ N) Q' (S @ H)"
proof -
  let ?f = "\<lambda>ops. map ro_id (filter (\<lambda>op. ro_ec op \<noteq> Operation_aborted) ops)"
  have "mset (map ro_id ((P @ N) @ Q')) = mset (S @ H)" using assms(1,2) by (simp add: in_order_def)
  moreover have "subseq (?f P @ ?f N @ map ro_id Q') (?f P @ map ro_id Q @ H)" 
    using list_emb_append_mono [OF subseq_order.refl assms(3)] by simp
  moreover have "subseq ((?f P @ map ro_id Q) @ H) (S @ H)"
    using list_emb_append_mono [OF _ subseq_order.refl, of "?f P @ map ro_id Q" S H] assms(1) by (simp add: in_order_def)
  ultimately show ?thesis unfolding in_order_def
    by (metis (no_types, lifting) append_assoc filter_append map_append subseq_order.trans)
qed

lemma kept_order: "map ro_id (N @ Q) = xs \<Longrightarrow> subseq (map ro_id (filter P N @ Q)) xs"
  by (auto intro!: list_emb_append_mono subseq_map subseq_filter_left)

inductive reactor_step :: "'k perform_fn \<Rightarrow> 'k ctl_fn \<Rightarrow> 'k wait_fn \<Rightarrow> ('k \<Rightarrow> 'k \<Rightarrow> bool) \<Rightarrow> nat \<Rightarrow> int \<Rightarrow>
    'k epoll_reactor \<times> nat list \<times> reactor_op list \<Rightarrow> 'k epoll_reactor \<times> nat list \<times> reactor_op list \<Rightarrow> bool"
  for perform :: "'k perform_fn" and ctl :: "'k ctl_fn" and wait :: "'k wait_fn" and world :: "'k \<Rightarrow> 'k \<Rightarrow> bool"
    and p :: nat and fd :: int where
  start: "reactor_start_op perform ctl (op_dir op) fd (Some p) op cont True r = Some r' \<Longrightarrow> ro_socket op = fd \<Longrightarrow>
    reactor_step perform ctl wait world p fd (r, enq, ops) (r', enq, ops @ [op])"
| start_other: "reactor_start_op perform ctl j fd' (Some q) op cont spec r = Some r' \<Longrightarrow> q \<noteq> p \<Longrightarrow> fd' \<noteq> fd \<Longrightarrow> ro_socket op = fd' \<Longrightarrow>
    reactor_step perform ctl wait world p fd (r, enq, ops) (r', enq, ops)"
| cancel: "reactor_step perform ctl wait world p fd (r, enq, ops) (cancel_ops (Some q) r, enq, ops)"
| cancel_key: "reactor_step perform ctl wait world p fd (r, enq, ops) (cancel_ops_by_key (Some q) j key r, enq, ops)"
| register: "register_descriptor ctl fd' r = (err, q, r') \<Longrightarrow> fd' \<noteq> fd \<Longrightarrow>
    reactor_step perform ctl wait world p fd (r, enq, ops) (r', enq, ops)"
| close: "deregister_descriptor ctl fd' (Some q) closing r = (data, r1) \<Longrightarrow> cleanup_descriptor_data data r1 = (data', r') \<Longrightarrow>
    q \<noteq> p \<Longrightarrow> fd' \<noteq> fd \<Longrightarrow> reactor_step perform ctl wait world p fd (r, enq, ops) (r', enq, ops)"
| run: "reactor_run wait now usec r = Some (enq, timers, r') \<Longrightarrow>
    reactor_step perform ctl wait world p fd (r, [], ops) (r', enq, ops)"
| perform: "perform_io perform q r = Some (first, r') \<Longrightarrow> q \<in> set enq \<Longrightarrow>
    reactor_step perform ctl wait world p fd (r, enq, ops) (r', remove1 q enq, ops)"
| timers: "reactor_step perform ctl wait world p fd (r, enq, ops) (r\<lparr>ep_timers := t\<rparr>, enq, ops)"
| world: "world (ep_sys r) k \<Longrightarrow> reactor_step perform ctl wait world p fd (r, enq, ops) (r\<lparr>ep_sys := k\<rparr>, enq, ops)"

text \<open>
  No operation of a descriptor state is one of the socket \<open>fd\<close>; the pool is well formed: free descriptor states hold no
  operations.
\<close>

definition foreign :: "int \<Rightarrow> descriptor_state \<Rightarrow> bool" where
  "foreign fd d \<longleftrightarrow> (\<forall>i. \<forall>op \<in> set (ds_ops d i). ro_socket op \<noteq> fd)"

definition pool_ok :: "'k epoll_reactor \<Rightarrow> bool" where
  "pool_ok r \<longleftrightarrow> distinct (ep_live r @ ep_free r) \<and> (\<forall>q \<in> set (ep_live r @ ep_free r). q < ep_fresh r)
     \<and> (\<forall>q \<in> set (ep_free r). ds_ops (ep_state r q) = (\<lambda>_. []))"

lemma foreign_new: "foreign fd (descriptor_state_new d)"
  by (simp add: foreign_def descriptor_state_new_def)

lemma pool_alloc_ok:
  assumes "pool_ok r" and "pool_alloc r = (p, r')"
  shows "pool_ok r' \<and> p \<in> set (ep_live r') \<and> p \<notin> set (ep_live r) \<and> p \<notin> set (ep_free r') \<and> p < ep_fresh r'
    \<and> ds_ops (ep_state r' p) = (\<lambda>_. []) \<and> (\<forall>q. q \<noteq> p \<longrightarrow> ep_state r' q = ep_state r q)
    \<and> ep_posted r' = ep_posted r \<and> ep_sys r' = ep_sys r"
  using assms by (auto simp: pool_alloc_def pool_ok_def descriptor_state_new_def Let_def less_Suc_eq split: list.splits)

lemma pool_ok_register:
  assumes "pool_ok r" and "register_descriptor ctl fd r = (err, p, r')"
  shows "pool_ok r'"
proof -
  obtain r1 where a: "pool_alloc r = (p, r1)" using assms(2) by (auto simp: register_descriptor_def Let_def split: prod.splits if_splits)
  obtain d k where "r' = r1\<lparr>ep_sys := k, ep_state := (ep_state r1)(p := d)\<rparr>"
    using assms(2) a by (auto simp: register_descriptor_def Let_def split: prod.splits if_splits)
  then show ?thesis using pool_alloc_ok [OF assms(1) a] by (auto simp: pool_ok_def)
qed

lemma pool_ok_close:
  assumes "pool_ok r" and "p \<in> set (ep_live r)" and "deregister_descriptor ctl fd (Some p) closing r = (data, r1)"
    and "cleanup_descriptor_data data r1 = (data', r')"
  shows "pool_ok r'"
proof (cases "ds_shutdown (ep_state r p)")
  case True
  then show ?thesis using assms by (auto simp: deregister_descriptor_def cleanup_descriptor_data_def)
next
  case False
  define d where "d = (ep_state r p)\<lparr>ds_ops := \<lambda>_. [], ds_descriptor := - 1, ds_shutdown := True\<rparr>"
  have "ep_state r' = (ep_state r)(p := d)" "ep_live r' = remove1 p (ep_live r)"
    "ep_free r' = p # ep_free r" "ep_fresh r' = ep_fresh r"
    using assms(3,4) False
    by (auto simp: deregister_descriptor_def cleanup_descriptor_data_def pool_free_def cancel_on_def post_ops_def d_def Let_def)
  then show ?thesis using assms(1,2) by (auto simp: pool_ok_def d_def)
qed

text \<open>
  A descriptor state is run by the scheduler like an operation, after which the scheduler counts one piece of work
  less. The count is right all the same: it drops by one exactly if an operation was completed in place.
\<close>

lemma descriptor_run_counts:
  assumes "re_sched (ep_timers r) = (s, Some th)" and "private_outstanding_work th = 0"
    and "perform_io perform p r = Some (first, r')" and "re_sched (ep_timers r') = (s', Some th')"
  shows "outstanding_work (fst (work_cleanup (s', th'))) = outstanding_work s - (if first = None then 0 else 1)"
proof -
  obtain finished d k where f: "first = (case finished of [] \<Rightarrow> None | op # _ \<Rightarrow> Some op)"
    and r': "r' = perform_io_cleanup finished (r\<lparr>ep_state := (ep_state r)(p := d), ep_sys := k\<rparr>)"
    using assms(3) by (auto simp: perform_io_def split: option.splits)
  show ?thesis
  proof (cases finished)
    case Nil
    then have "s' = s" "private_outstanding_work th' = 1" using assms(1,2,4) r'
      by (auto simp: perform_io_cleanup_def compensating_work_started_def Let_def)
    then show ?thesis using Nil f by (simp add: work_cleanup_def Let_def)
  next
    case (Cons op ops)
    then have sched: "(s', Some th') = post_deferred_completions (map ro_id ops) (s, Some th)"
      using assms(1,4) r' by (simp add: perform_io_cleanup_def post_ops_def Let_def)
    have "outstanding_work s' = outstanding_work s" "private_outstanding_work th' = 0"
      using sched assms(2) by (auto simp: post_deferred_completions_def private_push_def Let_def split: if_splits)
    then show ?thesis using Cons f by (simp add: work_cleanup_def work_finished_def Let_def)
  qed
qed

locale epoll =
  fixes ctl :: "'k ctl_fn" and wait :: "'k wait_fn"
    and can :: "'k \<Rightarrow> int \<Rightarrow> op_type \<Rightarrow> bool" and edge :: "'k \<Rightarrow> int \<Rightarrow> op_type \<Rightarrow> bool"
    and watch :: "'k \<Rightarrow> int \<Rightarrow> (nat \<times> uint32) option" and world :: "'k \<Rightarrow> 'k \<Rightarrow> bool"
  assumes world_evolves: "world k k' \<Longrightarrow> evolves can edge watch fd k k'"
    and ctl_others: "ctl c fd reg p k = (err, k') \<Longrightarrow> fd' \<noteq> fd \<Longrightarrow> evolves can edge watch fd' k k'"
    and ctl_failed: "ctl c fd reg p k = (err, k') \<Longrightarrow> err \<noteq> 0 \<Longrightarrow> evolves can edge watch fd k k'"
    and ctl_watch: "ctl c fd reg p k = (0, k') \<Longrightarrow> c \<noteq> Ctl_del \<Longrightarrow>
      watch k' fd = Some (p, reg) \<and> (\<forall>j. watches reg j \<and> can k' fd j \<longrightarrow> edge k' fd j)"
    and wait_reports: "wait t k = (evs, k') \<Longrightarrow> watch k fd = Some (p, reg) \<Longrightarrow>
      watch k' fd = Some (p, reg) \<and> (\<forall>j. watches reg j \<longrightarrow>
        (edge k fd j \<longrightarrow> edge k' fd j \<or> (\<exists>ev. Ev_descriptor p ev \<in> set evs \<and> hits ev j))
      \<and> (can k' fd j \<longrightarrow> can k fd j \<or> edge k' fd j \<or> (\<exists>ev. Ev_descriptor p ev \<in> set evs \<and> hits ev j)))"

text \<open>
  What the reactor relies on of an operation: an operation that is not done has found the descriptor not
  ready, and one that is done and exhausted has left it so, or has failed.
\<close>

locale edge_triggered = epoll ctl wait can edge watch world
  for ctl :: "'k ctl_fn" and wait :: "'k wait_fn"
    and can :: "'k \<Rightarrow> int \<Rightarrow> op_type \<Rightarrow> bool" and edge :: "'k \<Rightarrow> int \<Rightarrow> op_type \<Rightarrow> bool"
    and watch :: "'k \<Rightarrow> int \<Rightarrow> (nat \<times> uint32) option" and world :: "'k \<Rightarrow> 'k \<Rightarrow> bool" +
  fixes perform :: "'k perform_fn"
  assumes perform_keeps: "perform op k = Some (st, op', k') \<Longrightarrow>
      ro_id op' = ro_id op \<and> ro_socket op' = ro_socket op \<and> ro_kind op' = ro_kind op \<and> ro_key op' = ro_key op"
    and perform_evolves: "perform op k = Some (st, op', k') \<Longrightarrow> evolves can edge watch fd k k'"
    and perform_blocked: "perform op k = Some (st_not_done, op', k') \<Longrightarrow> watch k (ro_socket op) = Some (p, reg) \<Longrightarrow>
      watches reg (op_dir op) \<Longrightarrow> can k' (ro_socket op) (op_dir op) \<Longrightarrow> edge k' (ro_socket op) (op_dir op) \<or> op_stalled op'"
    and perform_exhausted: "perform op k = Some (st_done_and_exhausted, op', k') \<Longrightarrow> watch k (ro_socket op) = Some (p, reg) \<Longrightarrow>
      watches reg (op_dir op) \<Longrightarrow> can k' (ro_socket op) (op_dir op) \<Longrightarrow>
      edge k' (ro_socket op) (op_dir op) \<or> ro_ec op' \<noteq> No_error"
begin

text \<open>A direction is served: whoever waits in it while it is ready will be told, or an operation of it has failed.\<close>

definition served :: "int \<Rightarrow> (op_type \<Rightarrow> bool) \<Rightarrow> descriptor_state \<Rightarrow> 'k \<Rightarrow> op_type \<Rightarrow> bool" where
  "served fd told d k j \<longleftrightarrow>
     (watches (ds_registered d) j \<and> (ds_ops d j \<noteq> [] \<or> \<not> ds_spec d j) \<and> can k fd j
      \<longrightarrow> edge k fd j \<or> told j \<or> (\<exists>op \<in> set (ds_ops d j). op_stalled op))"

definition tidy :: "int \<Rightarrow> nat \<Rightarrow> descriptor_state \<Rightarrow> 'k \<Rightarrow> bool" where
  "tidy fd p d k \<longleftrightarrow> ds_descriptor d = fd \<and> \<not> ds_shutdown d \<and> ds_registered d \<noteq> 0
     \<and> watch k fd = Some (p, ds_registered d) \<and> ds_ops d except_op = [] \<and> watches (ds_registered d) read_op
     \<and> (\<forall>j. (\<forall>op \<in> set (ds_ops d j). op_dir op = j \<and> ro_socket op = fd) \<and> (ds_ops d j \<noteq> [] \<longrightarrow> watches (ds_registered d) j))"

lemma op_dir_keeps: "perform op k = Some (st, op', k') \<Longrightarrow> op_dir op' = op_dir op"
  using perform_keeps by (simp add: op_dir_def)

lemma served_evolves:
  "evolves can edge watch fd k k' \<Longrightarrow> watch k fd = Some (p, ds_registered d) \<Longrightarrow> served fd told d k j \<Longrightarrow> served fd told d k' j"
  unfolding served_def evolves_def by blast

lemma served_told: "served fd told d k j \<Longrightarrow> (\<And>j. told j \<Longrightarrow> told' j) \<Longrightarrow> served fd told' d k j"
  unfolding served_def by blast

lemma tidy_evolves: "evolves can edge watch fd k k' \<Longrightarrow> tidy fd p d k \<Longrightarrow> tidy fd p d k'"
  by (simp add: tidy_def evolves_def)

lemma perform_loop_ok:
  assumes "perform_loop perform ops k = Some (finished, rest, exhausted, k')"
    and "\<forall>op \<in> set ops. op_dir op = j \<and> ro_socket op = fd" and "watch k fd = Some (p, reg)" and "watches reg j"
  shows "(\<forall>fd'. evolves can edge watch fd' k k') \<and> map ro_id (finished @ rest) = map ro_id ops
    \<and> (\<forall>op \<in> set (finished @ rest). op_dir op = j \<and> ro_socket op = fd)
    \<and> ((rest \<noteq> [] \<or> exhausted) \<and> can k' fd j \<longrightarrow> edge k' fd j
          \<or> (\<exists>op \<in> set finished. ro_ec op \<noteq> No_error) \<or> (\<exists>op \<in> set rest. op_stalled op))"
  using assms
proof (induction ops arbitrary: k finished rest)
  case Nil
  then show ?case by (simp add: evolves_refl)
next
  case (Cons op ops)
  from Cons.prems(1) obtain st op1 k1 where p: "perform op k = Some (st, op1, k1)"
    by (auto split: option.splits prod.splits)
  have e: "evolves can edge watch fd' k k1" for fd' using perform_evolves [OF p] .
  have w1: "watch k1 fd = Some (p, reg)" using e [of fd] Cons.prems(3) by (simp add: evolves_def)
  have op1: "op_dir op1 = j" "ro_socket op1 = fd" "ro_id op1 = ro_id op"
    using op_dir_keeps [OF p] perform_keeps [OF p] Cons.prems(2) by auto
  have op: "op_dir op = j" "ro_socket op = fd" using Cons.prems(2) by auto
  show ?case
  proof (cases st)
    case st_not_done
    then show ?thesis using Cons.prems p e op op1 perform_blocked [of op k op1 k1 p reg] by auto
  next
    case st_done_and_exhausted
    then show ?thesis using Cons.prems p e op op1 perform_exhausted [of op k op1 k1 p reg] by auto
  next
    case st_done
    with Cons.prems(1) p obtain fin where rest: "perform_loop perform ops k1 = Some (fin, rest, exhausted, k')"
      and fin: "finished = op1 # fin" by (auto split: option.splits prod.splits)
    have "\<forall>op \<in> set ops. op_dir op = j \<and> ro_socket op = fd" using Cons.prems(2) by simp
    from Cons.IH [OF rest this w1 Cons.prems(4)] fin op1 e show ?thesis by (auto intro: evolves_trans)
  qed
qed


text \<open>Whether some of the operations has failed.\<close>

definition failed_in :: "reactor_op list \<Rightarrow> op_type \<Rightarrow> bool" where
  "failed_in ops j \<longleftrightarrow> (\<exists>op \<in> set ops. op_dir op = j \<and> ro_ec op \<noteq> No_error)"

lemma failed_in_append [simp]: "failed_in (xs @ ys) j \<longleftrightarrow> failed_in xs j \<or> failed_in ys j"
  by (auto simp: failed_in_def)

lemma perform_dir_ok:
  assumes "tidy fd p d k" and "perform_dir perform events j (d, k) = Some (finished, d', k')"
    and "\<And>i. served fd (\<lambda>i. i \<in> J \<and> hits events i \<or> told i) d k i"
  shows "tidy fd p d' k' \<and> (\<forall>fd'. evolves can edge watch fd' k k')
    \<and> (\<forall>i. served fd (\<lambda>i. i \<in> J - {j} \<and> hits events i \<or> told i \<or> failed_in finished i) d' k' i)
    \<and> (\<forall>op \<in> set finished. op_dir op = j \<and> ro_socket op = fd)
    \<and> map ro_id (finished @ ds_ops d' j) = map ro_id (ds_ops d j) \<and> (\<forall>i. i \<noteq> j \<longrightarrow> ds_ops d' i = ds_ops d i)"
proof (cases "hits events j")
  case False
  then have "finished = []" "d' = d" "k' = k" using assms(2) by (auto simp: perform_dir_def)
  moreover have "served fd (\<lambda>i. i \<in> J - {j} \<and> hits events i \<or> told i \<or> failed_in finished i) d k i" for i
    using assms(3) [of i] False unfolding served_def by blast
  ultimately show ?thesis using assms(1) by (simp add: evolves_refl)
next
  case True
  then obtain rest exhausted where loop: "perform_loop perform (ds_ops d j) k = Some (finished, rest, exhausted, k')"
    and d': "d' = ds_set_spec j (\<not> exhausted) (d\<lparr>ds_ops := (ds_ops d)(j := rest)\<rparr>)"
    using assms(2) by (auto simp: perform_dir_def split: option.splits)
  have w: "watch k fd = Some (p, ds_registered d)" using assms(1) by (simp add: tidy_def)
  have ops: "\<forall>op \<in> set (ds_ops d j). op_dir op = j \<and> ro_socket op = fd" using assms(1) by (simp add: tidy_def)
  show ?thesis
  proof (cases "watches (ds_registered d) j")
    case False
    then have "ds_ops d j = []" using assms(1) unfolding tidy_def by blast
    then have "finished = []" "rest = []" "\<not> exhausted" "k' = k" using loop by auto
    moreover have "served fd (\<lambda>i. i \<in> J - {j} \<and> hits events i \<or> told i \<or> failed_in [] i) d' k i" for i
      using assms(3) [of i] False d' unfolding served_def by (auto simp: ds_set_spec_def)
    ultimately show ?thesis using assms(1) d' \<open>ds_ops d j = []\<close>
      by (auto simp: evolves_refl tidy_def ds_set_spec_def)
  next
    case watched: True
    note l = perform_loop_ok [OF loop ops w watched]
    have "served fd (\<lambda>i. i \<in> J - {j} \<and> hits events i \<or> told i \<or> failed_in finished i) d' k' i" for i
    proof (cases "i = j")
      case True
      then show ?thesis using l d' unfolding served_def by (auto simp: ds_set_spec_def failed_in_def)
    next
      case False
      have "served fd (\<lambda>i. i \<in> J \<and> hits events i \<or> told i) d k' i" using served_evolves [OF _ w assms(3)] l by blast
      then show ?thesis using False d' unfolding served_def by (auto simp: ds_set_spec_def)
    qed
    moreover have "tidy fd p d' k'"
    proof -
      have "tidy fd p d k'" using tidy_evolves assms(1) l by blast
      then show ?thesis using l d' watched unfolding tidy_def by (cases "j = except_op") (auto simp: ds_set_spec_def)
    qed
    ultimately show ?thesis using l d' by (auto simp: ds_set_spec_def)
  qed
qed


lemma perform_dirs_ok:
  assumes "tidy fd p d k" and "perform_dirs perform events js (d, k) = Some (finished, d', k')"
    and "\<And>i. served fd (\<lambda>i. i \<in> set js \<and> hits events i \<or> told i) d k i"
  shows "tidy fd p d' k' \<and> (\<forall>fd'. evolves can edge watch fd' k k')
    \<and> (\<forall>i. served fd (\<lambda>i. told i \<or> failed_in finished i) d' k' i)
    \<and> (\<forall>op \<in> set finished. ro_socket op = fd)
    \<and> (\<forall>i. map ro_id (filter (\<lambda>op. op_dir op = i) finished @ ds_ops d' i) = map ro_id (ds_ops d i))"
  using assms
proof (induction js arbitrary: finished d k told)
  case Nil
  then show ?case by (simp add: evolves_refl failed_in_def)
next
  case (Cons j js)
  from Cons.prems(2) obtain fin1 d1 k1 fin2 where one: "perform_dir perform events j (d, k) = Some (fin1, d1, k1)"
    and two: "perform_dirs perform events js (d1, k1) = Some (fin2, d', k')" and fin: "finished = fin1 @ fin2"
    by (auto split: option.splits)
  note l1 = perform_dir_ok [OF Cons.prems(1) one Cons.prems(3)]
  have "served fd (\<lambda>i. i \<in> set js \<and> hits events i \<or> (told i \<or> failed_in fin1 i)) d1 k1 i" for i
    using l1 by (auto intro: served_told)
  from Cons.IH [OF _ two this] l1
  have l2: "tidy fd p d' k'" "\<forall>fd'. evolves can edge watch fd' k1 k'"
    "\<forall>i. served fd (\<lambda>i. (told i \<or> failed_in fin1 i) \<or> failed_in fin2 i) d' k' i" "\<forall>op \<in> set fin2. ro_socket op = fd"
    "\<forall>i. map ro_id (filter (\<lambda>op. op_dir op = i) fin2 @ ds_ops d' i) = map ro_id (ds_ops d1 i)" by blast+
  have "map ro_id (filter (\<lambda>op. op_dir op = i) finished @ ds_ops d' i) = map ro_id (ds_ops d i)" for i
  proof (cases "i = j")
    case True
    then have "filter (\<lambda>op. op_dir op = i) fin1 = fin1" using l1 by (auto simp: filter_id_conv)
    then have "map ro_id (filter (\<lambda>op. op_dir op = i) finished @ ds_ops d' i)
        = map ro_id fin1 @ map ro_id (filter (\<lambda>op. op_dir op = i) fin2 @ ds_ops d' i)" using fin by simp
    also have "\<dots> = map ro_id (fin1 @ ds_ops d1 j)" using l2(5) True by simp
    also have "\<dots> = map ro_id (ds_ops d i)" using l1 True by blast
    finally show ?thesis .
  next
    case False
    then have "filter (\<lambda>op. op_dir op = i) fin1 = []" using l1 by (auto simp: filter_empty_conv)
    then show ?thesis using l1 l2(5) False fin by simp
  qed
  moreover have "evolves can edge watch fd' k k'" for fd'
    using evolves_trans [OF l1 [THEN conjunct2, THEN conjunct1, rule_format] l2(2) [rule_format]] .
  moreover have "served fd (\<lambda>i. told i \<or> failed_in finished i) d' k' i" for i using l2(3) fin by (simp add: disj_assoc)
  moreover have "\<forall>op \<in> set finished. ro_socket op = fd" using l1 l2(4) fin by auto
  ultimately show ?case using l2(1) by blast
qed

lemma try_perform_ok:
  assumes "tidy fd p d k" and "try_perform perform j op (d, k) = Some (st, op', k')"
    and "op_dir op = j" and "ro_socket op = fd" and "\<And>i. served fd told d k i" and "ds_ops d j = []"
  shows "(\<forall>fd'. evolves can edge watch fd' k k') \<and> op_dir op' = j \<and> ro_socket op' = fd \<and> ro_id op' = ro_id op
    \<and> tidy fd p d k' \<and> (\<forall>i. served fd told d k' i)
    \<and> (st = st_not_done \<and> watches (ds_registered d) j \<and> can k' fd j \<longrightarrow> edge k' fd j \<or> told j \<or> op_stalled op')
    \<and> (st = st_done_and_exhausted \<and> watches (ds_registered d) j \<and> can k' fd j \<longrightarrow> edge k' fd j \<or> ro_ec op' \<noteq> No_error)"
proof (cases "ds_spec d j")
  case True
  then have p: "perform op k = Some (st, op', k')" using assms(2) by (simp add: try_perform_def)
  have w: "watch k fd = Some (p, ds_registered d)" using assms(1) by (simp add: tidy_def)
  have e: "evolves can edge watch fd' k k'" for fd' using perform_evolves [OF p] .
  show ?thesis
    using e op_dir_keeps [OF p] perform_keeps [OF p] assms(3,4) tidy_evolves [OF e assms(1)] served_evolves [OF e w assms(5)]
      perform_blocked [of op k op' k' p "ds_registered d"] perform_exhausted [of op k op' k' p "ds_registered d"] p w by auto
next
  case False
  then have "st = st_not_done" "op' = op" "k' = k" using assms(2) by (auto simp: try_perform_def)
  moreover have "edge k fd j \<or> told j" if "watches (ds_registered d) j" "can k fd j"
    using assms(5) [of j] assms(6) False that by (simp add: served_def)
  ultimately show ?thesis using assms(1,3-5) by (auto simp: evolves_refl)
qed

definition new_posted :: "started \<Rightarrow> reactor_op list" where
  "new_posted res = (case res of Immediate op \<Rightarrow> [op] | Queued \<Rightarrow> [])"

lemma tidy_push:
  assumes "tidy fd p d k" and "op_dir op = j" and "ro_socket op = fd" and "j \<noteq> except_op" and "watches (ds_registered d) j"
  shows "tidy fd p (ds_push j op d) k"
  using assms unfolding tidy_def by (auto simp: ds_push_def)

lemma start_speculative_ok:
  assumes "tidy fd p d k" and "ds_ops d j = []" and "start_speculative perform ctl j fd p op (d, k) = Some (res, d', k')"
    and "op_dir op = j" and "ro_socket op = fd" and "\<And>i. served fd told d k i"
  shows "tidy fd p d' k' \<and> (\<forall>fd'. fd' \<noteq> fd \<longrightarrow> evolves can edge watch fd' k k')
    \<and> (\<forall>i. served fd (\<lambda>i. told i \<or> failed_in (new_posted res) i) d' k' i)
    \<and> (\<forall>op \<in> set (new_posted res). op_dir op = j \<and> ro_socket op = fd)
    \<and> map ro_id (new_posted res @ ds_ops d' j) = [ro_id op] \<and> (\<forall>i. i \<noteq> j \<longrightarrow> ds_ops d' i = ds_ops d i)"
proof -
  have j: "j \<noteq> except_op" using assms(4) by (auto simp: op_dir_def split: op_kind.splits)
  have reg: "ds_registered d \<noteq> 0" using assms(1) by (simp add: tidy_def)
  obtain st op1 k1 where t: "try_perform perform j op (d, k) = Some (st, op1, k1)"
    using assms(3) by (auto simp: start_speculative_def split: option.splits)
  note l = try_perform_ok [OF assms(1) t assms(4-6,2)]
  note start = assms(3) [unfolded start_speculative_def prod.case t option.case]
  consider (finished) "st \<noteq> st_not_done" | (watched) "st = st_not_done" "watches (ds_registered d) j"
    | (writing) "st = st_not_done" "\<not> watches (ds_registered d) j" "j = write_op"
    | (unwatched) "st = st_not_done" "\<not> watches (ds_registered d) j" "j = read_op"
    using j by (cases j) auto
  then show ?thesis
  proof cases
    case finished
    then have out: "res = Immediate op1" "d' = (if st = st_done_and_exhausted then ds_set_spec j False d else d)" "k' = k1"
      using start reg by auto
    have "tidy fd p d' k'" using l out(2,3) unfolding tidy_def by (simp add: ds_set_spec_def)
    moreover have "served fd (\<lambda>i. told i \<or> failed_in (new_posted res) i) d' k' i" for i
      using l out unfolding served_def by (auto simp: ds_set_spec_def new_posted_def failed_in_def split: if_splits)
    ultimately show ?thesis using l out assms(2) by (simp add: new_posted_def ds_set_spec_def)
  next
    case watched
    then have "\<not> (j = write_op \<and> ds_registered d AND EPOLLOUT = 0)" by (auto simp: watches_def)
    then have out: "res = Queued" "d' = ds_push j op1 d" "k' = k1" using start reg watched(1) by (auto split: if_splits)
    have "tidy fd p d' k'" using l out tidy_push j watched(2) by blast
    moreover have "served fd (\<lambda>i. told i \<or> failed_in (new_posted res) i) d' k' i" for i
      using l out watched unfolding served_def by (cases "i = j") (auto simp: ds_push_def)
    ultimately show ?thesis using l out assms(2) by (simp add: new_posted_def ds_push_def)
  next
    case writing
    define events where "events = ds_registered d OR EPOLLOUT"
    obtain err k2 where c: "ctl Ctl_mod fd events p k1 = (err, k2)" by fastforce
    have e: "evolves can edge watch fd' k k2" if "fd' \<noteq> fd" for fd'
      using evolves_trans [OF l [THEN conjunct1, rule_format] ctl_others [OF c that]] .
    have unset: "ds_registered d AND EPOLLOUT = 0" using writing(2,3) by (simp add: watches_def)
    have w1: "watch k1 fd = Some (p, ds_registered d)" using l by (simp add: tidy_def)
    show ?thesis
    proof (cases "err = 0")
      case True
      then have out: "res = Queued" "d' = ds_push j op1 (d\<lparr>ds_registered := events\<rparr>)" "k' = k2"
        using start reg unset writing(1,3) c by (auto simp: Let_def events_def or_absorb)
      note w2 = ctl_watch [OF c [unfolded True]]
      have "tidy fd p (d\<lparr>ds_registered := events\<rparr>) k'"
        using assms(1) w2 out(3) or_nonzero [OF reg] unfolding tidy_def events_def by auto
      then have "tidy fd p d' k'" using out(2) tidy_push l j writing(3) by (auto simp: events_def)
      moreover have "served fd (\<lambda>i. told i \<or> failed_in (new_posted res) i) d' k' i" for i
        using w2 out unfolding served_def by (auto simp: ds_push_def)
      ultimately show ?thesis using l out e assms(2) by (simp add: new_posted_def ds_push_def)
    next
      case False
      then have out: "res = Immediate (op1\<lparr>ro_ec := Asio_error err\<rparr>)" "d' = d" "k' = k2"
        using start reg unset writing(1,3) c by (auto simp: Let_def events_def)
      have e2: "evolves can edge watch fd k1 k2" using ctl_failed [OF c False] .
      then have "tidy fd p d' k'" using l out tidy_evolves by blast
      moreover have "served fd (\<lambda>i. told i \<or> failed_in (new_posted res) i) d' k' i" for i
        using served_evolves [OF e2 w1, of told i] l out by (auto intro: served_told)
      ultimately show ?thesis using l out e assms(2) by (auto simp: new_posted_def op_dir_def)
    qed
  next
    case unwatched
    then show ?thesis using assms(1) unfolding tidy_def by auto
  qed
qed


lemma start_on_ok:
  assumes "tidy fd p d k" and "start_on perform ctl j fd p op True (d, k) = Some (res, d', k')"
    and "op_dir op = j" and "ro_socket op = fd" and "\<And>i. served fd told d k i"
  shows "tidy fd p d' k' \<and> (\<forall>fd'. fd' \<noteq> fd \<longrightarrow> evolves can edge watch fd' k k')
    \<and> (\<forall>i. served fd (\<lambda>i. told i \<or> failed_in (new_posted res) i) d' k' i)
    \<and> (\<forall>op \<in> set (new_posted res). op_dir op = j \<and> ro_socket op = fd)
    \<and> map ro_id (new_posted res @ ds_ops d' j) = map ro_id (ds_ops d j) @ [ro_id op] \<and> (\<forall>i. i \<noteq> j \<longrightarrow> ds_ops d' i = ds_ops d i)"
proof (cases "ds_ops d j = []")
  case False
  have j: "j \<noteq> except_op" using assms(3) by (auto simp: op_dir_def split: op_kind.splits)
  have out: "res = Queued" "d' = ds_push j op d" "k' = k" using assms(1,2) False by (auto simp: start_on_def tidy_def)
  have "tidy fd p d' k'" using tidy_push [OF assms(1,3,4) j] assms(1) False out unfolding tidy_def by simp
  moreover have "served fd (\<lambda>i. told i \<or> failed_in (new_posted res) i) d' k' i" for i
    using assms(5) [of i] out False unfolding served_def by (auto simp: ds_push_def)
  ultimately show ?thesis using out by (simp add: new_posted_def ds_push_def evolves_refl)
next
  case True
  then have "start_speculative perform ctl j fd p op (d, k) = Some (res, d', k')"
    using assms(1,2) by (simp add: start_on_def tidy_def)
  from start_speculative_ok [OF assms(1) True this assms(3-5)] True show ?thesis by simp
qed

text \<open>Operations on other descriptors. The address and the socket of an operation never change.\<close>

definition op_tag :: "reactor_op \<Rightarrow> nat \<times> int" where
  "op_tag op = (ro_id op, ro_socket op)"

lemma start_on_others:
  assumes "start_on perform ctl j fd' q op spec (d, k) = Some (res, d', k')" and "fd \<noteq> fd'"
  shows "evolves can edge watch fd k k'" and "\<forall>x \<in> set (new_posted res). op_tag x = op_tag op"
    and "\<forall>i. \<forall>x \<in> set (ds_ops d' i). op_tag x = op_tag op \<or> x \<in> set (ds_ops d i)"
proof -
  have ctl: "evolves can edge watch fd k1 k2" if "ctl Ctl_mod fd' reg q k1 = (err, k2)" for reg err k1 k2
    using ctl_others [OF that assms(2)] .
  have t: "evolves can edge watch fd k k1 \<and> op_tag op1 = op_tag op"
    if "try_perform perform j op (d, k) = Some (st, op1, k1)" for st op1 k1
    using that perform_evolves perform_keeps by (auto simp: try_perform_def evolves_refl op_tag_def split: if_splits)
  have spec: "evolves can edge watch fd k k' \<and> (\<forall>x \<in> set (new_posted res). op_tag x = op_tag op)
      \<and> (\<forall>i. \<forall>x \<in> set (ds_ops d' i). op_tag x = op_tag op \<or> x \<in> set (ds_ops d i))"
    if s: "start_speculative perform ctl j fd' q op (d, k) = Some (res, d', k')"
  proof -
    obtain st op1 k1 where tp: "try_perform perform j op (d, k) = Some (st, op1, k1)"
      using s by (auto simp: start_speculative_def split: option.splits)
    obtain err k2 where c: "ctl Ctl_mod fd' (ds_registered d OR EPOLLOUT) q k1 = (err, k2)" by fastforce
    have "k' \<in> {k1, k2}" using s by (auto simp: start_speculative_def tp c Let_def split: if_splits)
    then show ?thesis using t [OF tp] evolves_trans [OF _ ctl [OF c]] s
      by (auto simp: start_speculative_def tp c Let_def new_posted_def ds_set_spec_def ds_push_def op_tag_def split: if_splits)
  qed
  have waiting: "evolves can edge watch fd k k' \<and> (\<forall>x \<in> set (new_posted res). op_tag x = op_tag op)
      \<and> (\<forall>i. \<forall>x \<in> set (ds_ops d' i). op_tag x = op_tag op \<or> x \<in> set (ds_ops d i))"
    if s: "start_waiting ctl j fd' q op (d, k) = (res, d', k')"
  proof -
    have e: "evolves can edge watch fd k (snd (ctl Ctl_mod fd' reg q k))" for reg
      using ctl [of reg k] by (cases "ctl Ctl_mod fd' reg q k") simp
    show ?thesis using s e by (auto simp: start_waiting_def Let_def new_posted_def ds_push_def evolves_refl op_tag_def split: if_splits)
  qed
  have "evolves can edge watch fd k k' \<and> (\<forall>x \<in> set (new_posted res). op_tag x = op_tag op)
      \<and> (\<forall>i. \<forall>x \<in> set (ds_ops d' i). op_tag x = op_tag op \<or> x \<in> set (ds_ops d i))"
    using assms(1) spec waiting by (auto simp: start_on_def new_posted_def ds_push_def evolves_refl op_tag_def split: if_splits)
  then show "evolves can edge watch fd k k'" "\<forall>x \<in> set (new_posted res). op_tag x = op_tag op"
    "\<forall>i. \<forall>x \<in> set (ds_ops d' i). op_tag x = op_tag op \<or> x \<in> set (ds_ops d i)" by blast+
qed

lemma perform_loop_others:
  "perform_loop perform ops k = Some (finished, rest, exhausted, k') \<Longrightarrow>
    evolves can edge watch fd k k' \<and> op_tag ` set (finished @ rest) \<subseteq> op_tag ` set ops"
proof (induction ops arbitrary: k finished rest)
  case Nil
  then show ?case by (simp add: evolves_refl)
next
  case (Cons op ops)
  from Cons.prems obtain st op1 k1 where p: "perform op k = Some (st, op1, k1)"
    by (auto split: option.splits prod.splits)
  have e: "evolves can edge watch fd k k1" "op_tag op1 = op_tag op" using perform_evolves [OF p] perform_keeps [OF p] by (auto simp: op_tag_def)
  show ?case
  proof (cases st)
    case st_done
    with Cons.prems p obtain fin where rest: "perform_loop perform ops k1 = Some (fin, rest, exhausted, k')"
      and fin: "finished = op1 # fin" by (auto split: option.splits prod.splits)
    from Cons.IH [OF rest] show ?thesis using fin e evolves_trans [OF e(1)] by auto
  qed (use Cons.prems p e in auto)
qed

lemma perform_dirs_others:
  "perform_dirs perform events js (d, k) = Some (finished, d', k') \<Longrightarrow>
    evolves can edge watch fd k k' \<and> (\<forall>op \<in> set finished. \<exists>i. op_tag op \<in> op_tag ` set (ds_ops d i))
    \<and> (\<forall>i. \<forall>op \<in> set (ds_ops d' i). op_tag op \<in> op_tag ` set (ds_ops d i))"
proof (induction js arbitrary: finished d k)
  case Nil
  then show ?case by (auto simp: evolves_refl)
next
  case (Cons j js)
  from Cons.prems obtain fin1 d1 k1 fin2 where one: "perform_dir perform events j (d, k) = Some (fin1, d1, k1)"
    and two: "perform_dirs perform events js (d1, k1) = Some (fin2, d', k')" and fin: "finished = fin1 @ fin2"
    by (auto split: option.splits)
  have o: "evolves can edge watch fd k k1 \<and> (\<forall>op \<in> set fin1. op_tag op \<in> op_tag ` set (ds_ops d j))
      \<and> (\<forall>i. op_tag ` set (ds_ops d1 i) \<subseteq> op_tag ` set (ds_ops d i))"
    using one perform_loop_others [of "ds_ops d j" k]
    by (fastforce simp: perform_dir_def ds_set_spec_def evolves_refl split: if_splits option.splits)
  have "evolves can edge watch fd k k'" using evolves_trans [OF o [THEN conjunct1] Cons.IH [OF two, THEN conjunct1]] .
  moreover have "\<exists>i. op_tag op \<in> op_tag ` set (ds_ops d i)" if "op \<in> set finished" for op
    using o Cons.IH [OF two] that fin by fastforce
  moreover have "op_tag op \<in> op_tag ` set (ds_ops d i)" if "op \<in> set (ds_ops d' i)" for op i
    using o Cons.IH [OF two] that by blast
  ultimately show ?case by blast
qed


text \<open>The invariant of a registered descriptor; \<open>n\<close> operations had been posted when it was registered.\<close>

definition told :: "nat \<Rightarrow> int \<Rightarrow> nat \<Rightarrow> 'k epoll_reactor \<Rightarrow> nat list \<Rightarrow> op_type \<Rightarrow> bool" where
  "told p fd n r enq j \<longleftrightarrow> p \<in> set enq \<and> hits (ds_task_result (ep_state r p)) j
     \<or> (\<exists>op \<in> set (posted_of fd j (drop n (ep_posted r))). ro_ec op \<noteq> No_error)"

definition reactor_ok :: "nat \<Rightarrow> int \<Rightarrow> nat \<Rightarrow> 'k epoll_reactor \<Rightarrow> nat list \<Rightarrow> reactor_op list \<Rightarrow> bool" where
  "reactor_ok p fd n r enq ops \<longleftrightarrow> p \<notin> set (ep_free r) \<and> p < ep_fresh r \<and> distinct enq \<and> n \<le> length (ep_posted r)
     \<and> tidy fd p (ep_state r p) (ep_sys r) \<and> (\<forall>j. served fd (told p fd n r enq) (ep_state r p) (ep_sys r) j)
     \<and> (\<forall>q. q \<noteq> p \<longrightarrow> foreign fd (ep_state r q))
     \<and> (\<forall>j. in_order (posted_of fd j (drop n (ep_posted r))) (ds_ops (ep_state r p) j) (map ro_id (filter (\<lambda>op. op_dir op = j) ops)))"

text \<open>A step that leaves the descriptor and its socket alone.\<close>

lemma reactor_ok_frame:
  assumes "reactor_ok p fd n r enq ops" and "ep_state r' p = ep_state r p" and "evolves can edge watch fd (ep_sys r) (ep_sys r')"
    and "p \<notin> set (ep_free r')" and "p < ep_fresh r'" and "distinct enq'" and "p \<in> set enq' \<longleftrightarrow> p \<in> set enq"
    and "ep_posted r' = ep_posted r @ new" and "\<forall>op \<in> set new. ro_socket op \<noteq> fd"
    and "\<And>q. q \<noteq> p \<Longrightarrow> foreign fd (ep_state r' q)"
  shows "reactor_ok p fd n r' enq' ops"
proof -
  have none: "posted_of fd j new = []" for j using assms(9) by (auto simp: posted_of_def filter_empty_conv)
  have same: "posted_of fd j (drop n (ep_posted r')) = posted_of fd j (drop n (ep_posted r))" for j
    using assms(1,8) none by (simp add: reactor_ok_def)
  have "told p fd n r' enq' = told p fd n r enq" using same assms(2,7) by (auto simp: told_def fun_eq_iff)
  moreover have "watch (ep_sys r) fd = Some (p, ds_registered (ep_state r p))" using assms(1) by (simp add: reactor_ok_def tidy_def)
  ultimately have "served fd (told p fd n r' enq') (ep_state r' p) (ep_sys r') j" for j
    using served_evolves [OF assms(3)] assms(1,2) by (simp add: reactor_ok_def)
  moreover have "tidy fd p (ep_state r' p) (ep_sys r')" using tidy_evolves [OF assms(3)] assms(1,2) by (simp add: reactor_ok_def)
  ultimately show ?thesis using assms(1,2,4-6,8,10) same by (simp add: reactor_ok_def)
qed

text \<open>A step on the descriptor that posts the operations \<open>new\<close>.\<close>

lemma reactor_ok_step:
  assumes "reactor_ok p fd n r enq ops" and "ep_state r' = (ep_state r)(p := d)" and "tidy fd p d (ep_sys r')"
    and "\<And>j. served fd (\<lambda>j. told p fd n r enq' j \<or> failed_in new j) d (ep_sys r') j"
    and "ds_task_result d = ds_task_result (ep_state r p)"
    and "ep_free r' = ep_free r" and "ep_fresh r' = ep_fresh r" and "distinct enq'"
    and "ep_posted r' = ep_posted r @ new" and "\<forall>op \<in> set new. ro_socket op = fd"
    and "\<And>j. mset (map ro_id (filter (\<lambda>op. op_dir op = j) new @ ds_ops d j)) = mset (map ro_id (ds_ops (ep_state r p) j) @ H j)"
    and "\<And>j. subseq (map ro_id (filter (\<lambda>op. ro_ec op \<noteq> Operation_aborted) (filter (\<lambda>op. op_dir op = j) new) @ ds_ops d j))
      (map ro_id (ds_ops (ep_state r p) j) @ H j)"
    and "\<And>j. map ro_id (filter (\<lambda>op. op_dir op = j) ops') = map ro_id (filter (\<lambda>op. op_dir op = j) ops) @ H j"
  shows "reactor_ok p fd n r' enq' ops'"
proof -
  have new: "posted_of fd j new = filter (\<lambda>op. op_dir op = j) new" for j
    using assms(10) by (auto simp: posted_of_def intro: filter_cong)
  have posted: "posted_of fd j (drop n (ep_posted r')) = posted_of fd j (drop n (ep_posted r)) @ filter (\<lambda>op. op_dir op = j) new" for j
    using assms(1,9) new by (simp add: reactor_ok_def)
  have "told p fd n r' enq' j" if "told p fd n r enq' j \<or> failed_in new j" for j
    using that posted [of j] assms(2,5) unfolding told_def failed_in_def by (auto simp: Bex_def)
  then have "served fd (told p fd n r' enq') (ep_state r' p) (ep_sys r') j" for j
    using served_told [OF assms(4)] assms(2) by simp
  moreover have "in_order (posted_of fd j (drop n (ep_posted r'))) (ds_ops d j) (map ro_id (filter (\<lambda>op. op_dir op = j) ops'))" for j
    unfolding posted assms(13) using in_order_extend [OF _ assms(11,12)] assms(1) by (simp add: reactor_ok_def)
  ultimately show ?thesis using assms(1,2,3,6,7,8,9) by (auto simp: reactor_ok_def)
qed


lemma posted_on_immediate [simp]:
  "ep_state (on_immediate op c r) = ep_state r" "ep_sys (on_immediate op c r) = ep_sys r" "ep_free (on_immediate op c r) = ep_free r"
  "ep_fresh (on_immediate op c r) = ep_fresh r" "ep_posted (on_immediate op c r) = ep_posted r @ [op]"
  by (simp_all add: on_immediate_def Let_def)

lemma posted_post_ops [simp]:
  "ep_state (post_ops ops r) = ep_state r" "ep_sys (post_ops ops r) = ep_sys r" "ep_free (post_ops ops r) = ep_free r"
  "ep_fresh (post_ops ops r) = ep_fresh r" "ep_posted (post_ops ops r) = ep_posted r @ ops"
  by (simp_all add: post_ops_def Let_def)

lemma posted_work_started [simp]:
  "ep_state (reactor_work_started r) = ep_state r" "ep_sys (reactor_work_started r) = ep_sys r"
  "ep_free (reactor_work_started r) = ep_free r" "ep_fresh (reactor_work_started r) = ep_fresh r"
  "ep_posted (reactor_work_started r) = ep_posted r"
  by (simp_all add: reactor_work_started_def Let_def)

lemma posted_cleanup [simp]:
  "ep_state (perform_io_cleanup ops r) = ep_state r" "ep_sys (perform_io_cleanup ops r) = ep_sys r"
  "ep_free (perform_io_cleanup ops r) = ep_free r" "ep_fresh (perform_io_cleanup ops r) = ep_fresh r"
  "ep_posted (perform_io_cleanup ops r) = ep_posted r @ ops"
  by (simp_all add: perform_io_cleanup_def Let_def split: list.splits)

lemma start_op_cases:
  assumes "reactor_start_op perform ctl j fd (Some q) op cont spec r = Some r'"
  obtains res d k where "start_on perform ctl j fd q op spec (ep_state r q, ep_sys r) = Some (res, d, k)"
    "ep_state r' = (ep_state r)(q := d)" "ep_sys r' = k" "ep_free r' = ep_free r" "ep_fresh r' = ep_fresh r"
    "ep_posted r' = ep_posted r @ new_posted res"
  using assms by (auto simp: reactor_start_op_def new_posted_def Let_def split: option.splits started.splits)

lemma start_on_result: "start_on perform ctl j fd p op spec (d, k) = Some (res, d', k') \<Longrightarrow> ds_task_result d' = ds_task_result d"
  by (auto simp: start_on_def start_speculative_def start_waiting_def ds_push_def ds_set_spec_def Let_def
    split: if_splits option.splits prod.splits)

lemma step_start:
  assumes "reactor_ok p fd n r enq ops" and "reactor_start_op perform ctl (op_dir op) fd (Some p) op cont True r = Some r'"
    and "ro_socket op = fd"
  shows "reactor_ok p fd n r' enq (ops @ [op])"
proof -
  obtain res d k where s: "start_on perform ctl (op_dir op) fd p op True (ep_state r p, ep_sys r) = Some (res, d, k)"
    "ep_state r' = (ep_state r)(p := d)" "ep_sys r' = k" "ep_free r' = ep_free r" "ep_fresh r' = ep_fresh r"
    "ep_posted r' = ep_posted r @ new_posted res"
    using start_op_cases [OF assms(2)] by blast
  have ok: "tidy fd p (ep_state r p) (ep_sys r)" "\<And>j. served fd (told p fd n r enq) (ep_state r p) (ep_sys r) j" "distinct enq"
    using assms(1) by (simp_all add: reactor_ok_def)
  note l = start_on_ok [OF ok(1) s(1) refl assms(3) ok(2)]
  let ?H = "\<lambda>j. if j = op_dir op then [ro_id op] else []"
  have q: "map ro_id (filter (\<lambda>x. op_dir x = j) (new_posted res) @ ds_ops d j) = map ro_id (ds_ops (ep_state r p) j) @ ?H j" for j
  proof (cases "j = op_dir op")
    case True
    then have "filter (\<lambda>x. op_dir x = j) (new_posted res) = new_posted res" using l by (simp add: filter_id_conv)
    then show ?thesis using l True by simp
  next
    case False
    then have "filter (\<lambda>x. op_dir x = j) (new_posted res) = []" using l by (auto simp: filter_empty_conv)
    then show ?thesis using l False by simp
  qed
  show ?thesis
  proof (rule reactor_ok_step [OF assms(1) s(2)])
    show "subseq (map ro_id (filter (\<lambda>op. ro_ec op \<noteq> Operation_aborted) (filter (\<lambda>x. op_dir x = j) (new_posted res)) @ ds_ops d j))
      (map ro_id (ds_ops (ep_state r p) j) @ ?H j)" for j
      using kept_order [OF q] .
    show "mset (map ro_id (filter (\<lambda>x. op_dir x = j) (new_posted res) @ ds_ops d j)) = mset (map ro_id (ds_ops (ep_state r p) j) @ ?H j)" for j
      by (simp only: q)
  qed (use l s ok start_on_result [OF s(1)] in auto)
qed


lemma step_start_other:
  assumes "reactor_ok p fd n r enq ops" and "reactor_start_op perform ctl j fd' (Some q) op cont spec r = Some r'"
    and "q \<noteq> p" and "fd' \<noteq> fd" and "ro_socket op = fd'"
  shows "reactor_ok p fd n r' enq ops"
proof -
  obtain res d k where s: "start_on perform ctl j fd' q op spec (ep_state r q, ep_sys r) = Some (res, d, k)"
    "ep_state r' = (ep_state r)(q := d)" "ep_sys r' = k" "ep_free r' = ep_free r" "ep_fresh r' = ep_fresh r"
    "ep_posted r' = ep_posted r @ new_posted res"
    using start_op_cases [OF assms(2)] by blast
  note o = start_on_others [OF s(1) assms(4) [symmetric]]
  have others: "\<And>q. q \<noteq> p \<Longrightarrow> foreign fd (ep_state r q)" "distinct enq"
    "p \<notin> set (ep_free r)" "p < ep_fresh r" using assms(1) by (simp_all add: reactor_ok_def)
  have d: "foreign fd d" using o(3) others(1) [OF assms(3)] assms(4,5) by (fastforce simp: foreign_def op_tag_def)
  show ?thesis
    by (rule reactor_ok_frame [OF assms(1)]) (use s o others d assms(3-5) in \<open>auto simp: op_tag_def\<close>)
qed

lemma served_removed:
  assumes "served fd F d k j" and "ds_registered d' = ds_registered d" and "ds_spec d' = ds_spec d"
    and "ds_ops d' j \<noteq> [] \<Longrightarrow> ds_ops d j \<noteq> []" and "\<And>x. x \<in> set (ds_ops d j) \<Longrightarrow> x \<in> set (ds_ops d' j) \<or> failed_in new j"
  shows "served fd (\<lambda>j. F j \<or> failed_in new j) d' k j"
  using assms unfolding served_def by metis

lemma aborted_fails: "tidy fd p d k \<Longrightarrow> x \<in> set (ds_ops d j) \<Longrightarrow> aborted x \<in> set new \<Longrightarrow> failed_in new j"
  by (auto simp: failed_in_def tidy_def aborted_def op_dir_def intro!: bexI [of _ "aborted x"])

lemma cancel_on_ok:
  assumes "tidy fd p d k" and "\<And>i. served fd F d k i" and "cancel_on d = (new, d')"
  shows "tidy fd p d' k \<and> (\<forall>i. served fd (\<lambda>i. F i \<or> failed_in new i) d' k i) \<and> (\<forall>op \<in> set new. ro_socket op = fd \<and> ro_ec op = Operation_aborted)
    \<and> (\<forall>j. map ro_id (filter (\<lambda>op. op_dir op = j) new) = map ro_id (ds_ops d j) \<and> ds_ops d' j = [])
    \<and> ds_task_result d' = ds_task_result d"
proof -
  have dirs: "filter (\<lambda>op. op_dir op = j) (map aborted (ds_ops d i)) = (if i = j then map aborted (ds_ops d i) else [])" for i j
    using assms(1) by (auto simp: tidy_def aborted_def op_dir_def filter_map comp_def filter_id_conv filter_empty_conv)
  have "aborted x \<in> set new" if "x \<in> set (ds_ops d i)" for x i using that assms(3) by (cases i) (auto simp: cancel_on_def)
  then have "served fd (\<lambda>i. F i \<or> failed_in new i) d' k i" for i
    using served_removed [OF assms(2) [of i], of d' new] aborted_fails [OF assms(1)] assms(3) by (auto simp: cancel_on_def)
  moreover have "map ro_id (filter (\<lambda>op. op_dir op = j) new) = map ro_id (ds_ops d j)" for j
    using assms(1,3) dirs by (cases j) (auto simp: cancel_on_def aborted_def comp_def tidy_def)
  ultimately show ?thesis using assms(1,3) by (auto simp: cancel_on_def tidy_def aborted_def)
qed

lemma tidy_fewer:
  assumes "tidy fd p d k" and "\<And>j. set (ds_ops d' j) \<subseteq> set (ds_ops d j)" and "\<And>j. ds_ops d' j \<noteq> [] \<Longrightarrow> ds_ops d j \<noteq> []"
    and "ds_descriptor d' = ds_descriptor d" and "ds_shutdown d' = ds_shutdown d" and "ds_registered d' = ds_registered d"
  shows "tidy fd p d' k"
proof -
  have "ds_ops d' except_op = []" using assms(1) assms(3) [of except_op] by (auto simp: tidy_def)
  moreover have "op_dir op = j \<and> ro_socket op = fd" if "op \<in> set (ds_ops d' j)" for op j
    using assms(1) assms(2) [of j] that by (auto simp: tidy_def)
  ultimately show ?thesis using assms(1) assms(3) by (simp add: tidy_def assms(4-6))
qed

lemma cancel_key_on_ok:
  assumes "tidy fd p d k" and "\<And>i. served fd F d k i" and "cancel_key_on i key d = (new, d')"
  shows "tidy fd p d' k \<and> (\<forall>j. served fd (\<lambda>j. F j \<or> failed_in new j) d' k j) \<and> (\<forall>op \<in> set new. ro_socket op = fd \<and> op_dir op = i \<and> ro_ec op = Operation_aborted)
    \<and> mset (map ro_id (new @ ds_ops d' i)) = mset (map ro_id (ds_ops d i)) \<and> subseq (ds_ops d' i) (ds_ops d i)
    \<and> (\<forall>j. j \<noteq> i \<longrightarrow> ds_ops d' j = ds_ops d j) \<and> ds_task_result d' = ds_task_result d"
proof -
  have "x \<in> set (ds_ops d' j) \<or> aborted x \<in> set new" if "x \<in> set (ds_ops d j)" for x j
    using that assms(3) by (auto simp: cancel_key_on_def)
  moreover have "ds_ops d' j \<noteq> [] \<Longrightarrow> ds_ops d j \<noteq> []" "ds_registered d' = ds_registered d" "ds_spec d' = ds_spec d" for j
    using assms(3) by (auto simp: cancel_key_on_def split: if_splits)
  ultimately have "served fd (\<lambda>j. F j \<or> failed_in new j) d' k j" for j
    using served_removed [OF assms(2) [of j]] aborted_fails [OF assms(1)] by blast
  moreover have "mset (map ro_id (new @ ds_ops d' i)) = mset (map ro_id (ds_ops d i))"
  proof -
    have "map ro_id (map aborted xs) = map ro_id xs" for xs by (simp add: aborted_def comp_def)
    then have new: "map ro_id new = map ro_id (filter (\<lambda>op. ro_key op = key) (ds_ops d i))" using assms(3) by (auto simp: cancel_key_on_def)
    have "mset (filter (\<lambda>op. ro_key op = key) (ds_ops d i)) + mset (filter (\<lambda>op. ro_key op \<noteq> key) (ds_ops d i)) = mset (ds_ops d i)"
      by (metis mset_filter multiset_partition)
    moreover have "ds_ops d' i = filter (\<lambda>op. ro_key op \<noteq> key) (ds_ops d i)" using assms(3) by (auto simp: cancel_key_on_def)
    ultimately show ?thesis unfolding map_append mset_append new by (metis image_mset_union mset_map)
  qed
  moreover have "tidy fd p d' k"
  proof -
    have "set (ds_ops d' j) \<subseteq> set (ds_ops d j)" "ds_ops d' j \<noteq> [] \<Longrightarrow> ds_ops d j \<noteq> []" for j
      using assms(3) by (auto simp: cancel_key_on_def split: if_splits)
    moreover have "ds_descriptor d' = ds_descriptor d" "ds_shutdown d' = ds_shutdown d" "ds_registered d' = ds_registered d"
      using assms(3) by (auto simp: cancel_key_on_def)
    ultimately show ?thesis using tidy_fewer [OF assms(1)] by blast
  qed
  moreover have "ro_socket op = fd \<and> op_dir op = i \<and> ro_ec op = Operation_aborted" if member: "op \<in> set new" for op
  proof -
    obtain x where x: "x \<in> set (ds_ops d i)" "op = aborted x" using member assms(3) by (auto simp: cancel_key_on_def)
    then have "op_dir x = i" "ro_socket x = fd" using assms(1) by (auto simp: tidy_def)
    then show ?thesis using x(2) by (simp add: aborted_def op_dir_def)
  qed
  moreover have "subseq (ds_ops d' i) (ds_ops d i)" "\<And>j. j \<noteq> i \<Longrightarrow> ds_ops d' j = ds_ops d j" "ds_task_result d' = ds_task_result d"
    using assms(3) by (auto simp: cancel_key_on_def)
  ultimately show ?thesis by blast
qed

lemma cancel_foreign:
  "foreign fd d \<Longrightarrow> cancel_on d = (new, d') \<Longrightarrow> foreign fd d' \<and> (\<forall>op \<in> set new. ro_socket op \<noteq> fd)"
  "foreign fd d \<Longrightarrow> cancel_key_on i key d = (new, d') \<Longrightarrow> foreign fd d' \<and> (\<forall>op \<in> set new. ro_socket op \<noteq> fd)"
  by (fastforce simp: foreign_def cancel_on_def cancel_key_on_def aborted_def split: if_splits)+

lemma step_cancel:
  assumes "reactor_ok p fd n r enq ops"
  shows "reactor_ok p fd n (cancel_ops (Some q) r) enq ops"
proof -
  obtain new d where c: "cancel_on (ep_state r q) = (new, d)" by fastforce
  have ok: "tidy fd p (ep_state r p) (ep_sys r)" "\<And>j. served fd (told p fd n r enq) (ep_state r p) (ep_sys r) j" "distinct enq"
    "\<And>q. q \<noteq> p \<Longrightarrow> foreign fd (ep_state r q)" "p \<notin> set (ep_free r)" "p < ep_fresh r"
    using assms by (simp_all add: reactor_ok_def)
  show ?thesis
  proof (cases "q = p")
    case True
    note l = cancel_on_ok [OF ok(1,2) c [unfolded True]]
    have none: "filter (\<lambda>op. ro_ec op \<noteq> Operation_aborted) (filter (\<lambda>op. op_dir op = j) new) = []" for j
      using l by (auto simp: filter_empty_conv)
    show ?thesis
    proof (rule reactor_ok_step [OF assms])
      show "mset (map ro_id (filter (\<lambda>op. op_dir op = j) new @ ds_ops d j)) = mset (map ro_id (ds_ops (ep_state r p) j) @ [])" for j
        using l by simp
      show "subseq (map ro_id (filter (\<lambda>op. ro_ec op \<noteq> Operation_aborted) (filter (\<lambda>op. op_dir op = j) new) @ ds_ops d j))
          (map ro_id (ds_ops (ep_state r p) j) @ [])" for j
        unfolding none using l by simp
      show "served fd (\<lambda>j. told p fd n r enq j \<or> failed_in new j) d (ep_sys (cancel_ops (Some q) r)) j" for j
        using l c True by (auto simp: cancel_ops_def intro: served_told)
    qed (use l c True ok in \<open>auto simp: cancel_ops_def\<close>)
  next
    case False
    show ?thesis
      by (rule reactor_ok_frame [OF assms, where new = new])
        (use False ok c cancel_foreign(1) [OF ok(4) c] in \<open>auto simp: cancel_ops_def evolves_refl\<close>)
  qed
qed

lemma step_cancel_key:
  assumes "reactor_ok p fd n r enq ops"
  shows "reactor_ok p fd n (cancel_ops_by_key (Some q) i key r) enq ops"
proof -
  obtain new d where c: "cancel_key_on i key (ep_state r q) = (new, d)" by fastforce
  have ok: "tidy fd p (ep_state r p) (ep_sys r)" "\<And>j. served fd (told p fd n r enq) (ep_state r p) (ep_sys r) j" "distinct enq"
    "\<And>q. q \<noteq> p \<Longrightarrow> foreign fd (ep_state r q)" "p \<notin> set (ep_free r)" "p < ep_fresh r"
    using assms by (simp_all add: reactor_ok_def)
  show ?thesis
  proof (cases "q = p")
    case True
    note l = cancel_key_on_ok [OF ok(1,2) c [unfolded True]]
    have none: "filter (\<lambda>op. ro_ec op \<noteq> Operation_aborted) (filter (\<lambda>op. op_dir op = j) new) = []" for j
      using l by (auto simp: filter_empty_conv)
    have new: "filter (\<lambda>op. op_dir op = j) new = (if j = i then new else [])" for j
      using l by (auto simp: filter_empty_conv filter_id_conv)
    show ?thesis
    proof (rule reactor_ok_step [OF assms])
      show "mset (map ro_id (filter (\<lambda>op. op_dir op = j) new @ ds_ops d j)) = mset (map ro_id (ds_ops (ep_state r p) j) @ [])" for j
        unfolding new using l by auto
      show "subseq (map ro_id (filter (\<lambda>op. ro_ec op \<noteq> Operation_aborted) (filter (\<lambda>op. op_dir op = j) new) @ ds_ops d j))
          (map ro_id (ds_ops (ep_state r p) j) @ [])" for j
        unfolding none using l by (cases "j = i") (auto intro: subseq_map)
      show "served fd (\<lambda>j. told p fd n r enq j \<or> failed_in new j) d (ep_sys (cancel_ops_by_key (Some q) i key r)) j" for j
        using l c True by (auto simp: cancel_ops_by_key_def intro: served_told)
    qed (use l c True ok in \<open>auto simp: cancel_ops_by_key_def\<close>)
  next
    case False
    show ?thesis
      by (rule reactor_ok_frame [OF assms, where new = new])
        (use False ok c cancel_foreign(2) [OF ok(4) c] in \<open>auto simp: cancel_ops_by_key_def evolves_refl\<close>)
  qed
qed


lemma step_register:
  assumes "reactor_ok p fd n r enq ops" and "register_descriptor ctl fd' r = (err, q, r')" and "fd' \<noteq> fd"
  shows "reactor_ok p fd n r' enq ops"
proof -
  obtain r1 where a: "pool_alloc r = (q, r1)" using assms(2) by (auto simp: register_descriptor_def Let_def split: prod.splits if_splits)
  obtain e k where c: "ctl Ctl_add fd' initial_events q (ep_sys r1) = (e, k)" by fastforce
  have ok: "distinct enq" "p \<notin> set (ep_free r)" "p < ep_fresh r" "\<And>q. q \<noteq> p \<Longrightarrow> foreign fd (ep_state r q)"
    using assms(1) by (simp_all add: reactor_ok_def)
  have r1: "q \<noteq> p" "p \<notin> set (ep_free r1)" "p < ep_fresh r1" "ep_state r1 p = ep_state r p" "ep_posted r1 = ep_posted r"
    "ep_sys r1 = ep_sys r" "\<And>x. x \<noteq> p \<Longrightarrow> foreign fd (ep_state r1 x)"
    using a ok foreign_new by (auto simp: pool_alloc_def Let_def split: list.splits)
  obtain d where d: "ep_state r' = (ep_state r1)(q := d)" "foreign fd d" "ep_sys r' = k" "ep_free r' = ep_free r1"
    "ep_fresh r' = ep_fresh r1" "ep_posted r' = ep_posted r1"
    using assms(2) a c r1(7) [OF r1(1)] by (auto simp: register_descriptor_def Let_def foreign_def split: if_splits)
  show ?thesis
    by (rule reactor_ok_frame [OF assms(1), where new = "[]"])
      (use ok r1 d ctl_others [OF c assms(3) [symmetric]] in auto)
qed

lemma step_close:
  assumes "reactor_ok p fd n r enq ops" and "deregister_descriptor ctl fd' (Some q) closing r = (data, r1)"
    and "cleanup_descriptor_data data r1 = (data', r')" and "q \<noteq> p" and "fd' \<noteq> fd"
  shows "reactor_ok p fd n r' enq ops"
proof -
  have ok: "distinct enq" "p \<notin> set (ep_free r)" "p < ep_fresh r" "\<And>q. q \<noteq> p \<Longrightarrow> foreign fd (ep_state r q)"
    using assms(1) by (simp_all add: reactor_ok_def)
  show ?thesis
  proof (cases "ds_shutdown (ep_state r q)")
    case True
    then have "r' = r" using assms(2,3) by (auto simp: deregister_descriptor_def cleanup_descriptor_data_def)
    then show ?thesis using assms(1) by simp
  next
    case False
    obtain new d where c: "cancel_on (ep_state r q) = (new, d)" by fastforce
    obtain e k where del: "ctl Ctl_del fd' 0 q (ep_sys r) = (e, k)" by fastforce
    have r': "ep_state r' = (ep_state r)(q := d\<lparr>ds_descriptor := - 1, ds_shutdown := True\<rparr>)" "ep_free r' = q # ep_free r"
      "ep_fresh r' = ep_fresh r" "ep_posted r' = ep_posted r @ new" "ep_sys r' \<in> {ep_sys r, k}"
      using assms(2,3) False c del
      by (auto simp: deregister_descriptor_def cleanup_descriptor_data_def pool_free_def Let_def split: if_splits)
    then have e: "evolves can edge watch fd (ep_sys r) (ep_sys r')"
      using ctl_others [OF del assms(5) [symmetric]] evolves_refl by auto
    show ?thesis
      by (rule reactor_ok_frame [OF assms(1), where new = new])
        (use assms(4) ok r' e cancel_foreign(1) [OF ok(4) c] in \<open>auto simp: foreign_def\<close>)
  qed
qed

lemma dispatch_events:
  assumes "fold (dispatch_event t) evs (b, ops, st) = (b', ops', st')" and "distinct ops"
  shows "distinct ops' \<and> (\<forall>q. \<exists>x. st' q = (st q)\<lparr>ds_task_result := x\<rparr>)
    \<and> (p \<in> set ops' \<longleftrightarrow> p \<in> set ops \<or> (\<exists>ev. Ev_descriptor p ev \<in> set evs))
    \<and> (p \<in> set ops \<and> hits (ds_task_result (st p)) j \<or> (\<exists>ev. Ev_descriptor p ev \<in> set evs \<and> hits ev j)
        \<longrightarrow> hits (ds_task_result (st' p)) j)"
  using assms
proof (induction evs arbitrary: b ops st)
  case Nil
  have "\<exists>x. d = d\<lparr>ds_task_result := x\<rparr>" for d :: descriptor_state by (intro exI [of _ "ds_task_result d"]) simp
  with Nil show ?case by simp
next
  case (Cons ev evs)
  obtain b1 ops1 st1 where e: "dispatch_event t ev (b, ops, st) = (b1, ops1, st1)" by (metis surj_pair)
  have same: "\<exists>x. st1 q = (st q)\<lparr>ds_task_result := x\<rparr>" for q
  proof (cases "st1 q = st q")
    case True
    then show ?thesis by (intro exI [of _ "ds_task_result (st q)"]) simp
  next
    case False
    then show ?thesis using e by (cases ev) (auto split: if_splits)
  qed
  have d: "distinct ops1" "p \<in> set ops1 \<longleftrightarrow> p \<in> set ops \<or> (\<exists>x. ev = Ev_descriptor p x)"
    "p \<in> set ops \<and> hits (ds_task_result (st p)) j \<or> (\<exists>x. ev = Ev_descriptor p x \<and> hits x j) \<Longrightarrow> hits (ds_task_result (st1 p)) j"
    using e Cons.prems(2) by (cases ev; auto split: if_splits)+
  from Cons.prems(1) e have "fold (dispatch_event t) evs (b1, ops1, st1) = (b', ops', st')" by simp
  note ih = Cons.IH [OF this d(1)]
  have "\<exists>x. st' q = (st q)\<lparr>ds_task_result := x\<rparr>" for q
  proof -
    obtain x y where "st1 q = (st q)\<lparr>ds_task_result := x\<rparr>" "st' q = (st1 q)\<lparr>ds_task_result := y\<rparr>" using ih same by blast
    then show ?thesis by auto
  qed
  moreover have "p \<in> set ops' \<longleftrightarrow> p \<in> set ops \<or> (\<exists>x. Ev_descriptor p x \<in> set (ev # evs))" using ih d(2) by auto
  moreover have "hits (ds_task_result (st' p)) j"
    if "p \<in> set ops \<and> hits (ds_task_result (st p)) j \<or> (\<exists>x. Ev_descriptor p x \<in> set (ev # evs) \<and> hits x j)"
  proof -
    from that consider "p \<in> set ops \<and> hits (ds_task_result (st p)) j \<or> (\<exists>x. ev = Ev_descriptor p x \<and> hits x j)"
      | "\<exists>x. Ev_descriptor p x \<in> set evs \<and> hits x j" by auto
    then show ?thesis using ih d(2,3) by cases blast+
  qed
  ultimately show ?case using ih by blast
qed


lemma step_run:
  assumes "reactor_ok p fd n r [] ops" and "reactor_run wait now usec r = Some (enq, timers, r')"
  shows "reactor_ok p fd n r' enq ops"
proof -
  obtain evs k where w: "wait (wait_timeout now usec r) (ep_sys r) = (evs, k)" by fastforce
  obtain b st where f: "fold (dispatch_event (ep_has_timer_fd r)) evs (\<not> ep_has_timer_fd r, [], ep_state r) = (b, enq, st)"
    and r': "ep_state r' = st" "ep_sys r' = k" "ep_free r' = ep_free r" "ep_fresh r' = ep_fresh r" "ep_posted r' = ep_posted r"
    using assms(2) w by (auto simp: reactor_run_def Let_def split: if_splits option.splits prod.splits)
  note d = dispatch_events [OF f distinct.simps(1) [THEN iffD2, OF TrueI]]
  have st: "ds_ops (st q) = ds_ops (ep_state r q)" "ds_spec (st q) = ds_spec (ep_state r q)"
    "ds_registered (st q) = ds_registered (ep_state r q)" "ds_descriptor (st q) = ds_descriptor (ep_state r q)"
    "ds_shutdown (st q) = ds_shutdown (ep_state r q)" for q
  proof -
    obtain x where "st q = (ep_state r q)\<lparr>ds_task_result := x\<rparr>" using d by blast
    then show "ds_ops (st q) = ds_ops (ep_state r q)" "ds_spec (st q) = ds_spec (ep_state r q)"
      "ds_registered (st q) = ds_registered (ep_state r q)" "ds_descriptor (st q) = ds_descriptor (ep_state r q)"
      "ds_shutdown (st q) = ds_shutdown (ep_state r q)" by simp_all
  qed
  have ok: "tidy fd p (ep_state r p) (ep_sys r)" "\<And>j. served fd (told p fd n r []) (ep_state r p) (ep_sys r) j"
    using assms(1) by (simp_all add: reactor_ok_def)
  have "watch (ep_sys r) fd = Some (p, ds_registered (ep_state r p))" using ok(1) by (simp add: tidy_def)
  note reports = wait_reports [OF w this]
  have "served fd (told p fd n r' enq) (st p) k j" for j
  proof -
    have "told p fd n r' enq j" if "told p fd n r [] j \<or> (\<exists>ev. Ev_descriptor p ev \<in> set evs \<and> hits ev j)"
      using that d [of p j] r' by (auto simp: told_def)
    then show ?thesis using ok(2) [of j] reports unfolding served_def st by blast
  qed
  moreover have "tidy fd p (st p) k" using ok(1) reports unfolding tidy_def st by simp
  moreover have "distinct enq" using d by blast
  ultimately show ?thesis using assms(1) r' st by (simp add: reactor_ok_def foreign_def)
qed

lemma step_perform:
  assumes "reactor_ok p fd n r enq ops" and "perform_io perform q r = Some (first, r')" and "q \<in> set enq"
  shows "reactor_ok p fd n r' (remove1 q enq) ops"
proof -
  let ?dirs = "[except_op, write_op, read_op]"
  obtain new d k where s: "perform_dirs perform (ds_task_result (ep_state r q)) ?dirs (ep_state r q, ep_sys r) = Some (new, d, k)"
    and r': "ep_state r' = (ep_state r)(q := d)" "ep_sys r' = k" "ep_free r' = ep_free r" "ep_fresh r' = ep_fresh r"
      "ep_posted r' = ep_posted r @ new"
    using assms(2) by (auto simp: perform_io_def split: option.splits)
  have ok: "tidy fd p (ep_state r p) (ep_sys r)" "\<And>j. served fd (told p fd n r enq) (ep_state r p) (ep_sys r) j" "distinct enq"
    "\<And>q. q \<noteq> p \<Longrightarrow> foreign fd (ep_state r q)" "p \<notin> set (ep_free r)" "p < ep_fresh r"
    using assms(1) by (simp_all add: reactor_ok_def)
  show ?thesis
  proof (cases "q = p")
    case True
    let ?ev = "ds_task_result (ep_state r p)" and ?F = "told p fd n r (remove1 p enq)"
    have "served fd (\<lambda>i. i \<in> set ?dirs \<and> hits ?ev i \<or> ?F i) (ep_state r p) (ep_sys r) j" for j
    proof (rule served_told [OF ok(2)])
      show "i \<in> set ?dirs \<and> hits ?ev i \<or> ?F i" if "told p fd n r enq i" for i
        using that by (cases i) (auto simp: told_def)
    qed
    note l = perform_dirs_ok [OF ok(1) s [unfolded True] this]
    have res: "ds_task_result d = ds_task_result (ep_state r p)"
      using s True by (auto simp: perform_dir_def ds_set_spec_def split: if_splits option.splits)
    show ?thesis
    proof (rule reactor_ok_step [OF assms(1)])
      show "mset (map ro_id (filter (\<lambda>op. op_dir op = j) new @ ds_ops d j)) = mset (map ro_id (ds_ops (ep_state r p) j) @ [])" for j
        using l [THEN conjunct2, THEN conjunct2, THEN conjunct2, THEN conjunct2, rule_format, of j] by (simp only: append_Nil2)
      show "subseq (map ro_id (filter (\<lambda>op. ro_ec op \<noteq> Operation_aborted) (filter (\<lambda>op. op_dir op = j) new) @ ds_ops d j))
          (map ro_id (ds_ops (ep_state r p) j) @ [])" for j
        using kept_order [OF l [THEN conjunct2, THEN conjunct2, THEN conjunct2, THEN conjunct2, rule_format, of j]] by simp
    qed (use l r' True ok res in auto)
  next
    case False
    note o = perform_dirs_others [OF s, of fd]
    have "foreign fd d" "\<forall>op \<in> set new. ro_socket op \<noteq> fd" using o ok(4) [OF False] by (fastforce simp: foreign_def op_tag_def)+
    then show ?thesis
      by (intro reactor_ok_frame [OF assms(1), where new = new]) (use o ok r' False in auto)
  qed
qed

lemma reactor_step_ok:
  "reactor_step perform ctl wait world p fd (r, enq, ops) (r', enq', ops') \<Longrightarrow>
    reactor_ok p fd n r enq ops \<Longrightarrow> reactor_ok p fd n r' enq' ops'"
proof (induction "(r, enq, ops)" "(r', enq', ops')" rule: reactor_step.induct)
  case (world k)
  have "reactor_ok p fd n (r\<lparr>ep_sys := k\<rparr>) enq ops"
    by (rule reactor_ok_frame [OF world.prems, where new = "[]"])
      (use world.hyps world.prems world_evolves in \<open>auto simp: reactor_ok_def\<close>)
  then show ?case using world.hyps by simp
next
  case (timers t)
  have "reactor_ok p fd n (r\<lparr>ep_timers := t\<rparr>) enq ops"
    by (rule reactor_ok_frame [OF timers.prems, where new = "[]"])
      (use timers.prems in \<open>auto simp: reactor_ok_def evolves_refl\<close>)
  then show ?case using timers.hyps by simp
qed (auto intro: step_start step_start_other step_cancel step_cancel_key step_register step_close step_run step_perform)

lemma reactor_run_ok:
  assumes "(reactor_step perform ctl wait world p fd)\<^sup>*\<^sup>* s s'"
  shows "reactor_ok p fd n (fst s) (fst (snd s)) (snd (snd s)) \<Longrightarrow> reactor_ok p fd n (fst s') (fst (snd s')) (snd (snd s'))"
  using assms
proof (induction rule: rtranclp_induct)
  case (step y z)
  then show ?case using reactor_step_ok [of p fd "fst y" "fst (snd y)" "snd (snd y)" "fst z" "fst (snd z)" "snd (snd z)"] by simp
qed

lemma register_ok:
  assumes "register_descriptor ctl fd r = (0, p, r')" and "ds_registered (ep_state r' p) \<noteq> 0"
    and "\<And>q. foreign fd (ep_state r q)" and "pool_ok r" and "distinct enq"
  shows "reactor_ok p fd (length (ep_posted r')) r' enq []"
proof -
  obtain r1 where a: "pool_alloc r = (p, r1)" using assms(1) by (auto simp: register_descriptor_def Let_def split: prod.splits if_splits)
  obtain e k where c: "ctl Ctl_add fd initial_events p (ep_sys r1) = (e, k)" by fastforce
  note r1 = pool_alloc_ok [OF assms(4) a]
  define d where "d = (ep_state r1 p)\<lparr>ds_descriptor := fd, ds_shutdown := False, ds_spec := \<lambda>_. True, ds_registered := initial_events\<rparr>"
  have "e = 0" using assms(1,2) a c by (auto simp: register_descriptor_def Let_def split: if_splits)
  then have r': "r' = r1\<lparr>ep_sys := k, ep_state := (ep_state r1)(p := d)\<rparr>"
    using assms(1) a c by (auto simp: register_descriptor_def Let_def d_def)
  have "watch k fd = Some (p, initial_events)" using ctl_watch [OF c [unfolded \<open>e = 0\<close>]] by simp
  then have "tidy fd p d k" using r1 by (simp add: tidy_def d_def initial_events_nonzero watches_initial)
  moreover have "served fd F d k j" for F j using r1 by (simp add: served_def d_def)
  moreover have "foreign fd (ep_state r' q)" if "q \<noteq> p" for q using r1 r' that assms(3) [of q] by simp
  ultimately show ?thesis using r1 r' assms(5) by (simp add: reactor_ok_def in_order_def posted_of_def d_def)
qed

end

end
