(* ===== verification/Asio_Socket.thy ===== *)
theory Asio_Socket
  imports Asio_Readiness
begin

text \<open>
  The sockets of asio: the system calls behind an asynchronous operation
  (\<open>vendors/asio-1.36.0/include/asio/detail/impl/socket_ops.ipp\<close>), the operations that receive, send and accept
  (\<open>detail/reactive_socket_recv_op.hpp\<close>, \<open>reactive_socket_send_op.hpp\<close>, \<open>reactive_socket_accept_op.hpp\<close>), and the
  service that starts them (\<open>detail/impl/reactive_socket_service_base.ipp\<close>,
  \<open>detail/reactive_socket_service_base.hpp\<close>, \<open>detail/reactive_socket_service.hpp\<close>).

  The system calls are the fields of a \<open>socket_sys\<close>, an argument of the definitions. The contents
  of the buffers belong to the operating system here; what is kept is how many bytes are transferred. A
  loop that retries a call interrupted by a signal may run for ever, and is \<open>None\<close> then.
\<close>

section \<open>System calls\<close>

datatype sys_result = Sys_ok nat | Sys_err nat

record 'k socket_sys =
  sys_recv :: "int \<Rightarrow> nat \<Rightarrow> 'k \<Rightarrow> sys_result \<times> 'k"
  sys_send :: "int \<Rightarrow> nat \<Rightarrow> 'k \<Rightarrow> sys_result \<times> 'k"
  sys_accept :: "int \<Rightarrow> 'k \<Rightarrow> sys_result \<times> 'k"
  sys_socket :: "'k \<Rightarrow> sys_result \<times> 'k"
  sys_close :: "int \<Rightarrow> 'k \<Rightarrow> nat \<times> 'k"
  sys_unlinger :: "int \<Rightarrow> 'k \<Rightarrow> 'k"
  sys_ioctl :: "int \<Rightarrow> bool \<Rightarrow> 'k \<Rightarrow> nat \<times> 'k"
  sys_getfl :: "int \<Rightarrow> 'k \<Rightarrow> (nat + uint32) \<times> 'k"
  sys_setfl :: "int \<Rightarrow> uint32 \<Rightarrow> 'k \<Rightarrow> nat \<times> 'k"

definition EINTR :: nat where "EINTR = 4"
definition EAGAIN :: nat where "EAGAIN = 11"
definition ENOTTY :: nat where "ENOTTY = 25"
definition EPROTO :: nat where "EPROTO = 71"
definition ECONNABORTED :: nat where "ECONNABORTED = 103"

definition end_of_file :: asio_error where "end_of_file = Misc_error 2"

definition O_NONBLOCK :: uint32 where "O_NONBLOCK = 0x800"

definition invalid_socket :: int where "invalid_socket = - 1"

definition user_set_non_blocking :: uint8 where "user_set_non_blocking = 1"
definition internal_non_blocking :: uint8 where "internal_non_blocking = 2"
definition non_blocking :: uint8 where "non_blocking = user_set_non_blocking OR internal_non_blocking"
definition enable_connection_aborted :: uint8 where "enable_connection_aborted = 4"
definition user_set_linger :: uint8 where "user_set_linger = 8"
definition stream_oriented :: uint8 where "stream_oriented = 16"
definition possible_dup :: uint8 where "possible_dup = 64"

definition has_flag :: "uint8 \<Rightarrow> uint8 \<Rightarrow> bool" where
  "has_flag state f \<longleftrightarrow> state AND f \<noteq> 0"

text \<open>The loops return whether the operation is finished, the error, the number of bytes or the new socket.\<close>

partial_function (option) non_blocking_recv1 :: "'k socket_sys \<Rightarrow> int \<Rightarrow> nat \<Rightarrow> bool \<Rightarrow> nat \<Rightarrow> 'k \<Rightarrow>
    (bool \<times> asio_error \<times> nat \<times> 'k) option" where
  "non_blocking_recv1 sys s len is_stream bytes_transferred k =
     (case sys_recv sys s len k of (res, k) \<Rightarrow>
        (case res of
           Sys_ok bytes \<Rightarrow>
             if is_stream \<and> bytes = 0 then Some (True, end_of_file, bytes_transferred, k)
             else Some (True, No_error, bytes, k)
         | Sys_err e \<Rightarrow>
             if e = EINTR then non_blocking_recv1 sys s len is_stream bytes_transferred k
             else if e = EAGAIN then Some (False, Asio_error e, bytes_transferred, k)
             else Some (True, Asio_error e, 0, k)))"

partial_function (option) non_blocking_send1 :: "'k socket_sys \<Rightarrow> int \<Rightarrow> nat \<Rightarrow> nat \<Rightarrow> 'k \<Rightarrow>
    (bool \<times> asio_error \<times> nat \<times> 'k) option" where
  "non_blocking_send1 sys s len bytes_transferred k =
     (case sys_send sys s len k of (res, k) \<Rightarrow>
        (case res of
           Sys_ok bytes \<Rightarrow> Some (True, No_error, bytes, k)
         | Sys_err e \<Rightarrow>
             if e = EINTR then non_blocking_send1 sys s len bytes_transferred k
             else if e = EAGAIN then Some (False, Asio_error e, bytes_transferred, k)
             else Some (True, Asio_error e, 0, k)))"

definition socket_accept :: "'k socket_sys \<Rightarrow> int \<Rightarrow> 'k \<Rightarrow> int \<times> asio_error \<times> 'k" where
  "socket_accept sys s k =
     (if s = invalid_socket then (invalid_socket, bad_descriptor, k)
      else case sys_accept sys s k of
             (Sys_ok fd, k) \<Rightarrow> (int fd, No_error, k)
           | (Sys_err e, k) \<Rightarrow> (invalid_socket, Asio_error e, k))"

partial_function (option) non_blocking_accept :: "'k socket_sys \<Rightarrow> int \<Rightarrow> uint8 \<Rightarrow> 'k \<Rightarrow>
    (bool \<times> asio_error \<times> int \<times> 'k) option" where
  "non_blocking_accept sys s state k =
     (case socket_accept sys s k of (new_socket, ec, k) \<Rightarrow>
        if new_socket \<noteq> invalid_socket then Some (True, ec, new_socket, k)
        else if ec = Asio_error EINTR then non_blocking_accept sys s state k
        else if ec = Asio_error EAGAIN then Some (False, ec, new_socket, k)
        else if ec = Asio_error ECONNABORTED \<or> ec = Asio_error EPROTO
          then Some (has_flag state enable_connection_aborted, ec, new_socket, k)
        else Some (True, ec, new_socket, k))"

definition set_internal_non_blocking :: "'k socket_sys \<Rightarrow> int \<Rightarrow> uint8 \<Rightarrow> bool \<Rightarrow> 'k \<Rightarrow> (asio_error + uint8) \<times> 'k" where
  "set_internal_non_blocking sys s state v k =
     (if s = invalid_socket then (Inl bad_descriptor, k)
      else if \<not> v \<and> has_flag state user_set_non_blocking then (Inl (Asio_error 22), k)
      else let (err, k) = (if \<not> has_flag state possible_dup then sys_ioctl sys s v k else (0, k));
               (err, k) =
                 (if has_flag state possible_dup \<or> err = ENOTTY
                  then case sys_getfl sys s k of
                         (Inl e, k) \<Rightarrow> (e, k)
                       | (Inr flags, k) \<Rightarrow>
                           let flag = (if v then flags OR O_NONBLOCK else flags AND NOT O_NONBLOCK)
                           in if flag \<noteq> flags then sys_setfl sys s flag k else (0, k)
                  else (err, k))
           in if err = 0
              then (Inr (if v then state OR internal_non_blocking else state AND NOT internal_non_blocking), k)
              else (Inl (Asio_error err), k))"

text \<open>Closing; a socket that would block is made blocking and closed again.\<close>

definition make_blocking :: "'k socket_sys \<Rightarrow> int \<Rightarrow> uint8 \<Rightarrow> 'k \<Rightarrow> 'k" where
  "make_blocking sys s state k =
     (let (err, k) = (if \<not> has_flag state possible_dup then sys_ioctl sys s False k else (EAGAIN, k))
      in if has_flag state possible_dup \<or> err = ENOTTY
         then case sys_getfl sys s k of
                (Inl e, k) \<Rightarrow> k
              | (Inr flags, k) \<Rightarrow> snd (sys_setfl sys s (flags AND NOT O_NONBLOCK) k)
         else k)"

definition socket_close :: "'k socket_sys \<Rightarrow> int \<Rightarrow> uint8 \<Rightarrow> bool \<Rightarrow> 'k \<Rightarrow> asio_error \<times> 'k" where
  "socket_close sys s state destruction k =
     (if s \<noteq> invalid_socket then
        let k = (if destruction \<and> has_flag state user_set_linger then sys_unlinger sys s k else k);
            (err, k) = sys_close sys s k;
            (err, k) = (if err = EAGAIN then sys_close sys s (make_blocking sys s state k) else (err, k))
        in (if err = 0 then No_error else Asio_error err, k)
      else (No_error, k))"

section \<open>Operations\<close>

definition recv_do_perform :: "'k socket_sys \<Rightarrow> nat \<Rightarrow> 'k perform_fn" where
  "recv_do_perform sys len op k =
     (case non_blocking_recv1 sys (ro_socket op) len (has_flag (ro_state op) stream_oriented) (ro_bytes op) k of
        None \<Rightarrow> None
      | Some (finished, ec, bytes, k) \<Rightarrow>
          Some (if \<not> finished then st_not_done
                else if has_flag (ro_state op) stream_oriented \<and> bytes = 0 then st_done_and_exhausted
                else st_done, op\<lparr>ro_ec := ec, ro_bytes := bytes\<rparr>, k))"

definition send_do_perform :: "'k socket_sys \<Rightarrow> nat \<Rightarrow> 'k perform_fn" where
  "send_do_perform sys len op k =
     (case non_blocking_send1 sys (ro_socket op) len (ro_bytes op) k of
        None \<Rightarrow> None
      | Some (finished, ec, bytes, k) \<Rightarrow>
          Some (if \<not> finished then st_not_done
                else if has_flag (ro_state op) stream_oriented \<and> bytes < len then st_done_and_exhausted
                else st_done, op\<lparr>ro_ec := ec, ro_bytes := bytes\<rparr>, k))"

definition accept_do_perform :: "'k socket_sys \<Rightarrow> 'k perform_fn" where
  "accept_do_perform sys op k =
     (case non_blocking_accept sys (ro_socket op) (ro_state op) k of
        None \<Rightarrow> None
      | Some (finished, ec, new_socket, k) \<Rightarrow>
          Some (if finished then st_done else st_not_done, op\<lparr>ro_ec := ec, ro_new_socket := new_socket\<rparr>, k))"

text \<open>The virtual function of an operation.\<close>

definition do_perform :: "'k socket_sys \<Rightarrow> 'k perform_fn" where
  "do_perform sys op =
     (case ro_kind op of
        Recv_op len \<Rightarrow> recv_do_perform sys len op
      | Send_op len \<Rightarrow> send_do_perform sys len op
      | Accept_op \<Rightarrow> accept_do_perform sys op)"

section \<open>The socket service\<close>

record socket_impl =
  si_socket :: int
  si_state :: uint8
  si_data :: "nat option"

definition socket_construct :: socket_impl where
  "socket_construct = \<lparr>si_socket = invalid_socket, si_state = 0, si_data = None\<rparr>"

definition is_open :: "socket_impl \<Rightarrow> bool" where
  "is_open impl \<longleftrightarrow> si_socket impl \<noteq> invalid_socket"

definition base_move_construct :: "socket_impl \<Rightarrow> socket_impl \<times> socket_impl" where
  "base_move_construct other =
     (let (data, other_data) = move_descriptor (si_data other)
      in (\<lparr>si_socket = si_socket other, si_state = si_state other, si_data = data\<rparr>,
          \<lparr>si_socket = invalid_socket, si_state = 0, si_data = other_data\<rparr>))"

text \<open>What destroying and closing a socket have in common.\<close>

definition close_impl :: "'k socket_sys \<Rightarrow> 'k ctl_fn \<Rightarrow> bool \<Rightarrow> socket_impl \<Rightarrow> 'k epoll_reactor \<Rightarrow>
    asio_error \<times> nat option \<times> 'k epoll_reactor" where
  "close_impl sys ctl destruction impl r =
     (let (data, r) = deregister_descriptor ctl (si_socket impl) (si_data impl) (\<not> has_flag (si_state impl) possible_dup) r;
          (ec, k) = socket_close sys (si_socket impl) (si_state impl) destruction (ep_sys r);
          (data, r) = cleanup_descriptor_data data (r\<lparr>ep_sys := k\<rparr>)
      in (ec, data, r))"

definition socket_destroy :: "'k socket_sys \<Rightarrow> 'k ctl_fn \<Rightarrow> socket_impl \<Rightarrow> 'k epoll_reactor \<Rightarrow> 'k epoll_reactor" where
  "socket_destroy sys ctl impl r = (if is_open impl then snd (snd (close_impl sys ctl True impl r)) else r)"

definition service_close :: "'k socket_sys \<Rightarrow> 'k ctl_fn \<Rightarrow> socket_impl \<Rightarrow> 'k epoll_reactor \<Rightarrow>
    asio_error \<times> socket_impl \<times> 'k epoll_reactor" where
  "service_close sys ctl impl r =
     (let (ec, r) = (if is_open impl then let (ec, _, r) = close_impl sys ctl False impl r in (ec, r) else (No_error, r))
      in (ec, socket_construct, r))"

definition base_move_assign :: "'k socket_sys \<Rightarrow> 'k ctl_fn \<Rightarrow> socket_impl \<Rightarrow> socket_impl \<Rightarrow> 'k epoll_reactor \<Rightarrow>
    socket_impl \<times> socket_impl \<times> 'k epoll_reactor" where
  "base_move_assign sys ctl impl other r =
     (let r = socket_destroy sys ctl impl r; (impl, other) = base_move_construct other in (impl, other, r))"

definition service_release :: "'k ctl_fn \<Rightarrow> socket_impl \<Rightarrow> 'k epoll_reactor \<Rightarrow>
    asio_error \<times> int \<times> socket_impl \<times> 'k epoll_reactor" where
  "service_release ctl impl r =
     (if \<not> is_open impl then (bad_descriptor, invalid_socket, impl, r)
      else let (data, r) = deregister_descriptor ctl (si_socket impl) (si_data impl) False r;
               (data, r) = cleanup_descriptor_data data r
           in (No_error, si_socket impl, socket_construct, r))"

definition service_cancel :: "socket_impl \<Rightarrow> 'k epoll_reactor \<Rightarrow> asio_error \<times> 'k epoll_reactor" where
  "service_cancel impl r = (if \<not> is_open impl then (bad_descriptor, r) else (No_error, cancel_ops (si_data impl) r))"

definition already_open :: asio_error where "already_open = Misc_error 1"

text \<open>
  A TCP socket. When it cannot be registered, the holder of the new descriptor closes it again; the
  address of the descriptor state stays in the socket.
\<close>

definition do_open :: "'k socket_sys \<Rightarrow> 'k ctl_fn \<Rightarrow> socket_impl \<Rightarrow> 'k epoll_reactor \<Rightarrow>
    asio_error \<times> socket_impl \<times> 'k epoll_reactor" where
  "do_open sys ctl impl r =
     (if is_open impl then (already_open, impl, r)
      else case sys_socket sys (ep_sys r) of
             (Sys_err e, k) \<Rightarrow> (Asio_error e, impl, r\<lparr>ep_sys := k\<rparr>)
           | (Sys_ok fd, k) \<Rightarrow>
               let (err, p, r) = register_descriptor ctl (int fd) (r\<lparr>ep_sys := k\<rparr>)
               in if err \<noteq> 0
                  then (Asio_error err, impl\<lparr>si_data := Some p\<rparr>, r\<lparr>ep_sys := snd (socket_close sys (int fd) 0 True (ep_sys r))\<rparr>)
                  else (No_error, \<lparr>si_socket = int fd, si_state = stream_oriented, si_data = Some p\<rparr>, r))"

definition do_assign :: "'k ctl_fn \<Rightarrow> int \<Rightarrow> socket_impl \<Rightarrow> 'k epoll_reactor \<Rightarrow>
    asio_error \<times> socket_impl \<times> 'k epoll_reactor" where
  "do_assign ctl native_socket impl r =
     (if is_open impl then (already_open, impl, r)
      else let (err, p, r) = register_descriptor ctl native_socket r
           in if err \<noteq> 0 then (Asio_error err, impl\<lparr>si_data := Some p\<rparr>, r)
              else (No_error, \<lparr>si_socket = native_socket, si_state = stream_oriented OR possible_dup, si_data = Some p\<rparr>, r))"

definition do_start_op :: "'k socket_sys \<Rightarrow> 'k ctl_fn \<Rightarrow> op_type \<Rightarrow> reactor_op \<Rightarrow> bool \<Rightarrow> bool \<Rightarrow> bool \<Rightarrow> bool \<Rightarrow>
    socket_impl \<times> 'k epoll_reactor \<Rightarrow> (socket_impl \<times> 'k epoll_reactor) option" where
  "do_start_op sys ctl j op is_continuation allow_speculative noop needs_non_blocking = (\<lambda>(impl, r).
     if noop then Some (impl, on_immediate op is_continuation r)
     else
       let (mode, k) = (if has_flag (si_state impl) non_blocking \<or> \<not> needs_non_blocking then (Inr (si_state impl), ep_sys r)
                        else set_internal_non_blocking sys (si_socket impl) (si_state impl) True (ep_sys r));
           r = r\<lparr>ep_sys := k\<rparr>
       in case mode of
            Inr state \<Rightarrow>
              let impl = impl\<lparr>si_state := state\<rparr>
              in map_option (Pair impl)
                   (reactor_start_op (do_perform sys) ctl j (si_socket impl) (si_data impl) op is_continuation allow_speculative r)
          | Inl ec \<Rightarrow> Some (impl, on_immediate (op\<lparr>ro_ec := ec\<rparr>) is_continuation r))"

definition do_start_accept_op :: "'k socket_sys \<Rightarrow> 'k ctl_fn \<Rightarrow> reactor_op \<Rightarrow> bool \<Rightarrow> bool \<Rightarrow>
    socket_impl \<times> 'k epoll_reactor \<Rightarrow> (socket_impl \<times> 'k epoll_reactor) option" where
  "do_start_accept_op sys ctl op is_continuation peer_is_open = (\<lambda>(impl, r).
     if \<not> peer_is_open then do_start_op sys ctl read_op op is_continuation True False True (impl, r)
     else Some (impl, on_immediate (op\<lparr>ro_ec := already_open\<rparr>) is_continuation r))"

text \<open>A new operation of a socket; \<open>key\<close> is the cancellation key, zero without a slot.\<close>

definition new_op :: "nat \<Rightarrow> nat \<Rightarrow> op_kind \<Rightarrow> socket_impl \<Rightarrow> reactor_op" where
  "new_op op_id key kind impl =
     \<lparr>ro_id = op_id, ro_ec = No_error, ro_key = key, ro_bytes = 0, ro_socket = si_socket impl, ro_state = si_state impl,
      ro_kind = kind, ro_new_socket = invalid_socket\<rparr>"

definition async_receive :: "'k socket_sys \<Rightarrow> 'k ctl_fn \<Rightarrow> nat \<Rightarrow> nat \<Rightarrow> bool \<Rightarrow> nat \<Rightarrow> bool \<Rightarrow>
    socket_impl \<times> 'k epoll_reactor \<Rightarrow> (socket_impl \<times> 'k epoll_reactor) option" where
  "async_receive sys ctl op_id key is_continuation len out_of_band = (\<lambda>(impl, r).
     do_start_op sys ctl (if out_of_band then except_op else read_op) (new_op op_id key (Recv_op len) impl) is_continuation (\<not> out_of_band)
       (has_flag (si_state impl) stream_oriented \<and> len = 0) True (impl, r))"

definition async_send :: "'k socket_sys \<Rightarrow> 'k ctl_fn \<Rightarrow> nat \<Rightarrow> nat \<Rightarrow> bool \<Rightarrow> nat \<Rightarrow>
    socket_impl \<times> 'k epoll_reactor \<Rightarrow> (socket_impl \<times> 'k epoll_reactor) option" where
  "async_send sys ctl op_id key is_continuation len = (\<lambda>(impl, r).
     do_start_op sys ctl write_op (new_op op_id key (Send_op len) impl) is_continuation True
       (has_flag (si_state impl) stream_oriented \<and> len = 0) True (impl, r))"

definition async_accept :: "'k socket_sys \<Rightarrow> 'k ctl_fn \<Rightarrow> nat \<Rightarrow> nat \<Rightarrow> bool \<Rightarrow> socket_impl \<Rightarrow>
    socket_impl \<times> 'k epoll_reactor \<Rightarrow> (socket_impl \<times> 'k epoll_reactor) option" where
  "async_accept sys ctl op_id key is_continuation peer = (\<lambda>(impl, r).
     do_start_accept_op sys ctl (new_op op_id key Accept_op impl) is_continuation (is_open peer) (impl, r))"

text \<open>The accepted descriptor is given to the peer socket; the holder closes it when that fails.\<close>

definition accept_do_assign :: "'k socket_sys \<Rightarrow> 'k ctl_fn \<Rightarrow> reactor_op \<Rightarrow> socket_impl \<Rightarrow> 'k epoll_reactor \<Rightarrow>
    asio_error \<times> socket_impl \<times> 'k epoll_reactor" where
  "accept_do_assign sys ctl op peer r =
     (if ro_new_socket op \<noteq> invalid_socket then
        let (ec, peer, r) = do_assign ctl (ro_new_socket op) peer r
        in if ec = No_error then (ec, peer, r)
           else (ec, peer, r\<lparr>ep_sys := snd (socket_close sys (ro_new_socket op) 0 True (ep_sys r))\<rparr>)
      else (ro_ec op, peer, r))"

section \<open>The operations and the readiness of the socket\<close>

text \<open>
  What the system calls on a non-blocking socket promise: a call that would block has found the socket not ready, a short
  write has filled the buffer of the socket, and only finitely many signals interrupt a call.
\<close>

locale socket_system = epoll ctl wait can edge watch world
  for ctl :: "'k ctl_fn" and wait :: "'k wait_fn"
    and can :: "'k \<Rightarrow> int \<Rightarrow> op_type \<Rightarrow> bool" and edge :: "'k \<Rightarrow> int \<Rightarrow> op_type \<Rightarrow> bool"
    and watch :: "'k \<Rightarrow> int \<Rightarrow> (nat \<times> uint32) option" and world :: "'k \<Rightarrow> 'k \<Rightarrow> bool" +
  fixes sys :: "'k socket_sys" and signals :: "'k \<Rightarrow> nat"
  assumes recv_evolves: "sys_recv sys s n k = (res, k') \<Longrightarrow> evolves can edge watch fd k k'"
    and send_evolves: "sys_send sys s n k = (res, k') \<Longrightarrow> evolves can edge watch fd k k'"
    and accept_evolves: "sys_accept sys s k = (res, k') \<Longrightarrow> evolves can edge watch fd k k'"
    and recv_blocks: "sys_recv sys s n k = (Sys_err EAGAIN, k') \<Longrightarrow> watch k s = Some (p, reg) \<Longrightarrow> watches reg read_op \<Longrightarrow>
      can k' s read_op \<Longrightarrow> edge k' s read_op"
    and send_blocks: "sys_send sys s n k = (Sys_err EAGAIN, k') \<Longrightarrow> watch k s = Some (p, reg) \<Longrightarrow> watches reg write_op \<Longrightarrow>
      can k' s write_op \<Longrightarrow> edge k' s write_op"
    and send_short: "sys_send sys s n k = (Sys_ok b, k') \<Longrightarrow> b < n \<Longrightarrow> watch k s = Some (p, reg) \<Longrightarrow> watches reg write_op \<Longrightarrow>
      can k' s write_op \<Longrightarrow> edge k' s write_op"
    and accept_blocks: "sys_accept sys s k = (Sys_err EAGAIN, k') \<Longrightarrow> watch k s = Some (p, reg) \<Longrightarrow> watches reg read_op \<Longrightarrow>
      can k' s read_op \<Longrightarrow> edge k' s read_op"
    and recv_signals: "sys_recv sys s n k = (Sys_err EINTR, k') \<Longrightarrow> signals k' < signals k"
    and send_signals: "sys_send sys s n k = (Sys_err EINTR, k') \<Longrightarrow> signals k' < signals k"
    and accept_signals: "sys_accept sys s k = (Sys_err EINTR, k') \<Longrightarrow> signals k' < signals k"
begin

definition settled_on :: "int \<Rightarrow> op_type \<Rightarrow> 'k \<Rightarrow> 'k \<Rightarrow> bool" where
  "settled_on s j k k' \<longleftrightarrow> (\<forall>p reg. watch k s = Some (p, reg) \<and> watches reg j \<and> can k' s j \<longrightarrow> edge k' s j)"

lemma settled_after: "evolves can edge watch s k k1 \<Longrightarrow> settled_on s j k1 k' \<Longrightarrow> settled_on s j k k'"
  by (simp add: settled_on_def evolves_def)

lemma recv1_facts:
  "\<exists>finished ec bytes k'. non_blocking_recv1 sys s len is_stream bt k = Some (finished, ec, bytes, k')
    \<and> (\<forall>fd. evolves can edge watch fd k k') \<and> (\<not> finished \<longrightarrow> ec = Asio_error EAGAIN \<and> settled_on s read_op k k')
    \<and> (finished \<and> is_stream \<and> bytes = 0 \<longrightarrow> ec \<noteq> No_error)"
proof (induction "signals k" arbitrary: k rule: less_induct)
  case less
  obtain res k1 where r: "sys_recv sys s len k = (res, k1)" by fastforce
  note e1 = recv_evolves [OF r]
  show ?case
  proof (cases "res = Sys_err EINTR")
    case True
    from less [OF recv_signals [OF r [unfolded True]]]
    obtain finished ec bytes k' where "non_blocking_recv1 sys s len is_stream bt k1 = Some (finished, ec, bytes, k')"
      "\<forall>fd. evolves can edge watch fd k1 k'" "\<not> finished \<longrightarrow> ec = Asio_error EAGAIN \<and> settled_on s read_op k1 k'"
      "finished \<and> is_stream \<and> bytes = 0 \<longrightarrow> ec \<noteq> No_error" by blast
    then show ?thesis
      using evolves_trans [OF e1] settled_after [OF e1] r True by (subst non_blocking_recv1.simps) auto
  next
    case False
    then show ?thesis using r e1 recv_blocks [of s len k]
      by (subst non_blocking_recv1.simps) (auto simp: settled_on_def end_of_file_def split: sys_result.splits)
  qed
qed

lemma send1_facts:
  "\<exists>finished ec bytes k'. non_blocking_send1 sys s len bt k = Some (finished, ec, bytes, k')
    \<and> (\<forall>fd. evolves can edge watch fd k k') \<and> (\<not> finished \<longrightarrow> ec = Asio_error EAGAIN \<and> settled_on s write_op k k')
    \<and> (finished \<and> bytes < len \<longrightarrow> ec \<noteq> No_error \<or> settled_on s write_op k k')"
proof (induction "signals k" arbitrary: k rule: less_induct)
  case less
  obtain res k1 where r: "sys_send sys s len k = (res, k1)" by fastforce
  note e1 = send_evolves [OF r]
  show ?case
  proof (cases "res = Sys_err EINTR")
    case True
    from less [OF send_signals [OF r [unfolded True]]]
    obtain finished ec bytes k' where "non_blocking_send1 sys s len bt k1 = Some (finished, ec, bytes, k')"
      "\<forall>fd. evolves can edge watch fd k1 k'" "\<not> finished \<longrightarrow> ec = Asio_error EAGAIN \<and> settled_on s write_op k1 k'"
      "finished \<and> bytes < len \<longrightarrow> ec \<noteq> No_error \<or> settled_on s write_op k1 k'" by blast
    then show ?thesis
      using evolves_trans [OF e1] settled_after [OF e1] r True by (subst non_blocking_send1.simps) auto
  next
    case False
    then show ?thesis using r e1 send_blocks [of s len k] send_short [of s len k]
      by (subst non_blocking_send1.simps) (auto simp: settled_on_def split: sys_result.splits)
  qed
qed

lemma accept_facts:
  "\<exists>finished ec new k'. non_blocking_accept sys s state k = Some (finished, ec, new, k')
    \<and> (\<forall>fd. evolves can edge watch fd k k')
    \<and> (\<not> finished \<longrightarrow> ec = Asio_error EAGAIN \<and> settled_on s read_op k k' \<or> ec = Asio_error ECONNABORTED \<or> ec = Asio_error EPROTO)"
proof (induction "signals k" arbitrary: k rule: less_induct)
  case less
  obtain res k1 where r: "sys_accept sys s k = (res, k1)" by fastforce
  note e1 = accept_evolves [OF r]
  show ?case
  proof (cases "s \<noteq> invalid_socket \<and> res = Sys_err EINTR")
    case True
    then have "res = Sys_err EINTR" by blast
    from less [OF accept_signals [OF r [unfolded this]]]
    obtain finished ec new k' where "non_blocking_accept sys s state k1 = Some (finished, ec, new, k')"
      "\<forall>fd. evolves can edge watch fd k1 k'"
      "\<not> finished \<longrightarrow> ec = Asio_error EAGAIN \<and> settled_on s read_op k1 k' \<or> ec = Asio_error ECONNABORTED \<or> ec = Asio_error EPROTO"
      by blast
    then show ?thesis
      using evolves_trans [OF e1] settled_after [OF e1] r True
      by (subst non_blocking_accept.simps) (auto simp: socket_accept_def)
  next
    case False
    then show ?thesis using r e1 accept_blocks [of s k] evolves_refl [of can edge watch _ k]
      by (subst non_blocking_accept.simps)
        (auto simp: socket_accept_def settled_on_def bad_descriptor_def invalid_socket_def EINTR_def EAGAIN_def ECONNABORTED_def EPROTO_def
          split: sys_result.splits)
  qed
qed

text \<open>An operation always returns, and does what the reactor relies on.\<close>

lemma do_perform_facts:
  "\<exists>st op' k'. do_perform sys op k = Some (st, op', k')
    \<and> ro_id op' = ro_id op \<and> ro_socket op' = ro_socket op \<and> ro_kind op' = ro_kind op \<and> ro_key op' = ro_key op
    \<and> (\<forall>fd. evolves can edge watch fd k k')
    \<and> (st = st_not_done \<longrightarrow> settled_on (ro_socket op) (op_dir op) k k' \<or> op_stalled op')
    \<and> (st = st_done_and_exhausted \<longrightarrow> settled_on (ro_socket op) (op_dir op) k k' \<or> ro_ec op' \<noteq> No_error)"
proof (cases "ro_kind op")
  case (Recv_op len)
  then show ?thesis using recv1_facts [of "ro_socket op" len "has_flag (ro_state op) stream_oriented" "ro_bytes op" k]
    by (auto simp: do_perform_def recv_do_perform_def op_dir_def split: if_splits)
next
  case (Send_op len)
  then show ?thesis using send1_facts [of "ro_socket op" len "ro_bytes op" k]
    by (auto simp: do_perform_def send_do_perform_def op_dir_def split: if_splits)
next
  case Accept_op
  then show ?thesis using accept_facts [of "ro_socket op" "ro_state op" k]
    by (auto simp: do_perform_def accept_do_perform_def op_dir_def op_stalled_def would_block_def EAGAIN_def ECONNABORTED_def EPROTO_def
      split: if_splits)
qed

lemma do_perform_cases:
  assumes "do_perform sys op k = Some (st, op', k')"
  shows "ro_id op' = ro_id op" and "ro_socket op' = ro_socket op" and "ro_kind op' = ro_kind op" and "ro_key op' = ro_key op"
    and "evolves can edge watch fd k k'"
    and "st = st_not_done \<Longrightarrow> settled_on (ro_socket op) (op_dir op) k k' \<or> op_stalled op'"
    and "st = st_done_and_exhausted \<Longrightarrow> settled_on (ro_socket op) (op_dir op) k k' \<or> ro_ec op' \<noteq> No_error"
  using do_perform_facts [of op k] assms by auto

end

sublocale socket_system \<subseteq> edge_triggered ctl wait can edge watch world "do_perform sys"
proof unfold_locales
  fix op st op' k k' p reg
  assume d: "do_perform sys op k = Some (st, op', k')"
  show "ro_id op' = ro_id op \<and> ro_socket op' = ro_socket op \<and> ro_kind op' = ro_kind op \<and> ro_key op' = ro_key op"
    "evolves can edge watch fd k k'" for fd
    using do_perform_cases [OF d] by simp_all
next
  fix op op' k k' p reg
  assume d: "do_perform sys op k = Some (st_not_done, op', k')" "watch k (ro_socket op) = Some (p, reg)"
    "watches reg (op_dir op)" "can k' (ro_socket op) (op_dir op)"
  show "edge k' (ro_socket op) (op_dir op) \<or> op_stalled op'"
    using do_perform_cases(6) [OF d(1) refl] d(2-4) by (auto simp: settled_on_def)
next
  fix op op' k k' p reg
  assume d: "do_perform sys op k = Some (st_done_and_exhausted, op', k')" "watch k (ro_socket op) = Some (p, reg)"
    "watches reg (op_dir op)" "can k' (ro_socket op) (op_dir op)"
  show "edge k' (ro_socket op) (op_dir op) \<or> ro_ec op' \<noteq> No_error"
    using do_perform_cases(7) [OF d(1) refl] d(2-4) by (auto simp: settled_on_def)
qed

context socket_system
begin

lemma do_perform_returns: "do_perform sys op k \<noteq> None"
  using do_perform_facts [of op k] by auto

lemma perform_loop_returns: "perform_loop (do_perform sys) ops k \<noteq> None"
proof (induction ops arbitrary: k)
  case (Cons op ops)
  then show ?case using do_perform_returns [of op k] by (auto split: option.splits simp del: not_None_eq)
qed simp

lemma perform_dirs_returns: "perform_dirs (do_perform sys) events js dk \<noteq> None"
proof (induction js arbitrary: dk)
  case (Cons j js)
  have "perform_dir (do_perform sys) events j dk \<noteq> None"
    using perform_loop_returns [of "ds_ops (fst dk) j" "snd dk"] by (cases dk) (auto simp: perform_dir_def split: option.splits)
  then show ?case using Cons.IH by (auto split: option.splits simp del: not_None_eq)
qed simp

lemma start_on_returns: "start_on (do_perform sys) ctl j fd p op spec (d, k) \<noteq> None"
proof -
  have "try_perform (do_perform sys) j op (d, k) \<noteq> None" using do_perform_returns [of op k] by (simp add: try_perform_def del: not_None_eq)
  then have "start_speculative (do_perform sys) ctl j fd p op (d, k) \<noteq> None"
    by (auto simp: start_speculative_def Let_def split: prod.splits option.splits)
  then show ?thesis by (simp add: start_on_def del: not_None_eq)
qed

text \<open>What the invariant of the reactor says of a socket that has been registered.\<close>

lemma registered_run:
  assumes "pool_ok r0" and "\<And>q. foreign fd (ep_state r0 q)"
    and "register_descriptor ctl fd r0 = (0, p, r1)" and "ds_registered (ep_state r1 p) \<noteq> 0"
    and "(reactor_step (do_perform sys) ctl wait world p fd)\<^sup>*\<^sup>* (r1, enq0, []) (r, enq, ops)" and "distinct enq0"
  defines "posted \<equiv> \<lambda>j. posted_of fd j (drop (length (ep_posted r1)) (ep_posted r))"
  shows "ds_ops (ep_state r p) j \<noteq> [] \<Longrightarrow> can (ep_sys r) fd j \<Longrightarrow>
      edge (ep_sys r) fd j \<or> p \<in> set enq \<and> hits (ds_task_result (ep_state r p)) j
      \<or> (\<exists>op \<in> set (posted j). ro_ec op \<noteq> No_error) \<or> (\<exists>op \<in> set (ds_ops (ep_state r p) j). op_stalled op)"
    and "in_order (posted j) (ds_ops (ep_state r p) j) (map ro_id (filter (\<lambda>op. op_dir op = j) ops))"
proof -
  have "reactor_ok p fd (length (ep_posted r1)) r1 enq0 []" using register_ok [OF assms(3,4,2,1,6)] .
  then have ok: "reactor_ok p fd (length (ep_posted r1)) r enq ops" using reactor_run_ok [OF assms(5)] by simp
  then show "in_order (posted j) (ds_ops (ep_state r p) j) (map ro_id (filter (\<lambda>op. op_dir op = j) ops))"
    by (simp add: reactor_ok_def posted_def)
  assume a: "ds_ops (ep_state r p) j \<noteq> []" "can (ep_sys r) fd j"
  have "watches (ds_registered (ep_state r p)) j" using ok a(1) by (simp add: reactor_ok_def tidy_def)
  moreover have "served fd (told p fd (length (ep_posted r1)) r enq) (ep_state r p) (ep_sys r) j" using ok by (simp add: reactor_ok_def)
  ultimately show "edge (ep_sys r) fd j \<or> p \<in> set enq \<and> hits (ds_task_result (ep_state r p)) j
      \<or> (\<exists>op \<in> set (posted j). ro_ec op \<noteq> No_error) \<or> (\<exists>op \<in> set (ds_ops (ep_state r p) j). op_stalled op)"
    using a unfolding served_def told_def posted_def by blast
qed

end

text \<open>Starting an operation and serving an event always return, as no call is interrupted for ever.\<close>

theorem reactor_never_hangs:
  assumes "socket_system ctl wait can edge watch world sys signals"
  shows "reactor_start_op (do_perform sys) ctl j fd data op cont spec r \<noteq> None \<and> perform_io (do_perform sys) p r \<noteq> None"
proof
  show "reactor_start_op (do_perform sys) ctl j fd data op cont spec r \<noteq> None"
    using socket_system.start_on_returns [OF assms]
    by (auto simp: reactor_start_op_def Let_def split: option.splits simp del: not_None_eq)
  show "perform_io (do_perform sys) p r \<noteq> None"
    using socket_system.perform_dirs_returns [OF assms]
    by (auto simp: perform_io_def split: option.splits simp del: not_None_eq perform_dirs.simps)
qed

text \<open>
  No operation of a socket is forgotten: whatever operations are started, cancelled and performed on it and on other
  sockets, and whenever bytes arrive, an operation that waits while its socket is ready will be looked at again: an
  event for it is recorded by epoll, or has been handed to the scheduler. The exceptions are a
  socket on which an operation of the same direction has already failed, and an \<open>accept\<close> that has met a connection aborted
  by its peer.
\<close>

theorem no_lost_wakeup:
  assumes "socket_system ctl wait can edge watch world sys signals"
    and "pool_ok r0" and "\<And>q. foreign fd (ep_state r0 q)"
    and "register_descriptor ctl fd r0 = (0, p, r1)" and "ds_registered (ep_state r1 p) \<noteq> 0"
    and "(reactor_step (do_perform sys) ctl wait world p fd)\<^sup>*\<^sup>* (r1, enq0, []) (r, enq, ops)" and "distinct enq0"
    and "ds_ops (ep_state r p) j \<noteq> []" and "can (ep_sys r) fd j"
  shows "edge (ep_sys r) fd j \<or> p \<in> set enq \<and> hits (ds_task_result (ep_state r p)) j
    \<or> (\<exists>op \<in> set (posted_of fd j (drop (length (ep_posted r1)) (ep_posted r))). ro_ec op \<noteq> No_error)
    \<or> (\<exists>op \<in> set (ds_ops (ep_state r p) j). op_stalled op)"
  using socket_system.registered_run(1) [OF assms] .

text \<open>
  Every operation started on a socket completes at most once, and is either completed or still queued; those that
  are not aborted complete in the order in which they were started in their direction.
\<close>

theorem socket_operations_in_order:
  fixes j :: op_type
  assumes "socket_system ctl wait can edge watch world sys signals"
    and "pool_ok r0" and "\<And>q. foreign fd (ep_state r0 q)"
    and "register_descriptor ctl fd r0 = (0, p, r1)" and "ds_registered (ep_state r1 p) \<noteq> 0"
    and "(reactor_step (do_perform sys) ctl wait world p fd)\<^sup>*\<^sup>* (r1, enq0, []) (r, enq, ops)" and "distinct enq0"
  defines "posted \<equiv> posted_of fd j (drop (length (ep_posted r1)) (ep_posted r))"
    and "started \<equiv> map ro_id (filter (\<lambda>op. op_dir op = j) ops)"
  shows "mset (map ro_id (posted @ ds_ops (ep_state r p) j)) = mset started
    \<and> subseq (map ro_id (filter (\<lambda>op. ro_ec op \<noteq> Operation_aborted) posted @ ds_ops (ep_state r p) j)) started"
  using socket_system.registered_run(2) [OF assms(1-7)] unfolding in_order_def posted_def started_def .

text \<open>
  Destroying an open socket posts every operation outstanding on it once, with the error \<open>operation_aborted\<close>, in the order in
  which the queues held them, and gives its descriptor state back to the pool, with no operation left in it.
\<close>

theorem destroyed_socket_aborts:
  assumes "is_open impl" and "si_data impl = Some p" and "\<not> ds_shutdown (ep_state r p)"
    and "socket_destroy sys ctl impl r = r'"
  shows "ep_posted r' = ep_posted r @ map aborted (all_ops (ep_state r p))
    \<and> re_sched (ep_timers r') = post_deferred_completions (map ro_id (all_ops (ep_state r p))) (re_sched (ep_timers r))
    \<and> ep_live r' = remove1 p (ep_live r) \<and> ep_free r' = p # ep_free r
    \<and> (\<forall>j. ds_ops (ep_state r' p) j = []) \<and> ds_shutdown (ep_state r' p) \<and> (\<forall>q. q \<noteq> p \<longrightarrow> ep_state r' q = ep_state r q)"
proof -
  have ids: "map ro_id (map aborted xs) = map ro_id xs" for xs by (simp add: aborted_def comp_def)
  show ?thesis
    unfolding assms(4) [symmetric] using assms(1-3) by (simp add: socket_destroy_def close_impl_def deregister_descriptor_def cleanup_descriptor_data_def
      pool_free_def cancel_on_def post_ops_def all_ops_def ids Let_def split_beta del: map_map flip: map_append)
qed

section \<open>A small operating system\<close>

text \<open>
  An instance of the contract: for each descriptor the number of bytes that can be read and written, the events
  recorded and what is watched, and a number of signals that are about to interrupt calls.
\<close>

record sim =
  sm_room :: "int \<Rightarrow> op_type \<Rightarrow> nat"
  sm_edge :: "int \<Rightarrow> op_type \<Rightarrow> bool"
  sm_watch :: "int \<Rightarrow> (nat \<times> uint32) option"
  sm_fds :: "int list"
  sm_signals :: nat

definition sim_can :: "sim \<Rightarrow> int \<Rightarrow> op_type \<Rightarrow> bool" where
  "sim_can k fd j \<longleftrightarrow> sm_room k fd j > 0"

definition sim_take :: "int \<Rightarrow> op_type \<Rightarrow> nat \<Rightarrow> sim \<Rightarrow> sim" where
  "sim_take fd j n k = k\<lparr>sm_room := (sm_room k)(fd := (sm_room k fd)(j := sm_room k fd j - n))\<rparr>"

definition sim_transfer :: "op_type \<Rightarrow> int \<Rightarrow> nat \<Rightarrow> sim \<Rightarrow> sys_result \<times> sim" where
  "sim_transfer j fd n k =
     (if sm_signals k > 0 then (Sys_err EINTR, k\<lparr>sm_signals := sm_signals k - 1\<rparr>)
      else if sm_room k fd j = 0 then (Sys_err EAGAIN, k)
      else let b = min n (sm_room k fd j) in (Sys_ok b, sim_take fd j b k))"

definition sim_arrives :: "int \<Rightarrow> op_type \<Rightarrow> nat \<Rightarrow> sim \<Rightarrow> sim" where
  "sim_arrives fd j n k =
     k\<lparr>sm_room := (sm_room k)(fd := (sm_room k fd)(j := sm_room k fd j + n)),
       sm_edge := (sm_edge k)(fd := (sm_edge k fd)(j := True))\<rparr>"

definition sim_world :: "sim \<Rightarrow> sim \<Rightarrow> bool" where
  "sim_world k k' \<longleftrightarrow> (\<exists>fd j n. k' = sim_arrives fd j n k)"

fun sim_ctl :: "sim ctl_fn" where
  "sim_ctl Ctl_del fd reg p k = (0, k\<lparr>sm_watch := (sm_watch k)(fd := None)\<rparr>)"
| "sim_ctl c fd reg p k =
     (0, k\<lparr>sm_watch := (sm_watch k)(fd := Some (p, reg)),
           sm_edge := (sm_edge k)(fd := (\<lambda>j. sm_edge k fd j \<or> sm_room k fd j > 0)),
           sm_fds := (if fd \<in> set (sm_fds k) then sm_fds k else fd # sm_fds k)\<rparr>)"

definition sim_events :: "sim \<Rightarrow> int \<Rightarrow> uint32" where
  "sim_events k fd = (if sm_edge k fd read_op then EPOLLIN else 0) OR (if sm_edge k fd write_op then EPOLLOUT else 0)
     OR (if sm_edge k fd except_op then EPOLLPRI else 0)"

definition sim_wait :: "sim wait_fn" where
  "sim_wait t k =
     (concat (map (\<lambda>fd. case sm_watch k fd of None \<Rightarrow> [] | Some (p, reg) \<Rightarrow> [Ev_descriptor p (sim_events k fd)]) (sm_fds k)),
      k\<lparr>sm_edge := (\<lambda>fd. if fd \<in> set (sm_fds k) then (\<lambda>_. False) else sm_edge k fd)\<rparr>)"

definition sim_sys :: "sim socket_sys" where
  "sim_sys = \<lparr>sys_recv = sim_transfer read_op, sys_send = sim_transfer write_op, sys_accept = (\<lambda>fd. sim_transfer read_op fd 1),
     sys_socket = (\<lambda>k. (Sys_ok 3, k)), sys_close = (\<lambda>fd k. (0, k\<lparr>sm_watch := (sm_watch k)(fd := None)\<rparr>)), sys_unlinger = (\<lambda>fd k. k),
     sys_ioctl = (\<lambda>fd v k. (0, k)), sys_getfl = (\<lambda>fd k. (Inr 0, k)), sys_setfl = (\<lambda>fd v k. (0, k))\<rparr>"

lemma sim_events_hit: "sm_edge k fd j \<Longrightarrow> hits (sim_events k fd) j"
proof -
  have "hits (op_flag i) i" for i by (cases i) (simp_all add: hits_def EPOLLIN_def EPOLLOUT_def EPOLLPRI_def EPOLLERR_def EPOLLHUP_def)
  from this [of read_op] this [of write_op] this [of except_op] show "sm_edge k fd j \<Longrightarrow> hits (sim_events k fd) j"
    by (cases j) (simp_all add: sim_events_def)
qed

lemma sim_transfer_evolves: "sim_transfer j s n k = (res, k') \<Longrightarrow> evolves sim_can sm_edge sm_watch fd k k'"
  by (auto simp: sim_transfer_def evolves_def sim_can_def sim_take_def Let_def split: if_splits)

lemma sim_transfer_errors:
  "sim_transfer j s n k = (Sys_err EAGAIN, k') \<Longrightarrow> \<not> sim_can k' s j"
  "sim_transfer j s n k = (Sys_ok b, k') \<Longrightarrow> b < n \<Longrightarrow> \<not> sim_can k' s j"
  "sim_transfer j s n k = (Sys_err EINTR, k') \<Longrightarrow> sm_signals k' < sm_signals k"
  by (auto simp: sim_transfer_def sim_can_def sim_take_def EINTR_def EAGAIN_def Let_def split: if_splits)

interpretation sim: socket_system sim_ctl sim_wait sim_can sm_edge sm_watch sim_world sim_sys sm_signals
proof unfold_locales
  show "evolves sim_can sm_edge sm_watch fd k k'" if "sim_world k k'" for k k' fd
    using that by (auto simp: sim_world_def sim_arrives_def evolves_def sim_can_def split: if_splits)
  show "evolves sim_can sm_edge sm_watch fd' k k'" if "sim_ctl c fd reg p k = (err, k')" "fd' \<noteq> fd" for c fd reg p k err k' fd'
    using that by (cases c) (auto simp: evolves_def sim_can_def)
  show "evolves sim_can sm_edge sm_watch fd k k'" if "sim_ctl c fd reg p k = (err, k')" "err \<noteq> 0" for c fd reg p k err k'
    using that by (cases c) auto
  show "sm_watch k' fd = Some (p, reg) \<and> (\<forall>j. watches reg j \<and> sim_can k' fd j \<longrightarrow> sm_edge k' fd j)"
    if "sim_ctl c fd reg p k = (0, k')" "c \<noteq> Ctl_del" for c fd reg p k k'
    using that by (cases c) (auto simp: sim_can_def)
  show "sm_watch k' fd = Some (p, reg) \<and> (\<forall>j. watches reg j \<longrightarrow>
        (sm_edge k fd j \<longrightarrow> sm_edge k' fd j \<or> (\<exists>ev. Ev_descriptor p ev \<in> set evs \<and> hits ev j))
      \<and> (sim_can k' fd j \<longrightarrow> sim_can k fd j \<or> sm_edge k' fd j \<or> (\<exists>ev. Ev_descriptor p ev \<in> set evs \<and> hits ev j)))"
    if "sim_wait t k = (evs, k')" "sm_watch k fd = Some (p, reg)" for t k evs k' fd p reg
  proof -
    have "Ev_descriptor p (sim_events k fd) \<in> set evs" if "fd \<in> set (sm_fds k)"
      using that \<open>sim_wait t k = (evs, k')\<close> \<open>sm_watch k fd = Some (p, reg)\<close> by (force simp: sim_wait_def)
    moreover have "sm_watch k' = sm_watch k" "sm_room k' = sm_room k" "fd \<notin> set (sm_fds k) \<Longrightarrow> sm_edge k' fd = sm_edge k fd"
      using \<open>sim_wait t k = (evs, k')\<close> by (auto simp: sim_wait_def)
    ultimately have "sm_edge k' fd j \<or> (\<exists>ev. Ev_descriptor p ev \<in> set evs \<and> hits ev j)" if "sm_edge k fd j" for j
      using sim_events_hit [OF that] that by metis
    then show ?thesis using that(2) \<open>sm_watch k' = sm_watch k\<close> \<open>sm_room k' = sm_room k\<close> by (simp add: sim_can_def)
  qed
qed (auto simp: sim_sys_def dest: sim_transfer_evolves sim_transfer_errors)

text \<open>A receive on an idle socket, and then five bytes arrive.\<close>

definition sim_start :: sim where
  "sim_start = \<lparr>sm_room = (\<lambda>_ _. 0), sm_edge = (\<lambda>_ _. False), sm_watch = (\<lambda>_. None), sm_fds = [], sm_signals = 0\<rparr>"

definition blank_state :: descriptor_state where
  "blank_state = \<lparr>ds_descriptor = 0, ds_registered = 0, ds_ops = (\<lambda>_. []), ds_spec = (\<lambda>_. False), ds_shutdown = False, ds_task_result = 0\<rparr>"

definition idle_reactor :: "sim epoll_reactor" where
  "idle_reactor = \<lparr>ep_timers = \<lparr>re_shutdown = False, re_queue = timer_queue_new, re_sched = (scheduler_new True 0 0, None), re_updates = 0, re_posted = []\<rparr>,
     ep_has_timer_fd = True, ep_state = (\<lambda>_. blank_state), ep_live = [], ep_free = [], ep_fresh = 0, ep_posted = [], ep_sys = sim_start\<rparr>"

definition registered_reactor :: "sim epoll_reactor" where
  "registered_reactor = snd (snd (register_descriptor sim_ctl 3 idle_reactor))"

definition sample_recv :: reactor_op where
  "sample_recv = \<lparr>ro_id = 7, ro_ec = No_error, ro_key = 0, ro_bytes = 0, ro_socket = 3, ro_state = stream_oriented,
     ro_kind = Recv_op 13, ro_new_socket = invalid_socket\<rparr>"

definition waiting_reactor :: "sim epoll_reactor" where
  "waiting_reactor = the (reactor_start_op (do_perform sim_sys) sim_ctl read_op 3 (Some 0) sample_recv False True registered_reactor)"

definition ready_reactor :: "sim epoll_reactor" where
  "ready_reactor = waiting_reactor\<lparr>ep_sys := sim_arrives 3 read_op 5 (ep_sys waiting_reactor)\<rparr>"

lemma idle_reactor_ok: "pool_ok idle_reactor" "foreign 3 (ep_state idle_reactor q)"
  by (simp_all add: pool_ok_def foreign_def idle_reactor_def blank_state_def)

lemma registered_reactor_eq: "register_descriptor sim_ctl 3 idle_reactor = (0, 0, registered_reactor)"
  by (simp add: registered_reactor_def register_descriptor_def pool_alloc_def idle_reactor_def Let_def)

lemma registered_reactor_state:
  "ds_registered (ep_state registered_reactor 0) = initial_events" "ds_ops (ep_state registered_reactor 0) = (\<lambda>_. [])"
  "ds_spec (ep_state registered_reactor 0) = (\<lambda>_. True)" "\<not> ds_shutdown (ep_state registered_reactor 0)"
  "sm_room (ep_sys registered_reactor) = (\<lambda>_ _. 0)" "sm_signals (ep_sys registered_reactor) = 0" "ep_posted registered_reactor = []"
  by (simp_all add: registered_reactor_def register_descriptor_def pool_alloc_def idle_reactor_def descriptor_state_new_def
    blank_state_def sim_start_def Let_def)

lemma sample_recv_blocks:
  assumes "sm_room k 3 read_op = 0" and "sm_signals k = 0"
  shows "do_perform sim_sys sample_recv k = Some (st_not_done, sample_recv\<lparr>ro_ec := would_block\<rparr>, k)"
proof -
  have "sys_recv sim_sys 3 13 k = (Sys_err EAGAIN, k)" using assms by (simp add: sim_sys_def sim_transfer_def)
  then have "non_blocking_recv1 sim_sys 3 13 b 0 k = Some (False, would_block, 0, k)" for b
    by (subst non_blocking_recv1.simps) (simp add: would_block_def EAGAIN_def EINTR_def)
  then show ?thesis by (simp add: do_perform_def sample_recv_def recv_do_perform_def)
qed

lemma waiting_reactor_eq:
  "reactor_start_op (do_perform sim_sys) sim_ctl read_op 3 (Some 0) sample_recv False True registered_reactor = Some waiting_reactor"
  "ds_ops (ep_state waiting_reactor 0) read_op = [sample_recv\<lparr>ro_ec := would_block\<rparr>]" "ep_posted waiting_reactor = []"
  "sm_room (ep_sys waiting_reactor) = (\<lambda>_ _. 0)"
  unfolding waiting_reactor_def
  by (simp_all add: reactor_start_op_def start_on_def start_speculative_def try_perform_def registered_reactor_state sample_recv_blocks
    initial_events_nonzero ds_push_def Let_def reactor_work_started_def)

lemma ready_reactor_reached:
  "(reactor_step (do_perform sim_sys) sim_ctl sim_wait sim_world 0 3)\<^sup>*\<^sup>* (registered_reactor, [], []) (ready_reactor, [], [sample_recv])"
proof -
  let ?step = "reactor_step (do_perform sim_sys) sim_ctl sim_wait sim_world 0 3"
  have "op_dir sample_recv = read_op" by (simp add: op_dir_def sample_recv_def)
  then have "?step (registered_reactor, [], []) (waiting_reactor, [], [] @ [sample_recv])"
    using waiting_reactor_eq(1) by (intro reactor_step.start) (simp_all add: sample_recv_def)
  moreover have "?step (waiting_reactor, [], [sample_recv]) (ready_reactor, [], [sample_recv])"
    unfolding ready_reactor_def by (rule reactor_step.world) (auto simp: sim_world_def)
  ultimately show ?thesis by auto
qed

theorem reactor_never_hangs_witness:
  "perform_io (do_perform sim_sys) 0 ready_reactor \<noteq> None"
  using reactor_never_hangs [OF sim.socket_system_axioms] by blast

theorem no_lost_wakeup_witness:
  "ds_ops (ep_state ready_reactor 0) read_op \<noteq> [] \<and> sim_can (ep_sys ready_reactor) 3 read_op
    \<and> \<not> op_stalled (sample_recv\<lparr>ro_ec := would_block\<rparr>) \<and> sm_edge (ep_sys ready_reactor) 3 read_op"
proof -
  have ready: "ds_ops (ep_state ready_reactor 0) read_op = [sample_recv\<lparr>ro_ec := would_block\<rparr>]" "sim_can (ep_sys ready_reactor) 3 read_op"
    "ep_posted ready_reactor = []"
    using waiting_reactor_eq by (simp_all add: ready_reactor_def sim_can_def sim_arrives_def)
  then have "sm_edge (ep_sys ready_reactor) 3 read_op \<or> op_stalled (sample_recv\<lparr>ro_ec := would_block\<rparr>)"
    using no_lost_wakeup [OF sim.socket_system_axioms idle_reactor_ok registered_reactor_eq _ ready_reactor_reached distinct.simps(1) [THEN iffD2, OF TrueI], of read_op]
    by (simp add: registered_reactor_state initial_events_nonzero posted_of_def)
  then show ?thesis using ready by (simp add: op_stalled_def)
qed

theorem socket_operations_in_order_witness:
  "mset (map ro_id (posted_of 3 read_op (ep_posted ready_reactor) @ ds_ops (ep_state ready_reactor 0) read_op)) = mset [7]"
  using socket_operations_in_order [OF sim.socket_system_axioms idle_reactor_ok registered_reactor_eq _ ready_reactor_reached distinct.simps(1) [THEN iffD2, OF TrueI], of read_op]
  by (simp add: registered_reactor_state initial_events_nonzero op_dir_def sample_recv_def)

theorem destroyed_socket_aborts_witness:
  "map ro_ec (ep_posted (socket_destroy sim_sys sim_ctl \<lparr>si_socket = 3, si_state = stream_oriented, si_data = Some 0\<rparr> ready_reactor))
    = [Operation_aborted]"
proof -
  have "\<not> ds_shutdown (ep_state ready_reactor 0)" "ds_ops (ep_state ready_reactor 0) write_op = []" "ds_ops (ep_state ready_reactor 0) except_op = []"
    by (simp_all add: ready_reactor_def waiting_reactor_def reactor_start_op_def start_on_def start_speculative_def try_perform_def
      registered_reactor_state sample_recv_blocks initial_events_nonzero ds_push_def Let_def reactor_work_started_def)
  then show ?thesis
    using destroyed_socket_aborts [of "\<lparr>si_socket = 3, si_state = stream_oriented, si_data = Some 0\<rparr>" 0 ready_reactor sim_sys sim_ctl, OF _ _ _ refl]
      waiting_reactor_eq
    by (simp add: is_open_def invalid_socket_def all_ops_def ready_reactor_def aborted_def)
qed

end
