(* ===== verification/Asio_Loop.thy ===== *)
theory Asio_Loop
  imports Asio_Socket
begin

text \<open>
  The event loop of the host: the scheduler (\<open>vendors/asio-1.36.0/include/asio/detail/impl/scheduler.ipp\<close>) with the
  reactor as its task, on one thread, with calls of other threads in between. A descriptor state that has become
  ready is queued among the operations, and completing it performs the operations that wait on the descriptor
  (\<open>descriptor_state::do_complete\<close> of \<open>detail/impl/epoll_reactor.ipp\<close>).

  Operations and descriptor states are objects of one memory: the descriptor states have the addresses from
  \<open>base\<close> on, the operations the addresses below.
\<close>

section \<open>Calls of handlers\<close>

text \<open>What a handler, or another thread, asks of the reactor and the scheduler.\<close>

datatype api_call =
    Api_start op_type int nat reactor_op bool bool
  | Api_cancel nat
  | Api_cancel_key nat op_type nat
  | Api_register int
  | Api_close int nat bool
  | Api_timer int timer wait_op
  | Api_timer_cancel timer nat
  | Api_post nat bool
  | Api_stop

abbreviation sched_of :: "'k epoll_reactor \<Rightarrow> scheduler \<times> thread_info option" where
  "sched_of r \<equiv> re_sched (ep_timers r)"

definition set_sched :: "scheduler \<times> thread_info option \<Rightarrow> 'k epoll_reactor \<Rightarrow> 'k epoll_reactor" where
  "set_sched st r = r\<lparr>ep_timers := (ep_timers r)\<lparr>re_sched := st\<rparr>\<rparr>"

fun do_api :: "'k perform_fn \<Rightarrow> 'k ctl_fn \<Rightarrow> api_call \<Rightarrow> 'k epoll_reactor \<Rightarrow> 'k epoll_reactor option" where
  "do_api perform ctl (Api_start j fd q op cont spec) r = reactor_start_op perform ctl j fd (Some q) op cont spec r"
| "do_api perform ctl (Api_cancel q) r = Some (cancel_ops (Some q) r)"
| "do_api perform ctl (Api_cancel_key q j key) r = Some (cancel_ops_by_key (Some q) j key r)"
| "do_api perform ctl (Api_register fd) r = Some (snd (snd (register_descriptor ctl fd r)))"
| "do_api perform ctl (Api_close fd q closing) r =
     (let (data, r) = deregister_descriptor ctl fd (Some q) closing r in Some (snd (cleanup_descriptor_data data r)))"
| "do_api perform ctl (Api_timer time t op) r = Some (r\<lparr>ep_timers := schedule_timer time t op (ep_timers r)\<rparr>)"
| "do_api perform ctl (Api_timer_cancel t n) r = Some (r\<lparr>ep_timers := snd (reactor_cancel_timer t n (ep_timers r))\<rparr>)"
| "do_api perform ctl (Api_post op cont) r = Some (set_sched (post_immediate_completion op cont (sched_of r)) r)"
| "do_api perform ctl Api_stop r = Some (set_sched (map_prod sched_stop id (sched_of r)) r)"

text \<open>A call of another thread, which does not run the scheduler; a call is marked whether this thread makes it.\<close>

definition outside_api :: "'k perform_fn \<Rightarrow> 'k ctl_fn \<Rightarrow> api_call \<Rightarrow> 'k epoll_reactor \<Rightarrow> 'k epoll_reactor option" where
  "outside_api perform ctl c r =
     (let (s, th) = sched_of r
      in map_option (\<lambda>r. set_sched (fst (sched_of r), th) r) (do_api perform ctl c (set_sched (s, None) r)))"

fun do_apis :: "'k perform_fn \<Rightarrow> 'k ctl_fn \<Rightarrow> (bool \<times> api_call) list \<Rightarrow> 'k epoll_reactor \<Rightarrow> 'k epoll_reactor option" where
  "do_apis perform ctl [] r = Some r"
| "do_apis perform ctl ((own, c) # cs) r =
     (case (if own then do_api perform ctl c r else outside_api perform ctl c r) of
        None \<Rightarrow> None
      | Some r \<Rightarrow> do_apis perform ctl cs r)"

section \<open>The loop\<close>

text \<open>
  The task is at the front of the queue: the reactor is run, and what it hands out is queued before the task. Other threads
  make their calls while this thread waits for events, or after that.
\<close>

definition task_prepare :: "sched_op list \<Rightarrow> scheduler \<Rightarrow> scheduler" where
  "task_prepare rest s =
     (let more_handlers = rest \<noteq> [];
          s = s\<lparr>sc_queue := rest, task_interrupted := more_handlers \<or> task_usec s = 0\<rparr>
      in if more_handlers \<and> \<not> one_thread s \<and> wait_usec s \<noteq> 0 then s\<lparr>sc_signalled := True\<rparr> else s)"

definition loop_task :: "'k perform_fn \<Rightarrow> 'k ctl_fn \<Rightarrow> 'k wait_fn \<Rightarrow> int \<Rightarrow> api_call list \<Rightarrow> api_call list \<Rightarrow> sched_op list \<Rightarrow>
    'k epoll_reactor \<Rightarrow> (nat list \<times> 'k epoll_reactor) option" where
  "loop_task perform ctl wait now before after rest r =
     (case sched_of r of
        (s, None) \<Rightarrow> None
      | (s, Some th) \<Rightarrow>
          (case do_apis perform ctl (map (Pair False) before) (set_sched (task_prepare rest s, Some th) r) of
             None \<Rightarrow> None
           | Some r \<Rightarrow>
               (case reactor_run wait now (if rest \<noteq> [] then 0 else task_usec s) r of
                  None \<Rightarrow> None
                | Some (descriptors, timers, r) \<Rightarrow>
                    (case do_apis perform ctl (map (Pair False) after) r of
                       None \<Rightarrow> None
                     | Some r \<Rightarrow>
                         let th = th\<lparr>private_op_queue := private_op_queue th @ map Operation (descriptors @ timers)\<rparr>;
                             (s, th) = task_cleanup (fst (sched_of r), th)
                         in Some (descriptors, set_sched (s, Some th) r)))))"

text \<open>
  Completing an operation: a descriptor state performs its operations and completes the first of them. The calls are
  those made while the handler runs.
\<close>

definition complete_operation :: "nat \<Rightarrow> 'k perform_fn \<Rightarrow> 'k ctl_fn \<Rightarrow> (nat \<Rightarrow> (bool \<times> api_call) list) \<Rightarrow> nat \<Rightarrow> 'k epoll_reactor \<Rightarrow>
    ((bool \<times> api_call) list \<times> 'k epoll_reactor) option" where
  "complete_operation base perform ctl handler a r =
     (if base \<le> a then
        case perform_io perform a r of
          None \<Rightarrow> None
        | Some (None, r) \<Rightarrow> Some ([], r)
        | Some (Some op, r) \<Rightarrow> map_option (Pair (handler (ro_id op))) (do_apis perform ctl (handler (ro_id op)) r)
      else map_option (Pair (handler a)) (do_apis perform ctl (handler a) r))"

definition operation_prepare :: "sched_op list \<Rightarrow> scheduler \<Rightarrow> scheduler" where
  "operation_prepare rest s =
     (let s = s\<lparr>sc_queue := rest\<rparr> in if rest \<noteq> [] \<and> \<not> one_thread s then wake_one_thread_and_unlock s else s)"

definition loop_operation :: "nat \<Rightarrow> 'k perform_fn \<Rightarrow> 'k ctl_fn \<Rightarrow> (nat \<Rightarrow> (bool \<times> api_call) list) \<Rightarrow> nat \<Rightarrow> sched_op list \<Rightarrow>
    'k epoll_reactor \<Rightarrow> ((bool \<times> api_call) list \<times> 'k epoll_reactor) option" where
  "loop_operation base perform ctl handler a rest r =
     (case complete_operation base perform ctl handler a (set_sched (map_prod (operation_prepare rest) id (sched_of r)) r) of
        None \<Rightarrow> None
      | Some (calls, r) \<Rightarrow>
          (case sched_of r of
             (s, None) \<Rightarrow> None
           | (s, Some th) \<Rightarrow> let (s, th) = work_cleanup (s, th) in Some (calls, set_sched (s, Some th) r)))"

text \<open>
  The steps of the loop as seen from one descriptor \<open>p\<close> on the socket \<open>fd\<close> while it is registered. Handlers and other
  threads may make any calls on this and on other sockets, except closing this one or opening another on the same
  descriptor; the history are the operations started on \<open>p\<close>. The addresses that epoll reports are those of descriptor
  states.
\<close>

fun allowed :: "nat \<Rightarrow> nat \<Rightarrow> int \<Rightarrow> api_call \<Rightarrow> bool" where
  "allowed base p fd (Api_start j fd' q op cont spec) \<longleftrightarrow> ro_id op < base \<and> ro_socket op = fd'
     \<and> (if q = p then fd' = fd \<and> j = op_dir op \<and> spec else fd' \<noteq> fd)"
| "allowed base p fd (Api_register fd') \<longleftrightarrow> fd' \<noteq> fd"
| "allowed base p fd (Api_close fd' q closing) \<longleftrightarrow> q \<noteq> p \<and> fd' \<noteq> fd"
| "allowed base p fd (Api_timer time t op) \<longleftrightarrow> wo_id op < base"
| "allowed base p fd (Api_post a cont) \<longleftrightarrow> a < base"
| "allowed base p fd c \<longleftrightarrow> True"

fun started_on :: "nat \<Rightarrow> api_call list \<Rightarrow> reactor_op list" where
  "started_on p [] = []"
| "started_on p (Api_start j fd q op cont spec # cs) = (if q = p then op # started_on p cs else started_on p cs)"
| "started_on p (c # cs) = started_on p cs"

lemma started_on_append [simp]: "started_on p (xs @ ys) = started_on p xs @ started_on p ys"
  by (induction p xs rule: started_on.induct) auto

inductive loop_step :: "nat \<Rightarrow> 'k perform_fn \<Rightarrow> 'k ctl_fn \<Rightarrow> 'k wait_fn \<Rightarrow> ('k \<Rightarrow> 'k \<Rightarrow> bool) \<Rightarrow> nat \<Rightarrow> int \<Rightarrow>
    'k epoll_reactor \<times> reactor_op list \<Rightarrow> 'k epoll_reactor \<times> reactor_op list \<Rightarrow> bool"
  for base :: nat and perform :: "'k perform_fn" and ctl :: "'k ctl_fn" and wait :: "'k wait_fn"
    and world :: "'k \<Rightarrow> 'k \<Rightarrow> bool" and p :: nat and fd :: int where
  task: "\<not> sc_stopped (fst (sched_of r)) \<Longrightarrow> sc_queue (fst (sched_of r)) = Task_operation # rest \<Longrightarrow>
    loop_task perform ctl wait now before after rest r = Some (descriptors, r') \<Longrightarrow> list_all (\<lambda>a. base \<le> a) descriptors \<Longrightarrow>
    list_all (allowed base p fd) (before @ after) \<Longrightarrow>
    loop_step base perform ctl wait world p fd (r, ops) (r', ops @ started_on p (before @ after))"
| operation: "\<not> sc_stopped (fst (sched_of r)) \<Longrightarrow> sc_queue (fst (sched_of r)) = Operation a # rest \<Longrightarrow>
    loop_operation base perform ctl handler a rest r = Some (calls, r') \<Longrightarrow> list_all (allowed base p fd) (map snd calls) \<Longrightarrow>
    loop_step base perform ctl wait world p fd (r, ops) (r', ops @ started_on p (map snd calls))"
| outside: "outside_api perform ctl c r = Some r' \<Longrightarrow> allowed base p fd c \<Longrightarrow>
    loop_step base perform ctl wait world p fd (r, ops) (r', ops @ started_on p [c])"
| world: "world (ep_sys r) k \<Longrightarrow> loop_step base perform ctl wait world p fd (r, ops) (r\<lparr>ep_sys := k\<rparr>, ops)"

section \<open>What the calls add to the queues\<close>

text \<open>
  The calls only append to the queues, and only operations: the descriptor states in the queue are those that the
  reactor has put there.
\<close>

fun below :: "nat \<Rightarrow> sched_op \<Rightarrow> bool" where
  "below base (Operation a) \<longleftrightarrow> a < base"
| "below base Task_operation \<longleftrightarrow> False"

fun ds_of :: "nat \<Rightarrow> sched_op list \<Rightarrow> nat list" where
  "ds_of base [] = []"
| "ds_of base (Operation a # q) = (if base \<le> a then a # ds_of base q else ds_of base q)"
| "ds_of base (Task_operation # q) = ds_of base q"

lemma ds_of_append [simp]: "ds_of base (xs @ ys) = ds_of base xs @ ds_of base ys"
  by (induction base xs rule: ds_of.induct) auto

lemma ds_of_below [simp]: "list_all (below base) xs \<Longrightarrow> ds_of base xs = []"
  by (induction base xs rule: ds_of.induct) auto

lemma ds_of_operations [simp]: "ds_of base (map Operation xs) = filter (\<lambda>a. base \<le> a) xs"
  by (induction xs) auto

lemma below_operations [simp]: "list_all (below base) (map Operation xs) \<longleftrightarrow> list_all (\<lambda>a. a < base) xs"
  by (induction xs) auto

definition appends :: "nat \<Rightarrow> scheduler \<times> thread_info option \<Rightarrow> scheduler \<times> thread_info option \<Rightarrow> bool" where
  "appends base st st' \<longleftrightarrow> (\<exists>xs ys. list_all (below base) (xs @ ys) \<and> sc_queue (fst st') = sc_queue (fst st) @ xs
     \<and> map_option private_op_queue (snd st') = map_option (\<lambda>th. private_op_queue th @ ys) (snd st))"

lemma appendsI:
  assumes "list_all (below base) xs" and "list_all (below base) ys" and "sc_queue s' = sc_queue s @ xs"
    and "map_option private_op_queue th' = map_option (\<lambda>th. private_op_queue th @ ys) th"
  shows "appends base (s, th) (s', th')"
  using assms unfolding appends_def by (intro exI [of _ xs] exI [of _ ys]) simp

lemma appends_refl: "appends base st st"
  by (cases st) (auto intro!: appendsI [of _ "[]" "[]"])

lemma appends_trans:
  assumes "appends base st st1" and "appends base st1 st2"
  shows "appends base st st2"
proof -
  obtain s th s1 th1 s2 th2 where st: "st = (s, th)" "st1 = (s1, th1)" "st2 = (s2, th2)" by (metis surj_pair)
  obtain xs ys where a: "list_all (below base) xs" "list_all (below base) ys" "sc_queue s1 = sc_queue s @ xs"
    "map_option private_op_queue th1 = map_option (\<lambda>th. private_op_queue th @ ys) th"
    using assms(1) st by (auto simp: appends_def)
  obtain xs' ys' where b: "list_all (below base) xs'" "list_all (below base) ys'" "sc_queue s2 = sc_queue s1 @ xs'"
    "map_option private_op_queue th2 = map_option (\<lambda>th. private_op_queue th @ ys') th1"
    using assms(2) st by (auto simp: appends_def)
  have "map_option private_op_queue th2 = map_option (\<lambda>th. private_op_queue th @ ys @ ys') th"
    using a(4) b(4) by (cases th; cases th1; cases th2) auto
  then show ?thesis unfolding st using a b by (intro appendsI [of _ "xs @ xs'" "ys @ ys'"]) auto
qed

lemma interrupt_task_queue [simp]: "sc_queue (interrupt_task s) = sc_queue s"
  by (simp add: interrupt_task_def)

lemma wake_queue [simp]: "sc_queue (wake_one_thread_and_unlock s) = sc_queue s"
  by (simp add: wake_one_thread_and_unlock_def maybe_unlock_and_signal_one_def)

lemma stop_queue [simp]: "sc_queue (sched_stop s) = sc_queue s"
  by (simp add: sched_stop_def stop_all_threads_def)

lemma started_queue [simp]: "sc_queue (work_started s) = sc_queue s"
  by (simp add: work_started_def)

lemma finished_queue [simp]: "sc_queue (work_finished s) = sc_queue s"
  by (simp add: work_finished_def Let_def)

lemma push_queue [simp]: "sc_queue (sched_push ops s) = sc_queue s @ ops"
  by (simp add: sched_push_def)

lemma appends_same:
  "sc_queue s' = sc_queue s \<Longrightarrow> map_option private_op_queue th' = map_option private_op_queue th \<Longrightarrow> appends base (s, th) (s', th')"
  by (rule appendsI [of _ "[]" "[]"]) simp_all

lemma appends_main:
  "list_all (below base) xs \<Longrightarrow> sc_queue s' = sc_queue s @ xs \<Longrightarrow> appends base (s, th) (s', th)"
  by (rule appendsI [of _ xs "[]"]) simp_all

lemma appends_private: "list_all (below base) xs \<Longrightarrow> appends base (s, Some th) (s, Some (private_push n xs th))"
  by (rule appendsI [of _ "[]" xs]) (simp_all add: private_push_def)

lemma appends_immediate: "a < base \<Longrightarrow> appends base st (post_immediate_completion a cont st)"
  by (cases st) (auto simp: post_immediate_completion_def intro!: appends_private appends_main [of _ "[Operation a]"] split: option.splits)

lemma appends_deferred: "list_all (\<lambda>a. a < base) as \<Longrightarrow> appends base st (post_deferred_completions as st)"
  by (cases st) (auto simp: post_deferred_completions_def Let_def intro!: appends_refl appends_private appends_main [of _ "map Operation as"]
    split: option.splits)

lemma appends_started: "appends base st (map_prod work_started id st)"
  by (cases st) (simp add: appends_same)

lemma appends_stop: "appends base st (map_prod sched_stop id st)"
  by (cases st) (simp add: appends_same)

lemma appends_compensating: "appends base st (compensating_work_started st)"
  by (cases st) (auto simp: compensating_work_started_def option.map_comp comp_def intro!: appends_same)

lemmas appends_posts = appends_immediate appends_deferred appends_started appends_stop appends_compensating appends_refl


section \<open>The operations held by the reactor\<close>

definition timers_below :: "nat \<Rightarrow> reactor \<Rightarrow> bool" where
  "timers_below base t \<longleftrightarrow> tq_ok (re_queue t) \<and> (\<forall>x. \<forall>op \<in> set (agenda_ops (agenda (re_queue t)) x). wo_id op < base)"

definition ids_ok :: "nat \<Rightarrow> 'k epoll_reactor \<Rightarrow> bool" where
  "ids_ok base r \<longleftrightarrow> timers_below base (ep_timers r) \<and> (\<forall>q j. \<forall>op \<in> set (ds_ops (ep_state r q) j). ro_id op < base)"

lemma timers_below_cong: "re_queue t' = re_queue t \<Longrightarrow> timers_below base t \<Longrightarrow> timers_below base t'"
  by (simp add: timers_below_def)

lemma schedule_timer_below:
  assumes "timers_below base t" and "wo_id op < base"
  shows "timers_below base (schedule_timer time x op t)" and "appends base (re_sched t) (re_sched (schedule_timer time x op t))"
proof -
  obtain earliest q where e: "enqueue_timer time x op (re_queue t) = (earliest, q)" by fastforce
  have q: "tq_ok q" "agenda q = agenda_enqueue time x op (agenda (re_queue t))"
    using assms(1) e atq.enqueue_inv [of "re_queue t" time x op] atq.enqueue_abs [of "re_queue t" time x op]
    by (simp_all add: timers_below_def)
  have "set (agenda_ops (agenda q) y) \<subseteq> insert op (set (agenda_ops (agenda (re_queue t)) y))" for y
    unfolding q(2) by (auto simp: agenda_ops_def agenda_enqueue_def split: option.splits)
  then have "wo_id op' < base" if "op' \<in> set (agenda_ops (agenda q) y)" for op' y
    using that assms unfolding timers_below_def by blast
  then show "timers_below base (schedule_timer time x op t)"
    using assms q(1) e by (auto simp: schedule_timer_def timers_below_def Let_def)
  show "appends base (re_sched t) (re_sched (schedule_timer time x op t))"
    using assms(2) e by (auto simp: schedule_timer_def Let_def intro: appends_posts)
qed

lemma cancel_timer_below:
  assumes "timers_below base t"
  shows "timers_below base (snd (reactor_cancel_timer x n t))" and "appends base (re_sched t) (re_sched (snd (reactor_cancel_timer x n t)))"
proof -
  let ?A = "agenda (re_queue t)"
  obtain q where c: "cancel_timer x n (re_queue t) [] = (min n (length (agenda_ops ?A x)), q,
      [] @ map (\<lambda>op. op\<lparr>wo_ec := Operation_aborted\<rparr>) (take n (agenda_ops ?A x)))"
    and q: "tq_ok q" "agenda q = agenda_set x (drop n (agenda_ops ?A x)) ?A"
    using assms atq.cancel_spec [of "re_queue t" x n "[]"] by (auto simp: timers_below_def)
  have below: "\<forall>op \<in> set (agenda_ops ?A y). wo_id op < base" for y using assms by (simp add: timers_below_def)
  have "set (agenda_ops (agenda q) y) \<subseteq> set (agenda_ops ?A y)" for y
    unfolding q(2) by (auto simp: agenda_ops_def agenda_set_def split: option.splits if_splits dest: in_set_dropD)
  then show "timers_below base (snd (reactor_cancel_timer x n t))"
    using c q below by (auto simp: reactor_cancel_timer_def timers_below_def)
  have "list_all (\<lambda>a. a < base) (map wo_id (map (\<lambda>op. op\<lparr>wo_ec := Operation_aborted\<rparr>) (take n (agenda_ops ?A x))))"
    using below [of x] by (auto simp: list_all_iff dest: in_set_takeD)
  then show "appends base (re_sched t) (re_sched (snd (reactor_cancel_timer x n t)))"
    using c by (simp add: reactor_cancel_timer_def appends_deferred del: map_map)
qed

lemma ready_timers_below:
  assumes "timers_below base t" and "get_ready_timers now (re_queue t) [] = Some (q, fired)"
  shows "timers_below base (t\<lparr>re_queue := q\<rparr>)" and "list_all (\<lambda>a. a < base) (map wo_id fired)"
proof -
  let ?A = "agenda (re_queue t)"
  obtain ts where f: "fired = ready_ops ?A ts" and q: "tq_ok q" "agenda q = agenda_after now ?A"
    using assms atq.ready_spec [of "re_queue t" now "[]"] by (auto simp: timers_below_def)
  have below: "\<forall>op \<in> set (agenda_ops ?A y). wo_id op < base" for y using assms by (simp add: timers_below_def)
  have "set (agenda_ops (agenda q) y) \<subseteq> set (agenda_ops ?A y)" for y
    unfolding q(2) by (auto simp: agenda_ops_def agenda_after_def split: option.splits if_splits)
  then show "timers_below base (t\<lparr>re_queue := q\<rparr>)" using q below by (auto simp: timers_below_def)
  show "list_all (\<lambda>a. a < base) (map wo_id fired)"
    using below unfolding f by (auto simp: list_all_iff ready_ops_def)
qed


text \<open>
  The effect of a step on what the reactor holds and on the queues: the states of the descriptors keep to the
  addresses below \<open>base\<close>, and the operations posted have such addresses.
\<close>

lemma ids_ok_state:
  assumes "ids_ok base r" and "ep_state r' = (ep_state r)(q := d)" and "re_queue (ep_timers r') = re_queue (ep_timers r)"
    and "\<And>j op. op \<in> set (ds_ops d j) \<Longrightarrow> ro_id op < base"
  shows "ids_ok base r'"
  using assms timers_below_cong [of "ep_timers r'" "ep_timers r" base] by (auto simp: ids_ok_def)

lemma ids_ok_ops: "ids_ok base r \<Longrightarrow> op \<in> set (ds_ops (ep_state r q) j) \<Longrightarrow> ro_id op < base"
  by (auto simp: ids_ok_def)

lemma cancel_on_ids:
  assumes "ids_ok base r" and "cancel_on (ep_state r q) = (new, d)"
  shows "list_all (\<lambda>a. a < base) (map ro_id new)" and "ds_ops d j = []"
  using assms by (auto simp: cancel_on_def aborted_def list_all_iff ids_ok_def)

lemma cancel_key_on_ids:
  assumes "ids_ok base r" and "cancel_key_on i key (ep_state r q) = (new, d)"
  shows "list_all (\<lambda>a. a < base) (map ro_id new)" and "op \<in> set (ds_ops d j) \<Longrightarrow> ro_id op < base"
  using assms by (auto simp: cancel_key_on_def aborted_def list_all_iff ids_ok_def split: if_splits)

lemma post_ops_facts:
  "ep_state (post_ops ops r) = ep_state r" "re_queue (ep_timers (post_ops ops r)) = re_queue (ep_timers r)"
  "re_sched (ep_timers (post_ops ops r)) = post_deferred_completions (map ro_id ops) (sched_of r)"
  by (simp_all add: post_ops_def Let_def)

lemma cancel_ops_ids:
  assumes "ids_ok base r"
  shows "ids_ok base (cancel_ops (Some q) r) \<and> appends base (sched_of r) (sched_of (cancel_ops (Some q) r))"
proof -
  obtain new d where c: "cancel_on (ep_state r q) = (new, d)" by fastforce
  note i = cancel_on_ids [OF assms c]
  have "ids_ok base (cancel_ops (Some q) r)"
    by (rule ids_ok_state [OF assms, of _ q d]) (use c i in \<open>simp_all add: cancel_ops_def post_ops_facts\<close>)
  then show ?thesis using c i by (simp add: cancel_ops_def post_ops_facts appends_deferred)
qed

lemma cancel_ops_by_key_ids:
  assumes "ids_ok base r"
  shows "ids_ok base (cancel_ops_by_key (Some q) j key r) \<and> appends base (sched_of r) (sched_of (cancel_ops_by_key (Some q) j key r))"
proof -
  obtain new d where c: "cancel_key_on j key (ep_state r q) = (new, d)" by fastforce
  note i = cancel_key_on_ids [OF assms c]
  have "ids_ok base (cancel_ops_by_key (Some q) j key r)"
    by (rule ids_ok_state [OF assms, of _ q d]) (use c i in \<open>simp_all add: cancel_ops_by_key_def post_ops_facts\<close>)
  then show ?thesis using c i by (simp add: cancel_ops_by_key_def post_ops_facts appends_deferred)
qed

lemma register_ids:
  assumes "ids_ok base r" and "register_descriptor ctl fd r = (err, q, r')"
  shows "ids_ok base r' \<and> sched_of r' = sched_of r"
proof -
  obtain r1 where a: "pool_alloc r = (q, r1)" using assms(2) by (auto simp: register_descriptor_def Let_def split: prod.splits if_splits)
  have r1: "ids_ok base r1" "ep_timers r1 = ep_timers r" using a assms(1)
    by (auto simp: pool_alloc_def ids_ok_def descriptor_state_new_def Let_def split: list.splits if_splits)
  obtain d where d: "ep_state r' = (ep_state r1)(q := d)" "ds_ops d = ds_ops (ep_state r1 q)" "ep_timers r' = ep_timers r1"
    using assms(2) a by (auto simp: register_descriptor_def Let_def split: if_splits prod.splits)
  then show ?thesis using ids_ok_state [OF r1(1) d(1)] ids_ok_ops [OF r1(1)] r1(2) by simp
qed

lemma close_ids:
  assumes "ids_ok base r" and "deregister_descriptor ctl fd (Some q) closing r = (data, r1)"
    and "cleanup_descriptor_data data r1 = (data', r')"
  shows "ids_ok base r' \<and> appends base (sched_of r) (sched_of r')"
proof (cases "ds_shutdown (ep_state r q)")
  case True
  then show ?thesis using assms by (auto simp: deregister_descriptor_def cleanup_descriptor_data_def appends_refl)
next
  case False
  obtain new d where c: "cancel_on (ep_state r q) = (new, d)" by fastforce
  note i = cancel_on_ids [OF assms(1) c]
  have r': "ep_state r' = (ep_state r)(q := d\<lparr>ds_descriptor := - 1, ds_shutdown := True\<rparr>)"
    "re_queue (ep_timers r') = re_queue (ep_timers r)" "sched_of r' = post_deferred_completions (map ro_id new) (sched_of r)"
    using assms(2,3) False c
    by (auto simp: deregister_descriptor_def cleanup_descriptor_data_def pool_free_def post_ops_facts Let_def)
  show ?thesis using ids_ok_state [OF assms(1) r'(1,2)] i r'(3) by (simp add: appends_deferred)
qed


section \<open>The loop refines the reactor\<close>

text \<open>
  Between the steps of the loop the private queue of the thread is empty, and the task is queued once, before everything
  but operations: the descriptor states that it has handed out are in front of it, each once.
\<close>

definition sched_ok :: "nat \<Rightarrow> scheduler \<times> thread_info option \<Rightarrow> bool" where
  "sched_ok base st \<longleftrightarrow> map_option private_op_queue (snd st) = Some []
     \<and> (\<exists>xs ys. sc_queue (fst st) = xs @ Task_operation # ys \<and> Task_operation \<notin> set xs
        \<and> list_all (below base) ys \<and> distinct (ds_of base xs))"

definition loop_ok :: "nat \<Rightarrow> 'k epoll_reactor \<Rightarrow> bool" where
  "loop_ok base r \<longleftrightarrow> ids_ok base r \<and> sched_ok base (sched_of r)"

abbreviation queued_states :: "nat \<Rightarrow> 'k epoll_reactor \<Rightarrow> nat list" where
  "queued_states base r \<equiv> ds_of base (sc_queue (fst (sched_of r)))"

lemma sched_of_set [simp]: "sched_of (set_sched st r) = st"
  by (simp add: set_sched_def)

lemma ids_ok_set [simp]: "ids_ok base (set_sched st r) \<longleftrightarrow> ids_ok base r"
  by (simp add: set_sched_def ids_ok_def timers_below_def)

lemma step_set_sched: "reactor_step perform ctl wait world p fd (r, enq, ops) (set_sched st r, enq, ops)"
  unfolding set_sched_def by (rule reactor_step.timers)

lemma sched_okI:
  assumes "sc_queue s = xs @ Task_operation # ys" and "Task_operation \<notin> set xs" and "list_all (below base) ys"
    and "distinct (ds_of base xs)" and "map_option private_op_queue th = Some []"
  shows "sched_ok base (s, th)"
  using assms unfolding sched_ok_def by (intro conjI exI [of _ xs] exI [of _ ys]) simp_all

lemma sched_ok_append:
  assumes "sched_ok base (s, th)" and "sc_queue s' = sc_queue s @ zs" and "list_all (below base) zs"
    and "map_option private_op_queue th' = Some []"
  shows "sched_ok base (s', th') \<and> ds_of base (sc_queue s') = ds_of base (sc_queue s)"
proof -
  obtain xs ys where q: "sc_queue s = xs @ Task_operation # ys" "Task_operation \<notin> set xs" "list_all (below base) ys" "distinct (ds_of base xs)"
    using assms(1) by (auto simp: sched_ok_def)
  then have "sc_queue s' = xs @ Task_operation # (ys @ zs)" "list_all (below base) (ys @ zs)" using assms(2,3) by simp_all
  then show ?thesis using sched_okI [OF _ q(2) _ q(4) assms(4)] q(1) assms(2,3) by simp
qed

lemma sched_ok_pop:
  assumes "sched_ok base (s, th)" and "sc_queue s = Operation a # rest" and "sc_queue s' = rest"
  shows "sched_ok base (s', th)"
proof -
  obtain xs ys where q: "sc_queue s = xs @ Task_operation # ys" "Task_operation \<notin> set xs" "list_all (below base) ys" "distinct (ds_of base xs)"
    using assms(1) by (auto simp: sched_ok_def)
  then obtain xs' where "xs = Operation a # xs'" using assms(2) by (cases xs) auto
  then show ?thesis using assms q by (auto simp: sched_ok_def split: if_splits)
qed

lemma work_cleanup_queue:
  "work_cleanup (s, th) = (s', th') \<Longrightarrow> sc_queue s' = sc_queue s @ private_op_queue th \<and> private_op_queue th' = []"
  by (auto simp: work_cleanup_def Let_def split: if_splits)

lemma task_cleanup_queue:
  "task_cleanup (s, th) = (s', th') \<Longrightarrow> sc_queue s' = sc_queue s @ private_op_queue th @ [Task_operation] \<and> private_op_queue th' = []"
  by (auto simp: task_cleanup_def Let_def split: if_splits)

context edge_triggered
begin

lemma reactor_run_ids:
  assumes "ids_ok base r" and "reactor_run wait now usec r = Some (descriptors, timers, r')"
  shows "ids_ok base r' \<and> sched_of r' = sched_of r \<and> list_all (\<lambda>a. a < base) timers \<and> distinct descriptors"
proof -
  obtain evs k where w: "wait (wait_timeout now usec r) (ep_sys r) = (evs, k)" by fastforce
  obtain b st where f: "fold (dispatch_event (ep_has_timer_fd r)) evs (\<not> ep_has_timer_fd r, [], ep_state r) = (b, descriptors, st)"
    using assms(2) w by (auto simp: reactor_run_def Let_def split: if_splits option.splits prod.splits)
  note d = dispatch_events [OF f distinct.simps(1) [THEN iffD2, OF TrueI]]
  have "ds_ops (st q) = ds_ops (ep_state r q)" for q using d by (metis descriptor_state.select_convs(3) descriptor_state.update_convs(6) descriptor_state.surjective)
  then have st: "\<forall>q j. \<forall>op \<in> set (ds_ops (st q) j). ro_id op < base" using assms(1) by (simp add: ids_ok_def)
  show ?thesis
  proof (cases b)
    case True
    then obtain q fired where g: "get_ready_timers now (re_queue (ep_timers r)) [] = Some (q, fired)" and t: "timers = map wo_id fired"
      using assms(2) w f by (auto simp: reactor_run_def Let_def split: option.splits)
    have "timers_below base (ep_timers r)" using assms(1) by (simp add: ids_ok_def)
    note g' = ready_timers_below [OF this g]
    have "re_queue (ep_timers r') = q" "sched_of r' = sched_of r" "ep_state r' = st"
      using assms(2) w f True g by (auto simp: reactor_run_def Let_def)
    then show ?thesis using g' t st d by (simp add: ids_ok_def timers_below_def)
  next
    case False
    then show ?thesis using assms w f st d by (auto simp: reactor_run_def ids_ok_def)
  qed
qed

lemma start_op_ids:
  assumes "ids_ok base r" and "ro_id op < base" and "reactor_start_op perform ctl j fd (Some q) op cont spec r = Some r'"
  shows "ids_ok base r' \<and> appends base (sched_of r) (sched_of r')"
proof -
  obtain res d k where s: "start_on perform ctl j fd q op spec (ep_state r q, ep_sys r) = Some (res, d, k)"
    using start_op_cases [OF assms(3)] by blast
  have "fd + 1 \<noteq> fd" by simp
  note tags = start_on_others(2,3) [OF s this]
  have d: "ro_id x < base" if "x \<in> set (ds_ops d i)" for x i
    using tags(2) [rule_format, OF that] assms(2) ids_ok_ops [OF assms(1), of x q i] by (auto simp: op_tag_def)
  have r': "ep_state r' = (ep_state r)(q := d)" "re_queue (ep_timers r') = re_queue (ep_timers r)"
    using assms(3) s by (auto simp: reactor_start_op_def on_immediate_def reactor_work_started_def Let_def split: started.splits)
  have "ids_ok base r'" by (rule ids_ok_state [OF assms(1) r']) (rule d)
  moreover have "appends base (sched_of r) (sched_of r')"
  proof (cases res)
    case (Immediate op')
    then have "ro_id op' < base" using tags(1) assms(2) by (simp add: new_posted_def op_tag_def)
    then show ?thesis using assms(3) s Immediate by (auto simp: reactor_start_op_def on_immediate_def Let_def intro!: appends_immediate)
  next
    case Queued
    then show ?thesis using assms(3) s by (auto simp: reactor_start_op_def reactor_work_started_def Let_def intro!: appends_started)
  qed
  ultimately show ?thesis by simp
qed

lemma perform_io_ids:
  assumes "ids_ok base r" and "perform_io perform q r = Some (first, r')"
  shows "ids_ok base r' \<and> appends base (sched_of r) (sched_of r')"
proof -
  obtain new d k where s: "perform_dirs perform (ds_task_result (ep_state r q)) [except_op, write_op, read_op] (ep_state r q, ep_sys r)
      = Some (new, d, k)"
    using assms(2) by (auto simp: perform_io_def split: option.splits)
  have r': "r' = perform_io_cleanup new (r\<lparr>ep_state := (ep_state r)(q := d), ep_sys := k\<rparr>)"
    using assms(2) s by (simp add: perform_io_def del: perform_dirs.simps)
  note o = perform_dirs_others [OF s]
  have tag: "ro_id x < base" if "op_tag x \<in> op_tag ` set (ds_ops (ep_state r q) i)" for x i
    using that assms(1) by (auto simp: op_tag_def ids_ok_def)
  have d: "ro_id x < base" if "x \<in> set (ds_ops d i)" for x i using o that tag by blast
  have new: "ro_id x < base" if "x \<in> set new" for x using o that tag by blast
  have "ep_state r' = (ep_state r)(q := d)" "re_queue (ep_timers r') = re_queue (ep_timers r)"
    by (auto simp: r' perform_io_cleanup_def post_ops_facts Let_def split: list.splits)
  then have "ids_ok base r'" by (rule ids_ok_state [OF assms(1)]) (rule d)
  moreover have "appends base (sched_of r) (sched_of r')"
    using new by (auto simp: r' perform_io_cleanup_def post_ops_facts Let_def list_all_iff intro!: appends_compensating appends_deferred split: list.splits)
  ultimately show ?thesis by simp
qed

text \<open>A call of a handler is a step of the reactor.\<close>

lemma do_api_step:
  assumes "do_api perform ctl c r = Some r'" and "allowed base p fd c"
  shows "(reactor_step perform ctl wait world p fd)\<^sup>*\<^sup>* (r, enq, ops) (r', enq, ops @ started_on p [c])"
proof (rule r_into_rtranclp, cases c)
  case (Api_start j fd' q op cont spec)
  then show "reactor_step perform ctl wait world p fd (r, enq, ops) (r', enq, ops @ started_on p [c])"
    using assms by (auto intro: reactor_step.start reactor_step.start_other split: if_splits)
next
  case (Api_register fd')
  then show "reactor_step perform ctl wait world p fd (r, enq, ops) (r', enq, ops @ started_on p [c])"
    using assms by (auto intro!: reactor_step.register prod_eqI)
next
  case (Api_close fd' q closing)
  obtain data r1 data' r2 where d: "deregister_descriptor ctl fd' (Some q) closing r = (data, r1)"
    and e: "cleanup_descriptor_data data r1 = (data', r2)" by fastforce
  then show "reactor_step perform ctl wait world p fd (r, enq, ops) (r', enq, ops @ started_on p [c])"
    using assms Api_close reactor_step.close [OF d e] by simp
qed (use assms in \<open>auto simp: set_sched_def intro: reactor_step.intros\<close>)

lemma do_api_ids:
  assumes "do_api perform ctl c r = Some r'" and "allowed base p fd c" and "ids_ok base r"
  shows "ids_ok base r' \<and> appends base (sched_of r) (sched_of r')"
proof (cases c)
  case (Api_start j fd' q op cont spec)
  then show ?thesis using assms start_op_ids by auto
next
  case (Api_cancel q)
  then show ?thesis using assms(1) cancel_ops_ids [OF assms(3), of q] by auto
next
  case (Api_cancel_key q j key)
  then show ?thesis using assms(1) cancel_ops_by_key_ids [OF assms(3), of q j key] by auto
next
  case (Api_register fd')
  obtain err q r1 where "register_descriptor ctl fd' r = (err, q, r1)" by (metis surj_pair)
  then show ?thesis using assms(1) Api_register register_ids [OF assms(3), of ctl fd' err q r1] by (auto simp: appends_refl)
next
  case (Api_close fd' q closing)
  obtain data r1 data' r2 where d: "deregister_descriptor ctl fd' (Some q) closing r = (data, r1)"
    and e: "cleanup_descriptor_data data r1 = (data', r2)" by fastforce
  then show ?thesis using assms(1) Api_close close_ids [OF assms(3) d e] by simp
next
  case (Api_timer time t op)
  then show ?thesis using assms schedule_timer_below [of base "ep_timers r" op time t] by (auto simp: ids_ok_def)
next
  case (Api_timer_cancel t n)
  then show ?thesis using assms cancel_timer_below [of base "ep_timers r" t n] by (auto simp: ids_ok_def)
qed (use assms timers_below_cong in \<open>auto simp: ids_ok_def set_sched_def timers_below_def intro: appends_posts\<close>)

lemma outside_api_refine:
  assumes "outside_api perform ctl c r = Some r'" and "allowed base p fd c" and "ids_ok base r"
  shows "ids_ok base r' \<and> appends base (sched_of r) (sched_of r')
    \<and> (reactor_step perform ctl wait world p fd)\<^sup>*\<^sup>* (r, enq, ops) (r', enq, ops @ started_on p [c])"
proof -
  obtain s th where st: "sched_of r = (s, th)" by fastforce
  obtain r2 where c: "do_api perform ctl c (set_sched (s, None) r) = Some r2" and r': "r' = set_sched (fst (sched_of r2), th) r2"
    using assms(1) st by (auto simp: outside_api_def)
  have i: "ids_ok base r2 \<and> appends base (s, None) (sched_of r2)" using do_api_ids [OF c assms(2)] assms(3) by simp
  then obtain xs where "list_all (below base) xs" "sc_queue (fst (sched_of r2)) = sc_queue s @ xs" by (auto simp: appends_def)
  then have "appends base (s, th) (sched_of r')" unfolding r' sched_of_set by (rule appends_main)
  moreover have "(reactor_step perform ctl wait world p fd)\<^sup>*\<^sup>* (r, enq, ops) (r', enq, ops @ started_on p [c])"
    unfolding r' using do_api_step [OF c assms(2)]
    by (meson step_set_sched converse_rtranclp_into_rtranclp rtranclp.rtrancl_into_rtrancl)
  ultimately show ?thesis using i st r' by simp
qed

lemma do_apis_refine:
  assumes "do_apis perform ctl cs r = Some r'" and "list_all (allowed base p fd) (map snd cs)" and "ids_ok base r"
  shows "ids_ok base r' \<and> appends base (sched_of r) (sched_of r')
    \<and> (reactor_step perform ctl wait world p fd)\<^sup>*\<^sup>* (r, enq, ops) (r', enq, ops @ started_on p (map snd cs))"
  using assms
proof (induction cs arbitrary: r ops)
  case Nil
  then show ?case by (simp add: appends_refl)
next
  case (Cons oc cs)
  obtain own c where oc: "oc = (own, c)" by fastforce
  obtain r1 where one: "(if own then do_api perform ctl c r else outside_api perform ctl c r) = Some r1"
    and rest: "do_apis perform ctl cs r1 = Some r'"
    using Cons.prems(1) oc by (auto split: option.splits if_splits)
  have c: "allowed base p fd c" "list_all (allowed base p fd) (map snd cs)" using Cons.prems(2) oc by simp_all
  have i: "ids_ok base r1 \<and> appends base (sched_of r) (sched_of r1)
      \<and> (reactor_step perform ctl wait world p fd)\<^sup>*\<^sup>* (r, enq, ops) (r1, enq, ops @ started_on p [c])"
    using one do_api_ids [OF _ c(1) Cons.prems(3)] do_api_step [OF _ c(1)] outside_api_refine [OF _ c(1) Cons.prems(3)]
    by (auto split: if_splits)
  note ih = Cons.IH [OF rest c(2) i [THEN conjunct1], of "ops @ started_on p [c]"]
  have "started_on p (map snd (oc # cs)) = started_on p [c] @ started_on p (map snd cs)"
    using started_on_append [of p "[c]" "map snd cs"] oc by simp
  then show ?case using i ih appends_trans [of base "sched_of r" "sched_of r1"] by (auto intro: rtranclp_trans)
qed

lemma loop_task_refines:
  assumes "loop_ok base r" and "sc_queue (fst (sched_of r)) = Task_operation # rest"
    and "loop_task perform ctl wait now before after rest r = Some (descriptors, r')" and "list_all (\<lambda>a. base \<le> a) descriptors"
    and "list_all (allowed base p fd) (before @ after)"
  shows "loop_ok base r' \<and> (reactor_step perform ctl wait world p fd)\<^sup>*\<^sup>*
    (r, queued_states base r, ops) (r', queued_states base r', ops @ started_on p (before @ after))"
proof -
  let ?step = "reactor_step perform ctl wait world p fd"
  obtain s th where st: "sched_of r = (s, Some th)" "private_op_queue th = []"
    using assms(1) by (cases "sched_of r") (auto simp: loop_ok_def sched_ok_def)
  have rest: "list_all (below base) rest"
    using assms(1,2) st by (auto simp: loop_ok_def sched_ok_def Cons_eq_append_conv)
  define r0 where "r0 = set_sched (task_prepare rest s, Some th) r"
  obtain r1 usec timers r2 r3 s4 th4 where b: "do_apis perform ctl (map (Pair False) before) r0 = Some r1"
    and run: "reactor_run wait now usec r1 = Some (descriptors, timers, r2)"
    and a: "do_apis perform ctl (map (Pair False) after) r2 = Some r3"
    and cleanup: "task_cleanup (fst (sched_of r3), th\<lparr>private_op_queue := map Operation (descriptors @ timers)\<rparr>) = (s4, th4)"
    and r': "r' = set_sched (s4, Some th4) r3"
    using assms(3) st unfolding loop_task_def r0_def by (auto simp: Let_def split: option.splits prod.splits)
  have al: "list_all (allowed base p fd) (map snd (map (Pair False) before))" "list_all (allowed base p fd) (map snd (map (Pair False) after))"
    using assms(5) by (simp_all add: comp_def)
  have r0: "ids_ok base r0" "sc_queue (fst (sched_of r0)) = rest" using assms(1) by (simp_all add: r0_def loop_ok_def task_prepare_def Let_def)
  note i1 = do_apis_refine [OF b al(1) r0(1), of "[]" ops]
  note i2 = reactor_run_ids [OF i1 [THEN conjunct1] run]
  note i3 = do_apis_refine [OF a al(2) i2 [THEN conjunct1], of descriptors "ops @ started_on p before"]
  have "appends base (sched_of r0) (sched_of r3)" using i1 i2 i3 appends_trans [of base "sched_of r0" "sched_of r1"] by simp
  then obtain xs where xs: "list_all (below base) xs" "sc_queue (fst (sched_of r3)) = rest @ xs"
    using r0(2) by (auto simp: appends_def)
  have t: "filter (\<lambda>a. base \<le> a) timers = []" "filter (\<lambda>a. base \<le> a) descriptors = descriptors"
    using i2 assms(4) by (auto simp: filter_empty_conv filter_id_conv list_all_iff)
  let ?q = "rest @ xs @ map Operation (descriptors @ timers)"
  have q: "sc_queue s4 = ?q @ [Task_operation]" "private_op_queue th4 = []"
    using task_cleanup_queue [OF cleanup] xs by simp_all
  have "Task_operation \<notin> set ?q" using rest xs by (auto simp: list_all_iff)
  moreover have "ds_of base ?q = descriptors" using rest xs t by simp
  ultimately have "sched_ok base (s4, Some th4)" and qs: "queued_states base r' = descriptors"
    using i2 q r' by (auto intro!: sched_okI [of _ ?q "[]"] simp del: append_assoc)
  then have ok: "loop_ok base r'" using i3 r' by (simp add: loop_ok_def)
  have "?step (r, [], ops) (r0, [], ops)" "?step (r1, [], ops @ started_on p before) (r2, descriptors, ops @ started_on p before)"
    "?step (r3, descriptors, ops @ started_on p (before @ after)) (r', descriptors, ops @ started_on p (before @ after))"
    unfolding r0_def r' by (rule step_set_sched reactor_step.run [OF run])+
  then have "?step\<^sup>*\<^sup>* (r, [], ops) (r', descriptors, ops @ started_on p (before @ after))"
    using i1 i3 by (auto simp: comp_def intro: rtranclp_trans converse_rtranclp_into_rtranclp rtranclp.rtrancl_into_rtrancl)
  moreover have "queued_states base r = []" using assms(2) rest by simp
  ultimately show ?thesis using ok qs by simp
qed

lemma complete_operation_refines:
  assumes "ids_ok base r" and "complete_operation base perform ctl handler a r = Some (calls, r')"
    and "list_all (allowed base p fd) (map snd calls)"
  shows "ids_ok base r' \<and> appends base (sched_of r) (sched_of r') \<and> (reactor_step perform ctl wait world p fd)\<^sup>*\<^sup>*
    (r, ds_of base (Operation a # rest), ops) (r', ds_of base rest, ops @ started_on p (map snd calls))"
proof (cases "base \<le> a")
  case True
  then obtain first r1 where io: "perform_io perform a r = Some (first, r1)"
    using assms(2) by (auto simp: complete_operation_def split: option.splits)
  note i = perform_io_ids [OF assms(1) io]
  have step: "reactor_step perform ctl wait world p fd (r, ds_of base (Operation a # rest), ops) (r1, ds_of base rest, ops)"
    using reactor_step.perform [OF io, of "ds_of base (Operation a # rest)"] True by simp
  have "do_apis perform ctl calls r1 = Some r'"
    using assms(2) True io by (auto simp: complete_operation_def split: option.splits)
  note c = do_apis_refine [OF this assms(3) i [THEN conjunct1], of "ds_of base rest" ops]
  show ?thesis using c i appends_trans converse_rtranclp_into_rtranclp [of "reactor_step perform ctl wait world p fd", OF step] by blast
next
  case False
  then have "do_apis perform ctl calls r = Some r'" using assms(2) by (auto simp: complete_operation_def)
  from do_apis_refine [OF this assms(3,1), of "ds_of base rest" ops] show ?thesis using False by simp
qed

lemma loop_operation_refines:
  assumes "loop_ok base r" and "sc_queue (fst (sched_of r)) = Operation a # rest"
    and "loop_operation base perform ctl handler a rest r = Some (calls, r')" and "list_all (allowed base p fd) (map snd calls)"
  shows "loop_ok base r' \<and> (reactor_step perform ctl wait world p fd)\<^sup>*\<^sup>*
    (r, queued_states base r, ops) (r', queued_states base r', ops @ started_on p (map snd calls))"
proof -
  obtain s th where st: "sched_of r = (s, Some th)" "private_op_queue th = []"
    using assms(1) by (cases "sched_of r") (auto simp: loop_ok_def sched_ok_def)
  define s1 where "s1 = operation_prepare rest s"
  obtain r2 s2 th2 s3 th3 where complete: "complete_operation base perform ctl handler a (set_sched (s1, Some th) r) = Some (calls, r2)"
    and s2: "sched_of r2 = (s2, Some th2)" and cleanup: "work_cleanup (s2, th2) = (s3, th3)"
    and r': "r' = set_sched (s3, Some th3) r2"
    using assms(3) st(1) unfolding loop_operation_def s1_def by (auto split: option.splits prod.splits)
  have s1: "sc_queue s1 = rest" by (simp add: s1_def operation_prepare_def Let_def)
  have "ids_ok base (set_sched (s1, Some th) r)" using assms(1) by (simp add: loop_ok_def)
  note c = complete_operation_refines [OF this complete assms(4), of rest ops]
  obtain xs ys where a: "list_all (below base) (xs @ ys)" "sc_queue s2 = rest @ xs" "private_op_queue th2 = ys"
    using c s2 s1 st(2) by (auto simp: appends_def)
  have q: "sc_queue s3 = sc_queue s1 @ xs @ ys" "private_op_queue th3 = []"
    using work_cleanup_queue [OF cleanup] a s1 by simp_all
  have "sched_ok base (s1, Some th)" using assms(1,2) st s1 sched_ok_pop [of base s "Some th" a rest s1] by (simp add: loop_ok_def)
  from sched_ok_append [OF this q(1) a(1), of "Some th3"] q
  have "sched_ok base (s3, Some th3)" "queued_states base r' = ds_of base rest" using s1 r' by simp_all
  moreover have "(reactor_step perform ctl wait world p fd)\<^sup>*\<^sup>*
      (r, ds_of base (Operation a # rest), ops) (r', ds_of base rest, ops @ started_on p (map snd calls))"
    unfolding r' using c by (meson step_set_sched converse_rtranclp_into_rtranclp rtranclp.rtrancl_into_rtrancl)
  ultimately show ?thesis using c r' assms(2) by (simp add: loop_ok_def)
qed

lemma outside_api_refines:
  assumes "loop_ok base r" and "outside_api perform ctl c r = Some r'" and "allowed base p fd c"
  shows "loop_ok base r' \<and> (reactor_step perform ctl wait world p fd)\<^sup>*\<^sup>*
    (r, queued_states base r, ops) (r', queued_states base r', ops @ started_on p [c])"
proof -
  obtain s th where st: "sched_of r = (s, th)" by fastforce
  have ok: "ids_ok base r" "sched_ok base (s, th)" "map_option private_op_queue th = Some []"
    using assms(1) st by (auto simp: loop_ok_def sched_ok_def)
  note i = outside_api_refine [OF assms(2,3) ok(1), of "queued_states base r" ops]
  obtain s' where s': "sched_of r' = (s', th)" using assms(2) st by (auto simp: outside_api_def)
  obtain xs where "list_all (below base) xs" "sc_queue s' = sc_queue s @ xs" using i st s' by (auto simp: appends_def)
  from sched_ok_append [OF ok(2) this(2,1) ok(3)] show ?thesis using i s' st by (simp add: loop_ok_def)
qed

lemma loop_step_refines:
  assumes "loop_step base perform ctl wait world p fd (r, ops) (r', ops')" and "loop_ok base r"
  shows "loop_ok base r'
    \<and> (reactor_step perform ctl wait world p fd)\<^sup>*\<^sup>* (r, queued_states base r, ops) (r', queued_states base r', ops')"
  using assms(1)
proof (cases rule: loop_step.cases)
  case (task rest now before after descriptors)
  then show ?thesis using loop_task_refines [OF assms(2)] by blast
next
  case (operation a rest handler calls)
  then show ?thesis using loop_operation_refines [OF assms(2)] by blast
next
  case (outside c)
  then show ?thesis using outside_api_refines [OF assms(2)] by blast
next
  case (world k)
  then have "reactor_step perform ctl wait world p fd (r, queued_states base r, ops) (r', queued_states base r', ops')"
    using reactor_step.world [of world r k perform ctl wait p fd "queued_states base r" ops] by simp
  then show ?thesis using assms(2) world by (auto simp: loop_ok_def ids_ok_def)
qed

lemma loop_run_refines:
  assumes "(loop_step base perform ctl wait world p fd)\<^sup>*\<^sup>* (r, ops) (r', ops')" and "loop_ok base r"
  shows "loop_ok base r'
    \<and> (reactor_step perform ctl wait world p fd)\<^sup>*\<^sup>* (r, queued_states base r, ops) (r', queued_states base r', ops')"
  using assms
proof (induction "(r', ops')" arbitrary: r' ops' rule: rtranclp_induct)
  case (step y)
  obtain r1 ops1 where y: "y = (r1, ops1)" by fastforce
  show ?case using step y loop_step_refines [of base p fd r1 ops1 r' ops'] by (auto intro: rtranclp_trans)
qed simp

end


section \<open>The loop goes on\<close>

lemma appends_thread: "appends base (s, Some th) st \<Longrightarrow> \<exists>s' th'. st = (s', Some th')"
  by (cases st) (auto simp: appends_def)

lemma loop_thread: "loop_ok base r \<Longrightarrow> \<exists>s th. sched_of r = (s, Some th)"
  by (cases "sched_of r") (auto simp: loop_ok_def sched_ok_def)

lemma reactor_run_returns: "ids_ok base r \<Longrightarrow> reactor_run wait now usec r \<noteq> None"
  using atq.ready_spec [of "re_queue (ep_timers r)" now "[]"]
  by (auto simp: reactor_run_def ids_ok_def timers_below_def Let_def split: prod.splits)

context socket_system
begin

lemmas system_step_refines = loop_step_refines

lemma do_api_returns: "do_api (do_perform sys) ctl c r \<noteq> None"
proof (cases c)
  case (Api_start j fd q op cont spec)
  then show ?thesis using start_on_returns [of j fd q op spec "ep_state r q" "ep_sys r"]
    by (auto simp: reactor_start_op_def Let_def split: option.splits)
qed (auto split: prod.splits)

lemma do_apis_returns: "\<exists>r'. do_apis (do_perform sys) ctl cs r = Some r'"
proof (induction cs arbitrary: r)
  case (Cons oc cs)
  obtain own c where oc: "oc = (own, c)" by fastforce
  have "\<exists>r'. outside_api (do_perform sys) ctl c r = Some r'"
    using do_api_returns [of c "set_sched (fst (sched_of r), None) r"] by (auto simp: outside_api_def split_beta)
  then obtain r1 where "(if own then do_api (do_perform sys) ctl c r else outside_api (do_perform sys) ctl c r) = Some r1"
    using do_api_returns [of c r] by (cases own) auto
  then show ?case using Cons.IH [of r1] oc by simp
qed simp

lemma perform_io_returns: "\<exists>first r'. perform_io (do_perform sys) q r = Some (first, r')"
  using perform_dirs_returns [of "ds_task_result (ep_state r q)" "[except_op, write_op, read_op]" "(ep_state r q, ep_sys r)"]
  by (auto simp: perform_io_def simp del: perform_dirs.simps)

lemma complete_operation_returns: "\<exists>calls r'. complete_operation base (do_perform sys) ctl handler a r = Some (calls, r')"
proof (cases "base \<le> a")
  case True
  obtain first r1 where "perform_io (do_perform sys) a r = Some (first, r1)" using perform_io_returns by blast
  moreover obtain r2 where "do_apis (do_perform sys) ctl (handler (ro_id (the first))) r1 = Some r2" using do_apis_returns by blast
  ultimately show ?thesis using True by (cases first) (simp_all add: complete_operation_def)
next
  case False
  then show ?thesis using do_apis_returns [of "handler a" r] by (auto simp: complete_operation_def)
qed

lemma complete_operation_calls:
  "complete_operation base (do_perform sys) ctl handler a r = Some (calls, r') \<Longrightarrow> calls = [] \<or> (\<exists>b. calls = handler b)"
  by (auto simp: complete_operation_def split: if_splits option.splits)

lemma loop_operation_returns:
  assumes "loop_ok base r" and "\<And>b. list_all (allowed base p fd) (map snd (handler b))"
  shows "loop_operation base (do_perform sys) ctl handler a rest r \<noteq> None"
proof -
  obtain s th where st: "sched_of r = (s, Some th)" using loop_thread [OF assms(1)] by blast
  define r0 where "r0 = set_sched (operation_prepare rest s, Some th) r"
  obtain calls r1 where c: "complete_operation base (do_perform sys) ctl handler a r0 = Some (calls, r1)"
    using complete_operation_returns by blast
  have "list_all (allowed base p fd) (map snd calls)" using complete_operation_calls [OF c] assms(2) by auto
  moreover have "ids_ok base r0" using assms(1) by (simp add: r0_def loop_ok_def)
  ultimately have "appends base (sched_of r0) (sched_of r1)" using complete_operation_refines [OF _ c] by blast
  then obtain s' th' where "sched_of r1 = (s', Some th')" using appends_thread unfolding r0_def sched_of_set by blast
  then show ?thesis using c st by (simp add: loop_operation_def r0_def split: prod.splits)
qed

lemma loop_task_returns:
  assumes "loop_ok base r" and "list_all (allowed base p fd) before"
  shows "loop_task (do_perform sys) ctl wait now before after rest r \<noteq> None"
proof -
  obtain s th where st: "sched_of r = (s, Some th)" using loop_thread [OF assms(1)] by blast
  define r0 where "r0 = set_sched (task_prepare rest s, Some th) r"
  obtain r1 where r1: "do_apis (do_perform sys) ctl (map (Pair False) before) r0 = Some r1" using do_apis_returns by blast
  have "ids_ok base r1" using do_apis_refine [OF r1] assms by (simp add: r0_def loop_ok_def comp_def)
  then obtain descriptors timers r2 where r2: "reactor_run wait now (if rest \<noteq> [] then 0 else task_usec s) r1 = Some (descriptors, timers, r2)"
    using reactor_run_returns [of base r1] by (metis not_None_eq surj_pair)
  obtain r3 where "do_apis (do_perform sys) ctl (map (Pair False) after) r2 = Some r3" using do_apis_returns by blast
  then show ?thesis using st r1 r2 by (simp add: loop_task_def r0_def [symmetric] split: prod.splits)
qed

lemma registered_loop:
  assumes "pool_ok r0" and "\<And>q. foreign fd (ep_state r0 q)"
    and "register_descriptor ctl fd r0 = (0, p, r1)" and "ds_registered (ep_state r1 p) \<noteq> 0" and "loop_ok base r0"
    and "(loop_step base (do_perform sys) ctl wait world p fd)\<^sup>*\<^sup>* (r1, []) (r, ops)"
  shows "loop_ok base r" and "distinct (queued_states base r1)"
    and "(reactor_step (do_perform sys) ctl wait world p fd)\<^sup>*\<^sup>* (r1, queued_states base r1, []) (r, queued_states base r, ops)"
proof -
  have ok: "loop_ok base r1" using assms(5) register_ids [OF _ assms(3), of base] by (auto simp: loop_ok_def)
  from loop_run_refines [OF assms(6) this] show "loop_ok base r"
    "(reactor_step (do_perform sys) ctl wait world p fd)\<^sup>*\<^sup>* (r1, queued_states base r1, []) (r, queued_states base r, ops)" by simp_all
  show "distinct (queued_states base r1)" using ok by (auto simp: loop_ok_def sched_ok_def)
qed

end

lemma ds_of_front:
  assumes "sched_ok base st" and "p \<in> set (ds_of base (sc_queue (fst st)))"
  shows "Operation p \<in> set (takeWhile (\<lambda>x. x \<noteq> Task_operation) (sc_queue (fst st)))"
proof -
  obtain xs ys where q: "sc_queue (fst st) = xs @ Task_operation # ys" "Task_operation \<notin> set xs" "list_all (below base) ys"
    using assms(1) by (auto simp: sched_ok_def)
  have "Operation p \<in> set zs" if "p \<in> set (ds_of base zs)" for zs
    using that by (induction base zs rule: ds_of.induct) (auto split: if_splits)
  then have "Operation p \<in> set xs" using assms(2) q by simp
  moreover have "takeWhile (\<lambda>x. x \<noteq> Task_operation) (sc_queue (fst st)) = xs" using q(1,2) by (auto simp: takeWhile_tail takeWhile_append2)
  ultimately show ?thesis by simp
qed


section \<open>Properties of the event loop\<close>

text \<open>
  C33. The event loop implements the reactor's contract: every step of the loop - running the reactor, completing
  an operation or a descriptor state with whatever its handler and other threads do meanwhile - is a sequence of steps of
  the reactor in which the descriptor states handed out are exactly those queued, so that in particular the reactor is
  run only after all of them have been performed; and the queue keeps its form.
\<close>

theorem event_loop_refines:
  assumes "socket_system ctl wait can edge watch world sys signals" and "loop_ok base r"
    and "loop_step base (do_perform sys) ctl wait world p fd (r, ops) (r', ops')"
  shows "loop_ok base r' \<and> (reactor_step (do_perform sys) ctl wait world p fd)\<^sup>*\<^sup>*
    (r, queued_states base r, ops) (r', queued_states base r', ops')"
  using socket_system.system_step_refines [OF assms(1,3,2)] .

text \<open>
  The event loop goes on: between its steps the queue is never empty, and the step for its first entry returns,
  whatever handlers do.
\<close>

theorem event_loop_proceeds:
  assumes "socket_system ctl wait can edge watch world sys signals" and "loop_ok base r"
    and "list_all (allowed base p fd) before" and "\<And>b. list_all (allowed base p fd) (map snd (handler b))"
  shows "case sc_queue (fst (sched_of r)) of
      [] \<Rightarrow> False
    | Task_operation # rest \<Rightarrow> loop_task (do_perform sys) ctl wait now before after rest r \<noteq> None
    | Operation a # rest \<Rightarrow> loop_operation base (do_perform sys) ctl handler a rest r \<noteq> None"
proof -
  have "sc_queue (fst (sched_of r)) \<noteq> []" using assms(2) by (auto simp: loop_ok_def sched_ok_def)
  then show ?thesis
    using socket_system.loop_task_returns [OF assms(1-3)] socket_system.loop_operation_returns [OF assms(1,2,4)]
    by (simp split: list.splits sched_op.splits)
qed

text \<open>
  C31. The event loop forgets no operation of a socket: an operation that waits while its socket is ready will be looked
  at again. An event for it is recorded by epoll, or its descriptor state is queued before the task, so that it
  is performed before the reactor is run the next time. The exceptions are a socket on which an operation of
  the same direction has already failed, and an \<open>accept\<close> that has met a connection aborted by its peer.
\<close>

theorem event_loop_forgets_nothing:
  assumes "socket_system ctl wait can edge watch world sys signals"
    and "pool_ok r0" and "\<And>q. foreign fd (ep_state r0 q)" and "loop_ok base r0"
    and "register_descriptor ctl fd r0 = (0, p, r1)" and "ds_registered (ep_state r1 p) \<noteq> 0"
    and "(loop_step base (do_perform sys) ctl wait world p fd)\<^sup>*\<^sup>* (r1, []) (r, ops)"
    and "ds_ops (ep_state r p) j \<noteq> []" and "can (ep_sys r) fd j"
  shows "edge (ep_sys r) fd j
    \<or> Operation p \<in> set (takeWhile (\<lambda>x. x \<noteq> Task_operation) (sc_queue (fst (sched_of r)))) \<and> hits (ds_task_result (ep_state r p)) j
    \<or> (\<exists>op \<in> set (posted_of fd j (drop (length (ep_posted r1)) (ep_posted r))). ro_ec op \<noteq> No_error)
    \<or> (\<exists>op \<in> set (ds_ops (ep_state r p) j). op_stalled op)"
proof -
  note run = socket_system.registered_loop [OF assms(1,2,3,5,6,4,7)]
  have "sched_ok base (sched_of r)" using run(1) by (simp add: loop_ok_def)
  then show ?thesis
    using socket_system.registered_run(1) [OF assms(1,2,3,5,6) run(3,2) assms(8,9)] ds_of_front by blast
qed

text \<open>
  C32. Through any run of the event loop, every operation started on a socket completes at most once, and is either
  completed or still queued; those that are not aborted complete in the order in which they were started in their
  direction.
\<close>

theorem event_loop_operations_in_order:
  fixes j :: op_type
  assumes "socket_system ctl wait can edge watch world sys signals"
    and "pool_ok r0" and "\<And>q. foreign fd (ep_state r0 q)" and "loop_ok base r0"
    and "register_descriptor ctl fd r0 = (0, p, r1)" and "ds_registered (ep_state r1 p) \<noteq> 0"
    and "(loop_step base (do_perform sys) ctl wait world p fd)\<^sup>*\<^sup>* (r1, []) (r, ops)"
  defines "posted \<equiv> posted_of fd j (drop (length (ep_posted r1)) (ep_posted r))"
    and "started \<equiv> map ro_id (filter (\<lambda>op. op_dir op = j) ops)"
  shows "mset (map ro_id (posted @ ds_ops (ep_state r p) j)) = mset started
    \<and> subseq (map ro_id (filter (\<lambda>op. ro_ec op \<noteq> Operation_aborted) posted @ ds_ops (ep_state r p) j)) started"
proof -
  note run = socket_system.registered_loop [OF assms(1,2,3,5,6,4,7)]
  show ?thesis using socket_system.registered_run(2) [OF assms(1,2,3,5,6) run(3,2)] unfolding in_order_def posted_def started_def .
qed


section \<open>A run of the loop\<close>

text \<open>
  The loop of a small system: a receive is started by another thread, five bytes arrive, and the reactor is run. The
  descriptor states have the addresses from 100 on.
\<close>

definition loop_start :: "sim epoll_reactor" where
  "loop_start = idle_reactor\<lparr>ep_fresh := 100, ep_timers := (ep_timers idle_reactor)
     \<lparr>re_sched := (init_task (scheduler_new True (- 1) (- 1)), Some thread_info_new)\<rparr>\<rparr>"

definition loop_registered :: "sim epoll_reactor" where
  "loop_registered = snd (snd (register_descriptor sim_ctl 3 loop_start))"

definition loop_waiting :: "sim epoll_reactor" where
  "loop_waiting = the (outside_api (do_perform sim_sys) sim_ctl (Api_start read_op 3 100 sample_recv False True) loop_registered)"

definition loop_ready :: "sim epoll_reactor" where
  "loop_ready = loop_waiting\<lparr>ep_sys := sim_arrives 3 read_op 5 (ep_sys loop_waiting)\<rparr>"

definition loop_told :: "sim epoll_reactor" where
  "loop_told = snd (the (loop_task (do_perform sim_sys) sim_ctl sim_wait 0 [] [] [] loop_ready))"

lemma loop_start_ok: "pool_ok loop_start" "foreign 3 (ep_state loop_start q)" "loop_ok 100 loop_start"
proof -
  show "pool_ok loop_start" "foreign 3 (ep_state loop_start q)"
    by (simp_all add: pool_ok_def foreign_def loop_start_def idle_reactor_def blank_state_def)
  have "ids_ok 100 loop_start"
    by (simp add: ids_ok_def timers_below_def agenda_ops_def loop_start_def idle_reactor_def blank_state_def timer_queue_new_ok agenda_new)
  moreover have "sched_ok 100 (sched_of loop_start)"
    by (auto simp: loop_start_def idle_reactor_def init_task_def scheduler_new_def thread_info_new_def intro!: sched_okI [of _ "[]" "[]"])
  ultimately show "loop_ok 100 loop_start" by (simp add: loop_ok_def)
qed


lemma loop_registered_eq: "register_descriptor sim_ctl 3 loop_start = (0, 100, loop_registered)"
  by (simp add: loop_registered_def register_descriptor_def pool_alloc_def loop_start_def idle_reactor_def Let_def)

lemma loop_registered_state:
  "ds_registered (ep_state loop_registered 100) = initial_events" "ds_ops (ep_state loop_registered 100) = (\<lambda>_. [])"
  "ds_spec (ep_state loop_registered 100) = (\<lambda>_. True)" "\<not> ds_shutdown (ep_state loop_registered 100)"
  "sm_room (ep_sys loop_registered) = (\<lambda>_ _. 0)" "sm_signals (ep_sys loop_registered) = 0" "ep_posted loop_registered = []"
  "sm_watch (ep_sys loop_registered) = (\<lambda>_. None)(3 \<mapsto> (100, initial_events))" "sm_fds (ep_sys loop_registered) = [3]"
  "ep_has_timer_fd loop_registered" "sched_of loop_registered = sched_of loop_start"
  by (simp_all add: loop_registered_def register_descriptor_def pool_alloc_def loop_start_def idle_reactor_def descriptor_state_new_def
    blank_state_def sim_start_def Let_def)

lemma loop_waiting_eq:
  "outside_api (do_perform sim_sys) sim_ctl (Api_start read_op 3 100 sample_recv False True) loop_registered = Some loop_waiting"
  "ds_ops (ep_state loop_waiting 100) read_op = [sample_recv\<lparr>ro_ec := would_block\<rparr>]" "ep_posted loop_waiting = []"
  "ep_sys loop_waiting = ep_sys loop_registered" "ep_has_timer_fd loop_waiting"
  "sched_of loop_waiting = (work_started (fst (sched_of loop_start)), snd (sched_of loop_start))"
  unfolding loop_waiting_def
  by (simp_all add: outside_api_def reactor_start_op_def start_on_def start_speculative_def try_perform_def set_sched_def
    loop_registered_state sample_recv_blocks initial_events_nonzero ds_push_def Let_def reactor_work_started_def split_beta)

lemma loop_told_eq:
  "loop_task (do_perform sim_sys) sim_ctl sim_wait 0 [] [] [] loop_ready = Some ([100], loop_told)"
  "ds_ops (ep_state loop_told 100) read_op = [sample_recv\<lparr>ro_ec := would_block\<rparr>]" "ep_posted loop_told = []"
  "\<not> sm_edge (ep_sys loop_told) 3 read_op" "sim_can (ep_sys loop_told) 3 read_op"
  unfolding loop_told_def
  by (simp_all add: loop_task_def loop_ready_def loop_waiting_eq loop_registered_state loop_start_def init_task_def scheduler_new_def
    reactor_run_def sim_wait_def sim_arrives_def sim_can_def set_sched_def Let_def split_beta task_cleanup_def
    thread_info_new_def wake_one_thread_and_unlock_def)


lemma loop_run_example:
  "(loop_step 100 (do_perform sim_sys) sim_ctl sim_wait sim_world 100 3)\<^sup>*\<^sup>* (loop_registered, []) (loop_ready, [sample_recv])"
  "loop_step 100 (do_perform sim_sys) sim_ctl sim_wait sim_world 100 3 (loop_ready, [sample_recv]) (loop_told, [sample_recv])"
proof -
  let ?step = "loop_step 100 (do_perform sim_sys) sim_ctl sim_wait sim_world 100 3"
  have "allowed 100 100 3 (Api_start read_op 3 100 sample_recv False True)" by (simp add: sample_recv_def op_dir_def)
  from loop_step.outside [OF loop_waiting_eq(1) this, of sim_wait sim_world "[]"]
  have "?step (loop_registered, []) (loop_waiting, [sample_recv])" by simp
  moreover have "?step (loop_waiting, [sample_recv]) (loop_ready, [sample_recv])"
    unfolding loop_ready_def by (rule loop_step.world) (auto simp: sim_world_def)
  ultimately show "?step\<^sup>*\<^sup>* (loop_registered, []) (loop_ready, [sample_recv])" by auto
  have "\<not> sc_stopped (fst (sched_of loop_ready))" "sc_queue (fst (sched_of loop_ready)) = [Task_operation]"
    by (simp_all add: loop_ready_def loop_waiting_eq loop_start_def init_task_def scheduler_new_def work_started_def
      wake_one_thread_and_unlock_def maybe_unlock_and_signal_one_def interrupt_task_def sched_push_def)
  from loop_step.task [OF this loop_told_eq(1)] show "?step (loop_ready, [sample_recv]) (loop_told, [sample_recv])" by simp
qed

lemma loop_ready_ok: "loop_ok 100 loop_ready"
  using sim.registered_loop(1) [OF loop_start_ok(1,2) loop_registered_eq _ loop_start_ok(3) loop_run_example(1)]
  by (simp add: loop_registered_state initial_events_nonzero)

lemma loop_told_reached:
  "(loop_step 100 (do_perform sim_sys) sim_ctl sim_wait sim_world 100 3)\<^sup>*\<^sup>* (loop_registered, []) (loop_told, [sample_recv])"
  using loop_run_example by (rule rtranclp.rtrancl_into_rtrancl)

theorem event_loop_refines_witness:
  "loop_ok 100 loop_told \<and> (reactor_step (do_perform sim_sys) sim_ctl sim_wait sim_world 100 3)\<^sup>*\<^sup>*
    (loop_ready, queued_states 100 loop_ready, [sample_recv]) (loop_told, queued_states 100 loop_told, [sample_recv])"
  using event_loop_refines [OF sim.socket_system_axioms loop_ready_ok loop_run_example(2)] .

theorem event_loop_proceeds_witness:
  "case sc_queue (fst (sched_of loop_ready)) of
      [] \<Rightarrow> False
    | Task_operation # rest \<Rightarrow> loop_task (do_perform sim_sys) sim_ctl sim_wait 0 [Api_cancel 100] [] rest loop_ready \<noteq> None
    | Operation a # rest \<Rightarrow> loop_operation 100 (do_perform sim_sys) sim_ctl (\<lambda>_. [(True, Api_stop)]) a rest loop_ready \<noteq> None"
  by (rule event_loop_proceeds [OF sim.socket_system_axioms loop_ready_ok, of 100 3]) simp_all

theorem event_loop_forgets_nothing_witness:
  "Operation 100 \<in> set (takeWhile (\<lambda>x. x \<noteq> Task_operation) (sc_queue (fst (sched_of loop_told))))"
  using event_loop_forgets_nothing [OF sim.socket_system_axioms loop_start_ok loop_registered_eq _ loop_told_reached, of read_op]
    loop_told_eq(2-5)
  by (simp add: loop_registered_state initial_events_nonzero posted_of_def op_stalled_def)

theorem event_loop_operations_in_order_witness:
  "mset (map ro_id (posted_of 3 read_op (ep_posted loop_told) @ ds_ops (ep_state loop_told 100) read_op)) = mset [7]"
  using event_loop_operations_in_order [OF sim.socket_system_axioms loop_start_ok loop_registered_eq _ loop_told_reached, of read_op]
  by (simp add: loop_registered_state initial_events_nonzero op_dir_def sample_recv_def)

end
