(* ===== verification/Asio_Acceptor.thy ===== *)
theory Asio_Acceptor
  imports Asio_Loop Host_Application
begin

text \<open>
  The acceptor of the host on asio: the endpoint (\<open>vendors/asio-1.36.0/include/asio/ip/detail/impl/endpoint.ipp\<close>), the
  system calls that make a socket listen (\<open>detail/impl/socket_ops.ipp\<close>), the acceptor
  (\<open>basic_socket_acceptor.hpp\<close>) over the socket service, and how the server of the host uses it
  (\<open>tcp_server.cpp\<close>). The state of the server is that of \<open>Host_Server\<close>; here its accepts are operations
  of the reactor.
\<close>

section \<open>Endpoints\<close>

definition AF_INET :: int where "AF_INET = 2"

definition byteswap16 :: "uint16 \<Rightarrow> uint16" where
  "byteswap16 x = push_bit 8 x OR drop_bit 8 x"

definition host_to_network_short :: "endian \<Rightarrow> uint16 \<Rightarrow> uint16" where
  "host_to_network_short native x = (case native of little_endian \<Rightarrow> byteswap16 x | big_endian \<Rightarrow> x)"

definition network_to_host_short :: "endian \<Rightarrow> uint16 \<Rightarrow> uint16" where
  "network_to_host_short native x = (case native of little_endian \<Rightarrow> byteswap16 x | big_endian \<Rightarrow> x)"

text \<open>The port and the address; for the sixth version also the flow and the scope.\<close>

datatype sockaddr = Sockaddr_in uint16 uint32 | Sockaddr_in6 uint16 uint32 "byte list" uint32

definition endpoint_default :: sockaddr where
  "endpoint_default = Sockaddr_in 0 0"

definition endpoint_new :: "endian \<Rightarrow> int \<Rightarrow> uint16 \<Rightarrow> sockaddr" where
  "endpoint_new native family port_num =
     (if family = AF_INET then Sockaddr_in (host_to_network_short native port_num) 0
      else Sockaddr_in6 (host_to_network_short native port_num) 0 (replicate 16 0) 0)"

fun is_v4 :: "sockaddr \<Rightarrow> bool" where
  "is_v4 (Sockaddr_in _ _) \<longleftrightarrow> True"
| "is_v4 (Sockaddr_in6 _ _ _ _) \<longleftrightarrow> False"

fun sockaddr_port :: "sockaddr \<Rightarrow> uint16" where
  "sockaddr_port (Sockaddr_in q _) = q"
| "sockaddr_port (Sockaddr_in6 q _ _ _) = q"

definition endpoint_size :: "sockaddr \<Rightarrow> nat" where
  "endpoint_size e = (if is_v4 e then 16 else 28)"

definition endpoint_port :: "endian \<Rightarrow> sockaddr \<Rightarrow> uint16" where
  "endpoint_port native e = network_to_host_short native (sockaddr_port e)"

fun endpoint_set_port :: "endian \<Rightarrow> uint16 \<Rightarrow> sockaddr \<Rightarrow> sockaddr" where
  "endpoint_set_port native port_num (Sockaddr_in _ a) = Sockaddr_in (host_to_network_short native port_num) a"
| "endpoint_set_port native port_num (Sockaddr_in6 _ f a s) = Sockaddr_in6 (host_to_network_short native port_num) f a s"

lemma byteswap16_twice: "byteswap16 (byteswap16 x) = x"
  by (rule bit_word_eqI) (auto simp: byteswap16_def bit_simps)

lemma network_host_short [simp]: "network_to_host_short native (host_to_network_short native x) = x"
  by (simp add: network_to_host_short_def host_to_network_short_def byteswap16_twice split: endian.split)

text \<open>
  The port is kept in network order, the high byte first, whatever the machine; it is read back unchanged, also after it
  has been set.
\<close>

theorem endpoint_port_roundtrip:
  "endpoint_port native (endpoint_new native family p) = p \<and> endpoint_port native (endpoint_set_port native q e) = q
    \<and> object_bytes native (sockaddr_port (endpoint_new native family p)) = [ucast (drop_bit 8 p), ucast p]"
proof -
  have "ucast (byteswap16 p) = (ucast (drop_bit 8 p) :: byte)" "ucast (drop_bit 8 (byteswap16 p)) = (ucast p :: byte)"
    by (rule bit_word_eqI; auto simp: byteswap16_def bit_simps)+
  then have "object_bytes native (host_to_network_short native p) = [ucast (drop_bit 8 p), ucast p]"
    by (simp add: object_bytes_def host_to_network_short_def numeral_2_eq_2 split: endian.split)
  then show ?thesis by (cases e) (simp_all add: endpoint_new_def endpoint_port_def)
qed

section \<open>System calls of an acceptor\<close>

record 'k listen_sys =
  sys_setsockopt :: "int \<Rightarrow> int \<Rightarrow> int \<Rightarrow> int \<Rightarrow> 'k \<Rightarrow> nat \<times> 'k"
  sys_bind :: "int \<Rightarrow> sockaddr \<Rightarrow> 'k \<Rightarrow> nat \<times> 'k"
  sys_listen :: "int \<Rightarrow> int \<Rightarrow> 'k \<Rightarrow> nat \<times> 'k"
  sys_somaxconn :: int

definition SOL_SOCKET :: int where "SOL_SOCKET = 1"
definition SO_REUSEADDR :: int where "SO_REUSEADDR = 2"
definition SO_LINGER :: int where "SO_LINGER = 13"
definition custom_socket_option_level :: int where "custom_socket_option_level = 0xA5100000 - 2 ^ 32"
definition enable_connection_aborted_option :: int where "enable_connection_aborted_option = 1"
definition always_fail_option :: int where "always_fail_option = 2"
definition invalid_argument :: asio_error where "invalid_argument = Asio_error 22"

definition last_error :: "nat \<Rightarrow> asio_error" where
  "last_error err = (if err = 0 then No_error else Asio_error err)"

definition socket_bind :: "'k listen_sys \<Rightarrow> int \<Rightarrow> sockaddr \<Rightarrow> 'k \<Rightarrow> asio_error \<times> 'k" where
  "socket_bind ls s addr k =
     (if s = invalid_socket then (bad_descriptor, k) else let (err, k) = sys_bind ls s addr k in (last_error err, k))"

definition socket_listen :: "'k listen_sys \<Rightarrow> int \<Rightarrow> int \<Rightarrow> 'k \<Rightarrow> asio_error \<times> 'k" where
  "socket_listen ls s backlog k =
     (if s = invalid_socket then (bad_descriptor, k) else let (err, k) = sys_listen ls s backlog k in (last_error err, k))"

text \<open>The value of an option is an integer; \<open>optlen\<close> is the size it is given with.\<close>

definition socket_setsockopt :: "'k listen_sys \<Rightarrow> int \<Rightarrow> uint8 \<Rightarrow> int \<Rightarrow> int \<Rightarrow> int \<Rightarrow> nat \<Rightarrow> 'k \<Rightarrow> asio_error \<times> uint8 \<times> 'k" where
  "socket_setsockopt ls s state level optname optval optlen k =
     (if s = invalid_socket then (bad_descriptor, state, k)
      else if level = custom_socket_option_level \<and> optname = always_fail_option then (invalid_argument, state, k)
      else if level = custom_socket_option_level \<and> optname = enable_connection_aborted_option then
        if optlen \<noteq> 4 then (invalid_argument, state, k)
        else (No_error, if optval \<noteq> 0 then state OR enable_connection_aborted else state AND NOT enable_connection_aborted, k)
      else let state = (if level = SOL_SOCKET \<and> optname = SO_LINGER then state OR user_set_linger else state);
               (err, k) = sys_setsockopt ls s level optname optval k
           in (last_error err, state, k))"

section \<open>The acceptor\<close>

text \<open>The functions without an error code throw: the result is the error or nothing.\<close>

type_synonym 'k acceptor = "socket_impl \<times> 'k epoll_reactor"

definition throw_error :: "asio_error \<Rightarrow> asio_error + unit" where
  "throw_error ec = (if ec \<noteq> No_error then Inl ec else Inr ())"

definition acceptor_open_call :: "'k socket_sys \<Rightarrow> 'k ctl_fn \<Rightarrow> 'k acceptor \<Rightarrow> (asio_error + unit) \<times> 'k acceptor" where
  "acceptor_open_call sys ctl = (\<lambda>(impl, r). let (ec, impl, r) = do_open sys ctl impl r in (throw_error ec, impl, r))"

text \<open>A boolean option.\<close>

definition acceptor_set_option :: "'k listen_sys \<Rightarrow> int \<Rightarrow> int \<Rightarrow> bool \<Rightarrow> 'k acceptor \<Rightarrow> (asio_error + unit) \<times> 'k acceptor" where
  "acceptor_set_option ls level optname v = (\<lambda>(impl, r).
     let (ec, state, k) = socket_setsockopt ls (si_socket impl) (si_state impl) level optname (if v then 1 else 0) 4 (ep_sys r)
     in (throw_error ec, impl\<lparr>si_state := state\<rparr>, r\<lparr>ep_sys := k\<rparr>))"

definition acceptor_bind :: "'k listen_sys \<Rightarrow> sockaddr \<Rightarrow> 'k acceptor \<Rightarrow> (asio_error + unit) \<times> 'k acceptor" where
  "acceptor_bind ls addr = (\<lambda>(impl, r).
     let (ec, k) = socket_bind ls (si_socket impl) addr (ep_sys r) in (throw_error ec, impl, r\<lparr>ep_sys := k\<rparr>))"

definition acceptor_listen :: "'k listen_sys \<Rightarrow> 'k acceptor \<Rightarrow> (asio_error + unit) \<times> 'k acceptor" where
  "acceptor_listen ls = (\<lambda>(impl, r).
     let (ec, k) = socket_listen ls (si_socket impl) (sys_somaxconn ls) (ep_sys r) in (throw_error ec, impl, r\<lparr>ep_sys := k\<rparr>))"

definition acceptor_close :: "'k socket_sys \<Rightarrow> 'k ctl_fn \<Rightarrow> 'k acceptor \<Rightarrow> (asio_error + unit) \<times> 'k acceptor" where
  "acceptor_close sys ctl = (\<lambda>(impl, r). let (ec, impl, r) = service_close sys ctl impl r in (throw_error ec, impl, r))"

section \<open>The server\<close>

text \<open>The calls in the \<open>try\<close> block of \<open>toggle_accepting\<close>: the first that throws ends it.\<close>

definition and_then :: "(asio_error + unit) \<times> 's \<Rightarrow> ('s \<Rightarrow> (asio_error + unit) \<times> 's) \<Rightarrow> (asio_error + unit) \<times> 's" where
  "and_then res f = (case res of (Inl e, x) \<Rightarrow> (Inl e, x) | (Inr _, x) \<Rightarrow> f x)"

definition listen_calls :: "'k listen_sys \<Rightarrow> sockaddr \<Rightarrow> 'k acceptor \<Rightarrow> (asio_error + unit) \<times> 'k acceptor" where
  "listen_calls ls addr acc =
     and_then (and_then (acceptor_set_option ls SOL_SOCKET SO_REUSEADDR True acc) (acceptor_bind ls addr)) (acceptor_listen ls)"

definition setup_acceptor :: "'k socket_sys \<Rightarrow> 'k listen_sys \<Rightarrow> 'k ctl_fn \<Rightarrow> sockaddr \<Rightarrow> 'k acceptor \<Rightarrow> (asio_error + unit) \<times> 'k acceptor" where
  "setup_acceptor sys ls ctl addr acc = and_then (acceptor_open_call sys ctl acc) (listen_calls ls addr)"

text \<open>
  The accept operation has the address of the connection it fills. \<open>acceptor_open\<close> of the server is what \<open>is_open\<close> of the
  acceptor returns.
\<close>

type_synonym 'k accepting = "tcp_server_t \<times> 'k acceptor"

definition wait_for_accept :: "'k socket_sys \<Rightarrow> 'k ctl_fn \<Rightarrow> bool \<Rightarrow> 'k accepting \<Rightarrow> 'k accepting option" where
  "wait_for_accept sys ctl cont = (\<lambda>(s, impl, r).
     if \<not> is_open impl then Some (s, impl, r)
     else map_option (Pair (wait_for_connection s)) (async_accept sys ctl (next_ptr s) 0 cont socket_construct (impl, r)))"

definition toggle_acceptor :: "'k socket_sys \<Rightarrow> 'k listen_sys \<Rightarrow> 'k ctl_fn \<Rightarrow> sockaddr \<Rightarrow> bool \<Rightarrow> 'k accepting \<Rightarrow>
    ((asio_error + tcp_status_t) \<times> 'k accepting) option" where
  "toggle_acceptor sys ls ctl addr enable = (\<lambda>(s, impl, r).
     if enable then
       if is_open impl then Some (Inr already_accepting, s, impl, r)
       else case setup_acceptor sys ls ctl addr (impl, r) of
              (Inl e, impl, r) \<Rightarrow> Some (Inr fail_to_accept, s\<lparr>acceptor_open := is_open impl\<rparr>, impl, r)
            | (Inr _, impl, r) \<Rightarrow>
                map_option (Pair (Inr tcp_success)) (wait_for_accept sys ctl False (s\<lparr>acceptor_open := is_open impl\<rparr>, impl, r))
     else
       let (res, impl, r) = acceptor_close sys ctl (impl, r)
       in Some (map_sum id (\<lambda>_. tcp_success) res, s\<lparr>acceptor_open := is_open impl\<rparr>, impl, r))"

text \<open>
  The handler of an accept: asio assigns the new descriptor to the connection, which may fail, then the handler is called with
  the error; it waits for the next connection if the acceptor is open.
\<close>

definition accept_handler :: "'k socket_sys \<Rightarrow> 'k ctl_fn \<Rightarrow> (esp_id_t \<Rightarrow> tcp_server_t \<times> 'w \<Rightarrow> (tcp_server_t \<times> 'w) result) \<Rightarrow>
    bool \<Rightarrow> reactor_op \<Rightarrow> 'k accepting \<times> 'w \<Rightarrow> ('k accepting \<times> 'w) result option" where
  "accept_handler sys ctl on_conn cont op = (\<lambda>((s, impl, r), w).
     let (ec, _, r) = accept_do_assign sys ctl op socket_construct r
     in case accept_done on_conn (ro_id op) (ec \<noteq> No_error) (s, w) of
          Inl f \<Rightarrow> Some (Inl f)
        | Inr (s', w') \<Rightarrow>
            if \<not> is_open impl then Some (Inr ((s', impl, r), w'))
            else map_option (\<lambda>acc. Inr ((s', acc), w'))
                   (async_accept sys ctl (next_ptr s) 0 cont socket_construct (impl, r)))"


section \<open>The accepts of the server and the operations of the reactor\<close>

text \<open>The descriptor of an open acceptor is registered, and only accepts wait on it.\<close>

definition descr_ok :: "socket_impl \<Rightarrow> 'k epoll_reactor \<Rightarrow> bool" where
  "descr_ok impl r \<longleftrightarrow> pool_ok r \<and> (is_open impl \<longrightarrow> (\<exists>p. si_data impl = Some p \<and> p \<in> set (ep_live r)
     \<and> \<not> ds_shutdown (ep_state r p) \<and> ds_ops (ep_state r p) write_op = [] \<and> ds_ops (ep_state r p) except_op = []))"

definition queued_accepts :: "socket_impl \<Rightarrow> 'k epoll_reactor \<Rightarrow> reactor_op list" where
  "queued_accepts impl r =
     (if is_open impl then case si_data impl of None \<Rightarrow> [] | Some p \<Rightarrow> ds_ops (ep_state r p) read_op else [])"

lemma descr_okE:
  assumes "descr_ok impl r" and "is_open impl"
  obtains p where "si_data impl = Some p" and "p \<in> set (ep_live r)" and "\<not> ds_shutdown (ep_state r p)"
    and "ds_ops (ep_state r p) write_op = []" and "ds_ops (ep_state r p) except_op = []"
    and "queued_accepts impl r = ds_ops (ep_state r p) read_op"
  using assms by (auto simp: descr_ok_def queued_accepts_def)

text \<open>A change of the state of the acceptor's descriptor, or of others only.\<close>

lemma descr_ok_update:
  assumes "descr_ok impl r" and "si_data impl = Some p" and "is_open impl"
    and "ep_state r' = (ep_state r)(p := d)" and "ep_live r' = ep_live r" "ep_free r' = ep_free r" "ep_fresh r' = ep_fresh r"
    and "\<not> ds_shutdown d" and "ds_ops d write_op = []" and "ds_ops d except_op = []"
    and "si_data impl' = Some p" and "is_open impl'"
  shows "descr_ok impl' r'" and "queued_accepts impl' r' = ds_ops d read_op"
proof -
  have "p \<in> set (ep_live r)" using assms(1-3) by (auto simp: descr_ok_def)
  then show "descr_ok impl' r'" using assms by (auto simp: descr_ok_def pool_ok_def)
  show "queued_accepts impl' r' = ds_ops d read_op" using assms by (simp add: queued_accepts_def)
qed

lemma descr_ok_frame:
  assumes "descr_ok impl r" and "pool_ok r'"
    and "\<And>p. p \<in> set (ep_live r) \<Longrightarrow> p \<in> set (ep_live r') \<and> ep_state r' p = ep_state r p"
  shows "descr_ok impl r'" and "queued_accepts impl r' = queued_accepts impl r"
  using assms by (auto simp: descr_ok_def queued_accepts_def split: option.splits)

lemma register_frame:
  assumes "pool_ok r" and "register_descriptor ctl fd r = (err, q, r')"
  shows "pool_ok r'" and "\<And>p. p \<in> set (ep_live r) \<Longrightarrow> p \<in> set (ep_live r') \<and> ep_state r' p = ep_state r p"
    and "ep_posted r' = ep_posted r" and "q \<in> set (ep_live r')" and "ds_ops (ep_state r' q) = (\<lambda>_. [])"
    and "\<not> ds_shutdown (ep_state r' q)"
proof -
  obtain r1 where a: "pool_alloc r = (q, r1)" using assms(2) by (auto simp: register_descriptor_def Let_def split: prod.splits if_splits)
  note r1 = pool_alloc_ok [OF assms(1) a]
  have live: "ep_live r1 = q # ep_live r" using a by (auto simp: pool_alloc_def Let_def split: list.splits)
  obtain d where d: "ep_state r' = (ep_state r1)(q := d)" "ds_ops d = ds_ops (ep_state r1 q)" "\<not> ds_shutdown d"
    "ep_live r' = ep_live r1" "ep_posted r' = ep_posted r1"
    using assms(2) a by (auto simp: register_descriptor_def Let_def split: if_splits prod.splits)
  show "pool_ok r'" using pool_ok_register [OF assms] .
  show "p \<in> set (ep_live r') \<and> ep_state r' p = ep_state r p" if "p \<in> set (ep_live r)" for p
    using that r1 d live by auto
  show "ep_posted r' = ep_posted r" "q \<in> set (ep_live r')" "ds_ops (ep_state r' q) = (\<lambda>_. [])" "\<not> ds_shutdown (ep_state r' q)"
    using r1 d by auto
qed

lemma assign_frame:
  assumes "descr_ok impl r" and "accept_do_assign sys ctl op socket_construct r = (ec, peer, r')"
  shows "descr_ok impl r'" and "queued_accepts impl r' = queued_accepts impl r" and "ep_posted r' = ep_posted r"
proof -
  obtain err q r1 where reg: "register_descriptor ctl (ro_new_socket op) r = (err, q, r1)" by (metis surj_pair)
  have pool: "pool_ok r" using assms(1) by (simp add: descr_ok_def)
  note f = register_frame [OF pool reg]
  have c: "r' = r \<or> (\<exists>k. r' = r1\<lparr>ep_sys := k\<rparr>) \<or> r' = r1"
    using assms(2) reg by (auto simp: accept_do_assign_def do_assign_def is_open_def socket_construct_def Let_def split: if_splits prod.splits)
  have "pool_ok r'" using c pool f(1) by (auto simp: pool_ok_def)
  moreover have "p \<in> set (ep_live r') \<and> ep_state r' p = ep_state r p" if "p \<in> set (ep_live r)" for p
    using c f(2) [OF that] that by auto
  ultimately show "descr_ok impl r'" "queued_accepts impl r' = queued_accepts impl r" using descr_ok_frame [OF assms(1)] by blast+
  show "ep_posted r' = ep_posted r" using c f(3) by auto
qed

text \<open>The calls that make the acceptor listen change neither its descriptor nor what waits on it.\<close>

lemma listen_calls_frame:
  assumes "listen_calls ls addr (impl, r) = (res, impl', r')"
  shows "si_socket impl' = si_socket impl \<and> si_data impl' = si_data impl \<and> (\<exists>k. r' = r\<lparr>ep_sys := k\<rparr>)"
proof -
  have f: "si_socket i' = si_socket i \<and> si_data i' = si_data i \<and> (\<exists>k. r' = r\<lparr>ep_sys := k\<rparr>)"
    if "(acceptor_set_option ls SOL_SOCKET SO_REUSEADDR True (i, r) = (x, i', r')) \<or> acceptor_bind ls addr (i, r) = (x, i', r')
      \<or> acceptor_listen ls (i, r) = (x, i', r')" for i r x i' r'
    using that by (auto simp: acceptor_set_option_def acceptor_bind_def acceptor_listen_def split: prod.splits)
  show ?thesis
  proof (cases "acceptor_set_option ls SOL_SOCKET SO_REUSEADDR True (impl, r)")
    case (fields x1 i1 r1)
    then have one: "si_socket i1 = si_socket impl \<and> si_data i1 = si_data impl \<and> (\<exists>k. r1 = r\<lparr>ep_sys := k\<rparr>)" using f by blast
    show ?thesis
    proof (cases "acceptor_bind ls addr (i1, r1)")
      case inner: (fields x2 i2 r2)
      then have two: "si_socket i2 = si_socket i1 \<and> si_data i2 = si_data i1 \<and> (\<exists>k. r2 = r1\<lparr>ep_sys := k\<rparr>)" using f by blast
      obtain x3 i3 r3 where three: "acceptor_listen ls (i2, r2) = (x3, i3, r3)" by (metis surj_pair)
      have "(impl', r') \<in> {(i1, r1), (i2, r2), (i3, r3)}"
        using assms fields inner three by (auto simp: listen_calls_def and_then_def split: sum.splits)
      then show ?thesis using one two f [of i2 r2 x3 i3 r3] three by auto
    qed
  qed
qed

lemma setup_frame:
  assumes "descr_ok impl r" and "\<not> is_open impl" and "setup_acceptor sys ls ctl addr (impl, r) = (res, impl', r')"
  shows "descr_ok impl' r'" and "queued_accepts impl' r' = []" and "ep_posted r' = ep_posted r" and "res = Inr () \<Longrightarrow> is_open impl'"
proof -
  obtain ec i1 r1 where o: "do_open sys ctl impl r = (ec, i1, r1)" by (metis surj_pair)
  have pool: "pool_ok r" using assms(1) by (simp add: descr_ok_def)
  have opened: "pool_ok r1 \<and> ep_posted r1 = ep_posted r \<and> (if ec = No_error then is_open i1 \<and> (\<exists>p. si_data i1 = Some p \<and> p \<in> set (ep_live r1)
      \<and> \<not> ds_shutdown (ep_state r1 p) \<and> ds_ops (ep_state r1 p) = (\<lambda>_. [])) else \<not> is_open i1)"
  proof (cases "sys_socket sys (ep_sys r)")
    case (Pair res k)
    have pk: "pool_ok (r\<lparr>ep_sys := k\<rparr>)" using pool by (simp add: pool_ok_def)
    show ?thesis
    proof (cases res)
      case (Sys_err e)
      then show ?thesis using o Pair assms(2) pk by (auto simp: do_open_def)
    next
      case (Sys_ok fd)
      obtain err q r2 where reg: "register_descriptor ctl (int fd) (r\<lparr>ep_sys := k\<rparr>) = (err, q, r2)" by (metis surj_pair)
      note f = register_frame [OF pk reg]
      have "pool_ok (r2\<lparr>ep_sys := k'\<rparr>)" for k' using f(1) by (simp add: pool_ok_def)
      then show ?thesis using o Pair Sys_ok reg assms(2) f
        by (auto simp: do_open_def is_open_def invalid_socket_def split: if_splits)
    qed
  qed
  have "descr_ok impl' r' \<and> queued_accepts impl' r' = [] \<and> ep_posted r' = ep_posted r \<and> (res = Inr () \<longrightarrow> is_open impl')"
  proof (cases "ec = No_error")
    case True
    then have "listen_calls ls addr (i1, r1) = (res, impl', r')"
      using assms(3) o by (simp add: setup_acceptor_def acceptor_open_call_def and_then_def throw_error_def)
    then have "si_socket impl' = si_socket i1 \<and> si_data impl' = si_data i1 \<and> (\<exists>k. r' = r1\<lparr>ep_sys := k\<rparr>)" by (rule listen_calls_frame)
    then show ?thesis using opened True by (auto simp: descr_ok_def queued_accepts_def is_open_def pool_ok_def)
  next
    case False
    then have "res = Inl ec" "impl' = i1" "r' = r1"
      using assms(3) o by (simp_all add: setup_acceptor_def acceptor_open_call_def and_then_def throw_error_def)
    then show ?thesis using opened False by (simp add: descr_ok_def queued_accepts_def)
  qed
  then show "descr_ok impl' r'" "queued_accepts impl' r' = []" "ep_posted r' = ep_posted r" "res = Inr () \<Longrightarrow> is_open impl'" by simp_all
qed

lemma close_frame:
  assumes "descr_ok impl r" and "acceptor_close sys ctl (impl, r) = (res, impl', r')"
  shows "\<not> is_open impl'" and "descr_ok impl' r'" and "queued_accepts impl' r' = []"
    and "ep_posted r' = ep_posted r @ map aborted (queued_accepts impl r)"
proof -
  have impl': "impl' = socket_construct" using assms(2) by (auto simp: acceptor_close_def service_close_def split: prod.splits)
  then show closed: "\<not> is_open impl'" by (simp add: socket_construct_def is_open_def)
  then show "queued_accepts impl' r' = []" by (simp add: queued_accepts_def)
  have "pool_ok r' \<and> ep_posted r' = ep_posted r @ map aborted (queued_accepts impl r)"
  proof (cases "is_open impl")
    case False
    then have "r' = r" using assms(2) by (auto simp: acceptor_close_def service_close_def)
    then show ?thesis using assms(1) False by (simp add: descr_ok_def queued_accepts_def)
  next
    case True
    then obtain p where p: "si_data impl = Some p" "p \<in> set (ep_live r)" "\<not> ds_shutdown (ep_state r p)"
      "ds_ops (ep_state r p) write_op = []" "ds_ops (ep_state r p) except_op = []"
      "queued_accepts impl r = ds_ops (ep_state r p) read_op" using descr_okE [OF assms(1)] by blast
    obtain data r1 where d: "deregister_descriptor ctl (si_socket impl) (Some p) (\<not> has_flag (si_state impl) possible_dup) r = (data, r1)" by fastforce
    obtain data' r2 where c: "cleanup_descriptor_data data r1 = (data', r2)" by fastforce
    have "cleanup_descriptor_data data (r1\<lparr>ep_sys := k\<rparr>) = (data', r2\<lparr>ep_sys := k\<rparr>)" for k
      using c by (auto simp: cleanup_descriptor_data_def pool_free_def split: option.splits)
    then obtain k where r': "r' = r2\<lparr>ep_sys := k\<rparr>"
      using assms(2) True p(1) d by (auto simp: acceptor_close_def service_close_def close_impl_def Let_def split: prod.splits)
    have "pool_ok r2" using pool_ok_close [OF _ p(2) d c] assms(1) by (simp add: descr_ok_def)
    moreover have "ep_posted r2 = ep_posted r @ map aborted (ds_ops (ep_state r p) read_op)"
      using d c p(3-5) by (auto simp: deregister_descriptor_def cleanup_descriptor_data_def cancel_on_def post_ops_def pool_free_def Let_def)
    ultimately show ?thesis using r' p(6) by (simp add: pool_ok_def)
  qed
  then show "descr_ok impl' r'" "ep_posted r' = ep_posted r @ map aborted (queued_accepts impl r)"
    using closed by (simp_all add: descr_ok_def)
qed

context socket_system
begin

lemma start_read_tracks:
  assumes "start_on (do_perform sys) ctl read_op fd p op True (d, k) = Some (res, d', k')"
  shows "ds_shutdown d' = ds_shutdown d" and "ds_ops d' write_op = ds_ops d write_op" and "ds_ops d' except_op = ds_ops d except_op"
    and "map ro_id (ds_ops d' read_op @ new_posted res) = map ro_id (ds_ops d read_op) @ [ro_id op]"
proof -
  have keep: "ro_id op1 = ro_id op" if "try_perform (do_perform sys) read_op op (d, k) = Some (st, op1, k1)" for st op1 k1
    using that perform_keeps by (auto simp: try_perform_def split: if_splits)
  show "ds_shutdown d' = ds_shutdown d" "ds_ops d' write_op = ds_ops d write_op" "ds_ops d' except_op = ds_ops d except_op"
    "map ro_id (ds_ops d' read_op @ new_posted res) = map ro_id (ds_ops d read_op) @ [ro_id op]"
    using assms keep
    by (auto simp: start_on_def start_speculative_def start_waiting_def new_posted_def ds_push_def ds_set_spec_def Let_def
      split: if_splits option.splits)
qed

lemma accept_started:
  assumes "descr_ok impl r" and "is_open impl" and "async_accept sys ctl a 0 cont socket_construct (impl, r) = Some (impl', r')"
  obtains new where "descr_ok impl' r'" and "is_open impl'" and "ep_posted r' = ep_posted r @ new"
    and "mset (map ro_id (queued_accepts impl' r' @ new)) = add_mset a (mset (map ro_id (queued_accepts impl r)))"
proof -
  obtain p where p: "si_data impl = Some p" "p \<in> set (ep_live r)" "\<not> ds_shutdown (ep_state r p)"
    "ds_ops (ep_state r p) write_op = []" "ds_ops (ep_state r p) except_op = []"
    "queued_accepts impl r = ds_ops (ep_state r p) read_op" using descr_okE [OF assms(1,2)] by blast
  let ?op = "new_op a 0 Accept_op impl"
  obtain mode k where mode: "(if has_flag (si_state impl) non_blocking then (Inr (si_state impl), ep_sys r)
      else set_internal_non_blocking sys (si_socket impl) (si_state impl) True (ep_sys r)) = (mode, k)" by fastforce
  have start: "do_start_op sys ctl read_op ?op cont True False True (impl, r) = Some (impl', r')"
    using assms(3) by (simp add: async_accept_def do_start_accept_op_def is_open_def socket_construct_def)
  show ?thesis
  proof (cases mode)
    case (Inl ec)
    then have out: "impl' = impl" "r' = on_immediate (?op\<lparr>ro_ec := ec\<rparr>) cont (r\<lparr>ep_sys := k\<rparr>)"
      using start mode by (auto simp: do_start_op_def)
    show ?thesis
    proof (rule that [of "[?op\<lparr>ro_ec := ec\<rparr>]"])
      show "descr_ok impl' r'" using assms(1) by (auto simp: out descr_ok_def on_immediate_def pool_ok_def Let_def)
    qed (use assms(2) p(1) in \<open>simp_all add: out on_immediate_def queued_accepts_def new_op_def Let_def\<close>)
  next
    case (Inr state)
    then have impl': "impl' = impl\<lparr>si_state := state\<rparr>"
      and rs: "reactor_start_op (do_perform sys) ctl read_op (si_socket impl) (Some p) ?op cont True (r\<lparr>ep_sys := k\<rparr>) = Some r'"
      using start mode p(1) by (auto simp: do_start_op_def)
    obtain res d k' where s: "start_on (do_perform sys) ctl read_op (si_socket impl) p ?op True (ep_state r p, k) = Some (res, d, k')"
      "ep_state r' = (ep_state r)(p := d)" "ep_free r' = ep_free r" "ep_fresh r' = ep_fresh r" "ep_posted r' = ep_posted r @ new_posted res"
      using rs by (auto simp: reactor_start_op_def new_posted_def Let_def split: option.splits started.splits)
    have live: "ep_live r' = ep_live r"
      using rs s(1) by (auto simp: reactor_start_op_def on_immediate_def reactor_work_started_def Let_def split: started.splits)
    note t = start_read_tracks [OF s(1)]
    have i: "si_data impl' = Some p" "is_open impl'" using p(1) assms(2) by (simp_all add: impl' is_open_def)
    note u = descr_ok_update [OF assms(1) p(1) assms(2) s(2) live s(3,4) _ _ _ i]
    have "mset (map ro_id (ds_ops d read_op @ new_posted res)) = add_mset a (mset (map ro_id (ds_ops (ep_state r p) read_op)))"
      unfolding t(4) by (simp add: new_op_def)
    then show ?thesis using that [of "new_posted res"] u t p s(5) i by simp
  qed
qed

lemma perform_loop_ids:
  "perform_loop (do_perform sys) ops k = Some (finished, rest, exhausted, k') \<Longrightarrow> map ro_id (finished @ rest) = map ro_id ops"
proof (induction ops arbitrary: k finished)
  case (Cons op ops)
  then obtain st op1 k1 where p: "do_perform sys op k = Some (st, op1, k1)" by (auto split: option.splits)
  have "ro_id op1 = ro_id op" using perform_keeps [OF p] by simp
  then show ?case using Cons p by (fastforce split: if_splits option.splits)
qed simp

lemma accept_performed:
  assumes "descr_ok impl r" and "is_open impl" and "si_data impl = Some p" and "perform_io (do_perform sys) p r = Some (first, r')"
  obtains new where "descr_ok impl r'" and "ep_posted r' = ep_posted r @ new"
    and "mset (map ro_id (queued_accepts impl r' @ new)) = mset (map ro_id (queued_accepts impl r))"
proof -
  have p: "\<not> ds_shutdown (ep_state r p)" "ds_ops (ep_state r p) write_op = []" "ds_ops (ep_state r p) except_op = []"
    "queued_accepts impl r = ds_ops (ep_state r p) read_op" using descr_okE [OF assms(1,2)] assms(3) by auto
  let ?d = "ep_state r p"
  obtain new d k where s: "perform_dirs (do_perform sys) (ds_task_result ?d) [except_op, write_op, read_op] (?d, ep_sys r) = Some (new, d, k)"
    and r': "ep_state r' = (ep_state r)(p := d)" "ep_live r' = ep_live r" "ep_free r' = ep_free r" "ep_fresh r' = ep_fresh r" "ep_posted r' = ep_posted r @ new"
    using assms(4) by (auto simp: perform_io_def perform_io_cleanup_def post_ops_def Let_def split: option.splits list.splits)
  have d: "ds_shutdown d = ds_shutdown ?d" "ds_ops d write_op = []" "ds_ops d except_op = []"
    "map ro_id (new @ ds_ops d read_op) = map ro_id (ds_ops ?d read_op)"
    using s p(2,3) perform_loop_ids [of "ds_ops ?d read_op"]
    by (auto simp: perform_dir_def ds_set_spec_def split: if_splits option.splits)
  note u = descr_ok_update [OF assms(1,3,2) r'(1-4) _ d(2,3) assms(3,2)]
  have "mset (map ro_id (ds_ops d read_op @ new)) = mset (map ro_id (ds_ops ?d read_op))"
    unfolding d(4) [symmetric] by simp
  then show ?thesis using that [of new] u d(1) p(1,4) r'(5) by simp
qed

end


text \<open>
  The server and the reactor agree: the server knows whether the acceptor is open, and its pending accepts are those queued
  at the reactor and those completed whose handlers have not run (\<open>waiting\<close>).
\<close>

definition accepts_ok :: "reactor_op list \<Rightarrow> 'k accepting \<Rightarrow> bool" where
  "accepts_ok waiting = (\<lambda>(s, impl, r). (acceptor_open s \<longleftrightarrow> is_open impl) \<and> descr_ok impl r
     \<and> mset (pending_accepts s) = mset (map ro_id (queued_accepts impl r @ waiting)))"

abbreviation newly_posted :: "'k epoll_reactor \<Rightarrow> 'k epoll_reactor \<Rightarrow> reactor_op list" where
  "newly_posted r r' \<equiv> drop (length (ep_posted r)) (ep_posted r')"

context socket_system
begin

lemma async_accept_returns: "async_accept sys ctl a key cont peer (impl, r) \<noteq> None"
proof -
  obtain mode k where "(if has_flag (si_state impl) non_blocking then (Inr (si_state impl), ep_sys r)
      else set_internal_non_blocking sys (si_socket impl) (si_state impl) True (ep_sys r)) = (mode, k)" by fastforce
  then show ?thesis using reactor_never_hangs [OF socket_system_axioms, THEN conjunct1]
    by (cases mode) (simp_all add: async_accept_def do_start_accept_op_def do_start_op_def)
qed

lemma wait_for_accept_ok:
  assumes "accepts_ok waiting (s, impl, r)" and "wait_for_accept sys ctl cont (s, impl, r) = Some (s', impl', r')"
  shows "accepts_ok (waiting @ newly_posted r r') (s', impl', r') \<and> s' = wait_for_connection s"
proof (cases "is_open impl")
  case False
  then show ?thesis using assms by (auto simp: wait_for_accept_def accepts_ok_def wait_for_connection_def)
next
  case True
  then have "async_accept sys ctl (next_ptr s) 0 cont socket_construct (impl, r) = Some (impl', r')" and s': "s' = wait_for_connection s"
    using assms(2) by (auto simp: wait_for_accept_def)
  then obtain new where n: "descr_ok impl' r'" "is_open impl'" "ep_posted r' = ep_posted r @ new"
    "mset (map ro_id (queued_accepts impl' r' @ new)) = add_mset (next_ptr s) (mset (map ro_id (queued_accepts impl r)))"
    using accept_started [of impl r "next_ptr s" cont impl' r'] assms(1) True by (auto simp: accepts_ok_def)
  have "acceptor_open s" using assms(1) True by (simp add: accepts_ok_def)
  then show ?thesis using n assms(1) s' by (simp add: accepts_ok_def wait_for_connection_def)
qed

lemma toggle_acceptor_ok:
  assumes "accepts_ok waiting (s, impl, r)" and "toggle_acceptor sys ls ctl addr enable (s, impl, r) = Some (res, s', impl', r')"
  shows "accepts_ok (waiting @ newly_posted r r') (s', impl', r')"
    and "case res of Inl e \<Rightarrow> \<not> enable \<and> s' = s\<lparr>acceptor_open := False\<rparr> | Inr st \<Rightarrow> (\<exists>setup. toggle_accepting enable setup s = (st, s'))"
proof -
  have ok: "descr_ok impl r" "acceptor_open s \<longleftrightarrow> is_open impl" using assms(1) by (simp_all add: accepts_ok_def)
  have "accepts_ok (waiting @ newly_posted r r') (s', impl', r')
    \<and> (case res of Inl e \<Rightarrow> \<not> enable \<and> s' = s\<lparr>acceptor_open := False\<rparr> | Inr st \<Rightarrow> (\<exists>setup. toggle_accepting enable setup s = (st, s')))"
  proof (cases enable)
    case False
    obtain x i1 r1 where c: "acceptor_close sys ctl (impl, r) = (x, i1, r1)" by (metis surj_pair)
    then have out: "res = map_sum id (\<lambda>_. tcp_success) x" "s' = s\<lparr>acceptor_open := False\<rparr>" "impl' = i1" "r' = r1"
      using assms(2) False close_frame(1) [OF ok(1) c] by (simp_all add: toggle_acceptor_def)
    have ids: "map ro_id (map aborted xs) = map ro_id xs" for xs by (simp add: aborted_def comp_def)
    have "accepts_ok (waiting @ newly_posted r r') (s', impl', r')"
      using close_frame [OF ok(1) c] assms(1) unfolding accepts_ok_def out by (simp add: ids del: map_map)
    then show ?thesis using out(1,2) False by (cases x) (simp_all add: toggle_accepting_def)
  next
    case True
    show ?thesis
    proof (cases "is_open impl")
      case opened: True
      then have "res = Inr already_accepting" "s' = s" "impl' = impl" "r' = r" using assms(2) True by (simp_all add: toggle_acceptor_def)
      then show ?thesis using assms(1) True opened ok(2) by (simp add: toggle_accepting_def)
    next
      case closed: False
      obtain x i1 r1 where c: "setup_acceptor sys ls ctl addr (impl, r) = (x, i1, r1)" by (metis surj_pair)
      note f = setup_frame [OF ok(1) closed c]
      let ?s = "s\<lparr>acceptor_open := is_open i1\<rparr>"
      have q: "queued_accepts impl r = []" using closed by (simp add: queued_accepts_def)
      have ok1: "accepts_ok waiting (?s, i1, r1)" using assms(1) f q by (simp add: accepts_ok_def)
      show ?thesis
      proof (cases x)
        case (Inl e)
        then have out: "res = Inr fail_to_accept" "s' = ?s" "impl' = i1" "r' = r1"
          using assms(2) True closed c by (auto simp: toggle_acceptor_def)
        have "toggle_accepting True (if is_open i1 then Bind_or_listen_fails else Open_fails) s = (fail_to_accept, s')"
          using ok(2) closed out(2) by (simp add: toggle_accepting_def)
        then show ?thesis using ok1 out f(3) True by auto
      next
        case (Inr u)
        then have out: "res = Inr tcp_success" and w: "wait_for_accept sys ctl False (?s, i1, r1) = Some (s', impl', r')"
          using assms(2) True closed c by (auto simp: toggle_acceptor_def)
        have "is_open i1" using f(4) Inr by simp
        then have "toggle_accepting True Setup_ok s = (tcp_success, s')"
          using ok(2) closed wait_for_accept_ok [OF ok1 w] by (simp add: toggle_accepting_def)
        then show ?thesis using wait_for_accept_ok [OF ok1 w] out f(3) True by auto
      qed
    qed
  qed
  then show "accepts_ok (waiting @ newly_posted r r') (s', impl', r')"
    "case res of Inl e \<Rightarrow> \<not> enable \<and> s' = s\<lparr>acceptor_open := False\<rparr> | Inr st \<Rightarrow> (\<exists>setup. toggle_accepting enable setup s = (st, s'))" by simp_all
qed

end


section \<open>Accepting goes on\<close>

text \<open>
  The steps of the server and the reactor that concern the acceptor: accepting is switched on and, if \<open>may_close\<close>, off; the
  accepts are performed when connections arrive; their handlers run. Everything else leaves the acceptor's
  descriptor and the pending accepts alone.
\<close>

inductive accept_step :: "'k socket_sys \<Rightarrow> 'k listen_sys \<Rightarrow> 'k ctl_fn \<Rightarrow> sockaddr \<Rightarrow>
    (esp_id_t \<Rightarrow> tcp_server_t \<times> 'w \<Rightarrow> (tcp_server_t \<times> 'w) result) \<Rightarrow> bool \<Rightarrow>
    reactor_op list \<times> 'k accepting \<times> 'w \<Rightarrow> reactor_op list \<times> 'k accepting \<times> 'w \<Rightarrow> bool"
  for sys :: "'k socket_sys" and ls :: "'k listen_sys" and ctl :: "'k ctl_fn" and addr :: sockaddr
    and on_conn :: "esp_id_t \<Rightarrow> tcp_server_t \<times> 'w \<Rightarrow> (tcp_server_t \<times> 'w) result" and may_close :: bool where
  toggle: "toggle_acceptor sys ls ctl addr enable (s, impl, r) = Some (res, s', impl', r') \<Longrightarrow> enable \<or> may_close \<Longrightarrow>
    accept_step sys ls ctl addr on_conn may_close (waiting, (s, impl, r), w) (waiting @ newly_posted r r', (s', impl', r'), w)"
| perform: "is_open impl \<Longrightarrow> si_data impl = Some p \<Longrightarrow> perform_io (do_perform sys) p r = Some (first, r') \<Longrightarrow>
    accept_step sys ls ctl addr on_conn may_close (waiting, (s, impl, r), w) (waiting @ newly_posted r r', (s, impl, r'), w)"
| handler: "op \<in> set waiting \<Longrightarrow> accept_handler sys ctl on_conn cont op ((s, impl, r), w) = Some (Inr ((s', impl', r'), w')) \<Longrightarrow>
    accept_step sys ls ctl addr on_conn may_close (waiting, (s, impl, r), w)
      (remove1 op waiting @ newly_posted r r', (s', impl', r'), w')"
| elsewhere: "acceptor_open s' = acceptor_open s \<Longrightarrow> pending_accepts s' = pending_accepts s \<Longrightarrow> descr_ok impl r' \<Longrightarrow>
    queued_accepts impl r' = queued_accepts impl r \<Longrightarrow>
    accept_step sys ls ctl addr on_conn may_close (waiting, (s, impl, r), w) (waiting, (s', impl, r'), w')"

text \<open>What the acceptor relies on of the callback for a new connection: it does not touch the acceptor.\<close>

definition keeps_accepts :: "(esp_id_t \<Rightarrow> tcp_server_t \<times> 'w \<Rightarrow> (tcp_server_t \<times> 'w) result) \<Rightarrow> bool" where
  "keeps_accepts on_conn \<longleftrightarrow> (\<forall>i s w s' w'. on_conn i (s, w) = Inr (s', w') \<longrightarrow>
     acceptor_open s' = acceptor_open s \<and> pending_accepts s' = pending_accepts s \<and> next_ptr s' = next_ptr s)"

lemma accept_done_pending:
  assumes "accept_done on_conn a ec (s, w) = Inr (s', w')" and "a \<in> set (pending_accepts s)"
    and "keeps_accepts on_conn"
  shows "acceptor_open s' = acceptor_open s
    \<and> mset (pending_accepts s') = mset (pending_accepts s) - {#a#} + (if acceptor_open s then {#next_ptr s#} else {#})"
proof -
  obtain c where c: "deref s a = Inr c" using assms(1) by (cases "deref s a") (auto simp: accept_done_def)
  define s1 where "s1 = (if ec then s else put_conn a (open_socket c) s)"
  have s1: "acceptor_open s1 = acceptor_open s" "pending_accepts s1 = pending_accepts s" "next_ptr s1 = next_ptr s"
    by (simp_all add: s1_def put_conn_def)
  obtain s2 w2 where h: "create_new_connection on_conn a ec (s1, w) = Inr (s2, w2)"
    and s': "s' = release a (s2\<lparr>pending_accepts := remove1 a (pending_accepts s2)\<rparr>)"
    using assms(1) c by (auto simp: accept_done_def s1_def rbind_eq_Inr_iff)
  have cb: "acceptor_open s' = acceptor_open s \<and> pending_accepts s' = pending_accepts s \<and> next_ptr s' = next_ptr s"
    if "on_conn i (s, w) = Inr (s', w')" for i s w s' w' using that assms(3) unfolding keeps_accepts_def by blast
  have wait: "acceptor_open (wait_for_connection t) = acceptor_open t"
    "pending_accepts (wait_for_connection t) = pending_accepts t @ (if acceptor_open t then [next_ptr t] else [])" for t
    by (simp_all add: wait_for_connection_def)
  have s2: "acceptor_open s2 = acceptor_open s" "pending_accepts s2 = pending_accepts s @ (if acceptor_open s then [next_ptr s] else [])"
    using h s1 wait
    by (auto simp: create_new_connection_def rbind_eq_Inr_iff put_conn_def Let_def dest!: cb split: if_splits)
  have "remove1 a (xs @ ys) = remove1 a xs @ ys" if "a \<in> set xs" for xs ys using that by (simp add: remove1_append)
  then show ?thesis using s' s2 assms(2) by simp
qed

context socket_system
begin

lemma accept_handler_ok:
  assumes "accepts_ok waiting (s, impl, r)" and "op \<in> set waiting"
    and "accept_handler sys ctl on_conn cont op ((s, impl, r), w) = Some (Inr ((s', impl', r'), w'))"
    and "keeps_accepts on_conn"
  shows "accepts_ok (remove1 op waiting @ newly_posted r r') (s', impl', r')" and "is_open impl' = is_open impl"
proof -
  obtain ec peer r1 where a: "accept_do_assign sys ctl op socket_construct r = (ec, peer, r1)" by (metis surj_pair)
  have ok: "acceptor_open s \<longleftrightarrow> is_open impl" "descr_ok impl r"
    "mset (pending_accepts s) = mset (map ro_id (queued_accepts impl r)) + image_mset ro_id (mset waiting)"
    using assms(1) by (simp_all add: accepts_ok_def)
  note f = assign_frame [OF ok(2) a]
  have d: "accept_done on_conn (ro_id op) (ec \<noteq> No_error) (s, w) = Inr (s', w')"
    using assms(3) a by (auto simp: accept_handler_def split: sum.splits if_splits)
  have "ro_id op \<in># mset (pending_accepts s)" unfolding ok(3) using assms(2) by simp
  then have "ro_id op \<in> set (pending_accepts s)" by simp
  note p = accept_done_pending [OF d this assms(4)]
  have w: "mset (map ro_id (remove1 op waiting)) = image_mset ro_id (mset waiting) - {#ro_id op#}"
    using assms(2) by (simp add: image_mset_Diff)
  have sub: "{#ro_id op#} \<subseteq># image_mset ro_id (mset waiting)" using assms(2) by simp
  have "accepts_ok (remove1 op waiting @ newly_posted r r') (s', impl', r') \<and> is_open impl' = is_open impl"
  proof (cases "is_open impl")
    case False
    then have "impl' = impl" "r' = r1" using assms(3) a d by (auto simp: accept_handler_def)
    moreover have "mset (pending_accepts s') = mset (map ro_id (remove1 op waiting))"
      using p ok(1,3) False unfolding w by (simp add: queued_accepts_def)
    ultimately show ?thesis using False f p ok(1) by (simp add: accepts_ok_def queued_accepts_def)
  next
    case True
    then have "async_accept sys ctl (next_ptr s) 0 cont socket_construct (impl, r1) = Some (impl', r')"
      using assms(3) a d by (auto simp: accept_handler_def)
    then obtain new where n: "descr_ok impl' r'" "is_open impl'" "ep_posted r' = ep_posted r1 @ new"
      "mset (map ro_id (queued_accepts impl' r' @ new)) = add_mset (next_ptr s) (mset (map ro_id (queued_accepts impl r1)))"
      using accept_started [OF f(1) True] by blast
    have "mset (pending_accepts s') = mset (map ro_id (queued_accepts impl' r' @ new)) + (image_mset ro_id (mset waiting) - {#ro_id op#})"
      unfolding n(4) f(2) using p ok(1,3) True sub by simp
    then show ?thesis using True n f(3) p ok(1) w by (simp add: accepts_ok_def ac_simps)
  qed
  then show "accepts_ok (remove1 op waiting @ newly_posted r r') (s', impl', r')" "is_open impl' = is_open impl" by simp_all
qed

lemma accept_perform_ok:
  assumes "accepts_ok waiting (s, impl, r)" and "is_open impl" and "si_data impl = Some p" and "perform_io (do_perform sys) p r = Some (first, r')"
  shows "accepts_ok (waiting @ newly_posted r r') (s, impl, r')"
proof -
  have "descr_ok impl r" using assms(1) by (simp add: accepts_ok_def)
  from accept_performed [OF this assms(2-4)] obtain new where "descr_ok impl r'" "ep_posted r' = ep_posted r @ new"
    "mset (map ro_id (queued_accepts impl r' @ new)) = mset (map ro_id (queued_accepts impl r))" .
  then show ?thesis using assms(1) by (simp add: accepts_ok_def ac_simps)
qed

lemma accept_step_ok:
  assumes "accept_step sys ls ctl addr on_conn may_close (waiting, acc, w) (waiting', acc', w')" and "accepts_ok waiting acc"
    and "keeps_accepts on_conn"
  shows "accepts_ok waiting' acc'"
  using assms(1)
proof (cases rule: accept_step.cases)
  case (toggle enable s impl r res s' impl' r')
  then show ?thesis using toggle_acceptor_ok(1) assms(2) by blast
next
  case (perform impl p r first r' s)
  then show ?thesis using accept_perform_ok assms(2) by blast
next
  case (handler op cont s impl r s' impl' r')
  then show ?thesis using accept_handler_ok(1) [OF _ handler(4,5) assms(3)] assms(2) by blast
next
  case (elsewhere s' s impl r' r)
  then show ?thesis using assms(2) by (simp add: accepts_ok_def)
qed

text \<open>While accepting is not switched off, no step takes the last pending accept of an open acceptor away.\<close>

lemma accept_step_keeps:
  assumes "accept_step sys ls ctl addr on_conn False (waiting, (s, impl, r), w) (waiting', (s', impl', r'), w')"
    and "accepts_ok waiting (s, impl, r)" and "is_open impl" and "pending_accepts s \<noteq> []"
    and "keeps_accepts on_conn"
  shows "is_open impl' \<and> pending_accepts s' \<noteq> []"
  using assms(1)
proof (cases rule: accept_step.cases)
  case (toggle enable res)
  then show ?thesis using assms(3,4) by (simp add: toggle_acceptor_def)
next
  case (handler op cont)
  have ok: "acceptor_open s" using assms(2,3) by (simp add: accepts_ok_def)
  obtain ec peer r1 where a: "accept_do_assign sys ctl op socket_construct r = (ec, peer, r1)" by (metis surj_pair)
  have d: "accept_done on_conn (ro_id op) (ec \<noteq> No_error) (s, w) = Inr (s', w')"
    using handler(3) a by (auto simp: accept_handler_def split: sum.splits if_splits)
  have "ro_id op \<in># mset (pending_accepts s)" using assms(2) handler(2) by (simp add: accepts_ok_def)
  then have "mset (pending_accepts s') \<noteq> {#}" using accept_done_pending [OF d _ assms(5)] ok by simp
  then show ?thesis using accept_handler_ok(2) [OF assms(2) handler(2,3) assms(5)] assms(3) by simp
qed (use assms(3,4) in auto)

lemma toggle_acceptor_returns: "toggle_acceptor sys ls ctl addr enable acc \<noteq> None"
  using async_accept_returns
  by (cases acc) (auto simp: toggle_acceptor_def wait_for_accept_def split: prod.splits sum.splits)

lemma accept_run_ok:
  assumes "(accept_step sys ls ctl addr on_conn may_close)\<^sup>*\<^sup>* x x'" and "accepts_ok (fst x) (fst (snd x))" and "keeps_accepts on_conn"
  shows "accepts_ok (fst x') (fst (snd x'))"
  using assms(1,2)
proof (induction rule: rtranclp_induct)
  case (step y z)
  then show ?case
    using accept_step_ok [of ls addr on_conn may_close "fst y" "fst (snd y)" "snd (snd y)" "fst z" "fst (snd z)" "snd (snd z)"] assms(3) by simp
qed

lemma accept_run_keeps:
  assumes "(accept_step sys ls ctl addr on_conn False)\<^sup>*\<^sup>* (waiting, (s, impl, r), w) (waiting', (s', impl', r'), w')"
    and "accepts_ok waiting (s, impl, r)" and "is_open impl" and "pending_accepts s \<noteq> []" and "keeps_accepts on_conn"
  shows "is_open impl' \<and> pending_accepts s' \<noteq> [] \<and> accepts_ok waiting' (s', impl', r')"
  using assms(1)
proof (induction "(waiting', (s', impl', r'), w')" arbitrary: waiting' s' impl' r' w' rule: rtranclp_induct)
  case base
  then show ?case using assms(2-4) by simp
next
  case (step y)
  obtain waiting1 s1 impl1 r1 w1 where y: "y = (waiting1, (s1, impl1, r1), w1)" by (metis surj_pair)
  have ih: "is_open impl1 \<and> pending_accepts s1 \<noteq> [] \<and> accepts_ok waiting1 (s1, impl1, r1)" using step.hyps(3) [OF y] .
  have st: "accept_step sys ls ctl addr on_conn False (waiting1, (s1, impl1, r1), w1) (waiting', (s', impl', r'), w')"
    using step.hyps(2) y by simp
  show ?case using accept_step_keeps [OF st _ _ _ assms(5)] accept_step_ok [OF st _ assms(5)] ih by blast
qed

end

lemma app_keeps_accepts: "keeps_accepts (app_on_connect native)"
  unfolding keeps_accepts_def
  by (auto simp: app_on_connect_def handshake_on_connect_def send_to_client_def put_conn_def rbind_eq_Inr_iff Let_def
    split: option.splits if_splits)

text \<open>
  C34. Switching accepting on or off through asio does what the model of the server says: the call returns, and its
  status and the server are those of \<open>toggle_accepting\<close> for some outcome of the set-up; only closing can throw, and the
  acceptor is closed then, too. The pending accepts of the server are exactly the operations queued at
  the reactor and those completed whose handlers have not run, each once.
\<close>

theorem toggle_acceptor_refines:
  assumes "socket_system ctl wait can edge watch world sys signals" and "accepts_ok waiting (s, impl, r)"
  shows "\<exists>res s' impl' r'. toggle_acceptor sys ls ctl addr enable (s, impl, r) = Some (res, s', impl', r')
    \<and> accepts_ok (waiting @ newly_posted r r') (s', impl', r')
    \<and> (case res of Inl e \<Rightarrow> \<not> enable \<and> s' = s\<lparr>acceptor_open := False\<rparr> | Inr st \<Rightarrow> (\<exists>setup. toggle_accepting enable setup s = (st, s')))"
proof -
  obtain res s' impl' r' where t: "toggle_acceptor sys ls ctl addr enable (s, impl, r) = Some (res, s', impl', r')"
    using socket_system.toggle_acceptor_returns [OF assms(1), of ls addr enable "(s, impl, r)"] by auto
  show ?thesis using t socket_system.toggle_acceptor_ok [OF assms t] by blast
qed

text \<open>
  C35. The server goes on accepting: once an accept is pending on the open acceptor, and until accepting is switched off,
  there is always an accept queued at the reactor or a completed one whose handler will run, whatever connections
  arrive or fail, whatever the handshake does, and however often accepting is switched on again.
\<close>

theorem server_keeps_accepting:
  assumes "socket_system ctl wait can edge watch world sys signals" and "accepts_ok waiting (s, impl, r)"
    and "is_open impl" and "pending_accepts s \<noteq> []"
    and "(accept_step sys ls ctl addr (app_on_connect native) False)\<^sup>*\<^sup>* (waiting, (s, impl, r), w) (waiting', (s', impl', r'), w')"
  shows "is_open impl' \<and> queued_accepts impl' r' @ waiting' \<noteq> []
    \<and> mset (pending_accepts s') = mset (map ro_id (queued_accepts impl' r' @ waiting'))"
proof -
  have k: "is_open impl' \<and> pending_accepts s' \<noteq> [] \<and> accepts_ok waiting' (s', impl', r')"
    using socket_system.accept_run_keeps [OF assms(1,5,2,3,4) app_keeps_accepts] .
  then have m: "mset (pending_accepts s') = mset (map ro_id (queued_accepts impl' r' @ waiting'))" by (simp add: accepts_ok_def)
  then have "map ro_id (queued_accepts impl' r' @ waiting') \<noteq> []" using k by (metis mset.simps(1) mset_zero_iff)
  then show ?thesis using k m by auto
qed

section \<open>A server that accepts\<close>

definition sample_listen :: "sim listen_sys" where
  "sample_listen = \<lparr>sys_setsockopt = (\<lambda>_ _ _ _ k. (0, k)), sys_bind = (\<lambda>_ _ k. (0, k)), sys_listen = (\<lambda>_ _ k. (0, k)), sys_somaxconn = 4096\<rparr>"

definition sample_endpoint :: sockaddr where
  "sample_endpoint = endpoint_new little_endian AF_INET 8080"

definition closed_server :: "sim accepting" where
  "closed_server = (tcp_server_init, socket_construct, idle_reactor)"

lemma closed_server_ok: "accepts_ok [] closed_server"
  using idle_reactor_ok(1)
  by (simp add: accepts_ok_def closed_server_def tcp_server_init_def descr_ok_def queued_accepts_def is_open_def socket_construct_def)

theorem toggle_acceptor_refines_witness:
  "\<exists>res s' impl' r'. toggle_acceptor sim_sys sample_listen sim_ctl sample_endpoint True closed_server = Some (res, s', impl', r')
    \<and> accepts_ok (newly_posted idle_reactor r') (s', impl', r')
    \<and> (case res of Inl e \<Rightarrow> False | Inr st \<Rightarrow> (\<exists>setup. toggle_accepting True setup tcp_server_init = (st, s')))"
  using toggle_acceptor_refines [OF sim.socket_system_axioms closed_server_ok [unfolded closed_server_def], of sample_listen sample_endpoint True]
  by (simp add: closed_server_def cong: sum.case_cong)

text \<open>Accepting is switched on, and the pending accept is performed.\<close>

definition open_server :: "sim accepting" where
  "open_server = snd (the (toggle_acceptor sim_sys sample_listen sim_ctl sample_endpoint True closed_server))"

definition performed :: "sim epoll_reactor" where
  "performed = snd (the (perform_io (do_perform sim_sys) 0 (snd (snd open_server))))"

lemma setup_example:
  "\<exists>impl r. setup_acceptor sim_sys sample_listen sim_ctl sample_endpoint (socket_construct, idle_reactor) = (Inr (), impl, r)
    \<and> is_open impl \<and> si_data impl = Some 0"
  using registered_reactor_eq
  by (simp add: setup_acceptor_def acceptor_open_call_def do_open_def sim_sys_def is_open_def socket_construct_def invalid_socket_def
    listen_calls_def and_then_def throw_error_def acceptor_set_option_def acceptor_bind_def acceptor_listen_def socket_setsockopt_def
    socket_bind_def socket_listen_def sample_listen_def last_error_def SOL_SOCKET_def SO_REUSEADDR_def custom_socket_option_level_def
    SO_LINGER_def Let_def)


lemma open_server_facts:
  obtains s impl r where "open_server = (s, impl, r)" and "accepts_ok (newly_posted idle_reactor r) (s, impl, r)"
    and "is_open impl" and "pending_accepts s \<noteq> []" and "si_data impl = Some 0"
proof -
  obtain impl r where set: "setup_acceptor sim_sys sample_listen sim_ctl sample_endpoint (socket_construct, idle_reactor) = (Inr (), impl, r)"
    "is_open impl" "si_data impl = Some 0" using setup_example by blast
  let ?s = "tcp_server_init\<lparr>acceptor_open := True\<rparr>"
  obtain impl' r' where acc: "async_accept sim_sys sim_ctl (next_ptr ?s) 0 False socket_construct (impl, r) = Some (impl', r')"
    using sim.async_accept_returns [of "next_ptr ?s" 0 False socket_construct impl r] by auto
  have t: "toggle_acceptor sim_sys sample_listen sim_ctl sample_endpoint True (tcp_server_init, socket_construct, idle_reactor)
      = Some (Inr tcp_success, wait_for_connection ?s, impl', r')"
    using set acc by (simp add: toggle_acceptor_def wait_for_accept_def is_open_def socket_construct_def)
  have "accepts_ok (newly_posted idle_reactor r') (wait_for_connection ?s, impl', r')"
    using sim.toggle_acceptor_ok(1) [OF closed_server_ok [unfolded closed_server_def] t] by simp
  moreover have "is_open impl'" "si_data impl' = Some 0"
    using acc set(2,3)
    by (auto simp: async_accept_def do_start_accept_op_def do_start_op_def is_open_def socket_construct_def Let_def
      split: prod.splits sum.splits if_splits)
  ultimately show ?thesis
    using that [of "wait_for_connection ?s" impl' r'] t by (simp add: open_server_def closed_server_def wait_for_connection_def)
qed

theorem server_keeps_accepting_witness:
  "queued_accepts (fst (snd open_server)) performed @ newly_posted idle_reactor (snd (snd open_server))
    @ newly_posted (snd (snd open_server)) performed \<noteq> []"
proof -
  obtain s impl r where o: "open_server = (s, impl, r)" "accepts_ok (newly_posted idle_reactor r) (s, impl, r)" "is_open impl"
    "pending_accepts s \<noteq> []" "si_data impl = Some 0" by (rule open_server_facts)
  obtain first r1 where "perform_io (do_perform sim_sys) 0 r = Some (first, r1)" using sim.perform_io_returns by blast
  then have "perform_io (do_perform sim_sys) 0 r = Some (first, performed)" unfolding performed_def o(1) by simp
  then have "accept_step sim_sys sample_listen sim_ctl sample_endpoint (app_on_connect little_endian) False
      (newly_posted idle_reactor r, (s, impl, r), snd application_init) (newly_posted idle_reactor r @ newly_posted r performed, (s, impl, performed), snd application_init)"
    by (rule accept_step.perform [OF o(3,5)])
  then have "(accept_step sim_sys sample_listen sim_ctl sample_endpoint (app_on_connect little_endian) False)\<^sup>*\<^sup>*
      (newly_posted idle_reactor r, (s, impl, r), snd application_init) (newly_posted idle_reactor r @ newly_posted r performed, (s, impl, performed), snd application_init)"
    by (rule r_into_rtranclp)
  from server_keeps_accepting [OF sim.socket_system_axioms o(2-4) this] show ?thesis unfolding o(1) by simp
qed

end
