(* ===== verification/Spec2Isabelle.thy ===== *)
theory Spec2Isabelle
  imports Host_Application Rail_Network Client_Nfc Client_Motor Client_App Client_Tasks Asio_Transfer Asio_Acceptor
begin

text \<open>
  Verification of the train dashboard: a host that keeps the status of model trains and serves it over HTTP, the
  firmware of the trains, and the message protocol between them.

  \<^bold>\<open>The program.\<close> The host (\<open>src/host\<close>) accepts TCP connections of trains, greets each with an id, expects an answer
  within a time, sends heartbeats, stores what the trains report, and lets HTTP clients read the status and send motor
  commands and destinations. It also has a store of rails and a path finder over it. A train (\<open>src/client\<close>, an
  ESP32) joins a network or is given credentials by a phone, connects to the host, and runs tasks for the
  connection, the motor, the tag reader under the train, the train controller and the battery, which communicate
  through mailboxes and a queue. Both sides share the messages, their serialiser and the registry that maps a
  packet id to a type and a callback (\<open>src/common\<close>). The host runs on asio (\<open>src/vendors/asio-1.36.0\<close>).

  \<^bold>\<open>The theories.\<close> Each follows one part of the source; definitions keep its names.

  \<^item> \<open>Prelude\<close>: machine types, outcomes, bytes of objects, lists.
  \<^item> \<open>Serialise\<close> (\<open>common/core/serialise.hpp\<close>), \<open>Messages\<close> (\<open>common/api/types.hpp\<close>, \<open>common/messages\<close>; the contract of a
    message type is the locale \<open>packet_type\<close>, interpreted on all eight messages), \<open>Packet_Registry\<close>
    (\<open>common/core/packet_registry.hpp\<close>; the locale \<open>message_framing\<close> is what reader and writer rely on).
  \<^item> \<open>Rail_Storage\<close>, \<open>Rail_Pathing\<close>, \<open>Rail_Network\<close> (\<open>host/rail_network\<close>): the invariant of the store, the breadth-first
    search over the locale \<open>successor_graph\<close> and that it finds shortest paths, and a refinement of lists of ids per track.
  \<^item> \<open>Train_Storage\<close> (\<open>host/trains\<close>), \<open>Host_Io_State\<close> (\<open>tcp_io_state\<close>: reader and writer of a connection), \<open>Host_Server\<close>
    (\<open>tcp_connection\<close>, \<open>tcp_server\<close>; the locales \<open>connection_loop\<close> and \<open>server_callbacks\<close>), \<open>Host_Protocol\<close>
    (\<open>host/protocol\<close>), \<open>Host_Http\<close> (\<open>networking/http\<close>), \<open>Host_Application\<close> (\<open>application\<close>: a step relation of the
    whole host and its invariant).
  \<^item> \<open>Client_Tcp\<close>, \<open>Client_Tasks\<close> (\<open>client/main/tcp\<close>), \<open>Client_Nfc\<close>, \<open>Client_Motor\<close>, \<open>Client_Rtos\<close> (\<open>rtos\<close>; FreeRTOS queues as
    the locales \<open>freertos_queue\<close> and \<open>freertos_event_group\<close>), \<open>Client_Train\<close> (a refinement of an abstract train in
    every interleaving of the tasks), \<open>Client_Battery\<close>, \<open>Client_Wifi\<close>, \<open>Client_Provisioning\<close>, \<open>Client_App\<close>.
  \<^item> The part of asio the host stands on: \<open>Asio_Transfer\<close> (composed reads and writes), \<open>Asio_Timer\<close> and
    \<open>Asio_Timer_Queue\<close> (\<open>detail/timer_queue.hpp\<close>: heap and linked list against a map of waits, locale
    \<open>timer_agenda\<close>), \<open>Asio_Scheduler\<close> (\<open>detail/op_queue.hpp\<close>, \<open>detail/impl/scheduler.ipp\<close>, locale \<open>op_fifo\<close>),
    \<open>Asio_Timer_Service\<close> (\<open>detail/deadline_timer_service.hpp\<close> and the timer part of the reactor), \<open>Asio_Reactor\<close>
    (\<open>detail/impl/epoll_reactor.ipp\<close>), \<open>Asio_Readiness\<close> (no event is lost; locales \<open>epoll\<close> and \<open>edge_triggered\<close>),
    \<open>Asio_Socket\<close> (\<open>detail/impl/socket_ops.ipp\<close>, the operations on sockets and their service; locale \<open>socket_system\<close>),
    \<open>Asio_Loop\<close> (scheduler, reactor, timers and operations together as a step relation of the loop, which refines the reactor's),
    \<open>Asio_Acceptor\<close> (\<open>basic_socket_acceptor.hpp\<close> and endpoints under \<open>tcp_server.cpp\<close>: the accepts of the server are
    operations of the reactor).
  \<^item> This theory joins both sides: a message of the host reaches the train whole and in order, and a report of a train reaches
    the storage of the host.

  \<^bold>\<open>Modelling.\<close> State is a record that an operation takes and returns; an operation that can fail returns
  \<open>error + value\<close>, with traps, aborts, exceptions, undefined indexing and use after free as errors. Integers that
  can wrap are words; a \<open>float\<close> is its representation, and its arithmetic a parameter. Objects owned by pointers live in a
  map from addresses. Callbacks that run inside an operation are parameters of it. Concurrency is a step relation, or a
  list of steps, in which tasks, handlers and the outside act in any order; the theorems hold for all of them.

  \<^bold>\<open>What runs for ever.\<close> The answers of sockets, queues, clocks and the operating system are lists of events or functions on a state
  of the outside. A function that waits for more answers than the list holds is \<open>None\<close>, which is read as still
  waiting; the motor keeps its state in that case too (\<open>Pending\<close>), as it does when the program is aborted; a loop without a
  bound of its own is a partial function, with \<open>None\<close> for divergence. Where a theorem says that
  something completes, the length of the list that is enough is one of its hypotheses: one answer for each byte to be
  transferred and one more for a composed read, the start of the station and one disconnection more than retries for
  joining the network, the last tick of the ramp for the motor. The loops over timers, operations and rails are proved to end.

  \<^bold>\<open>Results.\<close> The lemmas of a theory first establish the invariant of its state and that operations keep
  it, then what each operation does. The theorems marked C1 to C40 are the main results: the round trips of serialiser,
  registry and tags; the shortest paths and the refinement of the rail store; the order and completeness of the messages on a
  connection; the safety of the host in every reachable state, up to the two faults that are stated as theorems
  (a handler that runs on a destroyed connection, a packet that ends the process); the contracts of the endpoints; the
  behaviour of motor, controller and tasks of the train; provisioning, whose runs are safe but for the one race that is
  part of the statement (a request handled while the server is being stopped); and the guarantees of asio the host relies on.

  \<^bold>\<open>Not modelled.\<close> Logging (only the effect of a failed assertion), the \<open>main\<close> functions, the report of stack sizes, the unit tests
  and the script that announces the services. ESP-IDF, FreeRTOS, lwIP, cJSON, the HTTP and JSON libraries of the host and the
  operating system are not part of the sources and are parameters. Of asio: buffer sequences of several buffers,
  datagrams, connecting, most socket options, name resolution, executors, coroutines, cancellation slots, signal sets, files,
  pipes, TLS, and the other reactors are not used by the host or only pass arguments on; several threads in \<open>run\<close>, exceptions
  thrown by handlers, and the mutexes and condition variables below the scheduler are left out. Data races are
  outside of the models: every function runs atomically, or is split into steps where the source unlocks or waits.
\<close>

section \<open>Between the host and the trains\<close>

text \<open>The callbacks the host registers.\<close>

lemma host_registry_ok: "registry_ok (m_registry (fst application_init))"
  by (simp add: application_init_def register_callbacks_def server_register_callback_def tcp_server_init_def
    registry_ok_register registry_ok_init)

lemma host_registered:
  "registered (m_registry (fst application_init)) t \<longleftrightarrow>
     t = K_esp_init_response \<or> t = K_motor_status \<or> t = K_rail_location \<or> t = K_battery_status"
  by (auto simp: application_init_def register_callbacks_def server_register_callback_def tcp_server_init_def
    registry_ok_register registry_ok_init)

lemma event_registered: "registered (m_registry (fst application_init)) (kind_of (event_packet ev))"
  by (cases ev) (simp_all add: host_registered)

text \<open>Two completed reads of a connection take one frame off the stream and dispatch its message.\<close>

lemma read_frame:
  assumes "registry_ok reg" and "registered reg (kind_of p)" and "has_registry c"
    and "length (rs_payload (m_read_state c)) = 13"
  obtains c1 c2 where "complete native reg Async_read_id (Some (take 2 (frame native p))) c = Inr ([], c1)"
    and "complete native reg (Async_read_payload (length (frame native p) - 2) 2) (Some (drop 2 (frame native p))) c1
      = Inr ([Dispatched p], c2)"
proof -
  let ?h = "take 2 (frame native p)" and ?n = "length (frame native p) - 2"
  let ?c1 = "start_op (Async_read_payload ?n 2) (store_id native ?h (finish_op Async_read_id c))"
  have h: "length ?h = 2" using framing.header [of native p] by simp
  have "expected_payload_size reg (of_object_bytes native ?h) = Some ?n"
    using framing.expected_frame [OF assms(1,2), of native] .
  then have "complete native reg Async_read_id (Some ?h) c = Inr ([], ?c1)"
    using assms(3,4) h payload_size_le [of "kind_of p"] framing.header [of native p]
    by (simp add: read_payload_def has_or_handle_io_error_def store_id_def)
  moreover
  let ?st = "store_payload (drop 2 (frame native p)) (finish_op (Async_read_payload ?n 2) ?c1)"
  have "dispatch native reg (rs_id (m_read_state ?st)) (rs_payload (m_read_state ?st)) (?n + 2) = Inr (Some p)"
    using framing.deliver_overwritten [OF assms(1,2,4), of native] by (simp add: store_payload_def store_id_def add.commute)
  moreover have "has_registry ?st" using assms(3) by (simp add: store_payload_def store_id_def)
  ultimately have "complete native reg (Async_read_payload ?n 2) (Some (drop 2 (frame native p))) ?c1
      = Inr ([Dispatched p], read_id (?st\<lparr>m_io_read_state := io_idle\<rparr>))"
    by (simp add: on_payload_def has_or_handle_io_error_def)
  with \<open>complete native reg Async_read_id (Some ?h) c = Inr ([], ?c1)\<close> that show ?thesis by blast
qed

text \<open>
  C20. A message of the host reaches the train it is addressed to: when \<open>send_to_client\<close> is called for
  a connected client, the bytes then queued for its connection, received by the client in pieces of
  any size, make the listen task perform the calls for the messages queued before and then
  those for this message.
\<close>

theorem host_message_reaches_client:
  assumes "server_ok s" and "m_connections s i = Some a" and "heap s a = Some c" and "sock_open (m_socket c)"
    and "map wr_frame (m_write_state_queue c) = map (frame native) ps"
    and "\<forall>q \<in> set (ps @ [p]). host_message q" and "has_bus h" and "delivers evs"
    and "length (frames native (ps @ [p])) \<le> length evs"
  shows "\<exists>s' c'. send_to_client native i p s = Inr (tcp_success, s') \<and> server_ok s' \<and> heap s' a = Some c'
    \<and> listen_task_run native client_registry h (concat (map wr_frame (m_write_state_queue c'))) evs =
        Inr (concat (map (handled client_registry h) ps) @ handled client_registry h p, None)"
proof -
  obtain s' c' where s': "send_to_client native i p s = Inr (tcp_success, s')" "server_ok s'" "heap s' a = Some c'"
    "map wr_frame (m_write_state_queue c') = map wr_frame (m_write_state_queue c) @ [frame native p]"
    using send_to_client_spec [OF assms(1), of native i p] assms(2-4) by auto
  then have "concat (map wr_frame (m_write_state_queue c')) = frames native (ps @ [p])"
    using assms(5) by (simp add: frames_def)
  with listen_task_run_frames [OF assms(7,6,8,9)] s' show ?thesis by simp
qed

lemma sample_conn_fields:
  "m_write_state_queue sample_conn = []" "has_registry sample_conn" "length (rs_payload (m_read_state sample_conn)) = 13"
  by (simp_all add: sample_conn_def start_receiving_def read_id_def set_spec_def
    open_socket_def tcp_connection_create_def tcp_io_state_init_def start_op_def)

theorem host_message_reaches_client_witness:
  "\<exists>s' c'. send_to_client little_endian 5 (P_rail_destination \<lparr>rd_id = 7\<rparr>) sample_server = Inr (tcp_success, s')
    \<and> server_ok s' \<and> heap s' 0 = Some c'
    \<and> listen_task_run little_endian client_registry (handler_init True) (concat (map wr_frame (m_write_state_queue c')))
          (replicate 20 (Deliver 3)) = Inr ([Station_target 7], None)"
  using host_message_reaches_client [OF sample_server_ok, of 5 0 sample_conn little_endian "[]" "P_rail_destination \<lparr>rd_id = 7\<rparr>"
    "handler_init True" "replicate 20 (Deliver 3)"]
  by (simp add: sample_server_simps sample_conn_fields host_message_def handler_init_def delivers_def list_all_iff
    packet_size_def handled_def on_station_add_def handle_error_def)

text \<open>A report sent by a train, read by the host in two reads, calls the callback registered for it.\<close>

lemma report_dispatched:
  assumes "event_send_to_client native ev evs = Inr (Some (cs_success, bytes, evs'))"
    and "m_registry s = m_registry (fst application_init)" and "heap s a = Some c" and "has_registry c"
    and "length (rs_payload (m_read_state c)) = 13"
  shows "bytes = frame native (event_packet ev)
    \<and> (\<exists>s' w'. rbind (op_done native app_on_packet app_on_disconnect a Async_read_id (Some (take 2 bytes)) (s, w))
        (op_done native app_on_packet app_on_disconnect a (Async_read_payload (length bytes - 2) 2) (Some (drop 2 bytes)))
      = Inr (s', w')
    \<and> app_on_packet (event_packet ev) (s, w) = Inr (s, w'))"
proof -
  let ?p = "event_packet ev"
  have bytes: "bytes = frame native ?p"
    using assms(1) send_loop_prefix by (fastforce simp: event_send_to_client_def send_to_server_eq)
  obtain c1 c2 where c12:
    "complete native (m_registry s) Async_read_id (Some (take 2 (frame native ?p))) c = Inr ([], c1)"
    "complete native (m_registry s) (Async_read_payload (length (frame native ?p) - 2) 2) (Some (drop 2 (frame native ?p))) c1
      = Inr ([Dispatched ?p], c2)"
    using read_frame [OF host_registry_ok event_registered assms(4,5), of native] assms(2) by metis
  obtain w' where "app_on_packet ?p (t, w) = Inr (t, w')" for t by (cases ev) auto
  with c12 assms(3) bytes show ?thesis by (auto simp: op_done_def deref_def)
qed

text \<open>A composed read into a buffer of its own takes the next bytes off the stream.\<close>

definition own_buffer :: "nat \<Rightarrow> buffer_t" where
  "own_buffer n = \<lparr>buf_data = 0, buf_size = n\<rparr>"

definition transfers :: "some_event list \<Rightarrow> bool" where
  "transfers evs \<longleftrightarrow> list_all (\<lambda>e. \<exists>k. e = Transferred k False) evs"

lemma async_read_takes:
  assumes "0 < n" and "n \<le> length inp" and "transfers evs" and "n < length evs"
  shows "async_read transfer_all (own_buffer n) (replicate n 0) inp evs = Some (No_error, n, take n inp, drop n inp)"
proof -
  let ?b = "own_buffer n" and ?m = "replicate n 0 :: byte list"
  have r: "reading ?b ?m inp 0 ?m inp" using assms(1) by (simp add: reading_def own_buffer_def)
  have "\<exists>mem' inp'. read_loop transfer_all (pending ?b 0) ?m inp evs = Some (No_error, n, mem', inp')"
    using read_loop_completes [OF r, of evs] assms by (simp add: own_buffer_def transfers_def)
  then obtain mem' inp' where out: "read_loop transfer_all (pending ?b 0) ?m inp evs = Some (No_error, n, mem', inp')"
    by blast
  have "\<forall>e. Failed e \<in> set evs \<longrightarrow> e \<noteq> No_error" using assms(3) by (auto simp: transfers_def list_all_iff)
  from read_loop_spec [OF r this out] assms(1,2) out show ?thesis
    by (auto simp: async_read_start own_buffer_def overwrite_def)
qed

text \<open>
  C21. A report of a train reaches the storage of the host: the bytes a successful
  \<open>send_to_client\<close> of a queued event puts on the connection are read by the host with a composed read of the id and one of
  the payload, in pieces of any size, and leave what follows on the stream; they call the callback the application has registered for
  the message, which updates the entry of the train or ends its handshake; nothing faults on the way.
\<close>

theorem client_report_reaches_host:
  assumes "event_send_to_client native ev evs = Inr (Some (cs_success, bytes, evs'))"
    and "m_registry s = m_registry (fst application_init)" and "heap s a = Some c" and "has_registry c"
    and "length (rs_payload (m_read_state c)) = 13"
    and "transfers evs1" and "2 < length evs1" and "transfers evs2" and "13 < length evs2"
  shows "\<exists>id_bytes rx1 payload s' w'.
      async_read transfer_all (own_buffer 2) [0, 0] (bytes @ rest) evs1 = Some (No_error, 2, id_bytes, rx1)
    \<and> async_read transfer_all (own_buffer (length bytes - 2)) (replicate (length bytes - 2) 0) rx1 evs2
        = Some (No_error, length bytes - 2, payload, rest)
    \<and> rbind (op_done native app_on_packet app_on_disconnect a Async_read_id (Some id_bytes) (s, w))
        (op_done native app_on_packet app_on_disconnect a (Async_read_payload (length bytes - 2) 2) (Some payload)) = Inr (s', w')
    \<and> app_on_packet (event_packet ev) (s, w) = Inr (s, w')"
proof -
  have bytes: "bytes = frame native (event_packet ev)" using report_dispatched [OF assms(1-5)] by blast
  have len: "2 < length bytes" "length bytes \<le> 13"
    using bytes payload_size_le [of "kind_of (event_packet ev)"] by (cases ev; simp add: packet_size_def)+
  have r1: "async_read transfer_all (own_buffer 2) [0, 0] (bytes @ rest) evs1 = Some (No_error, 2, take 2 bytes, drop 2 bytes @ rest)"
    using async_read_takes [of 2 "bytes @ rest" evs1] assms(6,7) len by (simp add: numeral_2_eq_2)
  have r2: "async_read transfer_all (own_buffer (length bytes - 2)) (replicate (length bytes - 2) 0) (drop 2 bytes @ rest) evs2
      = Some (No_error, length bytes - 2, drop 2 bytes, rest)"
    using async_read_takes [of "length bytes - 2" "drop 2 bytes @ rest" evs2] assms(8,9) len by simp
  from report_dispatched [OF assms(1-5), of w] r1 r2 show ?thesis by blast
qed

theorem client_report_reaches_host_witness:
  "let ev = Ev_battery_status \<lparr>bs_id = 5, bs_percentage_level = 0x42C80000\<rparr>;
       s = (fst application_init)\<lparr>heap := [0 \<mapsto> sample_conn]\<rparr>;
       bytes = frame little_endian (event_packet ev)
   in \<exists>id_bytes rx1 payload s' w'.
      async_read transfer_all (own_buffer 2) [0, 0] (bytes @ [1, 2]) (replicate 3 (Transferred 0 False)) = Some (No_error, 2, id_bytes, rx1)
    \<and> async_read transfer_all (own_buffer (length bytes - 2)) (replicate (length bytes - 2) 0) rx1 (replicate 14 (Transferred 4 False))
        = Some (No_error, length bytes - 2, payload, [1, 2])
    \<and> rbind (op_done little_endian app_on_packet app_on_disconnect 0 Async_read_id (Some id_bytes) (s, snd application_init))
        (op_done little_endian app_on_packet app_on_disconnect 0 (Async_read_payload (length bytes - 2) 2) (Some payload)) = Inr (s', w')
    \<and> app_on_packet (event_packet ev) (s, snd application_init) = Inr (s, w')"
proof -
  let ?ev = "Ev_battery_status \<lparr>bs_id = 5, bs_percentage_level = 0x42C80000\<rparr>"
  obtain evs' where "event_send_to_client little_endian ?ev (replicate 20 (Accept 2))
      = Inr (Some (cs_success, frame little_endian (event_packet ?ev), evs'))"
    using send_loop_accepts [of "replicate 20 (Accept 2)" "frame little_endian (event_packet ?ev)" "[]"]
    by (auto simp: event_send_to_client_def send_to_server_eq list_all_iff packet_size_def)
  from client_report_reaches_host [OF this, of "(fst application_init)\<lparr>heap := [0 \<mapsto> sample_conn]\<rparr>" 0 sample_conn
    "replicate 3 (Transferred 0 False)" "replicate 14 (Transferred 4 False)" "[1, 2]" "snd application_init"] sample_conn_fields
  show ?thesis by (simp add: transfers_def list_all_iff)
qed

end
